(* ===== verification/Prelude.thy ===== *)
theory Prelude
  imports Main "HOL-Library.Word" "HOL-Library.AList"
begin

text \<open>
  Shared vocabulary of the development: the machine-integer types of the Rust
  sources, little-endian byte encodings, saturating arithmetic, results with
  errors as values, and the list and map lemmas the components share.  Two
  interface locales live here because several components implement them: a
  header codec with a fixed length, and an invariant kept by every step of a
  transition function.
\<close>

unbundle bit_operations_syntax

named_theorems le_simps \<open>evaluation of little-endian encodings\<close>
named_theorems inv_intros \<open>preservation of component invariants\<close>


section \<open>Machine integers\<close>

type_synonym u8 = "8 word"
type_synonym u16 = "16 word"
type_synonym u32 = "32 word"
type_synonym u64 = "64 word"
type_synonym bytes = "8 word list"

text \<open>Rust's \<open>as u32\<close> on a length, and \<open>as usize\<close> on a word.\<close>

abbreviation u32_of_nat :: "nat \<Rightarrow> u32" where
  "u32_of_nat n \<equiv> word_of_nat n"

definition u64_max :: nat where
  "u64_max = 18446744073709551615"

text \<open>\<open>saturating_add\<close> on 64-bit unsigned values kept as naturals.\<close>

definition sat_add64 :: "nat \<Rightarrow> nat \<Rightarrow> nat" where
  "sat_add64 a b = (if a + b > u64_max then u64_max else a + b)"

lemma sat_add64_le [simp]: "sat_add64 a b \<le> u64_max"
  by (simp add: sat_add64_def)

lemma sat_add64_exact: "a + b \<le> u64_max \<Longrightarrow> sat_add64 a b = a + b"
  by (simp add: sat_add64_def)

lemma sat_add64_le_sum: "sat_add64 a b \<le> a + b"
  by (simp add: sat_add64_def)


section \<open>Little-endian byte strings\<close>

text \<open>\<open>to_le_bytes\<close> and \<open>from_le_bytes\<close> of the unsigned integers, for any
  number of bytes.\<close>

fun le_bytes :: "nat \<Rightarrow> 'a::len word \<Rightarrow> bytes" where
  "le_bytes 0 w = []"
| "le_bytes (Suc n) w = ucast w # le_bytes n (drop_bit 8 w)"

fun of_le :: "bytes \<Rightarrow> 'a::len word" where
  "of_le [] = 0"
| "of_le (b # bs) = ucast b OR push_bit 8 (of_le bs)"

lemma length_le_bytes [simp]: "length (le_bytes n w) = n"
  by (induction n arbitrary: w) auto

lemma le_bytes_step:
  fixes w :: "'a::len word"
  shows "(ucast (ucast w :: u8) :: 'a word) OR push_bit 8 (take_bit n (drop_bit 8 w)) = take_bit (8 + n) w"
  by (rule bit_word_eqI) (auto simp: bit_simps)

lemma of_le_le_bytes_take: "of_le (le_bytes n w) = take_bit (8 * n) w"
proof (induction n arbitrary: w)
  case (Suc n)
  then show ?case using le_bytes_step [of w "8 * n"] by (simp add: add.commute)
qed simp

lemma of_le_le_bytes:
  fixes w :: "'a::len word"
  assumes "LENGTH('a) \<le> 8 * n"
  shows "of_le (le_bytes n w) = w"
  using assms by (simp add: of_le_le_bytes_take take_bit_word_eq_self)

lemma le_bytes_u32_list:
  obtains a b c d where "le_bytes 4 (w :: u32) = [a, b, c, d]" "of_le [a, b, c, d] = w"
proof -
  have "length (le_bytes 4 w) = 4" by simp
  then obtain a b c d where l: "le_bytes 4 w = [a, b, c, d]"
    by (auto simp: numeral_eq_Suc length_Suc_conv simp del: le_bytes.simps length_le_bytes)
  moreover have "of_le (le_bytes 4 w) = w" by (rule of_le_le_bytes) simp
  ultimately show thesis using that by metis
qed

lemma le_bytes_u64_list:
  obtains a b c d e f g h where
    "le_bytes 8 (w :: u64) = [a, b, c, d, e, f, g, h]" "of_le [a, b, c, d, e, f, g, h] = w"
proof -
  have "length (le_bytes 8 w) = 8" by simp
  then obtain a b c d e f g h where l: "le_bytes 8 w = [a, b, c, d, e, f, g, h]"
    by (auto simp: numeral_eq_Suc length_Suc_conv simp del: le_bytes.simps length_le_bytes)
  moreover have "of_le (le_bytes 8 w) = w" by (rule of_le_le_bytes) simp
  ultimately show thesis using that by metis
qed

lemma le_bytes_u32 [le_simps]: "of_le (le_bytes 4 (w :: u32)) = w"
  by (rule of_le_le_bytes) simp

lemma le_bytes_u64 [le_simps]: "of_le (le_bytes 8 (w :: u64)) = w"
  by (rule of_le_le_bytes) simp

lemma of_le_unstep:
  fixes v :: "'a::len word"
  assumes "8 \<le> LENGTH('a)"
  shows "ucast (ucast (b :: u8) OR push_bit 8 v) = b"
  using assms by (intro bit_word_eqI) (auto simp: bit_simps)

lemma of_le_bits_bound: "bit (of_le bs :: 'a::len word) i \<Longrightarrow> i < 8 * length bs"
proof (induction bs arbitrary: i)
  case (Cons b bs)
  show ?case
  proof (cases "i < 8")
    case False
    then have "bit (of_le bs :: 'a word) (i - 8)"
      using Cons.prems by (auto simp: bit_simps dest: bit_imp_le_length)
    then show ?thesis using Cons.IH [of "i - 8"] by simp
  qed simp
qed simp

lemma of_le_drop:
  assumes "8 + 8 * length bs \<le> LENGTH('a::len)"
  shows "drop_bit 8 (ucast (b :: u8) OR push_bit 8 (of_le bs :: 'a word)) = of_le bs"
proof (rule bit_word_eqI)
  fix i assume "i < LENGTH('a)"
  have "bit (of_le bs :: 'a word) i \<Longrightarrow> 8 + i < LENGTH('a)"
    using of_le_bits_bound [of bs i] assms by (metis add_less_cancel_left less_le_trans)
  then show "bit (drop_bit 8 (ucast b OR push_bit 8 (of_le bs :: 'a word))) i = bit (of_le bs :: 'a word) i"
    by (auto simp: bit_simps dest: bit_imp_le_length)
qed

lemma le_bytes_of_le:
  assumes "8 * length bs \<le> LENGTH('a::len)"
  shows "le_bytes (length bs) (of_le bs :: 'a word) = bs"
  using assms
proof (induction bs)
  case (Cons b bs)
  then show ?case
    using of_le_drop [where ?'a = 'a, of bs b] of_le_unstep [where ?'a = 'a, of b "of_le bs"] by simp
qed simp

lemma le_bytes_of_le_u32: "length bs = 4 \<Longrightarrow> le_bytes 4 (of_le bs :: u32) = bs"
  using le_bytes_of_le [where ?'a = 32, of bs] by simp

lemma le_bytes_of_le_u64: "length bs = 8 \<Longrightarrow> le_bytes 8 (of_le bs :: u64) = bs"
  using le_bytes_of_le [where ?'a = 64, of bs] by simp


section \<open>Slices\<close>

text \<open>Rust's \<open>&buf[a..b]\<close>, for \<open>a \<le> b \<le> buf.len()\<close>.\<close>

definition bslice :: "nat \<Rightarrow> nat \<Rightarrow> 'a list \<Rightarrow> 'a list" where
  "bslice a b xs = take (b - a) (drop a xs)"

lemma length_bslice: "b \<le> length xs \<Longrightarrow> length (bslice a b xs) = b - a"
  by (simp add: bslice_def)

lemma bslice_append_left: "b \<le> length xs \<Longrightarrow> bslice a b (xs @ ys) = bslice a b xs"
  by (simp add: bslice_def)

lemma bslice_append_exact: "bslice (length xs) (length xs + length ys) (xs @ ys @ zs) = ys"
  by (simp add: bslice_def)

lemma bslice_take: "b \<le> n \<Longrightarrow> n \<le> length xs \<Longrightarrow> bslice a b (take n xs @ ys) = bslice a b xs"
  by (auto simp: bslice_def drop_take min_def)

lemma bslice_full: "bslice 0 (length xs) xs = xs"
  by (simp add: bslice_def)

lemma bslice_glue: "a \<le> b \<Longrightarrow> b \<le> c \<Longrightarrow> bslice a b xs @ bslice b c xs = bslice a c xs"
  using take_add [of "b - a" "c - b" "drop a xs"] by (simp add: bslice_def)


section \<open>Results\<close>

text \<open>\<open>Result<T, E>\<close> is \<open>'e + 'a\<close>: \<open>Inl\<close> the error, \<open>Inr\<close> the value.\<close>

definition is_ok :: "'e + 'a \<Rightarrow> bool" where
  "is_ok r = (case r of Inl _ \<Rightarrow> False | Inr _ \<Rightarrow> True)"

lemma is_ok_simps [simp]: "is_ok (Inl e) = False" "is_ok (Inr a) = True"
  by (simp_all add: is_ok_def)

definition bind_res :: "'e + 'a \<Rightarrow> ('a \<Rightarrow> 'e + 'b) \<Rightarrow> 'e + 'b" where
  "bind_res r f = (case r of Inl e \<Rightarrow> Inl e | Inr a \<Rightarrow> f a)"

lemma bind_res_simps [simp]: "bind_res (Inl e) f = Inl e" "bind_res (Inr a) f = f a"
  by (simp_all add: bind_res_def)

lemma bind_res_ok: "bind_res r f = Inr b \<longleftrightarrow> (\<exists>a. r = Inr a \<and> f a = Inr b)"
  by (cases r) auto


section \<open>Interfaces shared by several components\<close>

text \<open>A header codec: a fixed-length encoding whose decoder reads back what was
  encoded, whatever bytes follow, and refuses a buffer shorter than the header.\<close>

locale header_codec =
  fixes enc :: "'h \<Rightarrow> bytes"
    and dec :: "bytes \<Rightarrow> 'e + 'h"
    and hlen :: nat
  assumes enc_length: "length (enc h) = hlen"
    and dec_enc: "dec (enc h @ rest) = Inr h"
    and dec_short: "length buf < hlen \<Longrightarrow> \<not> is_ok (dec buf)"
begin

lemma dec_enc_exact: "dec (enc h) = Inr h"
  using dec_enc [of h "[]"] by simp

lemma enc_inj: "enc h = enc h' \<longleftrightarrow> h = h'"
  by (metis dec_enc_exact sum.inject(2))

lemma enc_prefix_free: "enc h @ xs = enc h' @ ys \<longleftrightarrow> h = h' \<and> xs = ys"
  by (metis dec_enc enc_length append_eq_append_conv sum.inject(2))

lemma dec_ok_length: "dec buf = Inr h \<Longrightarrow> hlen \<le> length buf"
  using dec_short [of buf] by (metis is_ok_simps(2) not_le)

end

text \<open>Messages made of such a header and a payload whose length the header
  declares: the receiver refuses a truncated message and one with trailing
  bytes, each with its own error.\<close>

locale framed_codec = header_codec enc dec hlen
  for enc :: "'h \<Rightarrow> bytes" and dec :: "bytes \<Rightarrow> 'e + 'h" and hlen :: nat +
  fixes plen :: "'h \<Rightarrow> nat"
    and too_short :: "nat \<Rightarrow> 'e"
    and mismatch :: "nat \<Rightarrow> nat \<Rightarrow> 'e"
    and unframe :: "bytes \<Rightarrow> 'e + ('h \<times> bytes)"
  assumes unframe_err: "dec buf = Inl e \<Longrightarrow> unframe buf = Inl e"
    and unframe_short: "dec buf = Inr h \<Longrightarrow> length buf < hlen + plen h \<Longrightarrow>
          unframe buf = Inl (too_short (length buf))"
    and unframe_long: "dec buf = Inr h \<Longrightarrow> hlen + plen h < length buf \<Longrightarrow>
          unframe buf = Inl (mismatch (plen h) (length buf - hlen))"
    and unframe_exact: "dec buf = Inr h \<Longrightarrow> length buf = hlen + plen h \<Longrightarrow>
          unframe buf = Inr (h, drop hlen buf)"
begin

lemma unframe_roundtrip: "plen h = length p \<Longrightarrow> unframe (enc h @ p) = Inr (h, p)"
  by (simp add: unframe_exact [OF dec_enc] enc_length)

lemma unframe_truncated:
  "plen h = length p \<Longrightarrow> k < length p \<Longrightarrow> unframe (enc h @ take k p) = Inl (too_short (hlen + k))"
  by (simp add: unframe_short [OF dec_enc] enc_length)

lemma unframe_trailing:
  "plen h = length p \<Longrightarrow> xs \<noteq> [] \<Longrightarrow>
   unframe (enc h @ p @ xs) = Inl (mismatch (length p) (length p + length xs))"
  by (simp add: unframe_long [OF dec_enc] enc_length)

lemma unframe_ok:
  assumes "unframe buf = Inr (h, p)"
  shows "dec buf = Inr h \<and> p = drop hlen buf \<and> length buf = hlen + plen h \<and> length p = plen h"
proof (cases "dec buf")
  case (Inl e)
  then show ?thesis using assms unframe_err by fastforce
next
  case (Inr h')
  then consider "length buf < hlen + plen h'" | "hlen + plen h' < length buf" | "length buf = hlen + plen h'"
    by linarith
  then show ?thesis
    by cases (use assms Inr unframe_short unframe_long unframe_exact in auto)
qed

end

text \<open>A transition function and an invariant that every event keeps: every run
  from a good state stays good.\<close>

locale stepper =
  fixes step :: "'ev \<Rightarrow> 's \<Rightarrow> 's" and inv :: "'s \<Rightarrow> bool"
  assumes step_inv: "inv s \<Longrightarrow> inv (step ev s)"
begin

lemma fold_inv: "inv s \<Longrightarrow> inv (fold step evs s)"
  by (induction evs arbitrary: s) (auto intro: step_inv)

end


section \<open>Tables\<close>

text \<open>A hash map is an association list without repeated keys; its order stands for
  the iteration order.\<close>

definition distinct_keys :: "('k \<times> 'v) list \<Rightarrow> bool" where
  "distinct_keys al \<longleftrightarrow> distinct (map fst al)"

definition has_key :: "('k \<times> 'v) list \<Rightarrow> 'k \<Rightarrow> bool" where
  "has_key al k \<longleftrightarrow> map_of al k \<noteq> None"

lemma map_of_update [simp]:
  "map_of (AList.update k v al) k' = (if k' = k then Some v else map_of al k')"
  by (simp add: update_conv')

lemma map_of_delete [simp]:
  "map_of (AList.delete k al) k' = (if k' = k then None else map_of al k')"
  by (simp add: delete_conv')

lemma distinct_keys_update [simp]: "distinct_keys al \<Longrightarrow> distinct_keys (AList.update k v al)"
  by (simp add: distinct_keys_def distinct_update)

lemma distinct_keys_delete [simp]: "distinct_keys al \<Longrightarrow> distinct_keys (AList.delete k al)"
  by (simp add: distinct_keys_def distinct_delete)

lemma has_key_simps [simp]:
  "has_key (AList.update k v al) k' \<longleftrightarrow> k' = k \<or> has_key al k'"
  "has_key (AList.delete k al) k' \<longleftrightarrow> k' \<noteq> k \<and> has_key al k'"
  by (auto simp: has_key_def)

lemma has_key_someI [intro]: "map_of al k = Some v \<Longrightarrow> has_key al k"
  by (simp add: has_key_def)

lemma has_key_keys: "has_key al k \<longleftrightarrow> k \<in> set (map fst al)"
  by (simp add: has_key_def map_of_eq_None_iff)

end
