(* ===== verification/Frame.thy ===== *)
theory Frame
  imports Prelude
begin

text \<open>
  The binary media frames of \<open>stross-proto/src/frame.rs\<close>: the 24-byte header
  of the single-stream transports, the compact 14-byte header of the
  multiplexed QUIC connection, whole messages with the length-consistency
  check, and the 20-byte chunk header of the node channel
  (\<open>message/channel.rs\<close>).  Byte buffers are lists of \<open>u8\<close>; \<open>Bytes::bslice\<close>
  and \<open>copy_from_slice\<close> both give the same list, so the owned and the copying
  decoders are two definitions with one meaning.
\<close>


section \<open>Constants and headers\<close>

definition MAGIC :: bytes where
  "MAGIC = [0x53, 0x54, 0x52, 0x32]"

definition VERSION :: u8 where
  "VERSION = 2"

definition HEADER_LEN :: nat where
  "HEADER_LEN = 24"

definition HEADER2_LEN :: nat where
  "HEADER2_LEN = 14"

definition TRACK_VIDEO :: u8 where "TRACK_VIDEO = 0"
definition TRACK_AUDIO :: u8 where "TRACK_AUDIO = 1"
definition TRACK_FILE :: u8 where "TRACK_FILE = 2"
definition TRACK_CHANNEL :: u8 where "TRACK_CHANNEL = 3"

definition CODEC_H264 :: u8 where "CODEC_H264 = 1"
definition CODEC_AAC :: u8 where "CODEC_AAC = 2"
definition CODEC_FILE :: u8 where "CODEC_FILE = 3"
definition CODEC_CHANNEL :: u8 where "CODEC_CHANNEL = 4"

definition FLAG_KEYFRAME :: u8 where "FLAG_KEYFRAME = 1"
definition FLAG_CONFIG :: u8 where "FLAG_CONFIG = 2"
definition FLAG_START :: u8 where "FLAG_START = 4"
definition FLAG_END :: u8 where "FLAG_END = 8"

lemmas track_defs = TRACK_VIDEO_def TRACK_AUDIO_def TRACK_FILE_def TRACK_CHANNEL_def
lemmas codec_defs = CODEC_H264_def CODEC_AAC_def CODEC_FILE_def CODEC_CHANNEL_def
lemmas flag_defs = FLAG_KEYFRAME_def FLAG_CONFIG_def FLAG_START_def FLAG_END_def
lemmas len_defs = HEADER_LEN_def HEADER2_LEN_def

datatype frame_error =
    TooShort nat
  | BadMagic bytes
  | BadVersion u8
  | LenMismatch nat nat

record frame_header =
  fh_track :: u8
  fh_codec :: u8
  fh_flags :: u8
  fh_pts_ms :: u32
  fh_seq :: u32
  fh_frag_idx :: u8
  fh_frag_cnt :: u8
  fh_len :: u32

record frame_header2 =
  h2_track :: u8
  h2_flags :: u8
  h2_pts_ms :: u32
  h2_seq :: u32
  h2_len :: u32

record frame =
  f_header :: frame_header
  f_payload :: bytes

record frame2 =
  f2_header :: frame_header2
  f2_payload :: bytes


section \<open>Header codecs\<close>

definition header_encode :: "frame_header \<Rightarrow> bytes" where
  "header_encode h =
     MAGIC @ [VERSION, fh_track h, fh_codec h, fh_flags h]
     @ le_bytes 4 (fh_pts_ms h) @ le_bytes 4 (fh_seq h)
     @ [fh_frag_idx h, fh_frag_cnt h] @ le_bytes 4 (fh_len h) @ [0, 0]"

definition header_decode :: "bytes \<Rightarrow> frame_error + frame_header" where
  "header_decode buf =
     (if length buf < HEADER_LEN then Inl (TooShort (length buf))
      else let magic = bslice 0 4 buf in
      if magic \<noteq> MAGIC then Inl (BadMagic magic)
      else let version = buf ! 4 in
      if version \<noteq> VERSION then Inl (BadVersion version)
      else Inr \<lparr> fh_track = buf ! 5, fh_codec = buf ! 6, fh_flags = buf ! 7,
                 fh_pts_ms = of_le (bslice 8 12 buf), fh_seq = of_le (bslice 12 16 buf),
                 fh_frag_idx = buf ! 16, fh_frag_cnt = buf ! 17,
                 fh_len = of_le (bslice 18 22 buf) \<rparr>)"

definition header2_encode :: "frame_header2 \<Rightarrow> bytes" where
  "header2_encode h =
     [h2_track h, h2_flags h] @ le_bytes 4 (h2_pts_ms h) @ le_bytes 4 (h2_seq h)
     @ le_bytes 4 (h2_len h)"

definition header2_decode :: "bytes \<Rightarrow> frame_error + frame_header2" where
  "header2_decode buf =
     (if length buf < HEADER2_LEN then Inl (TooShort (length buf))
      else Inr \<lparr> h2_track = buf ! 0, h2_flags = buf ! 1,
                 h2_pts_ms = of_le (bslice 2 6 buf), h2_seq = of_le (bslice 6 10 buf),
                 h2_len = of_le (bslice 10 14 buf) \<rparr>)"

definition is_keyframe :: "frame_header \<Rightarrow> bool" where
  "is_keyframe h \<longleftrightarrow> fh_flags h AND FLAG_KEYFRAME \<noteq> 0"

definition is_config :: "frame_header \<Rightarrow> bool" where
  "is_config h \<longleftrightarrow> fh_flags h AND FLAG_CONFIG \<noteq> 0"

definition is_start :: "frame_header \<Rightarrow> bool" where
  "is_start h \<longleftrightarrow> fh_flags h AND FLAG_START \<noteq> 0"

definition is_end :: "frame_header \<Rightarrow> bool" where
  "is_end h \<longleftrightarrow> fh_flags h AND FLAG_END \<noteq> 0"

definition is_whole :: "frame_header \<Rightarrow> bool" where
  "is_whole h \<longleftrightarrow> fh_frag_cnt h = 0"


section \<open>Whole messages\<close>

definition frame_with_seq :: "u8 \<Rightarrow> u8 \<Rightarrow> u8 \<Rightarrow> u32 \<Rightarrow> u32 \<Rightarrow> bytes \<Rightarrow> frame" where
  "frame_with_seq track codec flags pts_ms seq payload =
     \<lparr> f_header = \<lparr> fh_track = track, fh_codec = codec, fh_flags = flags, fh_pts_ms = pts_ms,
                    fh_seq = seq, fh_frag_idx = 0, fh_frag_cnt = 0,
                    fh_len = u32_of_nat (length payload) \<rparr>,
       f_payload = payload \<rparr>"

definition frame_new :: "u8 \<Rightarrow> u8 \<Rightarrow> u8 \<Rightarrow> u32 \<Rightarrow> bytes \<Rightarrow> frame" where
  "frame_new track codec flags pts_ms payload =
     \<lparr> f_header = \<lparr> fh_track = track, fh_codec = codec, fh_flags = flags, fh_pts_ms = pts_ms,
                    fh_seq = 0, fh_frag_idx = 0, fh_frag_cnt = 0,
                    fh_len = u32_of_nat (length payload) \<rparr>,
       f_payload = payload \<rparr>"

definition frame_to_bytes :: "frame \<Rightarrow> bytes" where
  "frame_to_bytes f = header_encode (f_header f) @ f_payload f"

definition frame_from_bytes :: "bytes \<Rightarrow> frame_error + frame" where
  "frame_from_bytes buf =
     bind_res (header_decode buf) (\<lambda>header.
       let total = HEADER_LEN + unat (fh_len header) in
       if length buf < total then Inl (TooShort (length buf))
       else if length buf \<noteq> total then Inl (LenMismatch (unat (fh_len header)) (length buf - HEADER_LEN))
       else Inr \<lparr> f_header = header, f_payload = bslice HEADER_LEN total buf \<rparr>)"

definition frame_from_bytes_owned :: "bytes \<Rightarrow> frame_error + frame" where
  "frame_from_bytes_owned buf =
     bind_res (header_decode buf) (\<lambda>header.
       let total = HEADER_LEN + unat (fh_len header) in
       if length buf < total then Inl (TooShort (length buf))
       else if length buf \<noteq> total then Inl (LenMismatch (unat (fh_len header)) (length buf - HEADER_LEN))
       else Inr \<lparr> f_header = header, f_payload = bslice HEADER_LEN total buf \<rparr>)"

definition from_frame :: "frame \<Rightarrow> frame2" where
  "from_frame f =
     \<lparr> f2_header = \<lparr> h2_track = fh_track (f_header f), h2_flags = fh_flags (f_header f),
                     h2_pts_ms = fh_pts_ms (f_header f), h2_seq = fh_seq (f_header f),
                     h2_len = u32_of_nat (length (f_payload f)) \<rparr>,
       f2_payload = f_payload f \<rparr>"

definition frame2_to_bytes :: "frame2 \<Rightarrow> bytes" where
  "frame2_to_bytes f = header2_encode (f2_header f) @ f2_payload f"

definition frame2_to_bytes_owned :: "frame_header2 \<Rightarrow> bytes \<Rightarrow> bytes" where
  "frame2_to_bytes_owned header payload = header2_encode header @ payload"

definition to_frame :: "bytes \<Rightarrow> frame_error + frame" where
  "to_frame buf =
     bind_res (header2_decode buf) (\<lambda>header.
       let total = HEADER2_LEN + unat (h2_len header) in
       if length buf < total then Inl (TooShort (length buf))
       else if length buf \<noteq> total then Inl (LenMismatch (unat (h2_len header)) (length buf - HEADER2_LEN))
       else Inr \<lparr> f_header = \<lparr> fh_track = h2_track header, fh_codec = 0, fh_flags = h2_flags header,
                               fh_pts_ms = h2_pts_ms header, fh_seq = h2_seq header,
                               fh_frag_idx = 0, fh_frag_cnt = 0, fh_len = h2_len header \<rparr>,
                  f_payload = bslice HEADER2_LEN total buf \<rparr>)"

definition to_frame_owned :: "bytes \<Rightarrow> frame_error + frame" where
  "to_frame_owned buf =
     bind_res (header2_decode buf) (\<lambda>header.
       let total = HEADER2_LEN + unat (h2_len header) in
       if length buf < total then Inl (TooShort (length buf))
       else if length buf \<noteq> total then Inl (LenMismatch (unat (h2_len header)) (length buf - HEADER2_LEN))
       else Inr \<lparr> f_header = \<lparr> fh_track = h2_track header, fh_codec = 0, fh_flags = h2_flags header,
                               fh_pts_ms = h2_pts_ms header, fh_seq = h2_seq header,
                               fh_frag_idx = 0, fh_frag_cnt = 0, fh_len = h2_len header \<rparr>,
                  f_payload = bslice HEADER2_LEN total buf \<rparr>)"


section \<open>The channel chunk header\<close>

record chunk_header =
  ck_transfer_id :: u32
  ck_offset :: u64
  ck_chunk_len :: u32
  ck_flags :: u8

definition CHANNEL_CHUNK_HEADER_LEN :: nat where
  "CHANNEL_CHUNK_HEADER_LEN = 20"

definition CHUNK_FLAG_EOF :: u8 where
  "CHUNK_FLAG_EOF = 1"

definition chunk_encode :: "chunk_header \<Rightarrow> bytes" where
  "chunk_encode h =
     le_bytes 4 (ck_transfer_id h) @ le_bytes 8 (ck_offset h) @ le_bytes 4 (ck_chunk_len h)
     @ [ck_flags h] @ [0, 0, 0]"

definition chunk_decode :: "bytes \<Rightarrow> chunk_header option" where
  "chunk_decode buf =
     (if length buf < CHANNEL_CHUNK_HEADER_LEN then None
      else Some \<lparr> ck_transfer_id = of_le (bslice 0 4 buf), ck_offset = of_le (bslice 4 12 buf),
                  ck_chunk_len = of_le (bslice 12 16 buf), ck_flags = buf ! 16 \<rparr>)"

definition chunk_is_eof :: "chunk_header \<Rightarrow> bool" where
  "chunk_is_eof h \<longleftrightarrow> ck_flags h AND CHUNK_FLAG_EOF \<noteq> 0"


section \<open>Header round trips\<close>

lemma length_header_encode [simp]: "length (header_encode h) = HEADER_LEN"
  by (simp add: header_encode_def MAGIC_def HEADER_LEN_def)

lemma length_header2_encode [simp]: "length (header2_encode h) = HEADER2_LEN"
  by (simp add: header2_encode_def HEADER2_LEN_def)

lemma length_chunk_encode [simp]: "length (chunk_encode h) = CHANNEL_CHUNK_HEADER_LEN"
  by (simp add: chunk_encode_def CHANNEL_CHUNK_HEADER_LEN_def)

lemma header_decode_encode: "header_decode (header_encode h @ rest) = Inr h"
proof -
  obtain p1 p2 p3 p4 where p: "le_bytes 4 (fh_pts_ms h) = [p1, p2, p3, p4]" "of_le [p1, p2, p3, p4] = fh_pts_ms h"
    by (rule le_bytes_u32_list)
  obtain s1 s2 s3 s4 where s: "le_bytes 4 (fh_seq h) = [s1, s2, s3, s4]" "of_le [s1, s2, s3, s4] = fh_seq h"
    by (rule le_bytes_u32_list)
  obtain l1 l2 l3 l4 where l: "le_bytes 4 (fh_len h) = [l1, l2, l3, l4]" "of_le [l1, l2, l3, l4] = fh_len h"
    by (rule le_bytes_u32_list)
  show ?thesis
    by (cases h) (use p s l in \<open>simp add: header_decode_def header_encode_def MAGIC_def HEADER_LEN_def
      bslice_def Let_def del: of_le.simps\<close>)
qed

lemma header2_decode_encode: "header2_decode (header2_encode h @ rest) = Inr h"
proof -
  obtain p1 p2 p3 p4 where p: "le_bytes 4 (h2_pts_ms h) = [p1, p2, p3, p4]" "of_le [p1, p2, p3, p4] = h2_pts_ms h"
    by (rule le_bytes_u32_list)
  obtain s1 s2 s3 s4 where s: "le_bytes 4 (h2_seq h) = [s1, s2, s3, s4]" "of_le [s1, s2, s3, s4] = h2_seq h"
    by (rule le_bytes_u32_list)
  obtain l1 l2 l3 l4 where l: "le_bytes 4 (h2_len h) = [l1, l2, l3, l4]" "of_le [l1, l2, l3, l4] = h2_len h"
    by (rule le_bytes_u32_list)
  show ?thesis
    by (cases h) (use p s l in \<open>simp add: header2_decode_def header2_encode_def HEADER2_LEN_def
      bslice_def del: of_le.simps\<close>)
qed

lemma chunk_decode_encode: "chunk_decode (chunk_encode h @ rest) = Some h"
proof -
  obtain p1 p2 p3 p4 where p: "le_bytes 4 (ck_transfer_id h) = [p1, p2, p3, p4]" "of_le [p1, p2, p3, p4] = ck_transfer_id h"
    by (rule le_bytes_u32_list)
  obtain s1 s2 s3 s4 s5 s6 s7 s8 where s: "le_bytes 8 (ck_offset h) = [s1, s2, s3, s4, s5, s6, s7, s8]"
      "of_le [s1, s2, s3, s4, s5, s6, s7, s8] = ck_offset h"
    by (rule le_bytes_u64_list)
  obtain l1 l2 l3 l4 where l: "le_bytes 4 (ck_chunk_len h) = [l1, l2, l3, l4]" "of_le [l1, l2, l3, l4] = ck_chunk_len h"
    by (rule le_bytes_u32_list)
  show ?thesis
    by (cases h) (use p s l in \<open>simp add: chunk_decode_def chunk_encode_def CHANNEL_CHUNK_HEADER_LEN_def
      bslice_def del: of_le.simps\<close>)
qed


section \<open>The message codecs as instances of the shared interface\<close>

definition frame_parts :: "frame \<Rightarrow> frame_header \<times> bytes" where
  "frame_parts f = (f_header f, f_payload f)"

definition frame_parts2 :: "frame \<Rightarrow> frame_header2 \<times> bytes" where
  "frame_parts2 f =
     (\<lparr> h2_track = fh_track (f_header f), h2_flags = fh_flags (f_header f),
        h2_pts_ms = fh_pts_ms (f_header f), h2_seq = fh_seq (f_header f),
        h2_len = fh_len (f_header f) \<rparr>, f_payload f)"

lemma header_decode_short: "length buf < HEADER_LEN \<Longrightarrow> header_decode buf = Inl (TooShort (length buf))"
  by (simp add: header_decode_def)

lemma header2_decode_short: "length buf < HEADER2_LEN \<Longrightarrow> header2_decode buf = Inl (TooShort (length buf))"
  by (simp add: header2_decode_def)

interpretation v1: framed_codec header_encode header_decode HEADER_LEN
    "\<lambda>h. unat (fh_len h)" TooShort LenMismatch "\<lambda>buf. map_sum id frame_parts (frame_from_bytes buf)"
  by unfold_locales
     (auto simp: header_decode_encode header_decode_short frame_from_bytes_def frame_parts_def
        Let_def bslice_def)

interpretation v2: framed_codec header2_encode header2_decode HEADER2_LEN
    "\<lambda>h. unat (h2_len h)" TooShort LenMismatch "\<lambda>buf. map_sum id frame_parts2 (to_frame buf)"
  by unfold_locales
     (auto simp: header2_decode_encode header2_decode_short to_frame_def frame_parts2_def
        Let_def bslice_def)

interpretation chunk: header_codec chunk_encode
    "\<lambda>buf. case chunk_decode buf of None \<Rightarrow> Inl () | Some h \<Rightarrow> Inr h" CHANNEL_CHUNK_HEADER_LEN
  by unfold_locales (simp_all add: chunk_decode_encode, simp add: chunk_decode_def)

lemma frame_parts_inj: "frame_parts f = (h, p) \<longleftrightarrow> f = \<lparr> f_header = h, f_payload = p \<rparr>"
  by (cases f) (auto simp: frame_parts_def)

lemma frame_from_bytes_parts:
  "frame_from_bytes buf = Inr f \<longleftrightarrow> map_sum id frame_parts (frame_from_bytes buf) = Inr (f_header f, f_payload f)"
  by (cases "frame_from_bytes buf") (auto simp: frame_parts_def)

lemma frame_from_bytes_err:
  "frame_from_bytes buf = Inl e \<longleftrightarrow> map_sum id frame_parts (frame_from_bytes buf) = Inl e"
  by (cases "frame_from_bytes buf") auto

lemma to_frame_err:
  "to_frame buf = Inl e \<longleftrightarrow> map_sum id frame_parts2 (to_frame buf) = Inl e"
  by (cases "to_frame buf") auto

text \<open>What the compact path delivers for a frame: codec 0, no fragment fields,
  the length of the payload actually carried.\<close>

definition compact_view :: "frame \<Rightarrow> frame" where
  "compact_view f =
     \<lparr> f_header = \<lparr> fh_track = fh_track (f_header f), fh_codec = 0, fh_flags = fh_flags (f_header f),
                    fh_pts_ms = fh_pts_ms (f_header f), fh_seq = fh_seq (f_header f),
                    fh_frag_idx = 0, fh_frag_cnt = 0,
                    fh_len = u32_of_nat (length (f_payload f)) \<rparr>,
       f_payload = f_payload f \<rparr>"

lemma unat_len: "length p < 2 ^ 32 \<Longrightarrow> unat (u32_of_nat (length p)) = length p"
  by (simp add: unat_of_nat take_bit_nat_eq_self)


lemma to_frame_owned_eq: "to_frame_owned = to_frame"
  by (rule ext) (simp add: to_frame_owned_def to_frame_def)

lemma map_sum_Inr_iff: "map_sum id g r = Inr b \<longleftrightarrow> (\<exists>a. r = Inr a \<and> g a = b)"
  by (cases r) auto

lemma to_frame_zero:
  "to_frame buf = Inr g \<Longrightarrow>
   g = \<lparr> f_header = \<lparr> fh_track = fh_track (f_header g), fh_codec = 0, fh_flags = fh_flags (f_header g),
         fh_pts_ms = fh_pts_ms (f_header g), fh_seq = fh_seq (f_header g), fh_frag_idx = 0,
         fh_frag_cnt = 0, fh_len = fh_len (f_header g) \<rparr>, f_payload = f_payload g \<rparr>"
  by (cases "header2_decode buf") (auto simp: to_frame_def Let_def split: if_splits)

lemma header_decode_prefix:
  "HEADER_LEN \<le> length buf \<Longrightarrow> header_decode (take 22 buf @ [0, 0]) = header_decode buf"
  by (simp add: header_decode_def HEADER_LEN_def bslice_take nth_append min_absorb2 cong: if_cong)

lemma header_decode_encode_back:
  assumes "header_decode buf = Inr h"
  shows "header_encode h = take 22 buf @ [0, 0]"
proof -
  have len: "24 \<le> length buf"
    using assms v1.dec_ok_length [of buf] by (simp add: HEADER_LEN_def)
  have sl: "\<And>a. a + 4 \<le> 22 \<Longrightarrow> le_bytes 4 (of_le (bslice a (a + 4) buf) :: u32) = bslice a (a + 4) buf"
    using len by (intro le_bytes_of_le_u32) (simp add: length_bslice)
  have one: "\<And>a. a < 22 \<Longrightarrow> [buf ! a] = bslice a (Suc a) buf"
    using len by (simp add: bslice_def take_Suc_conv_app_nth hd_drop_conv_nth flip: Cons_nth_drop_Suc)
  have "header_encode h = bslice 0 4 buf @ bslice 4 5 buf @ bslice 5 6 buf @ bslice 6 7 buf @ bslice 7 8 buf
      @ bslice 8 12 buf @ bslice 12 16 buf @ bslice 16 17 buf @ bslice 17 18 buf @ bslice 18 22 buf @ [0, 0]"
    using assms len sl [of 8] sl [of 12] sl [of 18]
      one [of 4] one [of 5] one [of 6] one [of 7] one [of 16] one [of 17]
    by (auto simp: header_decode_def header_encode_def HEADER_LEN_def Let_def split: if_splits)
  also have "\<dots> = bslice 0 22 buf @ [0, 0]"
    by (simp add: bslice_glue flip: append_assoc)
  finally show ?thesis by (simp add: bslice_def)
qed

lemma header_decode_iff:
  "header_decode buf = Inr h \<longleftrightarrow> HEADER_LEN \<le> length buf \<and> header_encode h = take 22 buf @ [0, 0]"
  using header_decode_encode_back v1.dec_ok_length header_decode_prefix v1.dec_enc_exact by metis


section \<open>Properties\<close>

text \<open>
  Message round trip: decoding the encoding of a frame whose header declares
  its payload's length gives the frame back, every header field included, through
  the copying and the zero-copy decoder alike; cutting the message inside the
  payload is reported as too short with the received length, and trailing bytes are
  reported as a length mismatch with the declared and the received payload length.
\<close>

theorem frame_message_roundtrip:
  assumes "unat (fh_len (f_header f)) = length (f_payload f)"
  shows "frame_from_bytes (frame_to_bytes f) = Inr f
       \<and> frame_from_bytes_owned (frame_to_bytes f) = Inr f
       \<and> (k < length (f_payload f) \<longrightarrow>
            frame_from_bytes (take (HEADER_LEN + k) (frame_to_bytes f)) = Inl (TooShort (HEADER_LEN + k)))
       \<and> (xs \<noteq> [] \<longrightarrow>
            frame_from_bytes (frame_to_bytes f @ xs)
              = Inl (LenMismatch (length (f_payload f)) (length (f_payload f) + length xs)))"
proof (intro conjI impI)
  show "frame_from_bytes (frame_to_bytes f) = Inr f"
    unfolding frame_from_bytes_parts frame_to_bytes_def by (rule v1.unframe_roundtrip [OF assms])
  then show "frame_from_bytes_owned (frame_to_bytes f) = Inr f"
    by (simp add: frame_from_bytes_owned_def frame_from_bytes_def)
next
  assume "k < length (f_payload f)"
  then show "frame_from_bytes (take (HEADER_LEN + k) (frame_to_bytes f)) = Inl (TooShort (HEADER_LEN + k))"
    using v1.unframe_truncated [OF assms, of k] by (simp add: frame_from_bytes_err frame_to_bytes_def)
next
  assume "xs \<noteq> []"
  then show "frame_from_bytes (frame_to_bytes f @ xs)
      = Inl (LenMismatch (length (f_payload f)) (length (f_payload f) + length xs))"
    using v1.unframe_trailing [OF assms] by (simp add: frame_from_bytes_err frame_to_bytes_def)
qed

definition sample_frame :: frame where
  "sample_frame = frame_with_seq TRACK_VIDEO CODEC_H264 (FLAG_KEYFRAME OR FLAG_START) 1234 42 [7, 8, 9]"

lemma frame_message_roundtrip_witness:
  "frame_from_bytes (frame_to_bytes sample_frame) = Inr sample_frame"
  using frame_message_roundtrip [of sample_frame 0 "[]"]
  by (simp add: sample_frame_def frame_with_seq_def)

text \<open>
  Which buffers are frames: the decoder returns the frame \<open>f\<close> exactly when the
  buffer holds at least a header, \<open>f\<close> declares the length of its payload, and the
  buffer is the encoding of \<open>f\<close> up to the two reserved header bytes, which the
  decoder ignores and the encoder clears.  So no two frames share an encoding and
  no truncated or extended message is accepted.
\<close>

theorem frame_decode_accepts_iff:
  "frame_from_bytes buf = Inr f
     \<longleftrightarrow> HEADER_LEN \<le> length buf
       \<and> unat (fh_len (f_header f)) = length (f_payload f)
       \<and> frame_to_bytes f = take 22 buf @ [0, 0] @ drop HEADER_LEN buf"
proof
  assume "frame_from_bytes buf = Inr f"
  then have "header_decode buf = Inr (f_header f) \<and> f_payload f = drop HEADER_LEN buf
      \<and> length buf = HEADER_LEN + unat (fh_len (f_header f))
      \<and> length (f_payload f) = unat (fh_len (f_header f))"
    using v1.unframe_ok frame_from_bytes_parts by blast
  then show "HEADER_LEN \<le> length buf \<and> unat (fh_len (f_header f)) = length (f_payload f)
      \<and> frame_to_bytes f = take 22 buf @ [0, 0] @ drop HEADER_LEN buf"
    by (simp add: frame_to_bytes_def header_decode_iff)
next
  assume a: "HEADER_LEN \<le> length buf \<and> unat (fh_len (f_header f)) = length (f_payload f)
      \<and> frame_to_bytes f = take 22 buf @ [0, 0] @ drop HEADER_LEN buf"
  have "length (header_encode (f_header f)) = length (take 22 buf @ [0, 0])"
    using a by (simp add: HEADER_LEN_def)
  moreover have "header_encode (f_header f) @ f_payload f = (take 22 buf @ [0, 0]) @ drop HEADER_LEN buf"
    using a by (simp add: frame_to_bytes_def)
  ultimately have enc: "header_encode (f_header f) = take 22 buf @ [0, 0]"
    and pay: "f_payload f = drop HEADER_LEN buf"
    by (metis append_eq_append_conv)+
  have len: "length buf = HEADER_LEN + unat (fh_len (f_header f))"
    using a arg_cong [OF pay, of length] by simp
  have "header_decode buf = Inr (f_header f)"
    using a enc by (simp add: header_decode_iff)
  from v1.unframe_exact [OF this len] show "frame_from_bytes buf = Inr f"
    unfolding frame_from_bytes_parts pay .
qed

text \<open>
  The compact format of the multiplexed connection loses only what it leaves
  out: sending a frame through it, by either encoder and either decoder, delivers
  the same track, flags, time stamp, sequence number and payload, with codec and
  fragment fields zero and the declared length set to the payload's own, whatever
  length the original header declared.
\<close>

theorem compact_roundtrip:
  assumes "length (f_payload f) < 2 ^ 32"
  shows "to_frame (frame2_to_bytes (from_frame f)) = Inr (compact_view f)
       \<and> to_frame_owned (frame2_to_bytes_owned (f2_header (from_frame f)) (f_payload f)) = Inr (compact_view f)"
proof -
  have "unat (h2_len (f2_header (from_frame f))) = length (f2_payload (from_frame f))"
    using assms by (simp add: from_frame_def unat_len)
  from v2.unframe_roundtrip [OF this]
  have "map_sum id frame_parts2 (to_frame (frame2_to_bytes (from_frame f)))
      = Inr (f2_header (from_frame f), f2_payload (from_frame f))"
    by (simp add: frame2_to_bytes_def)
  then obtain g where g: "to_frame (frame2_to_bytes (from_frame f)) = Inr g"
      "frame_parts2 g = (f2_header (from_frame f), f2_payload (from_frame f))"
    unfolding map_sum_Inr_iff by blast
  then have "to_frame (frame2_to_bytes (from_frame f)) = Inr (compact_view f)"
    using to_frame_zero [OF g(1)] by (simp add: frame_parts2_def from_frame_def compact_view_def)
  then show ?thesis
    by (simp add: to_frame_owned_eq frame2_to_bytes_owned_def frame2_to_bytes_def from_frame_def)
qed

lemma compact_roundtrip_witness:
  "to_frame (frame2_to_bytes (from_frame sample_frame)) = Inr (compact_view sample_frame)"
  using compact_roundtrip [of sample_frame] by (simp add: sample_frame_def frame_with_seq_def)

end
