(* ===== verification/Rust_Text.thy ===== *)
theory Rust_Text
  imports Prelude
begin

text \<open>
  The string operations of Rust's standard library the sources use: decimal
  formatting and parsing of unsigned integers, hexadecimal formatting,
  \<open>split_once\<close>, \<open>rsplit_once\<close>, \<open>strip_prefix\<close>, and the FNV-1a hash both id modules
  write out.  A Rust string is its UTF-8 bytes, one \<open>char\<close> per byte.  Two
  interface locales: a text codec (parsing reads back what was printed) and a
  canonical one (nothing else parses).
\<close>


section \<open>Decimal integers\<close>

definition is_digit :: "char \<Rightarrow> bool" where
  "is_digit c \<longleftrightarrow> 48 \<le> (of_char c :: nat) \<and> (of_char c :: nat) \<le> 57"

definition digit_val :: "char \<Rightarrow> nat" where
  "digit_val c = of_char c - 48"

fun show_nat :: "nat \<Rightarrow> string" where
  "show_nat n = (if n < 10 then [char_of (48 + n)]
                 else show_nat (n div 10) @ [char_of (48 + n mod 10)])"

declare show_nat.simps [simp del]

text \<open>\<open>str::parse\<close> at an unsigned type with the given maximum: an optional plus
  sign, at least one digit, digits only, overflow checked at each step.\<close>

fun parse_digits :: "nat \<Rightarrow> nat \<Rightarrow> string \<Rightarrow> nat option" where
  "parse_digits m acc [] = Some acc"
| "parse_digits m acc (c # cs) =
     (if is_digit c \<and> acc * 10 + digit_val c \<le> m then parse_digits m (acc * 10 + digit_val c) cs
      else None)"

definition parse_uint :: "nat \<Rightarrow> string \<Rightarrow> nat option" where
  "parse_uint m s =
     (let ds = (case s of c # cs \<Rightarrow> if c = CHR ''+'' then cs else s | [] \<Rightarrow> [])
      in if ds = [] then None else parse_digits m 0 ds)"

definition parse_u32 :: "string \<Rightarrow> u32 option" where
  "parse_u32 s = map_option word_of_nat (parse_uint 4294967295 s)"

definition parse_u16 :: "string \<Rightarrow> u16 option" where
  "parse_u16 s = map_option word_of_nat (parse_uint 65535 s)"

definition show_word :: "'a::len word \<Rightarrow> string" where
  "show_word w = show_nat (unat w)"

lemma digit_char [simp]: "n < 10 \<Longrightarrow> is_digit (char_of (48 + n))" "n < 10 \<Longrightarrow> digit_val (char_of (48 + n)) = n"
  by (simp_all add: is_digit_def digit_val_def)

lemma show_nat_digits: "c \<in> set (show_nat n) \<Longrightarrow> is_digit c"
proof (induction n rule: show_nat.induct)
  case (1 n)
  then show ?case by (subst (asm) (2) show_nat.simps) (auto split: if_splits)
qed

lemma show_nat_nonempty [simp]: "show_nat n \<noteq> []"
  by (subst show_nat.simps) simp

lemma parse_digits_append:
  "parse_digits m a (xs @ ys) = Option.bind (parse_digits m a xs) (\<lambda>v. parse_digits m v ys)"
  by (induction xs arbitrary: a) auto

lemma parse_digits_show: "n \<le> m \<Longrightarrow> parse_digits m 0 (show_nat n) = Some n"
proof (induction n rule: show_nat.induct)
  case (1 n)
  show ?case
  proof (cases "n < 10")
    case False
    then have "parse_digits m 0 (show_nat (n div 10)) = Some (n div 10)"
      using 1 by simp
    then show ?thesis using False 1(2) by (subst show_nat.simps) (simp add: parse_digits_append)
  qed (use 1(2) in \<open>subst show_nat.simps, simp\<close>)
qed

lemma parse_uint_show: "n \<le> m \<Longrightarrow> parse_uint m (show_nat n) = Some n"
proof -
  assume "n \<le> m"
  obtain c cs where s: "show_nat n = c # cs" using show_nat_nonempty by (cases "show_nat n") auto
  then have "is_digit c" using show_nat_digits [of c n] by simp
  then have "c \<noteq> CHR ''+''" by (auto simp: is_digit_def)
  then show ?thesis using parse_digits_show [OF \<open>n \<le> m\<close>] s by (simp add: parse_uint_def)
qed

lemma show_nat_inj: "show_nat m = show_nat n \<longleftrightarrow> m = n"
  by (metis le_add1 le_add2 option.inject parse_digits_show)

lemma show_word_inj: "show_word v = show_word w \<longleftrightarrow> v = w"
  by (simp add: show_word_def show_nat_inj word_unat_eq_iff)

lemma parse_u32_show [simp]: "parse_u32 (show_word w) = Some w"
proof -
  have "unat w < 2 ^ 32" using unsigned_less [where ?'a = nat, of w] by simp
  then show ?thesis by (simp add: parse_u32_def show_word_def parse_uint_show)
qed

lemma parse_u16_show [simp]: "parse_u16 (show_word w) = Some w"
proof -
  have "unat w < 2 ^ 16" using unsigned_less [where ?'a = nat, of w] by simp
  then show ?thesis by (simp add: parse_u16_def show_word_def parse_uint_show)
qed

lemma show_word_nonempty [simp]: "show_word w \<noteq> []"
  by (simp add: show_word_def)

lemma show_word_digits: "c \<in> set (show_word w) \<Longrightarrow> is_digit c"
  by (simp add: show_word_def show_nat_digits)

lemma length_show_nat: "n < 10 ^ k \<Longrightarrow> 0 < k \<Longrightarrow> length (show_nat n) \<le> k"
proof (induction k arbitrary: n)
  case (Suc k)
  show ?case
  proof (cases "n < 10")
    case False
    then have "0 < k" using Suc.prems by (cases k) auto
    moreover have "n div 10 < 10 ^ k" using Suc.prems by (simp add: less_mult_imp_div_less)
    ultimately show ?thesis using Suc.IH [of "n div 10"] False by (subst show_nat.simps) simp
  qed (subst show_nat.simps, simp)
qed simp


section \<open>Hexadecimal\<close>

definition hex_char :: "nat \<Rightarrow> char" where
  "hex_char d = char_of (if d < 10 then 48 + d else 87 + d)"

definition show_byte_hex :: "u8 \<Rightarrow> string" where
  "show_byte_hex b = [hex_char (unat (drop_bit 4 b)), hex_char (unat (b AND 15))]"

text \<open>\<open>{:08x}\<close> of a 32-bit value.\<close>

definition show_hex8 :: "u32 \<Rightarrow> string" where
  "show_hex8 w = concat (map show_byte_hex (rev (le_bytes 4 w)))"

lemma length_show_hex8 [simp]: "length (show_hex8 w) = 8"
  by (simp add: show_hex8_def show_byte_hex_def numeral_eq_Suc)


section \<open>Splitting\<close>

definition split_once :: "char \<Rightarrow> string \<Rightarrow> (string \<times> string) option" where
  "split_once c s =
     (case dropWhile (\<lambda>x. x \<noteq> c) s of [] \<Rightarrow> None
      | _ # t \<Rightarrow> Some (takeWhile (\<lambda>x. x \<noteq> c) s, t))"

definition rsplit_once :: "char \<Rightarrow> string \<Rightarrow> (string \<times> string) option" where
  "rsplit_once c s = map_option (\<lambda>(a, b). (rev b, rev a)) (split_once c (rev s))"

definition strip_prefix :: "string \<Rightarrow> string \<Rightarrow> string option" where
  "strip_prefix p s = (if take (length p) s = p then Some (drop (length p) s) else None)"

lemma split_once_append: "c \<notin> set a \<Longrightarrow> split_once c (a @ c # b) = Some (a, b)"
  unfolding split_once_def
  by (subst dropWhile_append2, fastforce, subst takeWhile_append2, fastforce) simp

lemma split_once_none: "c \<notin> set a \<Longrightarrow> split_once c a = None"
  unfolding split_once_def by (subst dropWhile_eq_Nil_conv [THEN iffD2]) auto

lemma rsplit_once_append: "c \<notin> set b \<Longrightarrow> rsplit_once c (a @ c # b) = Some (a, b)"
  by (simp add: rsplit_once_def split_once_append)

lemma rsplit_once_none: "c \<notin> set a \<Longrightarrow> rsplit_once c a = None"
  by (simp add: rsplit_once_def split_once_none)

lemma strip_prefix_append [simp]: "strip_prefix p (p @ s) = Some s"
  by (simp add: strip_prefix_def)

lemma strip_prefix_hd: "s \<noteq> [] \<Longrightarrow> hd s \<noteq> hd p \<Longrightarrow> p \<noteq> [] \<Longrightarrow> strip_prefix p s = None"
  by (cases s; cases p) (auto simp: strip_prefix_def)

text \<open>Joining with a separator no field contains is injective.\<close>

lemma sep_inj:
  fixes c :: char
  shows "c \<notin> set a \<Longrightarrow> c \<notin> set a' \<Longrightarrow> a @ c # b = a' @ c # b' \<longleftrightarrow> a = a' \<and> b = b'"
  by (metis option.inject prod.inject split_once_append)


section \<open>FNV-1a\<close>

definition FNV_OFFSET :: u64 where
  "FNV_OFFSET = 0xcbf29ce484222325"

definition FNV_PRIME :: u64 where
  "FNV_PRIME = 0x100000001b3"

definition fnv1a :: "bytes \<Rightarrow> u64" where
  "fnv1a bs = fold (\<lambda>b h. (h XOR ucast b) * FNV_PRIME) bs FNV_OFFSET"

definition str_bytes :: "string \<Rightarrow> bytes" where
  "str_bytes s = map of_char s"


section \<open>Text codecs\<close>

locale text_codec =
  fixes show_text :: "'a \<Rightarrow> string" and parse :: "string \<Rightarrow> 'a option" and ok :: "'a \<Rightarrow> bool"
  assumes parse_show: "ok x \<Longrightarrow> parse (show_text x) = Some x"
begin

lemma show_inj: "ok x \<Longrightarrow> ok y \<Longrightarrow> show_text x = show_text y \<longleftrightarrow> x = y"
  using parse_show by (metis option.inject)

end

locale canonical_text_codec = text_codec +
  assumes parse_canonical: "parse s = Some x \<Longrightarrow> s = show_text x"
begin

lemma parse_iff: "ok x \<Longrightarrow> parse s = Some x \<longleftrightarrow> s = show_text x"
  using parse_show parse_canonical by metis

end

end
