(* ===== verification/Transport.thy ===== *)
theory Transport
  imports Frame Rust_Text
begin

text \<open>
  The transport layer (\<open>stross-transport\<close>): the packets a session carries, the
  transport errors and byte counters of \<open>lib.rs\<close>, and the SRT data session of
  \<open>srt.rs\<close>, which cuts large frames into fragments and puts them together
  again.  The socket is outside the sources: sending is a list of messages and a
  predicate that says which of them the socket accepts, receiving is a list of
  socket results.  The JSON form of control messages is a pair of parameters
  \<open>to_text\<close> and \<open>from_text\<close>.  Texts of error messages are left out.
\<close>


section \<open>Packets, errors, counters\<close>

datatype 'c session_packet = ControlPkt 'c | MediaPkt frame

datatype transport_error = NotSupported | ConnectError | IoError | ProtocolError | ClosedError

record transport_stats =
  ts_bytes_sent :: u64
  ts_bytes_recv :: u64

definition add_sent :: "nat \<Rightarrow> transport_stats \<Rightarrow> transport_stats" where
  "add_sent n s = s\<lparr> ts_bytes_sent := ts_bytes_sent s + word_of_nat n \<rparr>"

definition add_recv :: "nat \<Rightarrow> transport_stats \<Rightarrow> transport_stats" where
  "add_recv n s = s\<lparr> ts_bytes_recv := ts_bytes_recv s + word_of_nat n \<rparr>"


section \<open>The SRT session\<close>

definition FRAGMENT_LEN :: nat where
  "FRAGMENT_LEN = 1400"

definition DEFAULT_SRT_LATENCY_MS :: nat where
  "DEFAULT_SRT_LATENCY_MS = 20"

text \<open>The reassembly state: the frame being collected, with the index of the
  fragment expected next.  \<open>next += 1\<close> wraps at 256 in a release build.\<close>

record pending_frame =
  pf_header :: frame_header
  pf_frags :: "bytes list"
  pf_next :: u8

type_synonym rx_state = "pending_frame option"

record srt_session =
  srt_open :: bool
  srt_stats :: transport_stats
  srt_rx :: rx_state
  srt_wire :: "bytes list"

text \<open>\<open>slice::chunks\<close>.\<close>

fun chunks :: "nat \<Rightarrow> 'a list \<Rightarrow> 'a list list" where
  "chunks n xs = (if n = 0 \<or> xs = [] then [] else take n xs # chunks n (drop n xs))"

declare chunks.simps [simp del]

definition div_ceil :: "nat \<Rightarrow> nat \<Rightarrow> nat" where
  "div_ceil a b = (a + b - 1) div b"

definition frag_header :: "frame_header \<Rightarrow> nat \<Rightarrow> u8 \<Rightarrow> nat \<Rightarrow> frame_header" where
  "frag_header h i cnt n =
     h\<lparr> fh_frag_idx := word_of_nat i, fh_frag_cnt := cnt, fh_len := u32_of_nat n \<rparr>"

definition frag_count :: "frame \<Rightarrow> u8" where
  "frag_count f = word_of_nat (div_ceil (length (f_payload f)) FRAGMENT_LEN)"

definition srt_fragment :: "frame \<Rightarrow> nat \<times> bytes \<Rightarrow> bytes" where
  "srt_fragment f = (\<lambda>(i, chunk).
     1 # header_encode (frag_header (f_header f) i (frag_count f) (length chunk)) @ chunk)"

text \<open>The messages of one packet, or the refusal; \<open>send\<close> then passes them to the
  socket one by one and stops at the first it rejects.\<close>

definition srt_messages :: "('c \<Rightarrow> bytes) \<Rightarrow> 'c session_packet \<Rightarrow> transport_error + bytes list" where
  "srt_messages to_text pkt =
     (case pkt of
        ControlPkt c \<Rightarrow>
          let text = to_text c in
          if length text > FRAGMENT_LEN then Inl ProtocolError else Inr [0 # text]
      | MediaPkt f \<Rightarrow>
          let payload = f_payload f in
          if length payload \<le> FRAGMENT_LEN then Inr [1 # header_encode (f_header f) @ payload]
          else if length payload > 255 * FRAGMENT_LEN then Inl ProtocolError
          else Inr (map (srt_fragment f) (enumerate 0 (chunks FRAGMENT_LEN payload))))"

fun srt_push_msgs :: "(bytes \<Rightarrow> bool) \<Rightarrow> bytes list \<Rightarrow> srt_session \<Rightarrow> (transport_error + unit) \<times> srt_session" where
  "srt_push_msgs sock_ok [] s = (Inr (), s)"
| "srt_push_msgs sock_ok (m # ms) s =
     (if sock_ok m
      then srt_push_msgs sock_ok ms
             (s\<lparr> srt_wire := srt_wire s @ [m], srt_stats := add_sent (length m) (srt_stats s) \<rparr>)
      else (Inl IoError, s))"

definition srt_send ::
  "('c \<Rightarrow> bytes) \<Rightarrow> (bytes \<Rightarrow> bool) \<Rightarrow> 'c session_packet \<Rightarrow> srt_session \<Rightarrow> (transport_error + unit) \<times> srt_session" where
  "srt_send to_text sock_ok pkt s =
     (if \<not> srt_open s then (Inl ClosedError, s)
      else case srt_messages to_text pkt of
        Inl e \<Rightarrow> (Inl e, s)
      | Inr ms \<Rightarrow> srt_push_msgs sock_ok ms s)"

definition push_fragment :: "frame_header \<Rightarrow> bytes \<Rightarrow> rx_state \<Rightarrow> 'c session_packet option \<times> rx_state" where
  "push_fragment header payload rx =
     (let restart = (if fh_frag_idx header = 0
                     then (None, Some \<lparr> pf_header = header, pf_frags = [payload], pf_next = 1 \<rparr>)
                     else (None, None))
      in case rx of
        None \<Rightarrow> restart
      | Some p \<Rightarrow>
          if fh_seq (pf_header p) = fh_seq header \<and> fh_frag_idx header = pf_next p then
            let p' = p\<lparr> pf_frags := pf_frags p @ [payload], pf_next := pf_next p + 1 \<rparr> in
            if pf_next p' = fh_frag_cnt header then
              let out = concat (pf_frags p');
                  h = (pf_header p')\<lparr> fh_frag_idx := 0, fh_frag_cnt := 0, fh_len := u32_of_nat (length out) \<rparr>
              in (Some (MediaPkt \<lparr> f_header = h, f_payload = out \<rparr>), None)
            else (None, Some p')
          else restart)"

definition decode_message ::
  "(bytes \<Rightarrow> 'c option) \<Rightarrow> bytes \<Rightarrow> rx_state \<Rightarrow> 'c session_packet option \<times> rx_state" where
  "decode_message from_text msg rx =
     (case msg of
        [] \<Rightarrow> (None, rx)
      | ty # body \<Rightarrow>
          if ty = 0 then (map_option ControlPkt (from_text body), rx)
          else if ty = 1 then
            (case header_decode body of
               Inl _ \<Rightarrow> (None, rx)
             | Inr header \<Rightarrow>
                 let payload = drop HEADER_LEN body in
                 if fh_frag_cnt header = 0 then (Some (MediaPkt \<lparr> f_header = header, f_payload = payload \<rparr>), rx)
                 else push_fragment header payload rx)
          else (None, rx))"

text \<open>Results of the socket's \<open>recv\<close>: a message, a clean end, or an error that
  either reads as a disconnect (its text says closed, shutdown or reset) or not.\<close>

datatype sock_result = SockMsg bytes | SockEof | SockErr bool

datatype 'c recv_outcome = RecvWaiting | RecvDone "transport_error + 'c session_packet option"

fun srt_recv_loop ::
  "(bytes \<Rightarrow> 'c option) \<Rightarrow> sock_result list \<Rightarrow> srt_session \<Rightarrow> 'c recv_outcome \<times> sock_result list \<times> srt_session" where
  "srt_recv_loop from_text [] s = (RecvWaiting, [], s)"
| "srt_recv_loop from_text (r # rs) s =
     (case r of
        SockEof \<Rightarrow> (RecvDone (Inr None), rs, s)
      | SockErr disconnect \<Rightarrow> (RecvDone (if disconnect then Inr None else Inl IoError), rs, s)
      | SockMsg b \<Rightarrow>
          let s1 = s\<lparr> srt_stats := add_recv (length b) (srt_stats s) \<rparr>;
              (pkt, rx) = decode_message from_text b (srt_rx s1);
              s2 = s1\<lparr> srt_rx := rx \<rparr>
          in case pkt of
               Some p \<Rightarrow> (RecvDone (Inr (Some p)), rs, s2)
             | None \<Rightarrow> srt_recv_loop from_text rs s2)"

definition srt_recv where
  "srt_recv from_text rs s =
     (if \<not> srt_open s then (RecvDone (Inl ClosedError), rs, s) else srt_recv_loop from_text rs s)"

definition srt_close :: "srt_session \<Rightarrow> srt_session" where
  "srt_close s = s\<lparr> srt_open := False \<rparr>"

text \<open>\<open>srt_latency_from_env\<close>: the override when it is a positive number.\<close>

definition srt_latency_from_env :: "string option \<Rightarrow> nat" where
  "srt_latency_from_env env =
     (case Option.bind env (parse_uint u64_max) of
        Some ms \<Rightarrow> if ms > 0 then ms else DEFAULT_SRT_LATENCY_MS
      | None \<Rightarrow> DEFAULT_SRT_LATENCY_MS)"


section \<open>Everything a receiver gets out of a list of messages\<close>

fun srt_feed :: "(bytes \<Rightarrow> 'c option) \<Rightarrow> bytes list \<Rightarrow> rx_state \<Rightarrow> 'c session_packet list \<times> rx_state" where
  "srt_feed from_text [] rx = ([], rx)"
| "srt_feed from_text (m # ms) rx =
     (let (pkt, rx1) = decode_message from_text m rx;
          (pkts, rx2) = srt_feed from_text ms rx1
      in ((case pkt of Some p \<Rightarrow> p # pkts | None \<Rightarrow> pkts), rx2))"

lemma srt_feed_append:
  "srt_feed ft (xs @ ys) rx =
     (let (ps, rx1) = srt_feed ft xs rx; (qs, rx2) = srt_feed ft ys rx1 in (ps @ qs, rx2))"
  by (induction xs arbitrary: rx) (auto split: prod.splits option.splits)


section \<open>Chunks\<close>

lemma chunks_Nil [simp]: "chunks n [] = []"
  by (simp add: chunks.simps)

lemma concat_chunks: "0 < n \<Longrightarrow> concat (chunks n xs) = xs"
proof (induction n xs rule: chunks.induct)
  case (1 n xs)
  then show ?case by (cases "xs = []") (simp_all add: chunks.simps [of n xs])
qed

lemma length_chunks: "0 < n \<Longrightarrow> length (chunks n xs) = div_ceil (length xs) n"
proof (induction n xs rule: chunks.induct)
  case (1 n xs)
  show ?case
  proof (cases "xs = []")
    case False
    then have "length (chunks n xs) = Suc (div_ceil (length xs - n) n)"
      using 1 by (simp add: chunks.simps [of n xs])
    also have "\<dots> = div_ceil (length xs) n"
    proof (cases "length xs \<le> n")
      case True
      have "0 < length xs" using False by simp
      then have "div_ceil (length xs) n = 1"
        using True 1(2) Suc_leI [OF \<open>0 < length xs\<close>] unfolding div_ceil_def by (intro div_nat_eqI) auto
      moreover have "div_ceil (length xs - n) n = 0"
        using True 1(2) unfolding div_ceil_def by simp
      ultimately show ?thesis by simp
    next
      case False
      then have "length xs + n - 1 = (length xs - n + n - 1) + n" using 1(2) by simp
      then show ?thesis using 1(2) unfolding div_ceil_def by (metis Suc_eq_plus1 div_add_self2 not_less0)
    qed
    finally show ?thesis .
  qed (use 1(2) in \<open>simp add: div_ceil_def\<close>)
qed


section \<open>Fragments of one frame\<close>

lemma word_of_nat_unat: "word_of_nat (unat w) = (w :: 'a::len word)"
  by (simp add: word_eq_iff_unsigned)

text \<open>What the receiver delivers for a frame: fragment fields zero, length that
  of the payload.\<close>

definition whole_frame :: "frame \<Rightarrow> frame" where
  "whole_frame f =
     f\<lparr> f_header := (f_header f)\<lparr> fh_frag_idx := 0, fh_frag_cnt := 0,
                                 fh_len := u32_of_nat (length (f_payload f)) \<rparr> \<rparr>"

definition fragmented :: "frame \<Rightarrow> bool" where
  "fragmented f \<longleftrightarrow> FRAGMENT_LEN < length (f_payload f) \<and> length (f_payload f) \<le> 255 * FRAGMENT_LEN"

abbreviation frags :: "frame \<Rightarrow> bytes list" where
  "frags f \<equiv> chunks FRAGMENT_LEN (f_payload f)"

definition frag_msg :: "frame \<Rightarrow> nat \<Rightarrow> bytes" where
  "frag_msg f i = srt_fragment f (i, frags f ! i)"

text \<open>The state after the first \<open>j\<close> fragments.\<close>

definition collected :: "frame \<Rightarrow> nat \<Rightarrow> rx_state" where
  "collected f j = Some \<lparr> pf_header = frag_header (f_header f) 0 (frag_count f) (length (frags f ! 0)),
                          pf_frags = take j (frags f), pf_next = word_of_nat j \<rparr>"

lemma fragmented_count:
  assumes "fragmented f"
  shows "2 \<le> length (frags f)" "length (frags f) \<le> 255" "frag_count f = word_of_nat (length (frags f))"
proof -
  have l: "length (frags f) = div_ceil (length (f_payload f)) FRAGMENT_LEN"
    by (rule length_chunks) (simp add: FRAGMENT_LEN_def)
  show "2 \<le> length (frags f)" "length (frags f) \<le> 255"
    using assms unfolding l unfolding div_ceil_def fragmented_def FRAGMENT_LEN_def by simp_all linarith+
  show "frag_count f = word_of_nat (length (frags f))"
    by (simp add: frag_count_def l)
qed

lemma frags_nonempty: "fragmented f \<Longrightarrow> frags f \<noteq> []"
  using fragmented_count(1) [of f] by (metis list.size(3) not_numeral_le_zero)

lemma small_word_eq: "i < 256 \<Longrightarrow> j < 256 \<Longrightarrow> (word_of_nat i :: u8) = word_of_nat j \<longleftrightarrow> i = j"
  by (simp add: word_of_nat_eq_iff take_bit_nat_eq_self)

lemma small_word_eq_0: "i < 256 \<Longrightarrow> (word_of_nat i :: u8) = 0 \<longleftrightarrow> i = 0"
  using small_word_eq [of i 0] by simp

lemma frag_header_simps [simp]:
  "fh_seq (frag_header h i c n) = fh_seq h" "fh_frag_cnt (frag_header h i c n) = c"
  "fh_frag_idx (frag_header h i c n) = word_of_nat i"
  by (simp_all add: frag_header_def)

lemma decode_frag_msg:
  assumes "fragmented f"
  shows "decode_message ft (frag_msg f i) rx =
    push_fragment (frag_header (f_header f) i (frag_count f) (length (frags f ! i))) (frags f ! i) rx"
proof -
  have "frag_count f \<noteq> 0"
    using fragmented_count [OF assms] frags_nonempty [OF assms] by (simp add: small_word_eq_0)
  then show ?thesis
    by (simp add: decode_message_def frag_msg_def srt_fragment_def header_decode_encode)
qed

text \<open>A fragment either continues the frame being collected, or it restarts the
  receiver: with its own frame when it is the first one, with nothing otherwise.\<close>

lemma push_first:
  assumes "fragmented f" and "rx = None \<or> (\<exists>p. rx = Some p \<and> pf_next p \<noteq> 0)"
  shows "decode_message ft (frag_msg f 0) rx = (None, collected f 1)"
proof -
  have "take (Suc 0) (frags f) = [frags f ! 0]"
    using frags_nonempty [OF assms(1)] by (subst take_Suc_conv_app_nth) auto
  then show ?thesis
    using assms(2) by (auto simp: decode_frag_msg [OF assms(1)] push_fragment_def collected_def Let_def)
qed

lemma push_next:
  assumes "fragmented f" and "0 < j" and "Suc j < length (frags f)"
  shows "decode_message ft (frag_msg f j) (collected f j) = (None, collected f (Suc j))"
proof -
  have "word_of_nat j + 1 \<noteq> frag_count f"
    using assms fragmented_count [OF assms(1)] small_word_eq [of "Suc j" "length (frags f)"]
    by (simp add: add.commute)
  then show ?thesis
    using assms by (simp add: decode_frag_msg [OF assms(1)] push_fragment_def collected_def Let_def
      take_Suc_conv_app_nth)
qed

lemma push_last:
  assumes "fragmented f" and "0 < j" and "Suc j = length (frags f)"
  shows "decode_message ft (frag_msg f j) (collected f j) = (Some (MediaPkt (whole_frame f)), None)"
proof -
  have "(word_of_nat j + 1 :: u8) = frag_count f"
    using fragmented_count(3) [OF assms(1)] by (simp flip: assms(3))
  moreover have "take j (frags f) @ [frags f ! j] = frags f"
    using assms by (simp flip: take_Suc_conv_app_nth)
  moreover have "concat (frags f) = f_payload f"
    by (rule concat_chunks) (simp add: FRAGMENT_LEN_def)
  ultimately show ?thesis
    using assms by (simp add: decode_frag_msg [OF assms(1)] push_fragment_def collected_def Let_def
      whole_frame_def frag_header_def del: concat_append)
qed

lemma push_other:
  assumes "fragmented f" and "0 < i" "i < length (frags f)"
    and "rx = None \<or> (\<exists>p. rx = Some p \<and> (fh_seq (pf_header p) \<noteq> fh_seq (f_header f) \<or> pf_next p \<noteq> word_of_nat i))"
  shows "decode_message ft (frag_msg f i) rx = (None, None)"
proof -
  have "(word_of_nat i :: u8) \<noteq> 0"
    using assms(2,3) fragmented_count [OF assms(1)] by (simp add: small_word_eq_0)
  then show ?thesis
    using assms(4) by (auto simp: decode_frag_msg [OF assms(1)] push_fragment_def Let_def)
qed

lemma srt_messages_fragmented:
  assumes "fragmented f"
  shows "srt_messages tt (MediaPkt f) = Inr (map (frag_msg f) [0..<length (frags f)])"
proof -
  have "map (srt_fragment f) (enumerate 0 (frags f)) = map (frag_msg f) [0..<length (frags f)]"
    by (rule nth_equalityI) (simp_all add: nth_enumerate_eq frag_msg_def)
  then show ?thesis using assms by (simp add: srt_messages_def fragmented_def)
qed

lemma feed_fragments:
  assumes "fragmented f" and "0 < j" "j < length (frags f)"
  shows "srt_feed ft (map (frag_msg f) [j..<length (frags f)]) (collected f j) = ([MediaPkt (whole_frame f)], None)"
  using assms(2,3)
proof (induction "length (frags f) - j" arbitrary: j)
  case (Suc d)
  show ?case
  proof (cases "Suc j = length (frags f)")
    case True
    then show ?thesis using push_last [OF assms(1) Suc.prems(1) True, where ?ft = ft]
      by (simp add: upt_conv_Cons)
  next
    case False
    then have lt: "Suc j < length (frags f)" using Suc.prems by simp
    have "srt_feed ft (map (frag_msg f) [Suc j..<length (frags f)]) (collected f (Suc j)) = ([MediaPkt (whole_frame f)], None)"
      using Suc.hyps(1) [of "Suc j"] Suc.hyps(2) lt by simp
    then show ?thesis
      using push_next [OF assms(1) Suc.prems(1) lt, where ?ft = ft] Suc.prems by (simp add: upt_conv_Cons)
  qed
qed simp


text \<open>The states reachable from messages of a set of frames: nothing collected, or
  a proper prefix of the fragments of one of them.\<close>

definition rx_from :: "frame set \<Rightarrow> rx_state \<Rightarrow> bool" where
  "rx_from fs rx \<longleftrightarrow>
     rx = None \<or> (\<exists>f \<in> fs. fragmented f \<and> (\<exists>j. 0 < j \<and> j < length (frags f) \<and> rx = collected f j))"

lemma collected_next: "pf_next (the (collected f j)) = word_of_nat j"
  "fh_seq (pf_header (the (collected f j))) = fh_seq (f_header f)"
  by (simp_all add: collected_def)

lemma step_fragment:
  assumes inj: "inj_on (\<lambda>f. fh_seq (f_header f)) fs" and g: "g \<in> fs" "fragmented g" "i < length (frags g)"
    and rx: "rx_from fs rx"
  obtains pkt rx' where "decode_message ft (frag_msg g i) rx = (pkt, rx')"
    "pkt = None \<or> pkt = Some (MediaPkt (whole_frame g))" "rx_from fs rx'"
proof -
  have one: "rx_from fs (collected g 1)"
    using g(1,2) fragmented_count(1) [OF g(2)] unfolding rx_from_def
    by (intro disjI2 bexI [of _ g] conjI exI [of _ 1]) simp_all
  have none: "rx_from fs None" by (simp add: rx_from_def)
  from rx consider "rx = None"
    | f j where "f \<in> fs" "fragmented f" "0 < j" "j < length (frags f)" "rx = collected f j"
    unfolding rx_from_def by blast
  then show thesis
  proof cases
    case 1
    then show ?thesis
      using push_first [OF g(2), of rx ft] push_other [OF g(2) _ g(3), of rx ft] one none that
      by (cases "i = 0") auto
  next
    case 2
    have small: "i < 256" "j < 256"
      using g(3) 2(4) fragmented_count(2) [OF g(2)] fragmented_count(2) [OF 2(2)] by simp_all
    show ?thesis
    proof (cases "f = g \<and> i = j")
      case True
      then consider "Suc i < length (frags g)" | "Suc i = length (frags g)" using g(3) by linarith
      then show ?thesis
      proof cases
        case 1
        have "rx_from fs (collected g (Suc i))"
          using g(1,2) 1 unfolding rx_from_def by (intro disjI2 bexI [of _ g] conjI exI [of _ "Suc i"]) simp_all
        then show ?thesis using push_next [OF g(2) _ 1] 2 True that by auto
      next
        case 2
        then show ?thesis using push_last [OF g(2) _ 2] \<open>0 < j\<close> \<open>rx = collected f j\<close> True none that by auto
      qed
    next
      case False
      then have diff: "\<exists>p. rx = Some p \<and> (fh_seq (pf_header p) \<noteq> fh_seq (f_header g) \<or> pf_next p \<noteq> word_of_nat i)"
        using inj g(1) 2(1,5) small small_word_eq [of j i]
        by (auto simp: collected_def inj_on_def)
      have "\<exists>p. rx = Some p \<and> pf_next p \<noteq> 0"
        using 2(3,5) small by (auto simp: collected_def small_word_eq_0)
      then show ?thesis
        using push_first [OF g(2), of rx ft] push_other [OF g(2) _ g(3), of rx ft] diff one none that
        by (cases "i = 0") auto
    qed
  qed
qed

lemma step_message:
  assumes "inj_on (\<lambda>f. fh_seq (f_header f)) fs" "\<forall>f \<in> fs. whole_frame f = f"
    and "f \<in> fs" "srt_messages tt (MediaPkt f) = Inr ms" "m \<in> set ms" and "rx_from fs rx"
  obtains pkt rx' where "decode_message ft m rx = (pkt, rx')"
    "\<And>p. pkt = Some p \<Longrightarrow> p \<in> MediaPkt ` fs" "rx_from fs rx'"
proof (cases "fragmented f")
  case True
  then obtain i where "i < length (frags f)" "m = frag_msg f i"
    using assms(4,5) by (auto simp: srt_messages_fragmented)
  with step_fragment [OF assms(1,3) True this(1) assms(6), of ft] show thesis
    using that assms(2,3) by (metis image_eqI option.inject option.distinct(1))
next
  case False
  then have m: "m = 1 # header_encode (f_header f) @ f_payload f"
    using assms(4,5) by (auto simp: srt_messages_def fragmented_def Let_def split: if_splits)
  have "fh_frag_cnt (f_header f) = 0"
    using assms(2,3) by (cases f; cases "f_header f") (auto simp: whole_frame_def)
  then have "decode_message ft m rx = (Some (MediaPkt f), rx)"
    by (simp add: m decode_message_def header_decode_encode)
  then show thesis using that assms(3,6) by auto
qed

lemma feed_from_set:
  assumes "inj_on (\<lambda>f. fh_seq (f_header f)) fs" "\<forall>f \<in> fs. whole_frame f = f"
    and "set msgs \<subseteq> {m. \<exists>f \<in> fs. \<exists>ms. srt_messages tt (MediaPkt f) = Inr ms \<and> m \<in> set ms}"
    and "rx_from fs rx"
  shows "set (fst (srt_feed ft msgs rx)) \<subseteq> MediaPkt ` fs"
  using assms(3,4)
proof (induction msgs arbitrary: rx)
  case (Cons m msgs)
  then obtain f ms where f: "f \<in> fs" "srt_messages tt (MediaPkt f) = Inr ms" "m \<in> set ms" by auto
  obtain pkt rx' where s: "decode_message ft m rx = (pkt, rx')"
      "\<And>p. pkt = Some p \<Longrightarrow> p \<in> MediaPkt ` fs" "rx_from fs rx'"
    using step_message [OF assms(1,2) f Cons.prems(2), of ft] by blast
  have "set (fst (srt_feed ft msgs rx')) \<subseteq> MediaPkt ` fs"
    using Cons s(3) by simp
  then show ?case using s(1,2) by (auto split: prod.splits option.splits)
qed simp


section \<open>Properties\<close>

text \<open>
  C7. SRT delivers every frame it can carry: whatever the receiver was collecting
  before, feeding it the messages of one frame (one message up to 1400 payload
  bytes, fragments up to 255 times that) delivers exactly that frame, with its
  sequence number, time stamp, track and flags and the fragment fields cleared;
  a larger frame is refused before anything is sent.
\<close>

theorem srt_frame_roundtrip:
  assumes "fh_frag_cnt (f_header f) = 0" "fh_frag_idx (f_header f) = 0"
    and "unat (fh_len (f_header f)) = length (f_payload f)"
    and "rx = None \<or> (\<exists>p. rx = Some p \<and> pf_next p \<noteq> 0)"
  shows "case srt_messages tt (MediaPkt f) of
           Inr ms \<Rightarrow> length (f_payload f) \<le> 255 * FRAGMENT_LEN
                     \<and> fst (srt_feed ft ms rx) = [MediaPkt f]
         | Inl e \<Rightarrow> 255 * FRAGMENT_LEN < length (f_payload f)"
proof -
  have "u32_of_nat (length (f_payload f)) = fh_len (f_header f)"
    using word_of_nat_unat [of "fh_len (f_header f)"] unfolding assms(3) .
  then have whole: "whole_frame f = f"
    using assms(1,2) by (cases f; cases "f_header f") (simp add: whole_frame_def)
  consider "length (f_payload f) \<le> FRAGMENT_LEN" | "fragmented f" | "255 * FRAGMENT_LEN < length (f_payload f)"
    unfolding fragmented_def by linarith
  then show ?thesis
  proof cases
    case 1
    then show ?thesis using assms(1)
      by (simp add: srt_messages_def decode_message_def header_decode_encode)
  next
    case 2
    have "[0..<length (frags f)] = 0 # [1..<length (frags f)]"
      using fragmented_count(1) [OF 2] frags_nonempty [OF 2] by (subst upt_conv_Cons) simp_all
    then show ?thesis
      using feed_fragments [OF 2, of 1 ft] fragmented_count(1) [OF 2] push_first [OF 2 assms(4), of ft] 2
      by (simp add: srt_messages_fragmented [OF 2] whole fragmented_def)
  next
    case 3
    then show ?thesis by (simp add: srt_messages_def FRAGMENT_LEN_def)
  qed
qed

lemma srt_frame_roundtrip_witness:
  "case srt_messages (\<lambda>_ :: unit. []) (MediaPkt (frame_with_seq 0 1 1 40 7 (replicate 3 5))) of
     Inr ms \<Rightarrow> fst (srt_feed (\<lambda>_. None) ms None) = [MediaPkt (frame_with_seq 0 1 1 40 7 (replicate 3 5))]
   | Inl e \<Rightarrow> False"
  using srt_frame_roundtrip [of "frame_with_seq 0 1 1 40 7 (replicate 3 5)" None "\<lambda>_. None" "\<lambda>_ :: unit. []"]
  by (simp add: frame_with_seq_def FRAGMENT_LEN_def split: sum.splits)


text \<open>
  C8. Reassembly never mixes frames: as long as the frames of a connection carry
  distinct sequence numbers (the sender numbers them), whatever the network does
  to their messages (loss, reordering, duplication, any interleaving), every frame
  the receiver delivers is one of the frames sent, complete and with its own
  header.
\<close>

theorem srt_no_mixing:
  assumes "inj_on (\<lambda>f. fh_seq (f_header f)) fs"
    and "\<forall>f \<in> fs. whole_frame f = f"
    and "set msgs \<subseteq> {m. \<exists>f \<in> fs. \<exists>ms. srt_messages tt (MediaPkt f) = Inr ms \<and> m \<in> set ms}"
  shows "set (fst (srt_feed ft msgs None)) \<subseteq> MediaPkt ` fs"
  using feed_from_set [OF assms, of None] by (simp add: rx_from_def)

definition sample_small :: "u32 \<Rightarrow> frame" where
  "sample_small q = frame_with_seq 0 1 1 40 q [5, 6]"

definition small_msg :: "frame \<Rightarrow> bytes" where
  "small_msg f = 1 # header_encode (f_header f) @ f_payload f"

lemma srt_no_mixing_witness:
  "set (fst (srt_feed (\<lambda>_. None) [small_msg (sample_small 8), small_msg (sample_small 7), small_msg (sample_small 8)] None))
     \<subseteq> MediaPkt ` {sample_small 7, sample_small 8}"
proof -
  have msg: "srt_messages (\<lambda>_ :: unit. []) (MediaPkt (sample_small q)) = Inr [small_msg (sample_small q)]" for q
    by (simp add: srt_messages_def sample_small_def small_msg_def frame_with_seq_def FRAGMENT_LEN_def)
  show ?thesis
    by (rule srt_no_mixing [where tt = "\<lambda>_ :: unit. []"])
       (simp_all add: msg, simp_all add: sample_small_def whole_frame_def frame_with_seq_def inj_on_def)
qed

end
