(* ===== verification/Jitter.thy ===== *)
theory Jitter
  imports Frame
begin

text \<open>
  The receiver's jitter buffer (\<open>stross-pick/src/buffer.rs\<close>).  Durations and
  instants are nanoseconds counted by naturals, statistics are naturals.  Sequence
  numbers are 32-bit words with the code's wrap-around comparison.  A panic (the
  remainder by a zero capacity, \<open>clamp\<close> with crossed bounds) is the result
  \<open>None\<close> of an operation.
\<close>


section \<open>State\<close>

record jitter_config =
  jc_capacity :: nat
  jc_max_wait :: nat
  jc_min_wait :: nat
  jc_adaptive :: bool
  jc_require_keyframe_resync :: bool

definition jitter_config_default :: jitter_config where
  "jitter_config_default =
     \<lparr> jc_capacity = 512, jc_max_wait = 200000000, jc_min_wait = 10000000,
       jc_adaptive = True, jc_require_keyframe_resync = True \<rparr>"

record jitter_stats =
  js_received :: nat
  js_emitted :: nat
  js_dropped_out_of_window :: nat
  js_dropped_resync :: nat
  js_dropped_stale :: nat

record jitter_buffer =
  jb_cfg :: jitter_config
  jb_slots :: "frame option list"
  jb_next_seq :: "u32 option"
  jb_highest_seq :: "u32 option"
  jb_last_progress :: "nat option"
  jb_awaiting_keyframe :: bool
  jb_avg_interval :: "nat option"
  jb_jitter_est :: nat
  jb_last_arrival :: "nat option"
  jb_stats :: jitter_stats

abbreviation fseq :: "frame \<Rightarrow> u32" where
  "fseq f \<equiv> fh_seq (f_header f)"


section \<open>Operations\<close>

definition ewma :: "nat \<Rightarrow> nat \<Rightarrow> nat" where
  "ewma cur sample =
     (let diff = (if sample \<ge> cur then sample - cur else cur - sample)
      in if sample \<ge> cur then cur + diff div 8 else cur - diff div 8)"

definition seq_lt :: "u32 \<Rightarrow> u32 \<Rightarrow> bool" where
  "seq_lt a b \<longleftrightarrow> a - b \<ge> 0x80000000"

definition jitter_new :: "jitter_config \<Rightarrow> jitter_buffer" where
  "jitter_new cfg =
     \<lparr> jb_cfg = cfg, jb_slots = replicate (max (jc_capacity cfg) 1) None,
       jb_next_seq = None, jb_highest_seq = None, jb_last_progress = None,
       jb_awaiting_keyframe = False, jb_avg_interval = None, jb_jitter_est = 0,
       jb_last_arrival = None,
       jb_stats = \<lparr> js_received = 0, js_emitted = 0, js_dropped_out_of_window = 0,
                    js_dropped_resync = 0, js_dropped_stale = 0 \<rparr> \<rparr>"

definition clamp :: "nat \<Rightarrow> nat \<Rightarrow> nat \<Rightarrow> nat option" where
  "clamp lo hi x = (if hi < lo then None else Some (if x < lo then lo else if hi < x then hi else x))"

definition effective_wait :: "jitter_buffer \<Rightarrow> nat option" where
  "effective_wait jb =
     (if \<not> jc_adaptive (jb_cfg jb) then Some (jc_max_wait (jb_cfg jb))
      else clamp (jc_min_wait (jb_cfg jb)) (jc_max_wait (jb_cfg jb)) (jb_jitter_est jb * 4))"

definition upd_stats :: "(jitter_stats \<Rightarrow> jitter_stats) \<Rightarrow> jitter_buffer \<Rightarrow> jitter_buffer" where
  "upd_stats f jb = jb\<lparr> jb_stats := f (jb_stats jb) \<rparr>"

abbreviation stale :: "jitter_buffer \<Rightarrow> jitter_buffer" where
  "stale \<equiv> upd_stats (\<lambda>s. s\<lparr> js_dropped_stale := js_dropped_stale s + 1 \<rparr>)"

definition jitter_place :: "frame \<Rightarrow> jitter_buffer \<Rightarrow> jitter_buffer option" where
  "jitter_place f jb =
     (if jc_capacity (jb_cfg jb) = 0 then None
      else let idx = unat (fseq f) mod jc_capacity (jb_cfg jb) in
      if idx \<ge> length (jb_slots jb) then None
      else case jb_slots jb ! idx of
        Some existing \<Rightarrow>
          if seq_lt (fseq existing) (fseq f)
          then Some ((stale jb)\<lparr> jb_slots := (jb_slots jb)[idx := Some f] \<rparr>)
          else Some (stale jb)
      | None \<Rightarrow> Some (jb\<lparr> jb_slots := (jb_slots jb)[idx := Some f] \<rparr>))"

text \<open>The arrival statistics at the head of \<open>push\<close>.\<close>

definition jitter_arrival :: "nat \<Rightarrow> jitter_buffer \<Rightarrow> jitter_buffer" where
  "jitter_arrival now jb =
     (let jb1 = (case jb_last_arrival jb of
          None \<Rightarrow> jb
        | Some t \<Rightarrow>
            let interval = now - t;
                avg = (case jb_avg_interval jb of Some a \<Rightarrow> ewma a interval | None \<Rightarrow> interval);
                dev = (if interval \<ge> avg then interval - avg else avg - interval)
            in jb\<lparr> jb_avg_interval := Some avg, jb_jitter_est := ewma (jb_jitter_est jb) dev \<rparr>)
      in jb1\<lparr> jb_last_arrival := Some now \<rparr>)"

definition jitter_push :: "frame \<Rightarrow> nat \<Rightarrow> jitter_buffer \<Rightarrow> jitter_buffer option" where
  "jitter_push f now jb0 =
     (let jb = jitter_arrival now (upd_stats (\<lambda>s. s\<lparr> js_received := js_received s + 1 \<rparr>) jb0);
          seq = fseq f
      in if is_keyframe (f_header f) then
           if (case jb_next_seq jb of Some next \<Rightarrow> seq_lt seq next | None \<Rightarrow> False)
           then Some (stale jb)
           else jitter_place f
                  (jb\<lparr> jb_slots := map (\<lambda>_. None) (jb_slots jb), jb_next_seq := Some seq,
                       jb_highest_seq := Some seq, jb_awaiting_keyframe := False,
                       jb_last_progress := Some now \<rparr>)
         else if jb_awaiting_keyframe jb then
           Some (upd_stats (\<lambda>s. s\<lparr> js_dropped_resync := js_dropped_resync s + 1 \<rparr>) jb)
         else if (case jb_next_seq jb of Some next \<Rightarrow> seq_lt seq next | None \<Rightarrow> False)
           then Some (stale jb)
         else
           let jb1 = (case jb_next_seq jb of
                        None \<Rightarrow> jb\<lparr> jb_next_seq := Some seq, jb_last_progress := Some now \<rparr>
                      | Some _ \<Rightarrow> jb);
               high = (case jb_highest_seq jb1 of
                         None \<Rightarrow> seq | Some h \<Rightarrow> if seq_lt h seq then seq else h)
           in jitter_place f (jb1\<lparr> jb_highest_seq := Some high \<rparr>))"

definition jitter_ready :: "u32 \<Rightarrow> jitter_buffer \<Rightarrow> bool" where
  "jitter_ready next jb =
     (case jb_slots jb ! (unat next mod jc_capacity (jb_cfg jb)) of
        Some f \<Rightarrow> fseq f = next | None \<Rightarrow> False)"

definition jitter_overdue :: "nat \<Rightarrow> jitter_buffer \<Rightarrow> bool option" where
  "jitter_overdue now jb =
     (case jb_last_progress jb of
        None \<Rightarrow> Some False
      | Some t \<Rightarrow> map_option (\<lambda>w. now - t > w) (effective_wait jb))"

definition past_highest :: "u32 \<Rightarrow> jitter_buffer \<Rightarrow> bool" where
  "past_highest next jb = (case jb_highest_seq jb of Some h \<Rightarrow> seq_lt h next | None \<Rightarrow> False)"

definition take_slot :: "u32 \<Rightarrow> nat \<Rightarrow> jitter_buffer \<Rightarrow> jitter_buffer" where
  "take_slot next now jb =
     upd_stats (\<lambda>s. s\<lparr> js_emitted := js_emitted s + 1 \<rparr>)
       (jb\<lparr> jb_slots := (jb_slots jb)[unat next mod jc_capacity (jb_cfg jb) := None],
            jb_next_seq := Some (next + 1), jb_last_progress := Some now \<rparr>)"

definition skip_hole :: "u32 \<Rightarrow> jitter_buffer \<Rightarrow> jitter_buffer" where
  "skip_hole next jb =
     upd_stats (\<lambda>s. s\<lparr> js_dropped_out_of_window := js_dropped_out_of_window s + 1 \<rparr>)
       (jb\<lparr> jb_next_seq := Some (next + 1) \<rparr>)"

definition occupied :: "jitter_buffer \<Rightarrow> nat" where
  "occupied jb = length (filter (\<lambda>s. s \<noteq> None) (jb_slots jb))"

text \<open>\<open>self.cfg.capacity as u32\<close>.\<close>

definition max_holes :: "jitter_buffer \<Rightarrow> nat" where
  "max_holes jb = jc_capacity (jb_cfg jb) mod 4294967296"

text \<open>The loop of \<open>poll\<close>: it takes the slot under the cursor, or skips a hole, at
  most as many holes as there are slots.\<close>

lemma occupied_take:
  assumes "slots ! i = Some f" and "i < length slots"
  shows "length (filter (\<lambda>s. s \<noteq> None) (slots[i := None])) < length (filter (\<lambda>s. s \<noteq> None) slots)"
proof -
  obtain xs ys where "slots = xs @ Some f # ys" "length xs = i"
    using assms id_take_nth_drop [OF assms(2)] by (metis length_take min.absorb2 less_imp_le)
  then show ?thesis by (simp add: list_update_append)
qed

function poll_loop ::
  "nat \<Rightarrow> nat \<Rightarrow> jitter_buffer \<Rightarrow> (frame list \<times> jitter_buffer) option" where
  "poll_loop now holes jb =
     (case jb_next_seq jb of
        None \<Rightarrow> Some ([], jb)
      | Some next \<Rightarrow>
          let idx = unat next mod jc_capacity (jb_cfg jb) in
          if idx \<ge> length (jb_slots jb) then None
          else if jitter_ready next jb then
            (case jb_slots jb ! idx of
               Some f \<Rightarrow> map_option (\<lambda>(out, jb'). (f # out, jb')) (poll_loop now holes (take_slot next now jb))
             | None \<Rightarrow> None)
          else case jitter_overdue now jb of
            None \<Rightarrow> None
          | Some False \<Rightarrow> Some ([], jb)
          | Some True \<Rightarrow>
              if past_highest next jb then Some ([], jb)
              else if holes \<ge> max_holes jb then Some ([], jb)
              else if jc_require_keyframe_resync (jb_cfg jb)
                   then Some ([], (skip_hole next jb)\<lparr> jb_awaiting_keyframe := True \<rparr>)
              else poll_loop now (holes + 1) (skip_hole next jb))"
  by pat_completeness auto

termination
proof (relation "measures [\<lambda>(now, holes, jb). max_holes jb - holes, \<lambda>(now, holes, jb). occupied jb]")
  show "wf (measures [\<lambda>(now, holes, jb). max_holes jb - holes, \<lambda>(now, holes, jb). occupied jb])"
    by simp
qed (auto simp: take_slot_def skip_hole_def upd_stats_def occupied_def occupied_take max_holes_def
       simp del: not_None_eq)

declare poll_loop.simps [simp del]

definition jitter_poll :: "nat \<Rightarrow> jitter_buffer \<Rightarrow> (frame list \<times> jitter_buffer) option" where
  "jitter_poll now jb =
     (if jb_awaiting_keyframe jb then Some ([], jb)
      else case jb_next_seq jb of
        None \<Rightarrow> Some ([], jb)
      | Some next \<Rightarrow>
          if jc_capacity (jb_cfg jb) = 0 then None
          else if jitter_ready next jb then poll_loop now 0 jb
          else case jitter_overdue now jb of
            None \<Rightarrow> None
          | Some False \<Rightarrow> Some ([], jb)
          | Some True \<Rightarrow> if past_highest next jb then Some ([], jb) else poll_loop now 0 jb)"


section \<open>The waiting window\<close>

definition jitter_wf :: "jitter_buffer \<Rightarrow> bool" where
  "jitter_wf jb \<longleftrightarrow> 0 < jc_capacity (jb_cfg jb) \<and> length (jb_slots jb) = jc_capacity (jb_cfg jb)
     \<and> jc_min_wait (jb_cfg jb) \<le> jc_max_wait (jb_cfg jb)"

lemma clamp_bounds: "clamp lo hi x = Some y \<Longrightarrow> lo \<le> y \<and> y \<le> hi"
  by (auto simp: clamp_def split: if_splits)

lemma effective_wait_some: "jitter_wf jb \<Longrightarrow> \<exists>w. effective_wait jb = Some w"
  by (auto simp: jitter_wf_def effective_wait_def clamp_def)

lemma overdue_some: "jitter_wf jb \<Longrightarrow> \<exists>b. jitter_overdue now jb = Some b"
  using effective_wait_some [of jb] by (auto simp: jitter_overdue_def split: option.splits)

lemma ewma_between: "min a b \<le> ewma a b \<and> ewma a b \<le> max a b"
  by (auto simp: ewma_def Let_def min_def max_def)


section \<open>Well-formedness and totality\<close>

lemmas jitter_upd_defs = upd_stats_def take_slot_def skip_hole_def

lemma jitter_wf_updates [simp]:
  "jitter_wf (upd_stats f jb) = jitter_wf jb"
  "jitter_wf (take_slot n now jb) = jitter_wf jb"
  "jitter_wf (skip_hole n jb) = jitter_wf jb"
  "jitter_wf (jb\<lparr> jb_awaiting_keyframe := b \<rparr>) = jitter_wf jb"
  "jitter_wf (jb\<lparr> jb_highest_seq := h \<rparr>) = jitter_wf jb"
  "jitter_wf (jb\<lparr> jb_next_seq := h, jb_last_progress := t \<rparr>) = jitter_wf jb"
  by (simp_all add: jitter_wf_def jitter_upd_defs)

lemma jitter_wf_arrival [simp]: "jitter_wf (jitter_arrival now jb) = jitter_wf jb"
  by (simp add: jitter_wf_def jitter_arrival_def Let_def split: option.splits)

text \<open>Every frame received is emitted, counted as dropped, or in a slot, except
  those a key frame clears from the slots; \<open>jb_sum\<close> counts the former.\<close>

definition jb_sum :: "jitter_buffer \<Rightarrow> nat" where
  "jb_sum jb = js_emitted (jb_stats jb) + js_dropped_resync (jb_stats jb)
     + js_dropped_stale (jb_stats jb) + occupied jb"

abbreviation jb_received :: "jitter_buffer \<Rightarrow> nat" where
  "jb_received jb \<equiv> js_received (jb_stats jb)"

lemma occupied_put:
  assumes "slots ! i = None" and "i < length slots"
  shows "length (filter (\<lambda>s. s \<noteq> None) (slots[i := Some f])) = Suc (length (filter (\<lambda>s. s \<noteq> None) slots))"
proof -
  obtain xs ys where "slots = xs @ None # ys" "length xs = i"
    using assms id_take_nth_drop [OF assms(2)] by (metis length_take min.absorb2 less_imp_le)
  then show ?thesis by (simp add: list_update_append)
qed

lemma occupied_swap:
  assumes "slots ! i = Some g" and "i < length slots"
  shows "length (filter (\<lambda>s. s \<noteq> None) (slots[i := Some f])) = length (filter (\<lambda>s. s \<noteq> None) slots)"
    and "Suc (length (filter (\<lambda>s. s \<noteq> None) (slots[i := None]))) = length (filter (\<lambda>s. s \<noteq> None) slots)"
proof -
  obtain xs ys where "slots = xs @ Some g # ys" "length xs = i"
    using assms id_take_nth_drop [OF assms(2)] by (metis length_take min.absorb2 less_imp_le)
  then show "length (filter (\<lambda>s. s \<noteq> None) (slots[i := Some f])) = length (filter (\<lambda>s. s \<noteq> None) slots)"
    "Suc (length (filter (\<lambda>s. s \<noteq> None) (slots[i := None]))) = length (filter (\<lambda>s. s \<noteq> None) slots)"
    by (simp_all add: list_update_append)
qed

lemma jitter_place_ok:
  assumes "jitter_wf jb"
  shows "\<exists>jb'. jitter_place f jb = Some jb' \<and> jitter_wf jb' \<and> jb_received jb' = jb_received jb
           \<and> jb_sum jb' = jb_sum jb + 1"
proof -
  let ?i = "unat (fseq f) mod jc_capacity (jb_cfg jb)"
  have i: "?i < length (jb_slots jb)" and cap: "jc_capacity (jb_cfg jb) \<noteq> 0"
    using assms by (simp_all add: jitter_wf_def)
  have ni: "\<not> length (jb_slots jb) \<le> ?i" using i by (simp only: not_le)
  show ?thesis
  proof (cases "jb_slots jb ! ?i")
    case None
    then show ?thesis using assms ni cap None occupied_put [OF None i]
      by (simp add: jitter_place_def Let_def jb_sum_def occupied_def jitter_wf_def del: not_None_eq)
  next
    case (Some g)
    show ?thesis using assms ni cap Some occupied_swap [OF Some i]
      by (simp add: jitter_place_def Let_def jb_sum_def occupied_def jitter_wf_def upd_stats_def del: not_None_eq)
  qed
qed

text \<open>What \<open>push\<close> does: it counts the frame, then drops it or places it.\<close>

lemma jitter_push_cases:
  "\<exists>x. (jitter_wf jb \<longrightarrow> jitter_wf x) \<and> jb_received x = jb_received jb + 1
     \<and> (jitter_push f now jb = Some x \<and> jb_sum x = jb_sum jb + 1
        \<or> jitter_push f now jb = jitter_place f x \<and> jb_sum x \<le> jb_sum jb)"
proof -
  define y where "y = jitter_arrival now (upd_stats (\<lambda>s. s\<lparr> js_received := js_received s + 1 \<rparr>) jb)"
  have y: "jitter_wf jb \<longrightarrow> jitter_wf y" "jb_received y = jb_received jb + 1" "jb_sum y = jb_sum jb"
    by (simp_all add: y_def, simp_all add: jitter_arrival_def upd_stats_def jb_sum_def occupied_def Let_def
        split: option.splits)
  have st: "jb_received (stale y) = jb_received jb + 1" "jb_sum (stale y) = jb_sum jb + 1"
    using y(2,3) by (simp_all add: upd_stats_def jb_sum_def occupied_def)
  show ?thesis
  proof (cases "is_keyframe (f_header f)")
    case True
    let ?z = "y\<lparr> jb_slots := map (\<lambda>_. None) (jb_slots y), jb_next_seq := Some (fseq f),
                jb_highest_seq := Some (fseq f), jb_awaiting_keyframe := False, jb_last_progress := Some now \<rparr>"
    have z: "jitter_wf y \<longrightarrow> jitter_wf ?z" "jb_received ?z = jb_received y" "jb_sum ?z \<le> jb_sum y"
      by (simp_all add: jitter_wf_def jb_sum_def occupied_def)
    have "jitter_push f now jb = Some (stale y) \<or> jitter_push f now jb = jitter_place f ?z"
      using True unfolding jitter_push_def y_def [symmetric] Let_def by simp
    then show ?thesis
    proof
      assume "jitter_push f now jb = Some (stale y)"
      then show ?thesis using st y(1) by (intro exI [of _ "stale y"]) simp
    next
      assume "jitter_push f now jb = jitter_place f ?z"
      then show ?thesis using z y by (intro exI [of _ ?z]) simp
    qed
  next
    case False
    let ?r = "upd_stats (\<lambda>s. s\<lparr> js_dropped_resync := js_dropped_resync s + 1 \<rparr>) y"
    let ?w = "(case jb_next_seq y of None \<Rightarrow> y\<lparr> jb_next_seq := Some (fseq f), jb_last_progress := Some now \<rparr> | Some _ \<Rightarrow> y)"
    let ?z = "?w\<lparr> jb_highest_seq := Some (case jb_highest_seq ?w of None \<Rightarrow> fseq f | Some h \<Rightarrow> if seq_lt h (fseq f) then fseq f else h) \<rparr>"
    have r: "jb_received ?r = jb_received jb + 1" "jb_sum ?r = jb_sum jb + 1"
      using y(2,3) by (simp_all add: upd_stats_def jb_sum_def occupied_def)
    have z: "jitter_wf y \<longrightarrow> jitter_wf ?z" "jb_received ?z = jb_received y" "jb_sum ?z \<le> jb_sum y"
      by (simp_all add: jitter_wf_def jb_sum_def occupied_def split: option.splits)
    have "jitter_push f now jb = Some (stale y) \<or> jitter_push f now jb = Some ?r \<or> jitter_push f now jb = jitter_place f ?z"
      using False unfolding jitter_push_def y_def [symmetric] Let_def by simp
    then show ?thesis
    proof (elim disjE)
      assume "jitter_push f now jb = Some (stale y)"
      then show ?thesis using st y(1) by (intro exI [of _ "stale y"]) simp
    next
      assume "jitter_push f now jb = Some ?r"
      then show ?thesis using r y(1) by (intro exI [of _ ?r]) simp
    next
      assume "jitter_push f now jb = jitter_place f ?z"
      then show ?thesis using z y by (intro exI [of _ ?z]) simp
    qed
  qed
qed

lemma jitter_push_ok:
  assumes "jitter_wf jb"
  shows "\<exists>jb'. jitter_push f now jb = Some jb' \<and> jitter_wf jb' \<and> jb_received jb' = jb_received jb + 1
           \<and> jb_sum jb' \<le> jb_sum jb + 1"
proof -
  obtain x where x: "jitter_wf x" "jb_received x = jb_received jb + 1"
      "jitter_push f now jb = Some x \<and> jb_sum x = jb_sum jb + 1
       \<or> jitter_push f now jb = jitter_place f x \<and> jb_sum x \<le> jb_sum jb"
    using jitter_push_cases [of jb f now] assms by blast
  then show ?thesis using jitter_place_ok [OF x(1), of f] by auto
qed

lemma take_slot_account:
  assumes "jitter_wf jb" "jb_slots jb ! (unat n mod jc_capacity (jb_cfg jb)) = Some f"
  shows "jb_sum (take_slot n now jb) = jb_sum jb" "jb_received (take_slot n now jb) = jb_received jb"
    "js_emitted (jb_stats (take_slot n now jb)) = Suc (js_emitted (jb_stats jb))"
proof -
  have "unat n mod jc_capacity (jb_cfg jb) < length (jb_slots jb)"
    using assms(1) by (simp add: jitter_wf_def)
  from occupied_swap(2) [OF assms(2) this]
  show "jb_sum (take_slot n now jb) = jb_sum jb" "jb_received (take_slot n now jb) = jb_received jb"
    "js_emitted (jb_stats (take_slot n now jb)) = Suc (js_emitted (jb_stats jb))"
    by (simp_all add: jb_sum_def occupied_def take_slot_def upd_stats_def del: not_None_eq)
qed

lemma skip_hole_account:
  "jb_sum (skip_hole n jb) = jb_sum jb" "jb_received (skip_hole n jb) = jb_received jb"
  "js_emitted (jb_stats (skip_hole n jb)) = js_emitted (jb_stats jb)"
  "jb_sum (jb\<lparr> jb_awaiting_keyframe := b \<rparr>) = jb_sum jb"
  by (simp_all add: jb_sum_def occupied_def skip_hole_def upd_stats_def)

text \<open>One result of the loop: the frames it hands out, their sequence numbers
  counted from the cursor, and what it leaves.\<close>

definition cursor_result :: "jitter_buffer \<Rightarrow> nat \<Rightarrow> u32 \<Rightarrow> frame list \<Rightarrow> jitter_buffer \<Rightarrow> bool" where
  "cursor_result jb holes n out jb' \<longleftrightarrow>
     (\<exists>ks m. map fseq out = map (\<lambda>k. n + word_of_nat k) ks \<and> sorted_wrt (<) ks
        \<and> (\<forall>k \<in> set ks. k < m) \<and> jb_next_seq jb' = Some (n + word_of_nat m)
        \<and> m \<le> length out + (max_holes jb - holes)
        \<and> (jc_require_keyframe_resync (jb_cfg jb) \<longrightarrow> ks = [0..<length out]))"

definition loop_result :: "jitter_buffer \<Rightarrow> nat \<Rightarrow> frame list \<Rightarrow> jitter_buffer \<Rightarrow> bool" where
  "loop_result jb holes out jb' \<longleftrightarrow>
     jitter_wf jb' \<and> jb_received jb' = jb_received jb \<and> jb_sum jb' = jb_sum jb
     \<and> js_emitted (jb_stats jb') = js_emitted (jb_stats jb) + length out
     \<and> jb_cfg jb' = jb_cfg jb
     \<and> (\<forall>f \<in> set out. Some f \<in> set (jb_slots jb))
     \<and> (\<forall>n. jb_next_seq jb = Some n \<longrightarrow> cursor_result jb holes n out jb')"

lemma loop_result_stop:
  assumes "jitter_wf jb"
  shows "loop_result jb holes [] jb"
  unfolding loop_result_def cursor_result_def using assms by (auto intro!: exI [of _ 0])

lemma loop_result_resync:
  assumes "jitter_wf jb" "jb_next_seq jb = Some n" "holes < max_holes jb"
  shows "loop_result jb holes [] ((skip_hole n jb)\<lparr> jb_awaiting_keyframe := True \<rparr>)"
  unfolding loop_result_def cursor_result_def using assms
  by (auto simp: jb_sum_def occupied_def skip_hole_def upd_stats_def jitter_wf_def intro!: exI [of _ 1])

lemma loop_result_take:
  assumes wf: "jitter_wf jb" and n: "jb_next_seq jb = Some n"
    and slot: "jb_slots jb ! (unat n mod jc_capacity (jb_cfg jb)) = Some f" "fseq f = n"
    and r: "loop_result (take_slot n now jb) holes out jb'"
  shows "loop_result jb holes (f # out) jb'"
proof -
  have idx: "unat n mod jc_capacity (jb_cfg jb) < length (jb_slots jb)"
    using wf by (simp add: jitter_wf_def)
  have sub: "Some g \<in> set (jb_slots (take_slot n now jb)) \<Longrightarrow> Some g \<in> set (jb_slots jb)" for g
    using set_update_subset_insert [of "jb_slots jb" _ None]
    by (auto simp: take_slot_def upd_stats_def)
  have mem: "Some f \<in> set (jb_slots jb)" using slot(1) idx by (metis nth_mem)
  have nx: "jb_next_seq (take_slot n now jb) = Some (n + 1)" "jb_cfg (take_slot n now jb) = jb_cfg jb"
    by (simp_all add: take_slot_def upd_stats_def)
  obtain ks m where k: "map fseq out = map (\<lambda>k. n + 1 + word_of_nat k) ks" "sorted_wrt (<) ks"
      "\<forall>k \<in> set ks. k < m" "jb_next_seq jb' = Some (n + 1 + word_of_nat m)"
      "m \<le> length out + (max_holes jb - holes)"
      "jc_require_keyframe_resync (jb_cfg jb) \<longrightarrow> ks = [0..<length out]"
    using r nx unfolding loop_result_def cursor_result_def max_holes_def by auto
  have "map fseq (f # out) = map (\<lambda>k. n + word_of_nat k) (0 # map Suc ks)"
    using k(1) slot(2) by (simp add: comp_def add.assoc)
  moreover have "sorted_wrt (<) (0 # map Suc ks)" "\<forall>k \<in> set (0 # map Suc ks). k < Suc m"
    using k(2,3) by (auto simp: sorted_wrt_map)
  moreover have "jb_next_seq jb' = Some (n + word_of_nat (Suc m))"
    using k(4) by (simp add: add.assoc)
  moreover have "Suc m \<le> length (f # out) + (max_holes jb - holes)" using k(5) by simp
  moreover have "jc_require_keyframe_resync (jb_cfg jb) \<longrightarrow> 0 # map Suc ks = [0..<length (f # out)]"
    using k(6) map_Suc_upt [of 0 "length out"] upt_conv_Cons [of 0 "length (f # out)"]
    by (simp del: upt_Suc)
  ultimately have "cursor_result jb holes n (f # out) jb'"
    unfolding cursor_result_def by (intro exI [of _ "0 # map Suc ks"] exI [of _ "Suc m"] conjI)
  then show ?thesis
    using r n nx(2) mem sub take_slot_account [OF wf slot(1), of now] unfolding loop_result_def by auto
qed

lemma loop_result_skip:
  assumes n: "jb_next_seq jb = Some n" and h: "holes < max_holes jb"
    and nr: "\<not> jc_require_keyframe_resync (jb_cfg jb)"
    and r: "loop_result (skip_hole n jb) (holes + 1) out jb'"
  shows "loop_result jb holes out jb'"
proof -
  have nx: "jb_next_seq (skip_hole n jb) = Some (n + 1)" "jb_cfg (skip_hole n jb) = jb_cfg jb"
    "jb_slots (skip_hole n jb) = jb_slots jb"
    by (simp_all add: skip_hole_def upd_stats_def)
  obtain ks m where k: "map fseq out = map (\<lambda>k. n + 1 + word_of_nat k) ks" "sorted_wrt (<) ks"
      "\<forall>k \<in> set ks. k < m" "jb_next_seq jb' = Some (n + 1 + word_of_nat m)"
      "m \<le> length out + (max_holes jb - (holes + 1))"
    using r nx unfolding loop_result_def cursor_result_def max_holes_def by auto
  have "map fseq out = map (\<lambda>k. n + word_of_nat k) (map Suc ks)"
    using k(1) by (simp add: comp_def add.assoc)
  moreover have "sorted_wrt (<) (map Suc ks)" "\<forall>k \<in> set (map Suc ks). k < Suc m"
    using k(2,3) by (auto simp: sorted_wrt_map)
  moreover have "jb_next_seq jb' = Some (n + word_of_nat (Suc m))"
    using k(4) by (simp add: add.assoc)
  moreover have "Suc m \<le> length out + (max_holes jb - holes)" using k(5) h by simp
  ultimately have "cursor_result jb holes n out jb'"
    unfolding cursor_result_def using nr by (intro exI [of _ "map Suc ks"] exI [of _ "Suc m"] conjI) simp_all
  then show ?thesis
    using r n nx(2,3) skip_hole_account(1-3) [of n jb] unfolding loop_result_def by simp
qed

text \<open>On a well-formed buffer the loop always ends without a panic.\<close>

lemma poll_loop_result:
  "jitter_wf jb \<Longrightarrow> \<exists>out jb'. poll_loop now holes jb = Some (out, jb') \<and> loop_result jb holes out jb'"
proof (induction now holes jb rule: poll_loop.induct)
  case (1 now holes jb)
  show ?case
  proof (cases "jb_next_seq jb")
    case None
    then show ?thesis using loop_result_stop [OF 1(3)] by (simp add: poll_loop.simps)
  next
    case (Some n)
    let ?idx = "unat n mod jc_capacity (jb_cfg jb)"
    have "?idx < length (jb_slots jb)" using 1(3) by (simp add: jitter_wf_def)
    then have idx: "\<not> length (jb_slots jb) \<le> ?idx" by (simp only: not_le)
    show ?thesis
    proof (cases "jitter_ready n jb")
      case True
      then obtain f where f: "jb_slots jb ! ?idx = Some f" "fseq f = n"
        by (auto simp: jitter_ready_def split: option.splits)
      obtain out jb' where r: "poll_loop now holes (take_slot n now jb) = Some (out, jb')"
          "loop_result (take_slot n now jb) holes out jb'"
        using 1(1) [OF Some refl idx True f(1)] 1(3) by auto
      have "poll_loop now holes jb = Some (f # out, jb')"
        using idx True f r(1) Some by (subst poll_loop.simps) (simp add: Let_def)
      then show ?thesis using loop_result_take [OF 1(3) Some f r(2)] by blast
    next
      case False
      obtain b where b: "jitter_overdue now jb = Some b" using overdue_some [OF 1(3)] by blast
      let ?go = "b \<and> \<not> past_highest n jb \<and> holes < max_holes jb"
      consider "\<not> ?go" | "?go" "jc_require_keyframe_resync (jb_cfg jb)" | "?go" "\<not> jc_require_keyframe_resync (jb_cfg jb)"
        by blast
      then show ?thesis
      proof cases
        case 1
        then have "poll_loop now holes jb = Some ([], jb)"
          using idx False Some b by (subst poll_loop.simps) (auto simp: Let_def split: bool.splits)
        then show ?thesis using loop_result_stop [OF \<open>jitter_wf jb\<close>] by blast
      next
        case 2
        then have "poll_loop now holes jb = Some ([], (skip_hole n jb)\<lparr> jb_awaiting_keyframe := True \<rparr>)"
          using idx False Some b by (subst poll_loop.simps) (simp add: Let_def)
        then show ?thesis using loop_result_resync [OF \<open>jitter_wf jb\<close> Some] 2 by blast
      next
        case 3
        then obtain out jb' where r: "poll_loop now (holes + 1) (skip_hole n jb) = Some (out, jb')"
            "loop_result (skip_hole n jb) (holes + 1) out jb'"
          using 1(2) [OF Some refl idx False, of True] b \<open>jitter_wf jb\<close> by auto
        have "poll_loop now holes jb = Some (out, jb')"
          using idx False Some b 3 r(1) by (subst poll_loop.simps) (simp add: Let_def)
        then show ?thesis using loop_result_skip [OF Some _ _ r(2)] 3 by blast
      qed
    qed
  qed
qed

lemma jitter_poll_result:
  assumes "jitter_wf jb"
  shows "\<exists>out jb'. jitter_poll now jb = Some (out, jb') \<and> loop_result jb 0 out jb'"
proof -
  obtain b where "jitter_overdue now jb = Some b" using overdue_some [OF assms] by blast
  moreover have "jc_capacity (jb_cfg jb) \<noteq> 0" using assms by (simp add: jitter_wf_def)
  ultimately show ?thesis
    using loop_result_stop [OF assms, of 0] poll_loop_result [OF assms, of now 0]
    by (auto simp: jitter_poll_def split: option.splits bool.splits)
qed


text \<open>The constructor accepts a zero capacity and allots one slot, but the index
  computation then divides by zero at the first frame.\<close>

lemma jitter_zero_capacity_panics:
  "jc_capacity cfg = 0 \<Longrightarrow> jitter_push f now (jitter_new cfg) = None"
  by (auto simp: jitter_push_def jitter_new_def jitter_arrival_def upd_stats_def jitter_place_def Let_def)


section \<open>Runs\<close>

datatype jitter_event = JPush frame nat | JPoll nat

text \<open>A panic would leave the buffer as it is; on a well-formed buffer there is none.\<close>

fun jitter_step :: "jitter_event \<Rightarrow> jitter_buffer \<Rightarrow> jitter_buffer" where
  "jitter_step (JPush f now) jb = (case jitter_push f now jb of Some jb' \<Rightarrow> jb' | None \<Rightarrow> jb)"
| "jitter_step (JPoll now) jb = (case jitter_poll now jb of Some (_, jb') \<Rightarrow> jb' | None \<Rightarrow> jb)"

definition jitter_inv :: "jitter_buffer \<Rightarrow> bool" where
  "jitter_inv jb \<longleftrightarrow> jitter_wf jb \<and> jb_sum jb \<le> jb_received jb"

interpretation jitter: stepper jitter_step jitter_inv
proof
  fix s ev assume "jitter_inv s"
  then show "jitter_inv (jitter_step ev s)"
  proof (cases ev)
    case (JPush f now)
    then show ?thesis using jitter_push_ok [of s f now] \<open>jitter_inv s\<close> by (auto simp: jitter_inv_def)
  next
    case (JPoll now)
    then show ?thesis using jitter_poll_result [of s now] \<open>jitter_inv s\<close>
      by (auto simp: jitter_inv_def loop_result_def)
  qed
qed

definition jitter_config_ok :: "jitter_config \<Rightarrow> bool" where
  "jitter_config_ok cfg \<longleftrightarrow> 0 < jc_capacity cfg \<and> jc_min_wait cfg \<le> jc_max_wait cfg"

lemma jitter_inv_new: "jitter_config_ok cfg \<Longrightarrow> jitter_inv (jitter_new cfg)"
  by (simp add: jitter_inv_def jitter_wf_def jitter_new_def jb_sum_def occupied_def jitter_config_ok_def)


section \<open>Properties\<close>

text \<open>
  C29. The jitter buffer stays sound: from a new buffer with a positive capacity
  and ordered waiting bounds, after any pushes and polls, neither push nor poll
  can panic, the waiting window lies between its bounds, and no more frames are
  emitted, dropped or buffered than were received.
\<close>

theorem jitter_run_sound:
  assumes "jitter_config_ok cfg" and "jb = fold jitter_step evs (jitter_new cfg)"
  shows "jitter_push f now jb \<noteq> None \<and> jitter_poll now jb \<noteq> None
       \<and> js_emitted (jb_stats jb) + js_dropped_resync (jb_stats jb) + js_dropped_stale (jb_stats jb)
           + occupied jb \<le> js_received (jb_stats jb)
       \<and> (\<exists>w. effective_wait jb = Some w \<and>
            (jc_adaptive (jb_cfg jb) \<longrightarrow> jc_min_wait (jb_cfg jb) \<le> w) \<and> w \<le> jc_max_wait (jb_cfg jb))"
proof -
  have inv: "jitter_inv jb"
    unfolding assms(2) by (rule jitter.fold_inv [OF jitter_inv_new [OF assms(1)]])
  then have wf: "jitter_wf jb" by (simp add: jitter_inv_def)
  obtain w where w: "effective_wait jb = Some w" using effective_wait_some [OF wf] by blast
  then have "(jc_adaptive (jb_cfg jb) \<longrightarrow> jc_min_wait (jb_cfg jb) \<le> w) \<and> w \<le> jc_max_wait (jb_cfg jb)"
    by (auto simp: effective_wait_def clamp_def split: if_splits)
  then show ?thesis
    using inv w jitter_push_ok [OF wf, of f now] jitter_poll_result [OF wf, of now]
    by (auto simp: jitter_inv_def jb_sum_def)
qed

lemma jitter_run_sound_witness:
  "jitter_poll 5 (fold jitter_step [JPush (frame_with_seq 0 1 1 0 3 []) 1, JPoll 2] (jitter_new jitter_config_default)) \<noteq> None"
  using jitter_run_sound [OF _ refl, of jitter_config_default _ 5 "[JPush (frame_with_seq 0 1 1 0 3 []) 1, JPoll 2]"]
  by (simp add: jitter_config_ok_def jitter_config_default_def)

text \<open>
  A poll emits in order and without gaps it must not have: from the cursor on,
  the frames of one poll have increasing sequence numbers (counted modulo 2^32 from
  the cursor), each was in the buffer, the cursor ends behind the last one and has
  skipped at most as many holes as there are slots; on a video track, which resyncs
  at key frames, the frames are consecutive, with no hole inside the output.
\<close>

theorem jitter_poll_ordered:
  assumes "jitter_wf jb" and "jitter_poll now jb = Some (out, jb')" and "jb_next_seq jb = Some n"
  shows "\<exists>ks m. map fseq out = map (\<lambda>k. n + word_of_nat k) ks \<and> sorted_wrt (<) ks
           \<and> (\<forall>k \<in> set ks. k < m) \<and> jb_next_seq jb' = Some (n + word_of_nat m)
           \<and> m \<le> length out + jc_capacity (jb_cfg jb)
           \<and> (\<forall>f \<in> set out. Some f \<in> set (jb_slots jb))
           \<and> (jc_require_keyframe_resync (jb_cfg jb) \<longrightarrow> ks = [0..<length out])"
proof -
  have r: "loop_result jb 0 out jb'" using jitter_poll_result [OF assms(1), of now] assms(2) by auto
  have cap: "max_holes jb \<le> jc_capacity (jb_cfg jb)" by (simp add: max_holes_def)
  have mem: "\<forall>f \<in> set out. Some f \<in> set (jb_slots jb)" and "cursor_result jb 0 n out jb'"
    using r assms(3) by (simp_all add: loop_result_def)
  then obtain ks m where "map fseq out = map (\<lambda>k. n + word_of_nat k) ks" "sorted_wrt (<) ks"
      "\<forall>k \<in> set ks. k < m" "jb_next_seq jb' = Some (n + word_of_nat m)" "m \<le> length out + max_holes jb"
      "jc_require_keyframe_resync (jb_cfg jb) \<longrightarrow> ks = [0..<length out]"
    unfolding cursor_result_def by auto
  with mem cap show ?thesis by (intro exI [of _ ks] exI [of _ m]) auto
qed

definition sample_jitter :: jitter_buffer where
  "sample_jitter = fold jitter_step [JPush (frame_with_seq 0 1 1 0 0 []) 1, JPush (frame_with_seq 0 1 0 0 1 []) 1]
     (jitter_new \<lparr> jc_capacity = 2, jc_max_wait = 3, jc_min_wait = 1, jc_adaptive = True,
                   jc_require_keyframe_resync = True \<rparr>)"

lemma jitter_poll_ordered_witness:
  "\<exists>out jb' ks. jitter_poll 2 sample_jitter = Some (out, jb') \<and> map fseq out = map word_of_nat ks \<and> ks = [0..<length out]"
proof -
  have wf: "jitter_wf sample_jitter" "jb_next_seq sample_jitter = Some 0"
    "jc_require_keyframe_resync (jb_cfg sample_jitter)" by code_simp+
  obtain out jb' where "jitter_poll 2 sample_jitter = Some (out, jb')"
    using jitter_poll_result [OF wf(1)] by blast
  with jitter_poll_ordered [OF wf(1) this wf(2)] wf(3) show ?thesis by auto
qed

end
