(* ===== verification/Ids.thy ===== *)
theory Ids
  imports Rust_Text "HOL-Library.Product_Lexorder"
begin

text \<open>
  Identifiers and wire enumerations of \<open>stross-proto/src/message/ids\<close> and
  \<open>message/endpoint.rs\<close>: media kinds, profiles, pick rules and strategies with
  their wire strings, endpoint, node and link ids with their text forms, and the
  derivation of the semantic stream id every subscriber computes for itself.
\<close>


section \<open>Enumerations and their wire strings\<close>

datatype codec_id = H264 | Aac | Opus | Av1

datatype media_kind =
  Screen | Window | Camera | Mic | SystemAudio | Input | Clipboard | File | Service

datatype transport_id = Ws | WebRtc | Srt | Quic | Memory

datatype profile = Lossless | Lossy | Adaptive

datatype pick_rule = Realtime | StrictOrdered | PickNone

datatype delivery = Pull | Push | Both

datatype endpoint_state = Idle | Active | Suspended

datatype strategy_id = StrategyDefault | Passthrough | Chunked

datatype serialize_rule = SerPassthrough | SerChunked

fun media_kind_as_str :: "media_kind \<Rightarrow> string" where
  "media_kind_as_str Screen = ''screen''"
| "media_kind_as_str Window = ''window''"
| "media_kind_as_str Camera = ''camera''"
| "media_kind_as_str Mic = ''mic''"
| "media_kind_as_str SystemAudio = ''systemAudio''"
| "media_kind_as_str Input = ''input''"
| "media_kind_as_str Clipboard = ''clipboard''"
| "media_kind_as_str File = ''file''"
| "media_kind_as_str Service = ''service''"

definition media_kind_from_wire :: "string \<Rightarrow> media_kind option" where
  "media_kind_from_wire s =
     (if s = ''screen'' then Some Screen
      else if s = ''window'' then Some Window
      else if s = ''camera'' then Some Camera
      else if s = ''mic'' then Some Mic
      else if s = ''systemAudio'' then Some SystemAudio
      else if s = ''input'' then Some Input
      else if s = ''clipboard'' then Some Clipboard
      else if s = ''file'' then Some File
      else if s = ''service'' then Some Service
      else None)"

fun delivery_as_str :: "delivery \<Rightarrow> string" where
  "delivery_as_str Pull = ''pull''"
| "delivery_as_str Push = ''push''"
| "delivery_as_str Both = ''both''"

definition delivery_from_wire :: "string \<Rightarrow> delivery option" where
  "delivery_from_wire s =
     (if s = ''pull'' then Some Pull else if s = ''push'' then Some Push
      else if s = ''both'' then Some Both else None)"

fun state_as_str :: "endpoint_state \<Rightarrow> string" where
  "state_as_str Idle = ''idle''"
| "state_as_str Active = ''active''"
| "state_as_str Suspended = ''suspended''"

definition state_from_wire :: "string \<Rightarrow> endpoint_state option" where
  "state_from_wire s =
     (if s = ''idle'' then Some Idle else if s = ''active'' then Some Active
      else if s = ''suspended'' then Some Suspended else None)"

fun strategy_as_str :: "strategy_id \<Rightarrow> string" where
  "strategy_as_str StrategyDefault = ''default''"
| "strategy_as_str Passthrough = ''passthrough''"
| "strategy_as_str Chunked = ''chunked''"

definition strategy_from_wire :: "string \<Rightarrow> strategy_id option" where
  "strategy_from_wire s =
     (if s = ''default'' then Some StrategyDefault
      else if s = ''passthrough'' then Some Passthrough
      else if s = ''chunked'' then Some Chunked else None)"

text \<open>\<open>From<&str>\<close>: an unknown strategy falls back to the default one.\<close>

definition strategy_from_str :: "string \<Rightarrow> strategy_id" where
  "strategy_from_str s = (case strategy_from_wire s of Some i \<Rightarrow> i | None \<Rightarrow> StrategyDefault)"

lemma media_kind_wire: "media_kind_from_wire (media_kind_as_str k) = Some k"
  by (cases k) (simp_all add: media_kind_from_wire_def)

interpretation media: canonical_text_codec media_kind_as_str media_kind_from_wire "\<lambda>_. True"
  by unfold_locales (simp add: media_kind_wire, auto simp: media_kind_from_wire_def split: if_splits)

lemma delivery_wire: "delivery_from_wire (delivery_as_str k) = Some k"
  by (cases k) (simp_all add: delivery_from_wire_def)

interpretation delivery: canonical_text_codec delivery_as_str delivery_from_wire "\<lambda>_. True"
  by unfold_locales (simp add: delivery_wire, auto simp: delivery_from_wire_def split: if_splits)

lemma state_wire: "state_from_wire (state_as_str k) = Some k"
  by (cases k) (simp_all add: state_from_wire_def)

interpretation state: canonical_text_codec state_as_str state_from_wire "\<lambda>_. True"
  by unfold_locales (simp add: state_wire, auto simp: state_from_wire_def split: if_splits)

lemma strategy_wire: "strategy_from_wire (strategy_as_str k) = Some k"
  by (cases k) (simp_all add: strategy_from_wire_def)

interpretation strategy: canonical_text_codec strategy_as_str strategy_from_wire "\<lambda>_. True"
  by unfold_locales (simp add: strategy_wire, auto simp: strategy_from_wire_def split: if_splits)


section \<open>Endpoint, node and link ids\<close>

text \<open>The declaration order of the kinds, which the derived \<open>Ord\<close> uses.\<close>

fun media_kind_rank :: "media_kind \<Rightarrow> nat" where
  "media_kind_rank Screen = 0"
| "media_kind_rank Window = 1"
| "media_kind_rank Camera = 2"
| "media_kind_rank Mic = 3"
| "media_kind_rank SystemAudio = 4"
| "media_kind_rank Input = 5"
| "media_kind_rank Clipboard = 6"
| "media_kind_rank File = 7"
| "media_kind_rank Service = 8"

lemma media_kind_rank_inj: "media_kind_rank a = media_kind_rank b \<longleftrightarrow> a = b"
  by (cases a; cases b) simp_all

instantiation media_kind :: linorder
begin

definition less_eq_media_kind :: "media_kind \<Rightarrow> media_kind \<Rightarrow> bool" where
  "less_eq_media_kind a b \<longleftrightarrow> media_kind_rank a \<le> media_kind_rank b"

definition less_media_kind :: "media_kind \<Rightarrow> media_kind \<Rightarrow> bool" where
  "less_media_kind a b \<longleftrightarrow> media_kind_rank a < media_kind_rank b"

instance
  by standard (auto simp: less_eq_media_kind_def less_media_kind_def media_kind_rank_inj)

end

datatype endpoint_id = EndpointId (ep_kind: media_kind) (ep_id: u32)

instantiation endpoint_id :: linorder
begin

definition less_eq_endpoint_id :: "endpoint_id \<Rightarrow> endpoint_id \<Rightarrow> bool" where
  "less_eq_endpoint_id a b \<longleftrightarrow> (ep_kind a, ep_id a) \<le> (ep_kind b, ep_id b)"

definition less_endpoint_id :: "endpoint_id \<Rightarrow> endpoint_id \<Rightarrow> bool" where
  "less_endpoint_id a b \<longleftrightarrow> (ep_kind a, ep_id a) < (ep_kind b, ep_id b)"

instance
proof
  fix x y z :: endpoint_id
  show "(x < y) = (x \<le> y \<and> \<not> y \<le> x)"
    unfolding less_endpoint_id_def less_eq_endpoint_id_def by (rule less_le_not_le)
  show "x \<le> x" unfolding less_eq_endpoint_id_def by (rule order_refl)
  show "x \<le> y \<Longrightarrow> y \<le> z \<Longrightarrow> x \<le> z" unfolding less_eq_endpoint_id_def by (rule order_trans)
  show "x \<le> y \<Longrightarrow> y \<le> x \<Longrightarrow> x = y"
    unfolding less_eq_endpoint_id_def by (drule (1) antisym) (cases x; cases y; simp)
  show "x \<le> y \<or> y \<le> x" unfolding less_eq_endpoint_id_def by (rule linear)
qed

end

definition endpoint_to_wire_str :: "endpoint_id \<Rightarrow> string" where
  "endpoint_to_wire_str e = media_kind_as_str (ep_kind e) @ '':'' @ show_word (ep_id e)"

definition endpoint_parse :: "string \<Rightarrow> endpoint_id option" where
  "endpoint_parse s =
     Option.bind (split_once (CHR '':'') s) (\<lambda>(kind, i).
     Option.bind (media_kind_from_wire kind) (\<lambda>k.
     Option.bind (parse_u32 i) (\<lambda>n. Some (EndpointId k n))))"

datatype node_id = NodeId (node_bytes: bytes)

definition node_wf :: "node_id \<Rightarrow> bool" where
  "node_wf n \<longleftrightarrow> length (node_bytes n) = 16"

definition NIL :: node_id where
  "NIL = NodeId (replicate 16 0)"

definition node_is_nil :: "node_id \<Rightarrow> bool" where
  "node_is_nil n \<longleftrightarrow> (\<forall>b \<in> set (node_bytes n). b = 0)"

definition to_hex :: "node_id \<Rightarrow> string" where
  "to_hex n = concat (map show_byte_hex (node_bytes n))"

definition hex_nibble :: "char \<Rightarrow> u8 option" where
  "hex_nibble c =
     (let b = of_char c :: nat in
      if 48 \<le> b \<and> b \<le> 57 then Some (word_of_nat (b - 48))
      else if 97 \<le> b \<and> b \<le> 102 then Some (word_of_nat (b - 97 + 10))
      else if 65 \<le> b \<and> b \<le> 70 then Some (word_of_nat (b - 65 + 10))
      else None)"

text \<open>The loop of \<open>from_hex\<close> over the two-character chunks.\<close>

fun hex_chunks :: "string \<Rightarrow> bytes option" where
  "hex_chunks (a # b # cs) =
     Option.bind (hex_nibble a) (\<lambda>hi.
     Option.bind (hex_nibble b) (\<lambda>lo.
     map_option (\<lambda>bs. (push_bit 4 hi OR lo) # bs) (hex_chunks cs)))"
| "hex_chunks _ = Some []"

definition from_hex :: "string \<Rightarrow> node_id option" where
  "from_hex s =
     (let hex = (case strip_prefix ''node-'' s of Some t \<Rightarrow> t
                 | None \<Rightarrow> (case strip_prefix ''dev-'' s of Some t \<Rightarrow> t | None \<Rightarrow> s))
      in if length hex \<noteq> 32 then None else map_option NodeId (hex_chunks hex))"

definition from_seed :: "string \<Rightarrow> node_id" where
  "from_seed seed =
     (let step = (\<lambda>b (h1, h2). ((h1 XOR ucast b) * FNV_PRIME,
                               (h2 XOR ucast (word_rotl 3 (b :: u8))) * FNV_PRIME));
          (h1, h2) = fold step (str_bytes seed) (FNV_OFFSET, 0x84222325cbf29ce4)
      in NodeId (le_bytes 8 (h1 :: u64) @ le_bytes 8 (h2 :: u64)))"

text \<open>\<open>FromStr\<close>, which never fails: an id in hexadecimal, or a seed.\<close>

definition node_from_str :: "string \<Rightarrow> node_id" where
  "node_from_str s = (case from_hex s of Some n \<Rightarrow> n | None \<Rightarrow> from_seed s)"

datatype link_id = LinkId (link_num: u32)

definition link_display :: "link_id \<Rightarrow> string" where
  "link_display l = (if link_num l = 0 then ''main'' else ''link-'' @ show_word (link_num l))"

definition link_from_str :: "string \<Rightarrow> link_id option" where
  "link_from_str s =
     (if s = ''main'' \<or> s = [] then Some (LinkId 0)
      else case strip_prefix ''link-'' s of
        Some num \<Rightarrow> map_option LinkId (parse_u32 num)
      | None \<Rightarrow> map_option LinkId (parse_u32 s))"

definition endpoint_ref_display :: "node_id \<Rightarrow> endpoint_id \<Rightarrow> string" where
  "endpoint_ref_display owner e = to_hex owner @ '':'' @ endpoint_to_wire_str e"


section \<open>The semantic stream id\<close>

type_synonym stream_id = string

definition url_safe :: "char \<Rightarrow> bool" where
  "url_safe c \<longleftrightarrow>
     (let b = of_char c :: nat in
      (65 \<le> b \<and> b \<le> 90) \<or> (97 \<le> b \<and> b \<le> 122) \<or> (48 \<le> b \<and> b \<le> 57)
      \<or> c = CHR ''.'' \<or> c = CHR ''_'' \<or> c = CHR ''-'')"

definition clean_step :: "char \<Rightarrow> string \<Rightarrow> string" where
  "clean_step b cleaned =
     (let c = (if url_safe b then b else CHR ''-'') in
      if cleaned = [] \<or> last cleaned \<noteq> c \<or> c \<noteq> CHR ''-'' then cleaned @ [c] else cleaned)"

definition clean_id :: "string \<Rightarrow> string" where
  "clean_id raw =
     (let cleaned = fold clean_step raw [];
          trimmed = rev (dropWhile (\<lambda>c. c = CHR ''-'') (rev cleaned));
          nonempty = (if trimmed = [] then ''e'' else trimmed)
      in take 48 nonempty)"

fun profile_short :: "profile \<Rightarrow> string" where
  "profile_short Lossless = ''ll''"
| "profile_short Lossy = ''ly''"
| "profile_short Adaptive = ''ad''"

fun pick_short :: "pick_rule \<Rightarrow> string" where
  "pick_short Realtime = ''rt''"
| "pick_short StrictOrdered = ''so''"
| "pick_short PickNone = ''n''"

definition derive_stream_id :: "endpoint_id \<Rightarrow> profile \<Rightarrow> pick_rule \<Rightarrow> stream_id" where
  "derive_stream_id e prof pick =
     (let cleaned = clean_id (endpoint_to_wire_str e);
          pre = cleaned @ ''-'' @ profile_short prof @ ''-'' @ pick_short pick;
          h = fnv1a (str_bytes pre)
      in pre @ ''-'' @ show_hex8 (ucast (h AND 0xffffffff)))"

record stream_key =
  sk_publisher :: node_id
  sk_endpoint :: endpoint_id
  sk_profile :: profile
  sk_pick :: pick_rule

definition to_stream_id :: "stream_key \<Rightarrow> stream_id" where
  "to_stream_id k = derive_stream_id (sk_endpoint k) (sk_profile k) (sk_pick k)"

definition stream_key_display :: "stream_key \<Rightarrow> string" where
  "stream_key_display k = to_hex (sk_publisher k) @ '':'' @ to_stream_id k"


section \<open>Text round trips\<close>

lemma endpoint_parse_wire: "endpoint_parse (endpoint_to_wire_str e) = Some e"
proof -
  have "CHR '':'' \<notin> set (media_kind_as_str (ep_kind e))" by (cases "ep_kind e") simp_all
  from split_once_append [OF this] show ?thesis
    by (simp add: endpoint_parse_def endpoint_to_wire_str_def media_kind_wire)
qed

interpretation endpoint: text_codec endpoint_to_wire_str endpoint_parse "\<lambda>_. True"
  by unfold_locales (rule endpoint_parse_wire)

lemma hex_nibble_char: "d < 16 \<Longrightarrow> hex_nibble (hex_char d) = Some (word_of_nat d)"
  by (auto simp: hex_nibble_def hex_char_def Let_def)

lemma byte_nibbles:
  fixes b :: u8
  shows "unat (drop_bit 4 b) < 16" "unat (b AND 15) < 16" "push_bit 4 (drop_bit 4 b) OR b AND 15 = b"
proof -
  have m: "(15 :: u8) = mask 4" by (simp add: mask_eq_exp_minus_1)
  have t: "b AND 15 = take_bit 4 b" unfolding m by (rule take_bit_eq_mask [symmetric])
  have "unat b < 256" using unsigned_less [where ?'a = nat, of b] by simp
  then show "unat (drop_bit 4 b) < 16"
    unfolding unsigned_drop_bit_eq drop_bit_eq_div by (simp add: less_mult_imp_div_less take_bit_nat_eq_self unat_div_distrib)
  have "unat (take_bit 4 b) < 2 ^ 4" unfolding unsigned_take_bit_eq by (rule take_bit_nat_less_exp)
  then show "unat (b AND 15) < 16" by (simp add: t)
  show "push_bit 4 (drop_bit 4 b) OR b AND 15 = b"
    by (rule bit_word_eqI) (auto simp: t bit_simps)
qed

lemma hex_chunks_bytes: "hex_chunks (concat (map show_byte_hex bs)) = Some bs"
  by (induction bs) (simp_all add: show_byte_hex_def hex_nibble_char byte_nibbles)

lemma strip_prefix_subset:
  assumes "strip_prefix p s = Some t" shows "set p \<subseteq> set s"
proof -
  have "take (length p) s = p" using assms by (simp add: strip_prefix_def split: if_splits)
  then show ?thesis using set_take_subset [of "length p" s] by simp
qed

lemma hex_char_range_all:
  "\<forall>d \<in> set [0..<16]. hex_char d \<noteq> CHR ''v'' \<and> hex_char d \<noteq> CHR ''n'' \<and> hex_char d \<noteq> CHR '':''"
  by code_simp

lemma hex_char_range: "d < 16 \<Longrightarrow> hex_char d \<noteq> CHR ''v'' \<and> hex_char d \<noteq> CHR ''n'' \<and> hex_char d \<noteq> CHR '':''"
  using hex_char_range_all by (simp only: set_upt atLeastLessThan_iff zero_le simp_thms Ball_def)

lemma byte_hex_chars: "c \<in> set (show_byte_hex b) \<Longrightarrow> c \<noteq> CHR ''v'' \<and> c \<noteq> CHR ''n'' \<and> c \<noteq> CHR '':''"
  using hex_char_range [OF byte_nibbles(1) [of b]] hex_char_range [OF byte_nibbles(2) [of b]]
  by (simp only: show_byte_hex_def list.set insert_iff empty_iff simp_thms) metis

lemma to_hex_chars: "c \<in> set (to_hex n) \<Longrightarrow> c \<noteq> CHR ''v'' \<and> c \<noteq> CHR ''n'' \<and> c \<noteq> CHR '':''"
  unfolding to_hex_def set_concat set_map using byte_hex_chars by blast

lemma length_show_byte_hex [simp]: "length (show_byte_hex b) = 2"
  by (simp add: show_byte_hex_def)

lemma length_to_hex: "length (to_hex n) = 2 * length (node_bytes n)"
  unfolding to_hex_def by (simp add: length_concat comp_def sum_list_triv)

lemma from_hex_plain: "from_hex (to_hex n) = (if node_wf n then Some n else None)"
proof -
  have "\<not> set ''node-'' \<subseteq> set (to_hex n)" "\<not> set ''dev-'' \<subseteq> set (to_hex n)"
    using to_hex_chars by fastforce+
  then have "strip_prefix ''node-'' (to_hex n) = None" "strip_prefix ''dev-'' (to_hex n) = None"
    using strip_prefix_subset by (metis not_None_eq)+
  then show ?thesis
    by (cases n) (simp add: from_hex_def node_wf_def length_to_hex, simp add: to_hex_def hex_chunks_bytes)
qed

lemma from_hex_prefixed:
  assumes "node_wf n" and "p \<in> {''node-'', ''dev-''}"
  shows "from_hex (p @ to_hex n) = Some n"
proof -
  have "strip_prefix ''node-'' (''dev-'' @ to_hex n) = None"
    by (rule strip_prefix_hd) simp_all
  then have "from_hex (p @ to_hex n)
      = (if length (to_hex n) \<noteq> 32 then None else map_option NodeId (hex_chunks (to_hex n)))"
    using assms(2) strip_prefix_append [of "''node-''" "to_hex n"] strip_prefix_append [of "''dev-''" "to_hex n"]
    by (auto simp add: from_hex_def Let_def simp del: strip_prefix_append)
  then show ?thesis using assms(1)
    by (cases n) (simp add: node_wf_def length_to_hex, simp add: to_hex_def hex_chunks_bytes)
qed

interpretation node: text_codec to_hex from_hex node_wf
  by unfold_locales (simp add: from_hex_plain)

lemma link_from_str_display: "link_from_str (link_display l) = Some l"
proof (cases "link_num l = 0")
  case False
  have "''link-'' @ show_word (link_num l) \<noteq> ''main''" by simp
  then show ?thesis using False by (cases l) (simp add: link_from_str_def link_display_def del: append.simps)
qed (cases l, simp add: link_from_str_def link_display_def)

interpretation link: text_codec link_display link_from_str "\<lambda>_. True"
  by unfold_locales (rule link_from_str_display)


section \<open>The stream id determines its three elements\<close>

lemma clean_safe:
  "\<forall>c \<in> set xs. url_safe c \<and> c \<noteq> CHR ''-'' \<Longrightarrow> fold clean_step xs acc = acc @ xs"
  by (induction xs arbitrary: acc) (simp_all add: clean_step_def)

lemma kind_chars: "\<forall>c \<in> set (media_kind_as_str k). url_safe c \<and> c \<noteq> CHR ''-''"
  by (cases k) (simp_all add: url_safe_def Let_def of_char_def)

lemma digits_safe: "\<forall>c \<in> set (show_word w). url_safe c \<and> c \<noteq> CHR ''-''"
  using show_word_digits [of _ w] show_word_digits [of "CHR ''-''" w]
  by (auto simp: url_safe_def is_digit_def Let_def)

lemma kind_nonempty: "media_kind_as_str k \<noteq> []"
  by (cases k) simp_all

lemma length_kind: "length (media_kind_as_str k) \<le> 11"
  by (cases k) simp_all

lemma length_show_word: "length (show_word (w :: u32)) \<le> 10"
proof -
  have "unat w < 10 ^ 10" using unsigned_less [where ?'a = nat, of w] by simp
  then show ?thesis unfolding show_word_def by (rule length_show_nat) simp
qed

lemma trim_end: "xs \<noteq> [] \<Longrightarrow> last xs \<noteq> c \<Longrightarrow> rev (dropWhile (\<lambda>x. x = c) (rev xs)) = xs"
  by (cases xs rule: rev_cases) auto

lemma clean_endpoint:
  "clean_id (endpoint_to_wire_str e) = media_kind_as_str (ep_kind e) @ ''-'' @ show_word (ep_id e)"
    (is "_ = ?k @ _ @ ?d")
proof -
  have "last ?k \<noteq> CHR ''-''"
    using kind_chars [of "ep_kind e"] kind_nonempty [of "ep_kind e"] last_in_set by blast
  then have colon: "clean_step (CHR '':'') ?k = ?k @ ''-''"
    by (simp add: clean_step_def url_safe_def)
  have f: "fold clean_step (endpoint_to_wire_str e) [] = ?k @ ''-'' @ ?d"
    by (simp add: endpoint_to_wire_str_def clean_safe [OF kind_chars] clean_safe [OF digits_safe] colon)
  have "last ?d \<noteq> CHR ''-''"
    using digits_safe [of "ep_id e"] show_word_nonempty last_in_set by blast
  then have r: "rev (dropWhile (\<lambda>x. x = CHR ''-'') (rev (?k @ ''-'' @ ?d))) = ?k @ ''-'' @ ?d"
    by (intro trim_end) simp_all
  have len: "length (?k @ ''-'' @ ?d) \<le> 48"
    using length_kind [of "ep_kind e"] length_show_word [of "ep_id e"] by simp
  have "?k @ ''-'' @ ?d \<noteq> []" by simp
  then show ?thesis unfolding clean_id_def Let_def f r using take_all [OF len] by (simp only: if_False)
qed

lemma short_chars: "CHR ''-'' \<notin> set (profile_short p)" "CHR ''-'' \<notin> set (pick_short k)"
  by (cases p, simp_all) (cases k, simp_all)

lemma short_inj: "profile_short p = profile_short p' \<longleftrightarrow> p = p'" "pick_short k = pick_short k' \<longleftrightarrow> k = k'"
  by (cases p; cases p'; simp) (cases k; cases k'; simp)

lemma derive_stream_id_fields:
  obtains h where "derive_stream_id e p k =
    media_kind_as_str (ep_kind e) @ CHR ''-'' # show_word (ep_id e) @ CHR ''-'' # profile_short p
    @ CHR ''-'' # pick_short k @ CHR ''-'' # h" "length h = 8"
  by (rule that [of "show_hex8 (ucast (fnv1a (str_bytes (media_kind_as_str (ep_kind e) @ ''-''
        @ show_word (ep_id e) @ ''-'' @ profile_short p @ ''-'' @ pick_short k)) AND 0xffffffff))"])
     (simp_all add: derive_stream_id_def clean_endpoint)


section \<open>Properties\<close>

text \<open>
  The semantic stream id identifies the stream: two endpoints, profiles and
  pick rules derive the same id only when all three are the same, so subscribers
  that derive the id on their own meet on one stream exactly when they want the
  same one; this rests on the readable prefix, not on the hash.
\<close>

theorem derive_stream_id_injective:
  "derive_stream_id e p k = derive_stream_id e' p' k' \<longleftrightarrow> e = e' \<and> p = p' \<and> k = k'"
proof
  assume eq: "derive_stream_id e p k = derive_stream_id e' p' k'"
  obtain h where h: "derive_stream_id e p k =
    media_kind_as_str (ep_kind e) @ CHR ''-'' # show_word (ep_id e) @ CHR ''-'' # profile_short p
    @ CHR ''-'' # pick_short k @ CHR ''-'' # h" "length h = 8"
    by (rule derive_stream_id_fields)
  obtain h' where h': "derive_stream_id e' p' k' =
    media_kind_as_str (ep_kind e') @ CHR ''-'' # show_word (ep_id e') @ CHR ''-'' # profile_short p'
    @ CHR ''-'' # pick_short k' @ CHR ''-'' # h'" "length h' = 8"
    by (rule derive_stream_id_fields)
  have nodash: "CHR ''-'' \<notin> set (media_kind_as_str x)" "CHR ''-'' \<notin> set (show_word (y :: u32))" for x y
    using kind_chars [of x] digits_safe [of y] by auto
  have "media_kind_as_str (ep_kind e) = media_kind_as_str (ep_kind e')
      \<and> show_word (ep_id e) = show_word (ep_id e') \<and> profile_short p = profile_short p'
      \<and> pick_short k = pick_short k'"
    using eq unfolding h(1) h'(1) by (simp only: sep_inj nodash short_chars not_False_eq_True)
  then show "e = e' \<and> p = p' \<and> k = k'"
    using media.show_inj [of "ep_kind e" "ep_kind e'"]
    by (simp add: show_word_inj short_inj endpoint_id.expand)
qed simp

text \<open>
  Text forms of the ids read back: an endpoint id, a link id and a node id are
  parsed from what they print as, a node id with either of the optional prefixes
  too, and the parser that falls back to hashing never reaches the fallback on a
  printed node id.
\<close>

theorem ids_text_roundtrip:
  assumes "node_wf n"
  shows "endpoint_parse (endpoint_to_wire_str e) = Some e
       \<and> link_from_str (link_display l) = Some l
       \<and> node_from_str (to_hex n) = n
       \<and> node_from_str (''node-'' @ to_hex n) = n
       \<and> node_from_str (''dev-'' @ to_hex n) = n"
  using endpoint.parse_show [of e] link.parse_show [of l] node.parse_show [OF assms]
    from_hex_prefixed [OF assms, of "''node-''"] from_hex_prefixed [OF assms, of "''dev-''"]
  by (simp only: node_from_str_def option.case insert_iff simp_thms TrueI)

lemma ids_text_roundtrip_witness:
  "node_from_str (''dev-'' @ to_hex (NodeId [0,1,2,3,4,5,6,7,8,9,10,11,12,13,14,255]))
     = NodeId [0,1,2,3,4,5,6,7,8,9,10,11,12,13,14,255]"
  using ids_text_roundtrip [of "NodeId [0,1,2,3,4,5,6,7,8,9,10,11,12,13,14,255]"]
  by (simp add: node_wf_def del: append.simps)

end
