(* ===== verification/Pick.thy ===== *)
theory Pick
  imports Jitter Ids
begin

text \<open>
  The interpreters of \<open>stross-pick\<close> (\<open>registry.rs\<close>, \<open>interpret.rs\<close>): the stream
  channel that routes frames past or through the jitter buffers, the realtime and
  the strictly ordered interpreter built on it, and the per-stream registry.  Time
  is an argument of every operation.  The trait both interpreters implement is a
  locale: a queue of accepted frames, handed out one by one.
\<close>


section \<open>The stream channel\<close>

datatype channel_kind = KindLossless | KindLossy

record stream_channel =
  sc_kind :: channel_kind
  sc_queue :: "frame list"
  sc_video :: jitter_buffer
  sc_audio :: jitter_buffer
  sc_video_seq :: u32
  sc_audio_seq :: u32

definition stream_channel_new :: "channel_kind \<Rightarrow> stream_channel" where
  "stream_channel_new kind =
     \<lparr> sc_kind = kind, sc_queue = [],
       sc_video = jitter_new (jitter_config_default\<lparr> jc_require_keyframe_resync := True \<rparr>),
       sc_audio = jitter_new (jitter_config_default\<lparr> jc_require_keyframe_resync := False,
                    jc_max_wait := 100000000, jc_min_wait := 10000000, jc_adaptive := True \<rparr>),
       sc_video_seq = 0, sc_audio_seq = 0 \<rparr>"

definition set_seq :: "u32 \<Rightarrow> frame \<Rightarrow> frame" where
  "set_seq q f = f\<lparr> f_header := (f_header f)\<lparr> fh_seq := q \<rparr> \<rparr>"

definition sc_push :: "frame \<Rightarrow> nat \<Rightarrow> stream_channel \<Rightarrow> stream_channel option" where
  "sc_push f now sc =
     (case sc_kind sc of
        KindLossless \<Rightarrow> Some (sc\<lparr> sc_queue := sc_queue sc @ [f] \<rparr>)
      | KindLossy \<Rightarrow>
          if fh_track (f_header f) = TRACK_VIDEO then
            map_option (\<lambda>jb. sc\<lparr> sc_video := jb, sc_video_seq := sc_video_seq sc + 1 \<rparr>)
              (jitter_push (set_seq (sc_video_seq sc) f) now (sc_video sc))
          else
            map_option (\<lambda>jb. sc\<lparr> sc_audio := jb, sc_audio_seq := sc_audio_seq sc + 1 \<rparr>)
              (jitter_push (set_seq (sc_audio_seq sc) f) now (sc_audio sc)))"

definition sc_poll :: "nat \<Rightarrow> stream_channel \<Rightarrow> (frame list \<times> stream_channel) option" where
  "sc_poll now sc =
     (case sc_kind sc of
        KindLossless \<Rightarrow> Some (sc_queue sc, sc\<lparr> sc_queue := [] \<rparr>)
      | KindLossy \<Rightarrow>
          Option.bind (jitter_poll now (sc_video sc)) (\<lambda>(video_out, video).
          Option.bind (jitter_poll now (sc_audio sc)) (\<lambda>(audio_out, audio).
            Some (if video_out = [] then audio_out
                  else if audio_out = [] then video_out else video_out @ audio_out,
                  sc\<lparr> sc_video := video, sc_audio := audio \<rparr>))))"


section \<open>Interpreters\<close>

record realtime_pacing =
  rp_channel :: stream_channel
  rp_pending :: "frame list"

definition realtime_new :: "channel_kind \<Rightarrow> realtime_pacing" where
  "realtime_new kind = \<lparr> rp_channel = stream_channel_new kind, rp_pending = [] \<rparr>"

definition realtime_push :: "nat \<Rightarrow> frame \<Rightarrow> realtime_pacing \<Rightarrow> realtime_pacing option" where
  "realtime_push now f rp = map_option (\<lambda>c. rp\<lparr> rp_channel := c \<rparr>) (sc_push f now (rp_channel rp))"

definition realtime_poll :: "nat \<Rightarrow> realtime_pacing \<Rightarrow> (frame option \<times> realtime_pacing) option" where
  "realtime_poll now rp =
     (case rp_pending rp of
        f # rest \<Rightarrow> Some (Some f, rp\<lparr> rp_pending := rest \<rparr>)
      | [] \<Rightarrow>
          map_option (\<lambda>(out, c).
            case out of
              [] \<Rightarrow> (None, rp\<lparr> rp_channel := c \<rparr>)
            | first # rest \<Rightarrow> (Some first, rp\<lparr> rp_channel := c, rp_pending := rest \<rparr>))
          (sc_poll now (rp_channel rp)))"

record strict_ordered =
  so_queue :: "frame list"
  so_next_seq :: "u32 option"
  so_dropped :: nat
  so_pending :: "frame list"

definition strict_new :: strict_ordered where
  "strict_new = \<lparr> so_queue = [], so_next_seq = None, so_dropped = 0, so_pending = [] \<rparr>"

definition strict_push :: "frame \<Rightarrow> strict_ordered \<Rightarrow> strict_ordered" where
  "strict_push f so =
     (case so_next_seq so of
        None \<Rightarrow>
          let so1 = (if fseq f \<noteq> 0 then so\<lparr> so_next_seq := Some (fseq f + 1) \<rparr> else so)
          in so1\<lparr> so_queue := so_queue so1 @ [f] \<rparr>
      | Some next \<Rightarrow>
          if fseq f \<noteq> next then so\<lparr> so_dropped := so_dropped so + 1 \<rparr>
          else so\<lparr> so_next_seq := Some (next + 1), so_queue := so_queue so @ [f] \<rparr>)"

definition strict_poll :: "strict_ordered \<Rightarrow> frame option \<times> strict_ordered" where
  "strict_poll so =
     (case so_pending so of
        f # rest \<Rightarrow> (Some f, so\<lparr> so_pending := rest \<rparr>)
      | [] \<Rightarrow> (case so_queue so of
                [] \<Rightarrow> (None, so)
              | first # rest \<Rightarrow> (Some first, so\<lparr> so_queue := [], so_pending := rest \<rparr>)))"

datatype interpreter = IRealtime realtime_pacing | IStrict strict_ordered

definition interpreter_new :: "pick_rule \<Rightarrow> channel_kind \<Rightarrow> interpreter" where
  "interpreter_new rule kind =
     (case rule of StrictOrdered \<Rightarrow> IStrict strict_new | _ \<Rightarrow> IRealtime (realtime_new kind))"

type_synonym interpret_registry = "stream_id \<rightharpoonup> interpreter"

text \<open>\<open>adapter\<close>: the module of the stream, created on first use with the rule and
  kind of that first call.\<close>

definition adapter ::
  "stream_id \<Rightarrow> pick_rule \<Rightarrow> channel_kind \<Rightarrow> interpret_registry \<Rightarrow> interpreter \<times> interpret_registry" where
  "adapter sid rule kind reg =
     (case reg sid of
        Some i \<Rightarrow> (i, reg)
      | None \<Rightarrow> let i = interpreter_new rule kind in (i, reg(sid \<mapsto> i)))"

definition interpret_remove :: "stream_id \<Rightarrow> interpret_registry \<Rightarrow> interpret_registry" where
  "interpret_remove sid reg = reg(sid := None)"


section \<open>The interpreter contract\<close>

text \<open>A first-in first-out module: what it holds is a list of frames, pushing
  appends the frame or refuses it, polling hands out the head.\<close>

locale fifo_interpreter =
  fixes push :: "frame \<Rightarrow> 's \<Rightarrow> 's" and poll :: "'s \<Rightarrow> frame option \<times> 's"
    and held :: "'s \<Rightarrow> frame list" and accepts :: "frame \<Rightarrow> 's \<Rightarrow> bool" and ok :: "'s \<Rightarrow> bool"
  assumes push_held: "ok s \<Longrightarrow> held (push f s) = held s @ (if accepts f s then [f] else [])"
    and push_ok: "ok s \<Longrightarrow> ok (push f s)"
    and poll_held: "ok s \<Longrightarrow> held s = (case fst (poll s) of None \<Rightarrow> [] | Some f \<Rightarrow> f # held (snd (poll s)))"
    and poll_none: "ok s \<Longrightarrow> fst (poll s) = None \<Longrightarrow> held (snd (poll s)) = []"
    and poll_ok: "ok s \<Longrightarrow> ok (snd (poll s))"
begin

fun drain :: "nat \<Rightarrow> 's \<Rightarrow> frame list \<times> 's" where
  "drain 0 s = ([], s)"
| "drain (Suc n) s =
     (case poll s of (None, s') \<Rightarrow> ([], s') | (Some f, s') \<Rightarrow> (case drain n s' of (fs, s'') \<Rightarrow> (f # fs, s'')))"

lemma drain_held:
  "ok s \<Longrightarrow> length (held s) \<le> n \<Longrightarrow> fst (drain n s) = held s"
proof (induction n arbitrary: s)
  case (Suc n)
  obtain r s' where p: "poll s = (r, s')" by fastforce
  show ?case
  proof (cases r)
    case None
    then show ?thesis using poll_held [OF Suc.prems(1)] p by simp
  next
    case (Some f)
    then have "held s = f # held s'" using poll_held [OF Suc.prems(1)] p by simp
    moreover have "ok s'" using poll_ok [OF Suc.prems(1)] p by simp
    ultimately show ?thesis using Suc.IH [of s'] Suc.prems(2) p Some by (auto split: prod.splits)
  qed
qed simp

lemma push_all_held:
  "ok s \<Longrightarrow> (\<And>f t. f \<in> set fs \<Longrightarrow> ok t \<Longrightarrow> accepts f t) \<Longrightarrow>
   held (fold push fs s) = held s @ fs \<and> ok (fold push fs s)"
  by (induction fs arbitrary: s) (simp_all add: push_held push_ok)

end

definition strict_accepts :: "frame \<Rightarrow> strict_ordered \<Rightarrow> bool" where
  "strict_accepts f so = (case so_next_seq so of None \<Rightarrow> True | Some next \<Rightarrow> fseq f = next)"

definition strict_held :: "strict_ordered \<Rightarrow> frame list" where
  "strict_held so = so_pending so @ so_queue so"

interpretation strict: fifo_interpreter strict_push strict_poll strict_held strict_accepts "\<lambda>_. True"
  by unfold_locales
     (auto simp: strict_push_def strict_poll_def strict_held_def strict_accepts_def Let_def
        split: option.splits list.splits)

text \<open>On a lossless transport the realtime interpreter is the same queue.\<close>

definition realtime_lossless :: "realtime_pacing \<Rightarrow> bool" where
  "realtime_lossless rp \<longleftrightarrow> sc_kind (rp_channel rp) = KindLossless"

definition realtime_held :: "realtime_pacing \<Rightarrow> frame list" where
  "realtime_held rp = rp_pending rp @ sc_queue (rp_channel rp)"

interpretation realtime: fifo_interpreter "\<lambda>f rp. the (realtime_push now f rp)"
    "\<lambda>rp. the (realtime_poll now rp)" realtime_held "\<lambda>_ _. True" realtime_lossless for now
  by unfold_locales
     (auto simp: realtime_push_def realtime_poll_def realtime_held_def realtime_lossless_def
        sc_push_def sc_poll_def split: list.splits)


section \<open>The lossy path\<close>

text \<open>The channel numbers the frames of a track itself, in the order they arrive,
  so the buffer always finds the next frame under its cursor.\<close>

definition in_step :: "u32 \<Rightarrow> jitter_buffer \<Rightarrow> bool" where
  "in_step q jb \<longleftrightarrow> jitter_wf jb \<and> (\<forall>s \<in> set (jb_slots jb). s = None) \<and> \<not> jb_awaiting_keyframe jb
     \<and> (jb_next_seq jb = None \<and> jb_highest_seq jb = None
        \<or> jb_next_seq jb = Some q \<and> jb_highest_seq jb = Some (q - 1))"

lemma seq_lt_self [simp]: "\<not> seq_lt q q" "seq_lt (q - 1) q"
  by (simp_all add: seq_lt_def)

lemma in_step_slot: "in_step q jb \<Longrightarrow> jb_slots jb ! (n mod jc_capacity (jb_cfg jb)) = None"
  by (auto simp: in_step_def jitter_wf_def)

lemma in_step_idle_poll:
  assumes "in_step q jb"
  shows "jitter_poll now jb = Some ([], jb)"
proof -
  have wf: "jitter_wf jb" using assms by (simp add: in_step_def)
  obtain b where "jitter_overdue now jb = Some b" using overdue_some [OF wf] by blast
  moreover have "\<not> jitter_ready n jb" for n
    using in_step_slot [OF assms, of "unat n"] by (simp add: jitter_ready_def)
  ultimately show ?thesis
    using assms wf by (auto simp: jitter_poll_def in_step_def jitter_wf_def past_highest_def split: option.splits bool.splits)
qed


text \<open>The buffer right after such a frame was pushed: the frame alone, under the
  cursor.\<close>

definition holds_one :: "u32 \<Rightarrow> frame \<Rightarrow> jitter_buffer \<Rightarrow> bool" where
  "holds_one q f jb \<longleftrightarrow> jitter_wf jb \<and> \<not> jb_awaiting_keyframe jb \<and> jb_next_seq jb = Some q
     \<and> jb_highest_seq jb = Some q
     \<and> jb_slots jb = (replicate (jc_capacity (jb_cfg jb)) None)[unat q mod jc_capacity (jb_cfg jb) := Some f]"

lemma in_step_slots: "in_step q jb \<Longrightarrow> jb_slots jb = replicate (jc_capacity (jb_cfg jb)) None"
  by (auto simp: in_step_def jitter_wf_def intro: replicate_eqI)

lemma place_alone:
  assumes "jitter_wf jb" "jb_slots jb = replicate (jc_capacity (jb_cfg jb)) None"
    "\<not> jb_awaiting_keyframe jb" "jb_next_seq jb = Some (fseq f)" "jb_highest_seq jb = Some (fseq f)"
  shows "\<exists>jb'. jitter_place f jb = Some jb' \<and> holds_one (fseq f) f jb'"
proof -
  have "unat (fseq f) mod jc_capacity (jb_cfg jb) < jc_capacity (jb_cfg jb)"
    using assms(1) by (simp add: jitter_wf_def)
  then show ?thesis
    using assms by (simp add: jitter_place_def Let_def holds_one_def jitter_wf_def not_le)
qed

lemma in_step_push:
  assumes "in_step q jb" and "fseq f = q"
  shows "\<exists>jb'. jitter_push f now jb = Some jb' \<and> holds_one q f jb'"
proof -
  define y where "y = jitter_arrival now (upd_stats (\<lambda>s. s\<lparr> js_received := js_received s + 1 \<rparr>) jb)"
  have y: "in_step q y"
    using assms(1) by (simp add: y_def in_step_def jitter_wf_def jitter_arrival_def upd_stats_def Let_def split: option.splits)
  have slots: "jb_slots y = replicate (jc_capacity (jb_cfg y)) None" by (rule in_step_slots [OF y])
  have notlt: "\<not> (case jb_next_seq y of Some nx \<Rightarrow> seq_lt q nx | None \<Rightarrow> False)"
    using y by (auto simp: in_step_def)
  show ?thesis
  proof (cases "is_keyframe (f_header f)")
    case True
    let ?z = "y\<lparr> jb_slots := map (\<lambda>_. None) (jb_slots y), jb_next_seq := Some q, jb_highest_seq := Some q,
                jb_awaiting_keyframe := False, jb_last_progress := Some now \<rparr>"
    have "jitter_push f now jb = jitter_place f ?z"
      using True notlt unfolding jitter_push_def y_def [symmetric] Let_def assms(2) by simp
    moreover have "\<exists>jb'. jitter_place f ?z = Some jb' \<and> holds_one (fseq f) f jb'"
      by (rule place_alone) (use y slots assms(2) in \<open>simp_all add: in_step_def jitter_wf_def\<close>)
    ultimately show ?thesis using assms(2) by simp
  next
    case False
    define w where "w = (case jb_next_seq y of
        None \<Rightarrow> y\<lparr> jb_next_seq := Some q, jb_last_progress := Some now \<rparr> | Some _ \<Rightarrow> y)"
    have w: "jitter_wf w" "jb_slots w = replicate (jc_capacity (jb_cfg w)) None" "\<not> jb_awaiting_keyframe w"
      "jb_next_seq w = Some q" "jb_highest_seq w = None \<or> jb_highest_seq w = Some (q - 1)"
      using y slots by (auto simp: w_def in_step_def split: option.splits)
    have hi: "(case jb_highest_seq w of None \<Rightarrow> q | Some h \<Rightarrow> if seq_lt h q then q else h) = q"
      using w(5) by auto
    have "\<not> jb_awaiting_keyframe y" using y by (simp add: in_step_def)
    then have "jitter_push f now jb = jitter_place f (w\<lparr> jb_highest_seq := Some q \<rparr>)"
      using False notlt hi unfolding jitter_push_def y_def [symmetric] Let_def w_def assms(2) by simp
    moreover have "\<exists>jb'. jitter_place f (w\<lparr> jb_highest_seq := Some q \<rparr>) = Some jb' \<and> holds_one (fseq f) f jb'"
      by (rule place_alone) (use w assms(2) in simp_all)
    ultimately show ?thesis using assms(2) by simp
  qed
qed

lemma take_only:
  assumes "holds_one q f jb"
  shows "in_step (q + 1) (take_slot q now jb)" "jb_last_progress (take_slot q now jb) = Some now"
  using assms
  by (auto simp: holds_one_def in_step_def take_slot_def upd_stats_def jitter_wf_def
      dest!: subsetD [OF set_update_subset_insert])

lemma holds_one_poll:
  assumes "holds_one q f jb" and "fseq f = q"
  shows "jitter_poll now jb = Some ([f], take_slot q now jb)"
proof -
  let ?jb = "take_slot q now jb"
  note step = take_only [OF assms(1), of now]
  have wf: "jitter_wf ?jb" using step(1) by (simp add: in_step_def)
  obtain w where w: "effective_wait ?jb = Some w" using effective_wait_some [OF wf] by blast
  have over: "jitter_overdue now ?jb = Some False"
    using w step(2) by (simp add: jitter_overdue_def)
  have slot: "jb_slots ?jb ! (unat (q + 1) mod jc_capacity (jb_cfg ?jb)) = None"
    by (rule in_step_slot [OF step(1)])
  have "unat (q + 1) mod jc_capacity (jb_cfg ?jb) < length (jb_slots ?jb)" using wf by (simp add: jitter_wf_def)
  moreover have "jb_next_seq ?jb = Some (q + 1)" by (simp add: take_slot_def upd_stats_def)
  ultimately have inner: "poll_loop now 0 ?jb = Some ([], ?jb)"
    using over slot by (subst poll_loop.simps) (simp add: Let_def not_le jitter_ready_def)
  have i: "unat q mod jc_capacity (jb_cfg jb) < jc_capacity (jb_cfg jb)"
    "length (jb_slots jb) = jc_capacity (jb_cfg jb)"
    using assms(1) by (auto simp: holds_one_def jitter_wf_def)
  have here: "jb_slots jb ! (unat q mod jc_capacity (jb_cfg jb)) = Some f"
    using assms(1) i(1) by (simp add: holds_one_def)
  have ready: "jitter_ready q jb" using here assms(2) by (simp add: jitter_ready_def)
  have "poll_loop now 0 jb = Some ([f], ?jb)"
    using assms(1) i here ready inner
    by (subst poll_loop.simps) (simp add: Let_def not_le holds_one_def)
  then show ?thesis
    using assms(1) i ready by (simp add: jitter_poll_def holds_one_def)
qed

definition lossy_in_step :: "stream_channel \<Rightarrow> bool" where
  "lossy_in_step sc \<longleftrightarrow> sc_kind sc = KindLossy \<and> in_step (sc_video_seq sc) (sc_video sc)
     \<and> in_step (sc_audio_seq sc) (sc_audio sc)"

lemma lossy_in_step_new: "lossy_in_step (stream_channel_new KindLossy)"
  by (simp add: lossy_in_step_def stream_channel_new_def in_step_def jitter_new_def jitter_wf_def
      jitter_config_default_def)

lemma set_seq_simps [simp]: "fseq (set_seq q f) = q"
  by (simp add: set_seq_def)

definition sc_push_poll :: "frame \<times> nat \<times> nat \<Rightarrow> stream_channel \<Rightarrow> (frame list \<times> stream_channel) option" where
  "sc_push_poll = (\<lambda>(f, t1, t2) sc. Option.bind (sc_push f t1 sc) (sc_poll t2))"

lemma lossy_step:
  assumes "lossy_in_step sc"
  shows "\<exists>q sc'. sc_push_poll (f, t1, t2) sc = Some ([set_seq q f], sc') \<and> lossy_in_step sc'"
proof (cases "fh_track (f_header f) = TRACK_VIDEO")
  case True
  obtain jb' where p: "jitter_push (set_seq (sc_video_seq sc) f) t1 (sc_video sc) = Some jb'"
      "holds_one (sc_video_seq sc) (set_seq (sc_video_seq sc) f) jb'"
    using in_step_push [of "sc_video_seq sc"] assms unfolding lossy_in_step_def by (metis set_seq_simps)
  have a: "jitter_poll t2 (sc_audio sc) = Some ([], sc_audio sc)"
    using assms in_step_idle_poll by (auto simp: lossy_in_step_def)
  show ?thesis
    using True p a holds_one_poll [OF p(2), of t2] take_only [OF p(2), of t2] assms
    by (auto simp: sc_push_poll_def sc_push_def sc_poll_def lossy_in_step_def)
next
  case False
  obtain jb' where p: "jitter_push (set_seq (sc_audio_seq sc) f) t1 (sc_audio sc) = Some jb'"
      "holds_one (sc_audio_seq sc) (set_seq (sc_audio_seq sc) f) jb'"
    using in_step_push [of "sc_audio_seq sc"] assms unfolding lossy_in_step_def by (metis set_seq_simps)
  have a: "jitter_poll t2 (sc_video sc) = Some ([], sc_video sc)"
    using assms in_step_idle_poll by (auto simp: lossy_in_step_def)
  show ?thesis
    using False p a holds_one_poll [OF p(2), of t2] take_only [OF p(2), of t2] assms
    by (auto simp: sc_push_poll_def sc_push_def sc_poll_def lossy_in_step_def)
qed

fun sc_run :: "(frame \<times> nat \<times> nat) list \<Rightarrow> stream_channel \<Rightarrow> (frame list \<times> stream_channel) option" where
  "sc_run [] sc = Some ([], sc)"
| "sc_run (e # es) sc =
     Option.bind (sc_push_poll e sc) (\<lambda>(out, sc').
       map_option (\<lambda>(outs, sc''). (out @ outs, sc'')) (sc_run es sc'))"

lemma lossy_run:
  "lossy_in_step sc \<Longrightarrow> \<exists>outs sc'. sc_run es sc = Some (outs, sc')
     \<and> map (set_seq 0) outs = map (set_seq 0 \<circ> fst) es"
proof (induction es arbitrary: sc)
  case (Cons e es)
  obtain f t1 t2 where e: "e = (f, t1, t2)" by (cases e)
  obtain q sc' where s: "sc_push_poll e sc = Some ([set_seq q f], sc')" "lossy_in_step sc'"
    using lossy_step [OF Cons.prems, of f t1 t2] unfolding e by blast
  obtain outs sc'' where r: "sc_run es sc' = Some (outs, sc'')" "map (set_seq 0) outs = map (set_seq 0 \<circ> fst) es"
    using Cons.IH [OF s(2)] by blast
  have "set_seq 0 (set_seq q f) = set_seq 0 f" by (simp add: set_seq_def)
  with r show ?case by (simp add: s(1) [unfolded e] e)
qed simp


section \<open>Properties\<close>

text \<open>
  The strictly ordered interpreter hands out exactly the frames it accepted,
  in order, one per poll; frames that carry consecutive sequence numbers from the
  expected one on are all accepted, and after the first numbered frame any other
  frame is dropped and counted, so the output never has a gap or a repetition.
\<close>

theorem strict_ordered_output:
  "fst (strict.drain (length (strict_held so)) so) = strict_held so
   \<and> strict_held (strict_push f so) = strict_held so @ (if strict_accepts f so then [f] else [])
   \<and> (strict_accepts f so \<or> so_dropped (strict_push f so) = so_dropped so + 1)
   \<and> (case so_next_seq so of Some n \<Rightarrow> strict_accepts f so \<longleftrightarrow> fseq f = n
        | None \<Rightarrow> fseq f \<noteq> 0 \<longleftrightarrow> so_next_seq (strict_push f so) = Some (fseq f + 1))"
  using strict.drain_held [of so] strict.push_held [where s = so and f = f]
  by (auto simp: strict_push_def strict_accepts_def Let_def split: option.splits)

text \<open>
  On a lossy transport the stream channel delivers in arrival order: whatever
  sequence numbers the frames carry (out of order, repeated, with gaps), pushing and
  polling them one by one hands every one of them out at once, in the order they
  came, with only the sequence number replaced; no panic, no drop, no wait for a
  key frame.  The channel numbers the frames before the buffer sees them, so the
  buffer's reordering and gap detection never act.
\<close>

theorem lossy_channel_is_passthrough:
  "\<exists>outs sc. sc_run es (stream_channel_new KindLossy) = Some (outs, sc)
     \<and> map (set_seq 0) outs = map (\<lambda>(f, _). set_seq 0 f) es"
  using lossy_run [OF lossy_in_step_new, of es] by (simp add: comp_def case_prod_unfold)

end
