(* ===== verification/Schedule.thy ===== *)
theory Schedule
  imports Prelude
begin

text \<open>
  The playback scheduler of \<open>stross-endpoint/src/playback/schedule.rs\<close>: decoded
  pictures wait in a queue until their play time, computed from the first frame's
  arrival and the distance of the time stamps.  Instants and durations are
  nanoseconds counted by naturals, statistics are naturals; the picture itself is a
  type parameter.
\<close>


section \<open>State\<close>

record 'a rendered =
  rf_pts :: u32
  rf_data :: 'a

record sched_stats =
  ss_received :: nat
  ss_emitted :: nat
  ss_held :: nat
  ss_dropped_watermark :: nat
  ss_dropped_reset :: nat
  ss_dropped_stale :: nat
  ss_reanchors :: nat

record 'a sched =
  sd_target_delay :: nat
  sd_jump_reset :: nat
  sd_anchor_pts :: "u32 option"
  sd_anchor_at :: "nat option"
  sd_queue :: "('a rendered \<times> nat) list"
  sd_stats :: sched_stats

definition MAX_QUEUE_LEN :: nat where
  "MAX_QUEUE_LEN = 120"

definition millis :: "u32 \<Rightarrow> nat" where
  "millis d = unat d * 1000000"


section \<open>Operations\<close>

definition sched_new :: "nat \<Rightarrow> nat \<Rightarrow> 'a sched" where
  "sched_new target jump =
     \<lparr> sd_target_delay = target, sd_jump_reset = jump, sd_anchor_pts = None, sd_anchor_at = None,
       sd_queue = [], sd_stats = \<lparr> ss_received = 0, ss_emitted = 0, ss_held = 0, ss_dropped_watermark = 0,
                                   ss_dropped_reset = 0, ss_dropped_stale = 0, ss_reanchors = 0 \<rparr> \<rparr>"

definition next_play_at :: "'a sched \<Rightarrow> nat option" where
  "next_play_at s = (case sd_queue s of [] \<Rightarrow> None | (_, t) # _ \<Rightarrow> Some t)"

definition sched_stat :: "(sched_stats \<Rightarrow> sched_stats) \<Rightarrow> 'a sched \<Rightarrow> 'a sched" where
  "sched_stat f s = s\<lparr> sd_stats := f (sd_stats s) \<rparr>"

text \<open>Clear the queue and anchor at this frame; both jump branches do this.\<close>

definition reanchor :: "'a rendered \<Rightarrow> nat \<Rightarrow> 'a sched \<Rightarrow> 'a sched" where
  "reanchor f now s =
     (sched_stat (\<lambda>t. t\<lparr> ss_reanchors := ss_reanchors t + 1,
                        ss_dropped_reset := ss_dropped_reset t + length (sd_queue s) \<rparr>) s)
       \<lparr> sd_anchor_pts := Some (rf_pts f), sd_anchor_at := Some now, sd_queue := [(f, now)] \<rparr>"

text \<open>The loop that keeps the queue at its maximal length by dropping its head.\<close>

fun cap_queue :: "('a rendered \<times> nat) list \<Rightarrow> 'a sched \<Rightarrow> 'a sched" where
  "cap_queue [] s = s\<lparr> sd_queue := [] \<rparr>"
| "cap_queue (q # qs) s =
     (if length (q # qs) > MAX_QUEUE_LEN
      then cap_queue qs (sched_stat (\<lambda>t. t\<lparr> ss_dropped_watermark := ss_dropped_watermark t + 1 \<rparr>) s)
      else s\<lparr> sd_queue := q # qs \<rparr>)"

definition sched_push :: "'a rendered \<Rightarrow> nat \<Rightarrow> 'a sched \<Rightarrow> 'a sched" where
  "sched_push f now s0 =
     (let s = sched_stat (\<lambda>t. t\<lparr> ss_received := ss_received t + 1 \<rparr>) s0;
          pts = rf_pts f
      in case (sd_anchor_pts s, sd_anchor_at s) of
           (Some p0, Some t0) \<Rightarrow>
             if pts < p0 then
               (if millis (p0 - pts) > sd_jump_reset s then reanchor f now s
                else sched_stat (\<lambda>t. t\<lparr> ss_dropped_stale := ss_dropped_stale t + 1 \<rparr>) s)
             else if millis (pts - p0) > sd_jump_reset s then reanchor f now s
             else
               let play_at = t0 + millis (pts - p0);
                   s1 = (if play_at > now then sched_stat (\<lambda>t. t\<lparr> ss_held := ss_held t + 1 \<rparr>) s else s)
               in cap_queue (sd_queue s1 @ [(f, play_at)]) s1
         | _ \<Rightarrow>
             let s1 = s\<lparr> sd_anchor_pts := Some pts, sd_anchor_at := Some now \<rparr>
             in cap_queue (sd_queue s1 @ [(f, now)]) s1)"

fun emit_loop :: "nat \<Rightarrow> ('a rendered \<times> nat) list \<Rightarrow> 'a sched \<Rightarrow> 'a rendered list \<times> 'a sched" where
  "emit_loop now [] s = ([], s\<lparr> sd_queue := [] \<rparr>)"
| "emit_loop now ((f, play_at) # qs) s =
     (if play_at > now then ([], s\<lparr> sd_queue := (f, play_at) # qs \<rparr>)
      else let (out, s') = emit_loop now qs (sched_stat (\<lambda>t. t\<lparr> ss_emitted := ss_emitted t + 1 \<rparr>) s)
           in (f # out, s'))"

definition emit_due_into :: "'a rendered list \<Rightarrow> nat \<Rightarrow> 'a sched \<Rightarrow> 'a rendered list \<times> 'a sched" where
  "emit_due_into out now s = (let (due, s') = emit_loop now (sd_queue s) s in (out @ due, s'))"

definition emit_due :: "nat \<Rightarrow> 'a sched \<Rightarrow> 'a rendered list \<times> 'a sched" where
  "emit_due now s = emit_due_into [] now s"

text \<open>The closure variant: \<open>f\<close> threads its own state and may fail, which ends the
  loop after the frame was taken and counted.\<close>

fun emit_with_loop ::
  "nat \<Rightarrow> ('a rendered \<Rightarrow> 'c \<Rightarrow> ('e + unit) \<times> 'c) \<Rightarrow> ('a rendered \<times> nat) list \<Rightarrow> 'c \<Rightarrow> 'a sched
     \<Rightarrow> ('e + unit) \<times> 'c \<times> 'a sched" where
  "emit_with_loop now f [] c s = (Inr (), c, s\<lparr> sd_queue := [] \<rparr>)"
| "emit_with_loop now f ((x, play_at) # qs) c s =
     (if play_at > now then (Inr (), c, s\<lparr> sd_queue := (x, play_at) # qs \<rparr>)
      else let s1 = sched_stat (\<lambda>t. t\<lparr> ss_emitted := ss_emitted t + 1 \<rparr>) s in
        case f x c of
          (Inl e, c') \<Rightarrow> (Inl e, c', s1\<lparr> sd_queue := qs \<rparr>)
        | (Inr _, c') \<Rightarrow> emit_with_loop now f qs c' s1)"

definition emit_due_with where
  "emit_due_with now f c s = emit_with_loop now f (sd_queue s) c s"

text \<open>The loop takes frames off the end; \<open>rq\<close> is the reversed queue.\<close>

fun drop_loop :: "nat \<Rightarrow> ('a rendered \<times> nat) list \<Rightarrow> 'a sched \<Rightarrow> nat \<times> 'a sched" where
  "drop_loop horizon [] s = (0, s\<lparr> sd_queue := [] \<rparr>)"
| "drop_loop horizon ((f, play_at) # rq) s =
     (if play_at \<le> horizon then (0, s\<lparr> sd_queue := rev ((f, play_at) # rq) \<rparr>)
      else let (n, s') = drop_loop horizon rq
                 (sched_stat (\<lambda>t. t\<lparr> ss_dropped_watermark := ss_dropped_watermark t + 1 \<rparr>) s)
           in (n + 1, s'))"

definition drop_over_watermark :: "nat \<Rightarrow> 'a sched \<Rightarrow> nat \<times> 'a sched" where
  "drop_over_watermark now s = drop_loop (now + sd_target_delay s) (rev (sd_queue s)) s"


section \<open>What the loops do\<close>

lemmas sched_defs = sched_stat_def reanchor_def

lemma sched_stat_simps [simp]:
  "sd_queue (sched_stat f s) = sd_queue s" "sd_anchor_pts (sched_stat f s) = sd_anchor_pts s"
  "sd_anchor_at (sched_stat f s) = sd_anchor_at s" "sd_stats (sched_stat f s) = f (sd_stats s)"
  "sd_target_delay (sched_stat f s) = sd_target_delay s" "sd_jump_reset (sched_stat f s) = sd_jump_reset s"
  by (simp_all add: sched_stat_def)

lemma cap_queue_result:
  "cap_queue qs s =
     s\<lparr> sd_queue := drop (length qs - MAX_QUEUE_LEN) qs,
        sd_stats := (sd_stats s)\<lparr> ss_dropped_watermark :=
          ss_dropped_watermark (sd_stats s) + (length qs - MAX_QUEUE_LEN) \<rparr> \<rparr>"
proof (induction qs arbitrary: s)
  case (Cons q qs)
  then show ?case by (cases "length qs < MAX_QUEUE_LEN") (auto simp: sched_stat_def Suc_diff_le not_less)
qed simp

lemma emit_loop_result:
  "emit_loop now qs s =
     (map fst (takeWhile (\<lambda>(_, t). t \<le> now) qs),
      s\<lparr> sd_queue := dropWhile (\<lambda>(_, t). t \<le> now) qs,
         sd_stats := (sd_stats s)\<lparr> ss_emitted :=
           ss_emitted (sd_stats s) + length (takeWhile (\<lambda>(_, t). t \<le> now) qs) \<rparr> \<rparr>)"
proof (induction qs arbitrary: s)
  case (Cons q qs)
  then show ?case by (cases q) (auto simp: sched_stat_def)
qed simp

lemma drop_loop_result:
  "drop_loop h rq s =
     (length (takeWhile (\<lambda>(_, t). h < t) rq),
      s\<lparr> sd_queue := rev (dropWhile (\<lambda>(_, t). h < t) rq),
         sd_stats := (sd_stats s)\<lparr> ss_dropped_watermark :=
           ss_dropped_watermark (sd_stats s) + length (takeWhile (\<lambda>(_, t). h < t) rq) \<rparr> \<rparr>)"
proof (induction rq arbitrary: s)
  case (Cons q qs)
  then show ?case by (cases q) (auto simp: sched_stat_def)
qed simp


text \<open>The closure variant with a closure that collects and never fails is the
  collecting one.\<close>

lemma emit_with_collect:
  "emit_with_loop now (\<lambda>x c. (Inr (), c @ [x])) qs c s
     = (case emit_loop now qs s of (out, s') \<Rightarrow> (Inr (), c @ out, s'))"
  by (induction now qs s arbitrary: c rule: emit_loop.induct) (auto simp: Let_def split: prod.splits)


section \<open>Runs and the invariant\<close>

datatype 'a sched_event = SPush "'a rendered" nat | SEmit nat | SDrop nat

fun sched_step :: "'a sched_event \<Rightarrow> 'a sched \<Rightarrow> 'a sched" where
  "sched_step (SPush f now) s = sched_push f now s"
| "sched_step (SEmit now) s = snd (emit_due now s)"
| "sched_step (SDrop now) s = snd (drop_over_watermark now s)"

definition on_rhythm :: "'a sched \<Rightarrow> 'a rendered \<times> nat \<Rightarrow> bool" where
  "on_rhythm s = (\<lambda>(f, t). case (sd_anchor_pts s, sd_anchor_at s) of
     (Some p0, Some t0) \<Rightarrow> p0 \<le> rf_pts f \<and> t = t0 + millis (rf_pts f - p0)
   | _ \<Rightarrow> False)"

definition sched_accounted :: "'a sched \<Rightarrow> bool" where
  "sched_accounted s \<longleftrightarrow>
     ss_received (sd_stats s) = ss_emitted (sd_stats s) + ss_dropped_watermark (sd_stats s)
       + ss_dropped_reset (sd_stats s) + ss_dropped_stale (sd_stats s) + length (sd_queue s)"

definition sched_inv :: "'a sched \<Rightarrow> bool" where
  "sched_inv s \<longleftrightarrow> sched_accounted s \<and> length (sd_queue s) \<le> MAX_QUEUE_LEN
     \<and> (\<forall>q \<in> set (sd_queue s). on_rhythm s q)"

text \<open>One push, by its four outcomes.\<close>

lemma sched_push_cases:
  assumes "sched_inv s"
  obtains (enqueue) s1 t where "sched_push f now s = cap_queue (sd_queue s @ [(f, t)]) s1"
      "sd_queue s1 = sd_queue s" "\<forall>q \<in> set (sd_queue s @ [(f, t)]). on_rhythm s1 q"
      "ss_received (sd_stats s1) = ss_received (sd_stats s) + 1"
      "ss_emitted (sd_stats s1) = ss_emitted (sd_stats s)"
      "ss_dropped_watermark (sd_stats s1) = ss_dropped_watermark (sd_stats s)"
      "ss_dropped_reset (sd_stats s1) = ss_dropped_reset (sd_stats s)"
      "ss_dropped_stale (sd_stats s1) = ss_dropped_stale (sd_stats s)"
      "sd_target_delay s1 = sd_target_delay s"
  | (jump) "sched_push f now s = reanchor f now (sched_stat (\<lambda>t. t\<lparr> ss_received := ss_received t + 1 \<rparr>) s)"
  | (dropped) "sched_push f now s = sched_stat (\<lambda>t. t\<lparr> ss_dropped_stale := ss_dropped_stale t + 1 \<rparr>)
        (sched_stat (\<lambda>t. t\<lparr> ss_received := ss_received t + 1 \<rparr>) s)"
proof (cases "\<exists>p0 t0. sd_anchor_pts s = Some p0 \<and> sd_anchor_at s = Some t0")
  case False
  then have "sd_queue s = []"
    using assms by (cases "sd_queue s") (auto simp: sched_inv_def on_rhythm_def split: option.splits)
  with False show thesis
    by (intro enqueue [of now "(sched_stat (\<lambda>t. t\<lparr> ss_received := ss_received t + 1 \<rparr>) s)
          \<lparr> sd_anchor_pts := Some (rf_pts f), sd_anchor_at := Some now \<rparr>"])
       (auto simp: sched_push_def Let_def on_rhythm_def millis_def split: option.splits)
next
  case True
  then obtain p0 t0 where a: "sd_anchor_pts s = Some p0" "sd_anchor_at s = Some t0" by blast
  let ?t = "t0 + millis (rf_pts f - p0)"
  let ?s1 = "sched_stat (\<lambda>t. t\<lparr> ss_received := ss_received t + 1, ss_held := ss_held t + (if ?t > now then 1 else 0) \<rparr>) s"
  show thesis
  proof (cases "rf_pts f < p0 \<or> millis (rf_pts f - p0) > sd_jump_reset s")
    case True
    show ?thesis
    proof (cases "(if rf_pts f < p0 then millis (p0 - rf_pts f) else millis (rf_pts f - p0)) > sd_jump_reset s")
      case True
      then show ?thesis using a by (intro jump) (simp add: sched_push_def Let_def split: if_splits)
    next
      case False
      then show ?thesis using a True by (intro dropped) (simp add: sched_push_def Let_def split: if_splits)
    qed
  next
    case False
    then have "sched_push f now s = cap_queue (sd_queue s @ [(f, ?t)]) ?s1"
      using a by (simp add: sched_push_def Let_def) (simp add: sched_stat_def)
    then show ?thesis
      by (rule enqueue) (use False a assms in \<open>auto simp: sched_inv_def on_rhythm_def\<close>)
  qed
qed

lemma on_rhythm_queue [simp]:
  "on_rhythm (s\<lparr> sd_queue := x, sd_stats := y \<rparr>) = on_rhythm s"
  "on_rhythm (sched_stat f s) = on_rhythm s"
  by (auto simp: on_rhythm_def fun_eq_iff)

lemma sched_push_inv:
  assumes "sched_inv s"
  shows "sched_inv (sched_push f now s)"
  using assms
proof (cases rule: sched_push_cases [where f = f and now = now, case_names enqueue jump dropped])
  case (enqueue s1 t)
  then show ?thesis using assms
    by (auto simp: sched_inv_def sched_accounted_def cap_queue_result dest!: in_set_dropD)
next
  case jump
  then show ?thesis using assms
    by (simp add: sched_inv_def sched_accounted_def reanchor_def on_rhythm_def MAX_QUEUE_LEN_def millis_def)
next
  case dropped
  then show ?thesis using assms by (simp add: sched_inv_def sched_accounted_def)
qed

lemma length_take_drop_while: "length (takeWhile P xs) + length (dropWhile P xs) = length xs"
  by (metis length_append takeWhile_dropWhile_id)

lemma sched_emit_inv:
  assumes "sched_inv s" shows "sched_inv (snd (emit_due now s))"
  using assms length_take_drop_while [of "\<lambda>(_, t). t \<le> now" "sd_queue s"]
  by (auto simp: emit_due_def emit_due_into_def emit_loop_result sched_inv_def sched_accounted_def
      dest: set_dropWhileD)

lemma sched_drop_inv:
  assumes "sched_inv s" shows "sched_inv (snd (drop_over_watermark now s))"
  using assms length_take_drop_while [of "\<lambda>(_, t). now + sd_target_delay s < t" "rev (sd_queue s)"]
  by (auto simp: drop_over_watermark_def drop_loop_result sched_inv_def sched_accounted_def
      dest: set_dropWhileD)

interpretation sched: stepper sched_step sched_inv
proof
  fix s :: "'a sched" and ev assume "sched_inv s"
  then show "sched_inv (sched_step ev s)"
    by (cases ev) (simp_all add: sched_push_inv sched_emit_inv sched_drop_inv)
qed

lemma sched_inv_new: "sched_inv (sched_new target jump)"
  by (simp add: sched_new_def sched_inv_def sched_accounted_def)


section \<open>Frames in time-stamp order\<close>

fun pushed_pts :: "'a sched_event list \<Rightarrow> u32 list" where
  "pushed_pts [] = []"
| "pushed_pts (SPush f _ # es) = rf_pts f # pushed_pts es"
| "pushed_pts (_ # es) = pushed_pts es"

definition queue_pts :: "'a sched \<Rightarrow> u32 list" where
  "queue_pts s = map (rf_pts \<circ> fst) (sd_queue s)"

lemma push_keeps_order:
  assumes "sched_inv s" "sorted (queue_pts s)" "\<forall>p \<in> set (queue_pts s). p \<le> rf_pts f"
  shows "sorted (queue_pts (sched_push f now s)) \<and> set (queue_pts (sched_push f now s)) \<subseteq> insert (rf_pts f) (set (queue_pts s))"
  using assms(1)
proof (cases rule: sched_push_cases [where f = f and now = now, case_names enqueue jump dropped])
  case (enqueue s1 t)
  have m: "queue_pts s @ [rf_pts f] = map (rf_pts \<circ> fst) (sd_queue s @ [(f, t)])" by (simp add: queue_pts_def)
  have e: "queue_pts (sched_push f now s) = drop (length (sd_queue s @ [(f, t)]) - MAX_QUEUE_LEN) (queue_pts s @ [rf_pts f])"
    unfolding m by (simp add: enqueue(1) cap_queue_result queue_pts_def drop_map del: drop_append map_append)
  have "sorted (queue_pts s @ [rf_pts f])" using assms(2,3) by (simp add: sorted_append)
  then show ?thesis unfolding e by (auto simp del: drop_append intro: sorted_wrt_drop dest: in_set_dropD)
next
  case jump
  then show ?thesis by (simp add: queue_pts_def reanchor_def)
next
  case dropped
  then show ?thesis using assms by (auto simp: queue_pts_def)
qed

lemma run_keeps_order:
  assumes "sched_inv s" "sorted (queue_pts s)" "sorted (pushed_pts evs)"
    "\<forall>p \<in> set (queue_pts s). \<forall>q \<in> set (pushed_pts evs). p \<le> q"
  shows "sorted (queue_pts (fold sched_step evs s))"
  using assms
proof (induction evs arbitrary: s)
  case (Cons ev evs)
  have sub: "sorted (queue_pts (sched_step ev s)) \<and> (\<forall>p \<in> set (queue_pts (sched_step ev s)). \<forall>q \<in> set (pushed_pts evs). p \<le> q)"
  proof (cases ev)
    case (SPush f now)
    then show ?thesis using push_keeps_order [OF Cons.prems(1,2), of f now] Cons.prems(3,4) by auto
  next
    case (SEmit now)
    have "queue_pts (snd (emit_due now s)) = drop (length (takeWhile (\<lambda>(_, t). t \<le> now) (sd_queue s))) (queue_pts s)"
      by (simp add: emit_due_def emit_due_into_def emit_loop_result queue_pts_def drop_map dropWhile_eq_drop)
    then show ?thesis using Cons.prems(2,4) SEmit by (auto intro: sorted_wrt_drop dest: in_set_dropD)
  next
    case (SDrop now)
    let ?n = "length (takeWhile (\<lambda>(_, t). now + sd_target_delay s < t) (rev (sd_queue s)))"
    have "queue_pts (snd (drop_over_watermark now s)) = take (length (sd_queue s) - ?n) (queue_pts s)"
      by (simp add: drop_over_watermark_def drop_loop_result queue_pts_def take_map dropWhile_eq_drop rev_drop)
    then show ?thesis using Cons.prems(2,4) SDrop by (auto intro: sorted_wrt_take dest: in_set_takeD)
  qed
  have "sorted (pushed_pts evs)" using Cons.prems(3) by (cases ev) auto
  then show ?case using Cons.IH [OF sched.step_inv [OF Cons.prems(1)]] sub by simp
qed simp


lemma rhythm_distance:
  assumes "on_rhythm s (f, t)" "on_rhythm s (g, u)" "rf_pts f \<le> rf_pts g"
  shows "u = t + millis (rf_pts g - rf_pts f)"
proof -
  obtain p0 t0 where p: "p0 \<le> rf_pts f" "p0 \<le> rf_pts g" "t = t0 + millis (rf_pts f - p0)" "u = t0 + millis (rf_pts g - p0)"
    using assms(1,2) by (auto simp: on_rhythm_def split: option.splits)
  have "unat (rf_pts g - p0) = unat (rf_pts g - rf_pts f) + unat (rf_pts f - p0)"
    using p(1,2) assms(3) by (simp add: unat_sub word_le_nat_alt)
  then show ?thesis using p(3,4) by (simp add: millis_def algebra_simps)
qed

lemma sorted_dropWhile_late:
  fixes q :: "('a \<times> nat) list"
  shows "sorted (map snd q) \<Longrightarrow> (f, t) \<in> set (dropWhile (\<lambda>(_, t). t \<le> now) q) \<Longrightarrow> now < t"
  by (induction q) (force split: if_splits)+

lemma sorted_dropWhile_early:
  fixes q :: "('a \<times> nat) list"
  shows "sorted (map snd q) \<Longrightarrow> (f, t) \<in> set (dropWhile (\<lambda>(_, t). h < t) (rev q)) \<Longrightarrow> t \<le> h"
  by (induction q rule: rev_induct) (force simp: sorted_append split: if_splits)+

lemma sorted_play_times:
  assumes "sched_inv s" "sorted (queue_pts s)"
  shows "sorted (map snd (sd_queue s))"
proof -
  have "sorted_wrt (\<lambda>a b. rf_pts (fst a) \<le> rf_pts (fst b)) (sd_queue s)"
    using assms(2) by (simp add: queue_pts_def sorted_wrt_map comp_def)
  then have "sorted_wrt (\<lambda>a b. snd a \<le> snd b) (sd_queue s)"
  proof (rule sorted_wrt_mono_rel [rotated])
    fix a b assume "a \<in> set (sd_queue s)" "b \<in> set (sd_queue s)" "rf_pts (fst a) \<le> rf_pts (fst b)"
    then show "snd a \<le> snd b"
      using assms(1) rhythm_distance [of s "fst a" "snd a" "fst b" "snd b"] by (simp add: sched_inv_def)
  qed
  then show ?thesis by (simp add: sorted_wrt_map)
qed


section \<open>Properties\<close>

text \<open>
  C38. The scheduler loses no frame silently and keeps the source's rhythm: after
  any pushes, emissions and drops on a new scheduler, every frame received was
  emitted, was counted under one of the three drop counters, or is still queued; at
  most 120 frames are queued; and the play times of any two queued frames lie
  exactly as far apart as their time stamps.
\<close>

theorem scheduler_accounts_and_keeps_rhythm:
  fixes evs :: "'a sched_event list"
  assumes "s = fold sched_step evs (sched_new target jump)"
  shows "ss_received (sd_stats s) = ss_emitted (sd_stats s) + ss_dropped_watermark (sd_stats s)
           + ss_dropped_reset (sd_stats s) + ss_dropped_stale (sd_stats s) + length (sd_queue s)
       \<and> length (sd_queue s) \<le> 120
       \<and> (\<forall>(f, t) \<in> set (sd_queue s). \<forall>(g, u) \<in> set (sd_queue s).
            rf_pts f \<le> rf_pts g \<longrightarrow> u = t + millis (rf_pts g - rf_pts f))"
proof -
  have "sched_inv s" unfolding assms by (rule sched.fold_inv [OF sched_inv_new])
  then show ?thesis
    using rhythm_distance [of s] by (fastforce simp: sched_inv_def sched_accounted_def MAX_QUEUE_LEN_def)
qed

lemmas sched_example_simps = sched_new_def sched_push_def cap_queue_result MAX_QUEUE_LEN_def millis_def
  sched_stat_def Let_def

definition pic :: "u32 \<Rightarrow> unit rendered" where
  "pic p = \<lparr> rf_pts = p, rf_data = () \<rparr>"

lemma scheduler_accounts_and_keeps_rhythm_witness:
  "length (sd_queue (fold sched_step [SPush (pic 0) 5, SPush (pic 40) 6, SEmit 7] (sched_new 100 1000000000))) \<le> 120"
  using scheduler_accounts_and_keeps_rhythm [OF refl] by blast

text \<open>
  Emission and the watermark: \<open>emit_due\<close> hands out, in queue order, frames
  whose play time has come and stops at the first that must wait; dropping over the
  watermark removes from the end only frames that would play later than the target
  delay.  When the time stamps pushed so far do not decrease, the queue is ordered
  by play time, so afterwards every frame left plays within the target delay and
  every frame that is due has been handed out.
\<close>

theorem scheduler_emits_due_within_watermark:
  fixes evs :: "'a sched_event list"
  assumes "s = fold sched_step evs (sched_new target jump)" and "sorted (pushed_pts evs)"
    and "emit_due now s = (out, s')" and "drop_over_watermark now s' = (n, s'')"
  shows "\<exists>due late. map fst due = out \<and> sd_queue s = due @ sd_queue s'' @ late \<and> length late = n
           \<and> (\<forall>(f, t) \<in> set due. t \<le> now)
           \<and> (\<forall>(f, t) \<in> set (sd_queue s''). now < t \<and> t \<le> now + sd_target_delay s)
           \<and> (\<forall>(f, t) \<in> set late. now + sd_target_delay s < t)"
proof -
  let ?q = "sd_queue s" and ?h = "now + sd_target_delay s"
  have inv: "sched_inv s" unfolding assms(1) by (rule sched.fold_inv [OF sched_inv_new])
  have "sorted (queue_pts s)"
    unfolding assms(1) by (rule run_keeps_order [OF sched_inv_new]) (simp_all add: assms(2) sched_new_def queue_pts_def)
  then have st: "sorted (map snd ?q)" by (rule sorted_play_times [OF inv])
  define due where "due = takeWhile (\<lambda>(_, t). t \<le> now) ?q"
  define rest where "rest = dropWhile (\<lambda>(_, t). t \<le> now) ?q"
  define late where "late = rev (takeWhile (\<lambda>(_, t). ?h < t) (rev rest))"
  have q: "?q = due @ rest" unfolding due_def rest_def by (simp only: takeWhile_dropWhile_id)
  have out: "map fst due = out" "sd_queue s' = rest" "sd_target_delay s' = sd_target_delay s"
    using assms(3) unfolding due_def rest_def by (auto simp: emit_due_def emit_due_into_def emit_loop_result)
  have drop: "length late = n" "sd_queue s'' = rev (dropWhile (\<lambda>(_, t). ?h < t) (rev rest))"
    using assms(4) unfolding late_def by (auto simp: drop_over_watermark_def drop_loop_result out(2,3))
  have rest: "rest = sd_queue s'' @ late"
    unfolding drop(2) late_def by (simp only: rev_append [symmetric] takeWhile_dropWhile_id rev_rev_ident)
  have sr: "sorted (map snd rest)" using st unfolding q by (simp only: map_append sorted_append)
  have "now < t" if "(f, t) \<in> set rest" for f t
    using sorted_dropWhile_late [OF st] that unfolding rest_def .
  moreover have "t \<le> ?h" if "(f, t) \<in> set (sd_queue s'')" for f t
    by (rule sorted_dropWhile_early [OF sr]) (use that drop(2) in simp)
  ultimately have "\<forall>(f, t) \<in> set (sd_queue s''). now < t \<and> t \<le> ?h"
    unfolding rest set_append by blast
  moreover have "\<forall>(f, t) \<in> set due. t \<le> now" unfolding due_def by (auto dest: set_takeWhileD)
  moreover have "\<forall>(f, t) \<in> set late. ?h < t" unfolding late_def by (auto dest: set_takeWhileD)
  moreover have "?q = due @ sd_queue s'' @ late" using q unfolding rest .
  ultimately show ?thesis using out(1) drop(1) by blast
qed

definition sample_sched :: "unit sched" where
  "sample_sched = fold sched_step [SPush (pic 0) 5, SPush (pic 40) 6] (sched_new 100 1000000000)"

lemma scheduler_emits_due_within_watermark_witness:
  "\<exists>due. map fst due = fst (emit_due 7 sample_sched) \<and> (\<forall>(f, t) \<in> set due. t \<le> (7 :: nat))"
proof -
  have d: "sd_target_delay sample_sched = 100" by (simp add: sample_sched_def sched_example_simps pic_def)
  have o: "sorted (pushed_pts [SPush (pic 0) 5, SPush (pic 40) 6])" by (simp add: pic_def)
  obtain out s' where e: "emit_due 7 sample_sched = (out, s')" by (cases "emit_due 7 sample_sched")
  obtain n s'' where w: "drop_over_watermark 7 s' = (n, s'')" by (cases "drop_over_watermark 7 s'")
  show ?thesis
    using scheduler_emits_due_within_watermark [OF sample_sched_def o e w] unfolding d e by auto
qed

text \<open>With time stamps out of order the queue is not ordered by play time, as the
  comment on the field says it is: the third frame waits behind a later one.\<close>

lemma queue_unsorted_example:
  "map snd (sd_queue (fold sched_step [SPush (pic 0) 0, SPush (pic 100) 1, SPush (pic 50) 2] (sched_new 100 1000000000)))
     = [0, 100000000, 50000000]"
  by (simp add: sched_example_simps pic_def)

end
