(* ===== verification/Endpoints.thy ===== *)
theory Endpoints
  imports Ids "HOL-Library.List_Lexorder"
begin

text \<open>
  The endpoint messages of \<open>stross-proto/src/message/endpoint.rs\<close> and
  \<open>negotiator.rs\<close>: visibility, strategies, the manifest of an endpoint with the
  strategy lookup every consumer shares, summaries and directories; and what the
  registry relies on of an endpoint object (\<open>stross-endpoint/src/contract.rs\<close>).
\<close>

datatype visibility = Public | Confirm | Private "node_id list"

fun visibility_as_str :: "visibility \<Rightarrow> string" where
  "visibility_as_str Public = ''public''"
| "visibility_as_str Confirm = ''confirm''"
| "visibility_as_str (Private _) = ''private''"

definition visibility_from_wire :: "string \<Rightarrow> visibility option" where
  "visibility_from_wire s =
     (if s = ''public'' then Some Public else if s = ''confirm'' then Some Confirm
      else if s = ''private'' then Some (Private []) else None)"

record transport_preference =
  tp_transport :: transport_id
  tp_priority :: nat

record endpoint_strategy =
  es_strategy_id :: strategy_id
  es_serialize :: serialize_rule
  es_pick :: pick_rule

definition strategy_passthrough :: "pick_rule \<Rightarrow> endpoint_strategy" where
  "strategy_passthrough pick =
     \<lparr> es_strategy_id = StrategyDefault, es_serialize = SerPassthrough, es_pick = pick \<rparr>"

record endpoint_manifest =
  em_endpoint_id :: u32
  em_kind :: media_kind
  em_name :: string
  em_available :: bool
  em_last_error :: "string option"
  em_published :: bool
  em_visibility :: visibility
  em_delivery :: delivery
  em_transports :: "transport_preference list"
  em_transport_profile :: profile
  em_pick_rule :: pick_rule
  em_strategies :: "endpoint_strategy list"
  em_codecs :: "codec_id list"
  em_state :: endpoint_state
  em_subscribers :: u32
  em_updated_at :: nat

record endpoint_summary =
  sm_endpoint_id :: u32
  sm_kind :: media_kind
  sm_name :: string
  sm_available :: bool
  sm_published :: bool

record endpoint_node =
  en_node_id :: node_id
  en_node_name :: string

record endpoint_dir =
  ed_node :: endpoint_node
  ed_endpoints :: "endpoint_manifest list"

definition em_id :: "endpoint_manifest \<Rightarrow> endpoint_id" where
  "em_id m = EndpointId (em_kind m) (em_endpoint_id m)"

text \<open>\<open>EndpointManifest::strategy\<close>: the strategy asked for, else the first one,
  else the flat pick rule.\<close>

definition manifest_strategy :: "string option \<Rightarrow> endpoint_manifest \<Rightarrow> endpoint_strategy" where
  "manifest_strategy sid m =
     (case find (\<lambda>s. Some (strategy_as_str (es_strategy_id s)) = sid) (em_strategies m) of
        Some s \<Rightarrow> s
      | None \<Rightarrow> (case em_strategies m of s # _ \<Rightarrow> s | [] \<Rightarrow> strategy_passthrough (em_pick_rule m)))"

datatype target_kind = Determined | Live

text \<open>An endpoint object, by the answers of its trait methods.\<close>

record share_endpoint =
  se_id :: endpoint_id
  se_name :: string
  se_available :: bool
  se_last_error :: "string option"
  se_target :: target_kind
  se_transport_profile :: profile
  se_strategy :: endpoint_strategy

instantiation node_id :: linorder
begin

definition less_eq_node_id :: "node_id \<Rightarrow> node_id \<Rightarrow> bool" where
  "less_eq_node_id a b \<longleftrightarrow> node_bytes a \<le> node_bytes b"

definition less_node_id :: "node_id \<Rightarrow> node_id \<Rightarrow> bool" where
  "less_node_id a b \<longleftrightarrow> node_bytes a < node_bytes b"

instance
  by standard (auto simp: less_eq_node_id_def less_node_id_def node_id.expand)

end

lemma manifest_strategy_none:
  "manifest_strategy None m = (case em_strategies m of s # _ \<Rightarrow> s | [] \<Rightarrow> strategy_passthrough (em_pick_rule m))"
proof -
  have "find (\<lambda>_. False) ss = None" for ss :: "endpoint_strategy list"
    by (induction ss) simp_all
  then show ?thesis by (simp add: manifest_strategy_def)
qed

end
