(* ===== verification/Registry.thy ===== *)
theory Registry
  imports Endpoints "HOL-Library.AList" "HOL-Library.Multiset"
begin

text \<open>
  The endpoint registry of \<open>stross-kernel/src/kernel/endpoint\<close>: the mount table
  keyed by host node and endpoint (\<open>mod.rs\<close>), the unified registry with its node
  table (\<open>registry.rs\<close>) and the strategy lookup (\<open>strategy.rs\<close>).  A hash map is an
  association list whose order stands for the iteration order.  The clock, the
  \<open>load\<close> method of an endpoint object and the file system are arguments.
\<close>


section \<open>The mount table\<close>

datatype endpoint_ref = EndpointRef (er_owner: node_id) (er_endpoint: endpoint_id)

record endpoint_entry =
  ee_ep :: share_endpoint
  ee_strategies :: "endpoint_strategy list"
  ee_published :: bool
  ee_visibility :: visibility
  ee_delivery :: delivery
  ee_transports :: "transport_preference list"
  ee_codecs :: "codec_id list"
  ee_state :: endpoint_state
  ee_subscribers :: u32
  ee_subscriber_nodes :: "node_id set"
  ee_updated_at :: nat

record file_source =
  fs_path :: string
  fs_name :: string
  fs_size :: nat

record endpoint_registry =
  er_endpoints :: "(endpoint_ref \<times> endpoint_entry) list"
  er_file_sources :: "(endpoint_ref \<times> file_source) list"
  er_next_file_id :: u32

datatype registry_error =
    EpMissing endpoint_ref
  | EpUnavailable "string option" endpoint_ref
  | EpAlreadyPublished endpoint_ref
  | EpNotPublished endpoint_ref
  | EpExists endpoint_id
  | FileUnreadable string
  | NotAFile string

definition registry_empty :: endpoint_registry where
  "registry_empty = \<lparr> er_endpoints = [], er_file_sources = [], er_next_file_id = 0 \<rparr>"

fun kind_rank :: "media_kind \<Rightarrow> nat" where
  "kind_rank Screen = 0"
| "kind_rank Window = 1"
| "kind_rank Camera = 2"
| "kind_rank Mic = 3"
| "kind_rank SystemAudio = 4"
| "kind_rank File = 5"
| "kind_rank Clipboard = 6"
| "kind_rank Input = 7"
| "kind_rank Service = 8"

text \<open>The comparison \<open>endpoint_order\<close> as a sort key.\<close>

definition endpoint_order :: "endpoint_manifest \<Rightarrow> nat \<times> u32" where
  "endpoint_order m = (kind_rank (em_kind m), em_endpoint_id m)"

definition strategies_of :: "endpoint_manifest \<Rightarrow> endpoint_strategy list" where
  "strategies_of m = (if em_strategies m \<noteq> [] then em_strategies m else [manifest_strategy None m])"

definition target_from_manifest :: "endpoint_manifest \<Rightarrow> target_kind" where
  "target_from_manifest m =
     (if em_transport_profile m = Lossless \<and> em_pick_rule m = StrictOrdered then Determined else Live)"

text \<open>\<open>RemoteEndpoint\<close>: the stub that stands for an endpoint of another node.\<close>

definition remote_endpoint :: "endpoint_manifest \<Rightarrow> share_endpoint" where
  "remote_endpoint m =
     \<lparr> se_id = em_id m, se_name = em_name m, se_available = em_available m,
       se_last_error = em_last_error m, se_target = target_from_manifest m,
       se_transport_profile = em_transport_profile m,
       se_strategy = (case strategies_of m of s # _ \<Rightarrow> s | [] \<Rightarrow> manifest_strategy None m) \<rparr>"

definition seed_with_owner ::
  "(share_endpoint \<Rightarrow> share_endpoint) \<Rightarrow> nat \<Rightarrow> share_endpoint \<Rightarrow> node_id \<Rightarrow> endpoint_registry
     \<Rightarrow> bool \<times> endpoint_registry" where
  "seed_with_owner load now ep0 owner r =
     (let key = EndpointRef owner (se_id ep0) in
      if map_of (er_endpoints r) key \<noteq> None then (False, r)
      else let ep = load ep0 in
        (True, r\<lparr> er_endpoints := AList.update key
           \<lparr> ee_ep = ep, ee_strategies = [se_strategy ep], ee_published = False, ee_visibility = Public,
             ee_delivery = Pull, ee_transports = [], ee_codecs = [], ee_state = Idle, ee_subscribers = 0,
             ee_subscriber_nodes = {}, ee_updated_at = now \<rparr> (er_endpoints r) \<rparr>))"

definition register_remote :: "endpoint_manifest \<Rightarrow> node_id \<Rightarrow> endpoint_registry \<Rightarrow> endpoint_registry" where
  "register_remote m owner r =
     r\<lparr> er_endpoints := AList.update (EndpointRef owner (em_id m))
          \<lparr> ee_ep = remote_endpoint m, ee_strategies = strategies_of m, ee_published = em_published m,
            ee_visibility = em_visibility m, ee_delivery = em_delivery m, ee_transports = em_transports m,
            ee_codecs = em_codecs m, ee_state = em_state m, ee_subscribers = em_subscribers m,
            ee_subscriber_nodes = {}, ee_updated_at = em_updated_at m \<rparr> (er_endpoints r) \<rparr>"

definition endpoint_entry_at :: "endpoint_ref \<Rightarrow> endpoint_registry \<Rightarrow> endpoint_entry option" where
  "endpoint_entry_at key r = map_of (er_endpoints r) key"

definition endpoint_arc :: "endpoint_ref \<Rightarrow> endpoint_registry \<Rightarrow> share_endpoint option" where
  "endpoint_arc key r = map_option ee_ep (map_of (er_endpoints r) key)"

definition registry_target :: "endpoint_ref \<Rightarrow> endpoint_registry \<Rightarrow> target_kind option" where
  "registry_target key r = map_option (se_target \<circ> ee_ep) (map_of (er_endpoints r) key)"

definition manifest_of :: "endpoint_entry \<Rightarrow> endpoint_manifest" where
  "manifest_of e =
     (let strategy = (case ee_strategies e of s # _ \<Rightarrow> s | [] \<Rightarrow> se_strategy (ee_ep e));
          i = se_id (ee_ep e)
      in \<lparr> em_endpoint_id = ep_id i, em_kind = ep_kind i, em_name = se_name (ee_ep e),
           em_available = se_available (ee_ep e), em_last_error = se_last_error (ee_ep e),
           em_published = ee_published e, em_visibility = ee_visibility e, em_delivery = ee_delivery e,
           em_transports = ee_transports e, em_transport_profile = se_transport_profile (ee_ep e),
           em_pick_rule = es_pick strategy,
           em_strategies = (if ee_strategies e = [] then [strategy] else ee_strategies e),
           em_codecs = ee_codecs e, em_state = ee_state e, em_subscribers = ee_subscribers e,
           em_updated_at = ee_updated_at e \<rparr>)"

definition owned_by :: "node_id option \<Rightarrow> endpoint_ref \<Rightarrow> bool" where
  "owned_by owner key = (case owner of None \<Rightarrow> True | Some n \<Rightarrow> er_owner key = n)"

definition manifests_of :: "node_id option \<Rightarrow> endpoint_registry \<Rightarrow> endpoint_manifest list" where
  "manifests_of owner r =
     sort_key endpoint_order
       (map (\<lambda>(_, e). manifest_of e) (filter (\<lambda>(k, _). owned_by owner k) (er_endpoints r)))"

definition published_manifests_of :: "node_id option \<Rightarrow> endpoint_registry \<Rightarrow> endpoint_manifest list" where
  "published_manifests_of owner r =
     sort_key endpoint_order
       (map (\<lambda>(_, e). manifest_of e)
         (filter (\<lambda>(k, e). owned_by owner k \<and> ee_published e) (er_endpoints r)))"

definition summaries_of :: "node_id option \<Rightarrow> endpoint_registry \<Rightarrow> endpoint_summary list" where
  "summaries_of owner r =
     sort_key (\<lambda>s. (kind_rank (sm_kind s), sm_endpoint_id s))
       (map (\<lambda>(_, e). \<lparr> sm_endpoint_id = ep_id (se_id (ee_ep e)), sm_kind = ep_kind (se_id (ee_ep e)),
                        sm_name = se_name (ee_ep e), sm_available = se_available (ee_ep e),
                        sm_published = ee_published e \<rparr>)
         (filter (\<lambda>(k, _). owned_by owner k) (er_endpoints r)))"

definition registry_manifest :: "endpoint_ref \<Rightarrow> endpoint_registry \<Rightarrow> endpoint_manifest option" where
  "registry_manifest key r = map_option manifest_of (map_of (er_endpoints r) key)"

definition put_entry :: "endpoint_ref \<Rightarrow> endpoint_entry \<Rightarrow> endpoint_registry \<Rightarrow> endpoint_registry" where
  "put_entry key e r = r\<lparr> er_endpoints := AList.update key e (er_endpoints r) \<rparr>"

definition registry_publish ::
  "nat \<Rightarrow> endpoint_ref \<Rightarrow> visibility \<Rightarrow> delivery \<Rightarrow> transport_preference list \<Rightarrow> codec_id list
     \<Rightarrow> endpoint_registry \<Rightarrow> (registry_error + endpoint_manifest) \<times> endpoint_registry" where
  "registry_publish now key vis dlv trs cs r =
     (case map_of (er_endpoints r) key of
        None \<Rightarrow> (Inl (EpMissing key), r)
      | Some e \<Rightarrow>
          if \<not> se_available (ee_ep e) then (Inl (EpUnavailable (se_last_error (ee_ep e)) key), r)
          else if ee_published e then (Inl (EpAlreadyPublished key), r)
          else let e' = e\<lparr> ee_published := True, ee_visibility := vis, ee_delivery := dlv,
                          ee_transports := trs, ee_codecs := cs, ee_updated_at := now \<rparr>
               in (Inr (manifest_of e'), put_entry key e' r))"

definition registry_unpublish ::
  "nat \<Rightarrow> endpoint_ref \<Rightarrow> endpoint_registry \<Rightarrow> (registry_error + unit) \<times> endpoint_registry" where
  "registry_unpublish now key r =
     (case map_of (er_endpoints r) key of
        None \<Rightarrow> (Inl (EpMissing key), r)
      | Some e \<Rightarrow>
          if \<not> ee_published e then (Inl (EpNotPublished key), r)
          else let e' = e\<lparr> ee_published := False, ee_visibility := Public, ee_delivery := Pull,
                          ee_transports := [], ee_codecs := [], ee_state := Idle, ee_subscribers := 0,
                          ee_updated_at := now \<rparr>
               in (Inr (), (put_entry key e' r)
                     \<lparr> er_file_sources := AList.delete key (er_file_sources r) \<rparr>))"

definition default_transports :: "target_kind \<Rightarrow> transport_preference list" where
  "default_transports target =
     (let p = (\<lambda>t n. \<lparr> tp_transport = t, tp_priority = n \<rparr>)
      in case target of
           Live \<Rightarrow> [p Quic 0, p Srt 1, p Ws 2]
         | Determined \<Rightarrow> [p Quic 0, p Ws 1])"

text \<open>The search for a free file id: it advances the counter past ids in use.  With
  fewer than 2^32 entries it ends; the fuel is one more than the number of entries.\<close>

fun alloc_file_id :: "nat \<Rightarrow> (endpoint_ref \<times> endpoint_entry) list \<Rightarrow> node_id \<Rightarrow> u32 \<Rightarrow> u32" where
  "alloc_file_id 0 eps owner n = n"
| "alloc_file_id (Suc k) eps owner n =
     (if map_of eps (EndpointRef owner (EndpointId File n)) \<noteq> None
      then alloc_file_id k eps owner (n + 1) else n)"

definition file_endpoint :: "endpoint_id \<Rightarrow> string \<Rightarrow> share_endpoint" where
  "file_endpoint i name =
     \<lparr> se_id = i, se_name = name, se_available = False, se_last_error = None, se_target = Determined,
       se_transport_profile = Lossless, se_strategy = strategy_passthrough StrictOrdered \<rparr>"

text \<open>\<open>FileEndpoint::load\<close>, given whether the path is a file now.\<close>

definition file_load :: "bool \<Rightarrow> share_endpoint \<Rightarrow> share_endpoint" where
  "file_load is_file ep =
     (if is_file then ep\<lparr> se_available := True, se_last_error := None \<rparr>
      else ep\<lparr> se_available := False, se_last_error := Some ''unreadable'' \<rparr>)"

text \<open>\<open>stat\<close> is the file system's answer for the path: unreadable, or whether it is a
  regular file and its size; \<open>is_file\<close> the answer the endpoint's own probe gets.\<close>

definition registry_publish_file ::
  "nat \<Rightarrow> string \<Rightarrow> string \<Rightarrow> (bool \<times> nat) option \<Rightarrow> bool \<Rightarrow> visibility \<Rightarrow> delivery \<Rightarrow> node_id
     \<Rightarrow> endpoint_registry \<Rightarrow> (registry_error + endpoint_manifest) \<times> endpoint_registry" where
  "registry_publish_file now path name stat is_file vis dlv owner r =
     (case stat of
        None \<Rightarrow> (Inl (FileUnreadable path), r)
      | Some (regular, sz) \<Rightarrow>
          if \<not> regular then (Inl (NotAFile path), r)
          else
            let n = alloc_file_id (Suc (length (er_endpoints r))) (er_endpoints r) owner (er_next_file_id r);
                i = EndpointId File n;
                key = EndpointRef owner i;
                r1 = r\<lparr> er_next_file_id := n + 1 \<rparr>;
                (seeded, r2) = seed_with_owner (file_load is_file) now (file_endpoint i name) owner r1
            in if \<not> seeded then (Inl (EpExists i), r2)
               else registry_publish now key vis dlv (default_transports Determined) []
                      (r2\<lparr> er_file_sources := AList.update key
                             \<lparr> fs_path = path, fs_name = name, fs_size = sz \<rparr> (er_file_sources r2) \<rparr>))"

definition registry_file_source :: "endpoint_ref \<Rightarrow> endpoint_registry \<Rightarrow> file_source option" where
  "registry_file_source key r = map_of (er_file_sources r) key"

definition registry_set_state ::
  "nat \<Rightarrow> endpoint_ref \<Rightarrow> endpoint_state \<Rightarrow> u32 \<Rightarrow> endpoint_registry \<Rightarrow> bool \<times> endpoint_registry" where
  "registry_set_state now key st subs r =
     (case map_of (er_endpoints r) key of
        None \<Rightarrow> (False, r)
      | Some e \<Rightarrow> (True, put_entry key (e\<lparr> ee_state := st, ee_subscribers := subs, ee_updated_at := now \<rparr>) r))"

definition registry_note_subscriber ::
  "nat \<Rightarrow> endpoint_ref \<Rightarrow> node_id \<Rightarrow> endpoint_registry \<Rightarrow> endpoint_registry" where
  "registry_note_subscriber now key node r =
     (case map_of (er_endpoints r) key of
        None \<Rightarrow> r
      | Some e \<Rightarrow>
          let nodes = insert node (ee_subscriber_nodes e)
          in put_entry key (e\<lparr> ee_subscriber_nodes := nodes, ee_subscribers := u32_of_nat (card nodes),
                              ee_updated_at := now \<rparr>) r)"

definition registry_note_unsubscriber ::
  "nat \<Rightarrow> endpoint_ref \<Rightarrow> node_id \<Rightarrow> endpoint_registry \<Rightarrow> u32 \<times> endpoint_registry" where
  "registry_note_unsubscriber now key node r =
     (case map_of (er_endpoints r) key of
        None \<Rightarrow> (0, r)
      | Some e \<Rightarrow>
          let nodes = ee_subscriber_nodes e - {node}
          in (u32_of_nat (card nodes),
              put_entry key (e\<lparr> ee_subscriber_nodes := nodes, ee_subscribers := u32_of_nat (card nodes),
                              ee_updated_at := now \<rparr>) r))"

definition registry_clear_subscribers :: "endpoint_ref \<Rightarrow> endpoint_registry \<Rightarrow> endpoint_registry" where
  "registry_clear_subscribers key r =
     (case map_of (er_endpoints r) key of
        None \<Rightarrow> r
      | Some e \<Rightarrow> put_entry key (e\<lparr> ee_subscriber_nodes := {}, ee_subscribers := 0 \<rparr>) r)"

definition registry_subscriber_nodes :: "endpoint_ref \<Rightarrow> endpoint_registry \<Rightarrow> node_id set option" where
  "registry_subscriber_nodes key r = map_option ee_subscriber_nodes (map_of (er_endpoints r) key)"



section \<open>The unified registry\<close>

record node_entry =
  ne_node_id :: node_id
  ne_name :: string
  ne_addr :: string
  ne_is_self :: bool
  ne_endpoint_ids :: "endpoint_id list"

record unified_registry =
  ur_nodes :: "(node_id \<times> node_entry) list"
  ur_endpoints :: endpoint_registry
  ur_self_node :: node_id
  ur_self_name :: string

definition self_entry :: "node_id \<Rightarrow> string \<Rightarrow> node_entry" where
  "self_entry n name =
     \<lparr> ne_node_id = n, ne_name = name, ne_addr = ''local'', ne_is_self = True, ne_endpoint_ids = [] \<rparr>"

text \<open>The default display name is a parameter: it is not ASCII in the source.\<close>

definition unified_default :: "string \<Rightarrow> unified_registry" where
  "unified_default host_name =
     \<lparr> ur_nodes = [(NIL, self_entry NIL host_name)], ur_endpoints = registry_empty,
       ur_self_node = NIL, ur_self_name = host_name \<rparr>"

definition is_self_node :: "node_id \<Rightarrow> node_id \<Rightarrow> bool" where
  "is_self_node n self \<longleftrightarrow> n = self \<or> n = NIL \<or> n = from_seed ''local''"

definition normalize_node :: "node_id \<Rightarrow> node_id \<Rightarrow> node_id" where
  "normalize_node n self = (if is_self_node n self then self else n)"

text \<open>Moving the entries of the old host to the new key, one by one.\<close>

definition rekey_step ::
  "node_id \<Rightarrow> endpoint_ref \<Rightarrow> (endpoint_ref \<times> endpoint_entry) list \<Rightarrow> (endpoint_ref \<times> endpoint_entry) list" where
  "rekey_step new_id k eps =
     (case map_of eps k of
        None \<Rightarrow> eps
      | Some e \<Rightarrow> AList.update (EndpointRef new_id (er_endpoint k)) e (AList.delete k eps))"

definition set_self_node :: "node_id \<Rightarrow> string \<Rightarrow> unified_registry \<Rightarrow> unified_registry" where
  "set_self_node new_id name ur =
     (let old_id = ur_self_node ur;
          ur1 =
            (if old_id \<noteq> new_id then
               let nodes1 =
                     (case map_of (ur_nodes ur) old_id of
                        Some entry \<Rightarrow>
                          AList.update new_id
                            (entry\<lparr> ne_node_id := new_id, ne_name := name, ne_is_self := True \<rparr>)
                            (AList.delete old_id (ur_nodes ur))
                      | None \<Rightarrow> AList.update new_id (self_entry new_id name) (ur_nodes ur));
                   r = ur_endpoints ur;
                   old_keys = filter (\<lambda>k. er_owner k = old_id) (map fst (er_endpoints r))
               in ur\<lparr> ur_nodes := nodes1,
                      ur_endpoints := r\<lparr> er_endpoints := fold (rekey_step new_id) old_keys (er_endpoints r) \<rparr> \<rparr>
             else
               (case map_of (ur_nodes ur) new_id of
                  Some entry \<Rightarrow>
                    ur\<lparr> ur_nodes := AList.update new_id (entry\<lparr> ne_name := name, ne_is_self := True \<rparr>) (ur_nodes ur) \<rparr>
                | None \<Rightarrow> ur\<lparr> ur_nodes := AList.update new_id (self_entry new_id name) (ur_nodes ur) \<rparr>))
      in ur1\<lparr> ur_self_node := new_id, ur_self_name := name \<rparr>)"

definition ensure_self_entry :: "unified_registry \<Rightarrow> unified_registry" where
  "ensure_self_entry ur =
     (if map_of (ur_nodes ur) (ur_self_node ur) = None
      then ur\<lparr> ur_nodes := AList.update (ur_self_node ur) (self_entry (ur_self_node ur) (ur_self_name ur)) (ur_nodes ur) \<rparr>
      else ur)"

text \<open>Append an endpoint reference to the host's own node entry, unless it is there.\<close>

definition add_self_ref :: "endpoint_id \<Rightarrow> unified_registry \<Rightarrow> unified_registry" where
  "add_self_ref i ur0 =
     (let ur = ensure_self_entry ur0 in
      case map_of (ur_nodes ur) (ur_self_node ur) of
        None \<Rightarrow> ur
      | Some n \<Rightarrow>
          if i \<in> set (ne_endpoint_ids n) then ur
          else ur\<lparr> ur_nodes := AList.update (ur_self_node ur)
                    (n\<lparr> ne_endpoint_ids := ne_endpoint_ids n @ [i] \<rparr>) (ur_nodes ur) \<rparr>)"

definition unified_seed ::
  "(share_endpoint \<Rightarrow> share_endpoint) \<Rightarrow> nat \<Rightarrow> share_endpoint \<Rightarrow> unified_registry \<Rightarrow> bool \<times> unified_registry" where
  "unified_seed load now ep ur =
     (let (ok, r) = seed_with_owner load now ep (ur_self_node ur) (ur_endpoints ur)
      in if \<not> ok then (False, ur) else (True, add_self_ref (se_id ep) (ur\<lparr> ur_endpoints := r \<rparr>)))"

definition own_ref :: "unified_registry \<Rightarrow> endpoint_id \<Rightarrow> endpoint_ref" where
  "own_ref ur i = EndpointRef (ur_self_node ur) i"

definition manifest_for :: "node_id \<Rightarrow> endpoint_id \<Rightarrow> unified_registry \<Rightarrow> endpoint_manifest option" where
  "manifest_for n i ur =
     registry_manifest (EndpointRef (normalize_node n (ur_self_node ur)) i) (ur_endpoints ur)"

definition unified_manifest :: "endpoint_id \<Rightarrow> unified_registry \<Rightarrow> endpoint_manifest option" where
  "unified_manifest i ur = manifest_for (ur_self_node ur) i ur"

definition unified_manifests :: "unified_registry \<Rightarrow> endpoint_manifest list" where
  "unified_manifests ur = manifests_of (Some (ur_self_node ur)) (ur_endpoints ur)"

definition unified_published :: "unified_registry \<Rightarrow> endpoint_manifest list" where
  "unified_published ur = published_manifests_of (Some (ur_self_node ur)) (ur_endpoints ur)"

definition unified_summaries :: "unified_registry \<Rightarrow> endpoint_summary list" where
  "unified_summaries ur = summaries_of (Some (ur_self_node ur)) (ur_endpoints ur)"

definition unified_publish where
  "unified_publish now i vis dlv trs cs ur =
     (let (res, r) = registry_publish now (own_ref ur i) vis dlv trs cs (ur_endpoints ur)
      in (res, ur\<lparr> ur_endpoints := r \<rparr>))"

definition unified_unpublish where
  "unified_unpublish now i ur =
     (let (res, r) = registry_unpublish now (own_ref ur i) (ur_endpoints ur)
      in (res, ur\<lparr> ur_endpoints := r \<rparr>))"

definition unified_publish_file where
  "unified_publish_file now path name stat is_file vis dlv ur =
     (let (res, r) = registry_publish_file now path name stat is_file vis dlv (ur_self_node ur) (ur_endpoints ur);
          ur1 = ur\<lparr> ur_endpoints := r \<rparr>
      in case res of
           Inl e \<Rightarrow> (Inl e, ur1)
         | Inr m \<Rightarrow> (Inr m, add_self_ref (em_id m) ur1))"

definition unified_file_source :: "endpoint_id \<Rightarrow> unified_registry \<Rightarrow> file_source option" where
  "unified_file_source i ur = registry_file_source (own_ref ur i) (ur_endpoints ur)"

definition unified_set_state where
  "unified_set_state now i st subs ur =
     (let (ok, r) = registry_set_state now (own_ref ur i) st subs (ur_endpoints ur)
      in (ok, ur\<lparr> ur_endpoints := r \<rparr>))"

definition unified_note_subscriber where
  "unified_note_subscriber now i n ur =
     ur\<lparr> ur_endpoints := registry_note_subscriber now (own_ref ur i) n (ur_endpoints ur) \<rparr>"

definition unified_note_unsubscriber where
  "unified_note_unsubscriber now i n ur =
     (let (left, r) = registry_note_unsubscriber now (own_ref ur i) n (ur_endpoints ur)
      in (left, ur\<lparr> ur_endpoints := r \<rparr>))"

definition unified_clear_subscribers where
  "unified_clear_subscribers i ur =
     ur\<lparr> ur_endpoints := registry_clear_subscribers (own_ref ur i) (ur_endpoints ur) \<rparr>"

definition register_remote_directory :: "endpoint_dir \<Rightarrow> string \<Rightarrow> unified_registry \<Rightarrow> unified_registry" where
  "register_remote_directory dir addr ur =
     (let n = en_node_id (ed_node dir) in
      if node_is_nil n \<or> n = ur_self_node ur then ur
      else ur\<lparr> ur_endpoints := fold (\<lambda>m. register_remote m n) (ed_endpoints dir) (ur_endpoints ur),
               ur_nodes := AList.update n
                 \<lparr> ne_node_id = n, ne_name = en_node_name (ed_node dir), ne_addr = addr, ne_is_self = False,
                   ne_endpoint_ids = map em_id (ed_endpoints dir) \<rparr> (ur_nodes ur) \<rparr>)"

definition node_endpoints :: "node_id \<Rightarrow> unified_registry \<Rightarrow> endpoint_entry list" where
  "node_endpoints n ur =
     (case map_of (ur_nodes ur) n of
        None \<Rightarrow> []
      | Some e \<Rightarrow> List.map_filter (\<lambda>i. endpoint_entry_at (EndpointRef n i) (ur_endpoints ur)) (ne_endpoint_ids e))"

definition node_ids :: "unified_registry \<Rightarrow> node_id list" where
  "node_ids ur = sort (map fst (ur_nodes ur))"

definition resolve_strategy ::
  "node_id \<Rightarrow> endpoint_id \<Rightarrow> string option \<Rightarrow> unified_registry \<Rightarrow> endpoint_strategy option" where
  "resolve_strategy n i sid ur =
     Option.bind (endpoint_entry_at (EndpointRef (normalize_node n (ur_self_node ur)) i) (ur_endpoints ur)) (\<lambda>e.
       let first = (case ee_strategies e of s # _ \<Rightarrow> Some s | [] \<Rightarrow> None) in
       if is_self_node n (ur_self_node ur) then first
       else case sid of
         Some x \<Rightarrow> find (\<lambda>s. strategy_as_str (es_strategy_id s) = x) (ee_strategies e)
       | None \<Rightarrow> first)"

definition stream_profile ::
  "node_id \<Rightarrow> endpoint_id \<Rightarrow> unified_registry \<Rightarrow> (profile \<times> pick_rule) option" where
  "stream_profile n i ur =
     map_option (\<lambda>e. (se_transport_profile (ee_ep e),
                      case ee_strategies e of s # _ \<Rightarrow> es_pick s | [] \<Rightarrow> Realtime))
       (endpoint_entry_at (EndpointRef (normalize_node n (ur_self_node ur)) i) (ur_endpoints ur))"



section \<open>Invariants of the mount table\<close>

text \<open>Keys are distinct, an entry's object has the endpoint id of its key, and an entry
  has a strategy.\<close>

definition reg_wf :: "endpoint_registry \<Rightarrow> bool" where
  "reg_wf r \<longleftrightarrow> distinct_keys (er_endpoints r)
     \<and> (\<forall>k e. map_of (er_endpoints r) k = Some e \<longrightarrow> se_id (ee_ep e) = er_endpoint k \<and> ee_strategies e \<noteq> [])"

lemma put_entry_simps [simp]:
  "er_endpoints (put_entry k e r) = AList.update k e (er_endpoints r)"
  "er_file_sources (put_entry k e r) = er_file_sources r"
  by (simp_all add: put_entry_def)

lemma reg_wf_update:
  "reg_wf r \<Longrightarrow> se_id (ee_ep e) = er_endpoint k \<Longrightarrow> ee_strategies e \<noteq> []
    \<Longrightarrow> reg_wf (r\<lparr> er_endpoints := AList.update k e (er_endpoints r) \<rparr>)"
  by (simp add: reg_wf_def)

lemma reg_wf_more [simp]:
  "reg_wf (r\<lparr> er_file_sources := x \<rparr>) = reg_wf r" "reg_wf (r\<lparr> er_next_file_id := n \<rparr>) = reg_wf r"
  by (simp_all add: reg_wf_def)

text \<open>The contract of the operations that touch the parameters of one mounted
  endpoint: they change no other entry, mount and unmount nothing and keep the
  entry's object and strategies.\<close>

definition touches ::
  "endpoint_ref \<Rightarrow> (endpoint_ref \<times> endpoint_entry) list \<Rightarrow> (endpoint_ref \<times> endpoint_entry) list \<Rightarrow> bool" where
  "touches key al al' \<longleftrightarrow> al' = al \<or>
     (\<exists>e e'. map_of al key = Some e \<and> ee_ep e' = ee_ep e \<and> ee_strategies e' = ee_strategies e
       \<and> al' = AList.update key e' al)"

lemma touches_refl [simp]: "touches key al al"
  by (simp add: touches_def)

lemma touches_put:
  "map_of al key = Some e \<Longrightarrow> ee_ep e' = ee_ep e \<Longrightarrow> ee_strategies e' = ee_strategies e \<Longrightarrow> touches key al (AList.update key e' al)"
  unfolding touches_def by blast

locale entry_op =
  fixes op :: "endpoint_registry \<Rightarrow> endpoint_registry" and key :: endpoint_ref
  assumes op_shape: "touches key (er_endpoints r) (er_endpoints (op r))"
begin

lemma op_other: "k \<noteq> key \<Longrightarrow> map_of (er_endpoints (op r)) k = map_of (er_endpoints r) k"
  using op_shape [of r] by (auto simp: touches_def)

lemma op_mounted: "has_key (er_endpoints (op r)) k \<longleftrightarrow> has_key (er_endpoints r) k"
  using op_shape [of r] by (auto simp: touches_def)

lemma op_keeps:
  "map_option ee_ep (map_of (er_endpoints (op r)) k) = map_option ee_ep (map_of (er_endpoints r) k)"
  "map_option ee_strategies (map_of (er_endpoints (op r)) k) = map_option ee_strategies (map_of (er_endpoints r) k)"
  using op_shape [of r] by (auto simp: touches_def)

lemma op_wf: "reg_wf r \<Longrightarrow> reg_wf (op r)"
  using op_shape [of r] by (force simp: touches_def reg_wf_def split: if_splits)

end

interpretation publish_op: entry_op "\<lambda>r. snd (registry_publish now key vis dlv trs cs r)" key
  for now key vis dlv trs cs
  by unfold_locales (auto simp: registry_publish_def Let_def intro!: touches_put split: option.splits)

interpretation unpublish_op: entry_op "\<lambda>r. snd (registry_unpublish now key r)" key for now key
  by unfold_locales (auto simp: registry_unpublish_def Let_def intro!: touches_put split: option.splits)

interpretation set_state_op: entry_op "\<lambda>r. snd (registry_set_state now key st subs r)" key for now key st subs
  by unfold_locales (auto simp: registry_set_state_def intro!: touches_put split: option.splits)

interpretation note_op: entry_op "registry_note_subscriber now key n" key for now key n
  by unfold_locales (auto simp: registry_note_subscriber_def Let_def intro!: touches_put split: option.splits)

interpretation unnote_op: entry_op "\<lambda>r. snd (registry_note_unsubscriber now key n r)" key for now key n
  by unfold_locales (auto simp: registry_note_unsubscriber_def Let_def intro!: touches_put split: option.splits)

interpretation clear_op: entry_op "registry_clear_subscribers key" key for key
  by unfold_locales (auto simp: registry_clear_subscribers_def intro!: touches_put split: option.splits)

lemma seed_result:
  assumes "\<And>x. se_id (load x) = se_id x" and "reg_wf r"
  shows "reg_wf (snd (seed_with_owner load now ep n r))"
    and "has_key (er_endpoints r) k \<Longrightarrow> has_key (er_endpoints (snd (seed_with_owner load now ep n r))) k"
    and "has_key (er_endpoints (snd (seed_with_owner load now ep n r))) (EndpointRef n (se_id ep))"
  using assms by (auto simp: seed_with_owner_def Let_def intro!: reg_wf_update)

lemma strategies_nonempty [simp]: "strategies_of m \<noteq> []"
  by (simp add: strategies_of_def)

lemma register_remote_wf: "reg_wf r \<Longrightarrow> reg_wf (register_remote m n r)"
  unfolding register_remote_def by (rule reg_wf_update) (simp_all add: remote_endpoint_def)

lemma register_remote_at:
  "map_of (er_endpoints (register_remote m n r)) k =
     (if k = EndpointRef n (em_id m)
      then Some \<lparr> ee_ep = remote_endpoint m, ee_strategies = strategies_of m, ee_published = em_published m,
             ee_visibility = em_visibility m, ee_delivery = em_delivery m, ee_transports = em_transports m,
             ee_codecs = em_codecs m, ee_state = em_state m, ee_subscribers = em_subscribers m,
             ee_subscriber_nodes = {}, ee_updated_at = em_updated_at m \<rparr>
      else map_of (er_endpoints r) k)"
  by (simp add: register_remote_def)

lemma register_all_wf: "reg_wf r \<Longrightarrow> reg_wf (fold (\<lambda>m. register_remote m n) ms r)"
  by (induction ms arbitrary: r) (simp_all add: register_remote_wf)

lemma register_all_other:
  "k \<notin> (\<lambda>m. EndpointRef n (em_id m)) ` set ms \<Longrightarrow>
   map_of (er_endpoints (fold (\<lambda>m. register_remote m n) ms r)) k = map_of (er_endpoints r) k"
  by (induction ms arbitrary: r) (simp_all add: register_remote_at)

lemma register_all_mounted:
  "has_key (er_endpoints r) k \<Longrightarrow> has_key (er_endpoints (fold (\<lambda>m. register_remote m n) ms r)) k"
  by (induction ms arbitrary: r) (simp_all add: register_remote_def)

lemma register_all_at:
  "distinct (map em_id ms) \<Longrightarrow> m \<in> set ms \<Longrightarrow>
   map_of (er_endpoints (fold (\<lambda>m. register_remote m n) ms r)) (EndpointRef n (em_id m))
     = map_of (er_endpoints (register_remote m n r)) (EndpointRef n (em_id m))"
proof (induction ms arbitrary: r)
  case (Cons m' ms)
  show ?case
  proof (cases "m = m'")
    case True
    then have "EndpointRef n (em_id m) \<notin> (\<lambda>m. EndpointRef n (em_id m)) ` set ms"
      using Cons.prems(1) by force
    from register_all_other [OF this] show ?thesis using True by simp
  next
    case False
    then show ?thesis using Cons by (simp add: register_remote_at)
  qed
qed simp

lemma register_all_present:
  "m \<in> set ms \<Longrightarrow> has_key (er_endpoints (fold (\<lambda>m. register_remote m n) ms r)) (EndpointRef n (em_id m))"
proof (induction ms arbitrary: r)
  case (Cons m' ms)
  have "has_key (er_endpoints (register_remote m' n r)) (EndpointRef n (em_id m'))"
    by (simp add: register_remote_def)
  with Cons show ?case by (auto intro: register_all_mounted)
qed simp


section \<open>File ids\<close>

lemma alloc_file_id_free:
  "map_of eps (EndpointRef owner (EndpointId File (alloc_file_id k eps owner n))) = None
   \<or> (\<forall>j < k. map_of eps (EndpointRef owner (EndpointId File (n + word_of_nat j))) \<noteq> None)"
proof (induction k arbitrary: n)
  case (Suc k)
  show ?case
  proof (cases "map_of eps (EndpointRef owner (EndpointId File n)) = None")
    case False
    have "\<forall>j < Suc k. map_of eps (EndpointRef owner (EndpointId File (n + word_of_nat j))) \<noteq> None"
      if "\<forall>j < k. map_of eps (EndpointRef owner (EndpointId File (n + 1 + word_of_nat j))) \<noteq> None"
    proof (intro allI impI)
      fix j assume "j < Suc k"
      show "map_of eps (EndpointRef owner (EndpointId File (n + word_of_nat j))) \<noteq> None"
      proof (cases j)
        case (Suc i)
        then have "map_of eps (EndpointRef owner (EndpointId File (n + 1 + word_of_nat i))) \<noteq> None"
          using that \<open>j < Suc k\<close> by simp
        then show ?thesis using Suc by (simp add: add.assoc)
      qed (use False in simp)
    qed
    then show ?thesis using Suc.IH [of "n + 1"] False by auto
  qed simp
qed simp

text \<open>With the fuel given, and fewer than 2^32 entries, the id found is free.\<close>

lemma alloc_file_id_fresh:
  assumes "Suc (length eps) \<le> 2 ^ 32"
  shows "map_of eps (EndpointRef owner (EndpointId File (alloc_file_id (Suc (length eps)) eps owner n))) = None"
proof (rule ccontr)
  let ?f = "\<lambda>j. EndpointRef owner (EndpointId File (n + word_of_nat j))"
  assume "\<not> ?thesis"
  then have taken: "\<forall>j < Suc (length eps). map_of eps (?f j) \<noteq> None"
    using alloc_file_id_free [of eps owner "Suc (length eps)" n] by (auto simp del: alloc_file_id.simps)
  have "inj_on ?f {..<Suc (length eps)}"
  proof (rule inj_onI)
    fix i j assume ij: "i \<in> {..<Suc (length eps)}" "j \<in> {..<Suc (length eps)}" "?f i = ?f j"
    then have "(word_of_nat i :: u32) = word_of_nat j" by simp
    then show "i = j" using ij(1,2) assms by (simp add: word_of_nat_eq_iff take_bit_nat_eq_self)
  qed
  then have "card (?f ` {..<Suc (length eps)}) = Suc (length eps)" by (simp add: card_image)
  moreover have "?f ` {..<Suc (length eps)} \<subseteq> fst ` set eps"
  proof
    fix x assume "x \<in> ?f ` {..<Suc (length eps)}"
    then have "map_of eps x \<noteq> None" using taken by auto
    then show "x \<in> fst ` set eps" by (simp add: map_of_eq_None_iff)
  qed
  ultimately have "Suc (length eps) \<le> card (fst ` set eps)" by (metis card_mono finite_imageI List.finite_set)
  also have "\<dots> \<le> length eps" by (metis card_length length_map set_map)
  finally show False by simp
qed



section \<open>Referential integrity of the unified registry\<close>

definition unified_wf :: "unified_registry \<Rightarrow> bool" where
  "unified_wf ur \<longleftrightarrow>
     reg_wf (ur_endpoints ur) \<and> distinct_keys (ur_nodes ur) \<and> has_key (ur_nodes ur) (ur_self_node ur)
     \<and> (\<forall>n e. map_of (ur_nodes ur) n = Some e \<longrightarrow> ne_node_id e = n
          \<and> (\<forall>i \<in> set (ne_endpoint_ids e). has_key (er_endpoints (ur_endpoints ur)) (EndpointRef n i)))"

lemma unified_wf_default: "unified_wf (unified_default name)"
  by (simp add: unified_wf_def unified_default_def registry_empty_def reg_wf_def self_entry_def distinct_keys_def has_key_def)

text \<open>Replacing the mount table by one that mounts at least as much.\<close>

lemma unified_wf_endpoints:
  assumes "unified_wf ur" and "reg_wf r"
    and "\<And>k. has_key (er_endpoints (ur_endpoints ur)) k \<Longrightarrow> has_key (er_endpoints r) k"
  shows "unified_wf (ur\<lparr> ur_endpoints := r \<rparr>)"
  using assms unfolding unified_wf_def by simp

text \<open>Storing a node entry whose references are mounted; a new display name.\<close>

lemma unified_wf_nodes:
  assumes "unified_wf ur" and "ne_node_id e = n"
    and "\<forall>i \<in> set (ne_endpoint_ids e). has_key (er_endpoints (ur_endpoints ur)) (EndpointRef n i)"
  shows "unified_wf (ur\<lparr> ur_nodes := AList.update n e (ur_nodes ur) \<rparr>)"
  using assms unfolding unified_wf_def by simp

lemma unified_wf_rename: "unified_wf ur \<Longrightarrow> unified_wf (ur\<lparr> ur_self_node := ur_self_node ur, ur_self_name := name \<rparr>)"
  unfolding unified_wf_def by simp

lemma ensure_self_noop: "unified_wf ur \<Longrightarrow> ensure_self_entry ur = ur"
  by (auto simp: unified_wf_def ensure_self_entry_def has_key_def)

lemma add_self_ref_wf:
  assumes "unified_wf ur" and "has_key (er_endpoints (ur_endpoints ur)) (EndpointRef (ur_self_node ur) i)"
  shows "unified_wf (add_self_ref i ur)"
  using assms
  by (auto simp: add_self_ref_def ensure_self_noop Let_def unified_wf_def split: option.splits)

lemma entry_op_unified:
  assumes "entry_op op key" and "unified_wf ur"
  shows "unified_wf (ur\<lparr> ur_endpoints := op (ur_endpoints ur) \<rparr>)"
proof (rule unified_wf_endpoints [OF assms(2)])
  show "reg_wf (op (ur_endpoints ur))"
    using entry_op.op_wf [OF assms(1)] assms(2) by (simp add: unified_wf_def)
  show "has_key (er_endpoints (op (ur_endpoints ur))) k"
    if "has_key (er_endpoints (ur_endpoints ur)) k" for k
    using that entry_op.op_mounted [OF assms(1)] by blast
qed

lemma rekey_fold:
  assumes "old \<noteq> new" "\<forall>k \<in> set ks. er_owner k = old"
  shows "map_of (fold (rekey_step new) ks eps) k =
    (if er_owner k = new \<and> EndpointRef old (er_endpoint k) \<in> set ks
        \<and> has_key eps (EndpointRef old (er_endpoint k))
     then map_of eps (EndpointRef old (er_endpoint k))
     else if k \<in> set ks then None else map_of eps k)"
  using assms(2)
proof (induction ks arbitrary: eps)
  case (Cons k' ks)
  have o: "er_owner k' = old" using Cons.prems by simp
  show ?case
  proof (cases "map_of eps k'")
    case None
    then have "rekey_step new k' eps = eps" by (simp add: rekey_step_def)
    then show ?thesis using Cons None assms(1) o by (cases k; cases k') (auto simp: has_key_def)
  next
    case (Some e)
    then have "rekey_step new k' eps = AList.update (EndpointRef new (er_endpoint k')) e (AList.delete k' eps)"
      by (simp add: rekey_step_def)
    then show ?thesis using Cons Some assms(1) o by (cases k; cases k') (auto simp: has_key_def)
  qed
qed simp

lemma rekey_fold_distinct:
  "distinct_keys eps \<Longrightarrow> distinct_keys (fold (rekey_step new) ks eps)"
proof (induction ks arbitrary: eps)
  case (Cons k ks)
  have "distinct_keys (rekey_step new k eps)"
    using Cons.prems by (auto simp: rekey_step_def split: option.splits)
  then show ?case using Cons.IH by simp
qed simp

text \<open>Where the entries are after the host got a new id.\<close>

lemma rekey_all:
  assumes "old \<noteq> new"
  shows "map_of (fold (rekey_step new) (filter (\<lambda>k. er_owner k = old) (map fst eps)) eps) k =
    (if er_owner k = new \<and> has_key eps (EndpointRef old (er_endpoint k))
     then map_of eps (EndpointRef old (er_endpoint k))
     else if er_owner k = old then None else map_of eps k)"
proof -
  have mem: "x \<in> set (filter (\<lambda>k. er_owner k = old) (map fst eps)) \<longleftrightarrow> er_owner x = old \<and> has_key eps x" for x
    by (simp add: has_key_keys conj_commute)
  have gone: "\<not> has_key eps x \<Longrightarrow> map_of eps x = None" for x by (simp add: has_key_def)
  have owned: "\<forall>k \<in> set (filter (\<lambda>k. er_owner k = old) (map fst eps)). er_owner k = old" by simp
  show ?thesis
    unfolding rekey_fold [OF assms owned] mem using assms gone by (cases k) simp
qed

lemma unified_wfD:
  assumes "unified_wf ur"
  shows "reg_wf (ur_endpoints ur)" and "distinct_keys (ur_nodes ur)" and "has_key (ur_nodes ur) (ur_self_node ur)"
    and "map_of (ur_nodes ur) n = Some e \<Longrightarrow> ne_node_id e = n"
    and "map_of (ur_nodes ur) n = Some e \<Longrightarrow> i \<in> set (ne_endpoint_ids e) \<Longrightarrow>
      has_key (er_endpoints (ur_endpoints ur)) (EndpointRef n i)"
  using assms unfolding unified_wf_def by blast+

lemma rekeyed_has_key:
  assumes "\<And>k. map_of eps' k =
      (if er_owner k = new \<and> has_key eps (EndpointRef old (er_endpoint k))
       then map_of eps (EndpointRef old (er_endpoint k))
       else if er_owner k = old then None else map_of eps k)"
  shows "has_key eps (EndpointRef old i) \<Longrightarrow> has_key eps' (EndpointRef new i)"
    and "n \<noteq> old \<Longrightarrow> has_key eps (EndpointRef n i) \<Longrightarrow> has_key eps' (EndpointRef n i)"
  by (simp_all add: has_key_def assms)

lemma rekeyed_wf:
  assumes wf: "unified_wf ur" and ne: "ur_self_node ur \<noteq> new" and e: "map_of (ur_nodes ur) (ur_self_node ur) = Some e"
    and d: "distinct_keys eps'"
    and at: "\<And>k. map_of eps' k =
      (if er_owner k = new \<and> has_key (er_endpoints (ur_endpoints ur)) (EndpointRef (ur_self_node ur) (er_endpoint k))
       then map_of (er_endpoints (ur_endpoints ur)) (EndpointRef (ur_self_node ur) (er_endpoint k))
       else if er_owner k = ur_self_node ur then None else map_of (er_endpoints (ur_endpoints ur)) k)"
    and e': "ne_node_id e' = new" "ne_endpoint_ids e' = ne_endpoint_ids e"
  shows "unified_wf (ur\<lparr> ur_nodes := AList.update new e' (AList.delete (ur_self_node ur) (ur_nodes ur)),
      ur_endpoints := (ur_endpoints ur)\<lparr> er_endpoints := eps' \<rparr>, ur_self_node := new, ur_self_name := name \<rparr>)"
proof -
  note D = unified_wfD [OF wf]
  have ids: "se_id (ee_ep x) = er_endpoint k \<and> ee_strategies x \<noteq> []" if "map_of eps' k = Some x" for k x
    using that D(1) unfolding at reg_wf_def by (auto split: if_splits)
  have r: "reg_wf ((ur_endpoints ur)\<lparr> er_endpoints := eps' \<rparr>)"
    using d ids by (simp add: reg_wf_def)
  have nodes: "ne_node_id x = n \<and> (\<forall>i \<in> set (ne_endpoint_ids x). has_key eps' (EndpointRef n i))"
    if "map_of (AList.update new e' (AList.delete (ur_self_node ur) (ur_nodes ur))) n = Some x" for n x
  proof (cases "n = new")
    case True
    then have x: "x = e'" using that by simp
    have "has_key eps' (EndpointRef new i)" if "i \<in> set (ne_endpoint_ids e)" for i
      using rekeyed_has_key(1) [OF at] D(5) [OF e that] by blast
    then show ?thesis using x e' True by simp
  next
    case False
    then have n: "n \<noteq> ur_self_node ur" "map_of (ur_nodes ur) n = Some x" using that by (auto split: if_splits)
    then show ?thesis using rekeyed_has_key(2) [OF at n(1)] D(4,5) [OF n(2)] by blast
  qed
  show ?thesis unfolding unified_wf_def using r nodes D(2) by (simp del: map_of_update map_of_delete)
qed

lemma set_self_node_wf:
  assumes "unified_wf ur"
  shows "unified_wf (set_self_node new name ur)"
proof -
  obtain e where e: "map_of (ur_nodes ur) (ur_self_node ur) = Some e"
    using assms unfolding unified_wf_def has_key_def by blast
  show ?thesis
  proof (cases "ur_self_node ur = new")
    case True
    have eq: "set_self_node new name ur =
        (ur\<lparr> ur_nodes := AList.update new (e\<lparr> ne_name := name, ne_is_self := True \<rparr>) (ur_nodes ur) \<rparr>)
          \<lparr> ur_self_node := new, ur_self_name := name \<rparr>"
      using e unfolding set_self_node_def Let_def True by simp
    have "unified_wf (ur\<lparr> ur_nodes := AList.update new (e\<lparr> ne_name := name, ne_is_self := True \<rparr>) (ur_nodes ur) \<rparr>)"
      using unified_wfD(4,5) [OF assms e] True by (intro unified_wf_nodes [OF assms]) simp_all
    from unified_wf_rename [OF this, of name] show ?thesis unfolding eq by (simp add: True)
  next
    case False
    have eq: "set_self_node new name ur = ur\<lparr>
        ur_nodes := AList.update new (e\<lparr> ne_node_id := new, ne_name := name, ne_is_self := True \<rparr>)
          (AList.delete (ur_self_node ur) (ur_nodes ur)),
        ur_endpoints := (ur_endpoints ur)\<lparr> er_endpoints := fold (rekey_step new)
          (filter (\<lambda>k. er_owner k = ur_self_node ur) (map fst (er_endpoints (ur_endpoints ur))))
          (er_endpoints (ur_endpoints ur)) \<rparr>,
        ur_self_node := new, ur_self_name := name \<rparr>"
      using False unfolding set_self_node_def Let_def e by simp
    have d: "distinct_keys (er_endpoints (ur_endpoints ur))"
      using unified_wfD(1) [OF assms] by (simp add: reg_wf_def)
    show ?thesis unfolding eq
      by (rule rekeyed_wf [OF assms False e rekey_fold_distinct [OF d] rekey_all [OF False]]) simp_all
  qed
qed

lemma register_directory_wf:
  assumes "unified_wf ur"
  shows "unified_wf (register_remote_directory dir addr ur)"
proof -
  let ?n = "en_node_id (ed_node dir)" and ?ms = "ed_endpoints dir"
  let ?r = "fold (\<lambda>m. register_remote m ?n) ?ms (ur_endpoints ur)"
  have "reg_wf ?r" using assms by (simp add: register_all_wf unified_wf_def)
  moreover have "has_key (er_endpoints ?r) k" if "has_key (er_endpoints (ur_endpoints ur)) k" for k
    using that by (rule register_all_mounted)
  moreover have "has_key (er_endpoints ?r) (EndpointRef ?n i)" if "i \<in> em_id ` set ?ms" for i
    using that register_all_present by auto
  ultimately show ?thesis using assms
    by (auto simp: register_remote_directory_def Let_def unified_wf_def)
qed


section \<open>Runs of the registry\<close>

text \<open>\<open>load\<close> as the platform's endpoints implement it: it records the outcome of
  the probe.\<close>

definition probe_load :: "string option \<Rightarrow> share_endpoint \<Rightarrow> share_endpoint" where
  "probe_load err ep =
     (case err of None \<Rightarrow> ep\<lparr> se_available := True, se_last_error := None \<rparr>
      | Some e \<Rightarrow> ep\<lparr> se_available := False, se_last_error := Some e \<rparr>)"

datatype registry_event =
    RSetSelf node_id string
  | RSeed "string option" nat share_endpoint
  | RRemote endpoint_dir string
  | RPublish nat endpoint_id visibility delivery "transport_preference list" "codec_id list"
  | RUnpublish nat endpoint_id
  | RPublishFile nat string string "(bool \<times> nat) option" bool visibility delivery
  | RSetState nat endpoint_id endpoint_state u32
  | RSubscriber nat endpoint_id node_id
  | RUnsubscriber nat endpoint_id node_id
  | RClear endpoint_id

fun registry_step :: "registry_event \<Rightarrow> unified_registry \<Rightarrow> unified_registry" where
  "registry_step (RSetSelf n name) ur = set_self_node n name ur"
| "registry_step (RSeed err now ep) ur = snd (unified_seed (probe_load err) now ep ur)"
| "registry_step (RRemote dir addr) ur = register_remote_directory dir addr ur"
| "registry_step (RPublish now i vis dlv trs cs) ur = snd (unified_publish now i vis dlv trs cs ur)"
| "registry_step (RUnpublish now i) ur = snd (unified_unpublish now i ur)"
| "registry_step (RPublishFile now path name stat isf vis dlv) ur =
     snd (unified_publish_file now path name stat isf vis dlv ur)"
| "registry_step (RSetState now i st subs) ur = snd (unified_set_state now i st subs ur)"
| "registry_step (RSubscriber now i n) ur = unified_note_subscriber now i n ur"
| "registry_step (RUnsubscriber now i n) ur = snd (unified_note_unsubscriber now i n ur)"
| "registry_step (RClear i) ur = unified_clear_subscribers i ur"

lemma load_ids: "se_id (probe_load err ep) = se_id ep" "se_id (file_load b ep) = se_id ep"
  by (auto simp: probe_load_def file_load_def split: option.splits)

lemma seed_wf:
  assumes "unified_wf ur" and "\<And>x. se_id (load x) = se_id x"
  shows "unified_wf (snd (unified_seed load now ep ur))"
proof -
  let ?s = "seed_with_owner load now ep (ur_self_node ur) (ur_endpoints ur)"
  have r: "reg_wf (ur_endpoints ur)" using assms(1) by (simp add: unified_wf_def)
  have "unified_wf (ur\<lparr> ur_endpoints := snd ?s \<rparr>)"
    by (rule unified_wf_endpoints [OF assms(1)]) (use seed_result [where load = load, OF assms(2) r] in blast)+
  then have "unified_wf (add_self_ref (se_id ep) (ur\<lparr> ur_endpoints := snd ?s \<rparr>))"
    using seed_result(3) [where load = load, OF assms(2) r] by (intro add_self_ref_wf) simp_all
  then show ?thesis using assms(1) by (auto simp: unified_seed_def Let_def split: prod.splits)
qed

lemma publish_file_result:
  assumes "reg_wf r"
  shows "reg_wf (snd (registry_publish_file now path name stat isf vis dlv n r))"
    and "has_key (er_endpoints r) k \<Longrightarrow>
         has_key (er_endpoints (snd (registry_publish_file now path name stat isf vis dlv n r))) k"
    and "fst (registry_publish_file now path name stat isf vis dlv n r) = Inr m \<Longrightarrow>
         has_key (er_endpoints (snd (registry_publish_file now path name stat isf vis dlv n r))) (EndpointRef n (em_id m))"
proof -
  let ?i = "EndpointId File (alloc_file_id (Suc (length (er_endpoints r))) (er_endpoints r) n (er_next_file_id r))"
  let ?r1 = "r\<lparr> er_next_file_id := ep_id ?i + 1 \<rparr>"
  obtain ok r2 where s: "seed_with_owner (file_load isf) now (file_endpoint ?i name) n ?r1 = (ok, r2)"
    by (cases "seed_with_owner (file_load isf) now (file_endpoint ?i name) n ?r1")
  have wf1: "reg_wf ?r1" using assms by simp
  note seeded = seed_result [where load = "file_load isf", OF load_ids(2) wf1, where now = now and ep = "file_endpoint ?i name" and n = n]
  have r2: "reg_wf r2" "has_key (er_endpoints r) k \<Longrightarrow> has_key (er_endpoints r2) k"
    using seeded(1) seeded(2) [where k = k] unfolding s by (simp_all del: alloc_file_id.simps)
  let ?p = "\<lambda>q. registry_publish now (EndpointRef n ?i) vis dlv (default_transports Determined) [] q"
  have cases: "registry_publish_file now path name stat isf vis dlv n r =
     (case stat of None \<Rightarrow> (Inl (FileUnreadable path), r)
      | Some (regular, sz) \<Rightarrow> if \<not> regular then (Inl (NotAFile path), r)
          else if \<not> ok then (Inl (EpExists ?i), r2)
          else ?p (r2\<lparr> er_file_sources := AList.update (EndpointRef n ?i)
                 \<lparr> fs_path = path, fs_name = name, fs_size = sz \<rparr> (er_file_sources r2) \<rparr>))"
    using s by (simp add: registry_publish_file_def Let_def split: option.splits prod.splits del: alloc_file_id.simps)
  show "reg_wf (snd (registry_publish_file now path name stat isf vis dlv n r))"
    unfolding cases using r2(1) assms
    by (auto intro!: publish_op.op_wf simp del: alloc_file_id.simps split: option.splits)
  show "has_key (er_endpoints (snd (registry_publish_file now path name stat isf vis dlv n r))) k"
    if "has_key (er_endpoints r) k"
    unfolding cases using r2(2) [OF that] that
    by (auto simp: publish_op.op_mounted simp del: alloc_file_id.simps split: option.splits)
  show "has_key (er_endpoints (snd (registry_publish_file now path name stat isf vis dlv n r))) (EndpointRef n (em_id m))"
    if m: "fst (registry_publish_file now path name stat isf vis dlv n r) = Inr m"
  proof -
    have pub: "fst (?p q) = Inr m \<Longrightarrow> reg_wf q \<Longrightarrow> has_key (er_endpoints (snd (?p q))) (EndpointRef n (em_id m))" for q
      by (auto simp: registry_publish_def manifest_of_def em_id_def reg_wf_def Let_def split: option.splits if_splits)
    show ?thesis using m r2(1) unfolding cases
      by (auto intro!: pub simp del: alloc_file_id.simps split: option.splits if_splits)
  qed
qed

lemma publish_file_wf:
  assumes "unified_wf ur"
  shows "unified_wf (snd (unified_publish_file now path name stat isf vis dlv ur))"
proof -
  let ?p = "registry_publish_file now path name stat isf vis dlv (ur_self_node ur) (ur_endpoints ur)"
  have r: "reg_wf (ur_endpoints ur)" using assms by (simp add: unified_wf_def)
  note res = publish_file_result [OF r, where n = "ur_self_node ur" and now = now and path = path and name = name
    and stat = stat and isf = isf and vis = vis and dlv = dlv]
  have u: "unified_wf (ur\<lparr> ur_endpoints := snd ?p \<rparr>)"
    by (rule unified_wf_endpoints [OF assms res(1,2)])
  have "unified_wf (add_self_ref (em_id m) (ur\<lparr> ur_endpoints := snd ?p \<rparr>))" if "fst ?p = Inr m" for m
    using res(3) [OF that] by (intro add_self_ref_wf [OF u]) simp
  with u show ?thesis
    by (auto simp: unified_publish_file_def Let_def split: prod.splits sum.splits)
qed

interpretation registry: stepper registry_step unified_wf
proof
  fix ur ev assume wf: "unified_wf ur"
  have upd: "unified_wf (case (res, r) of (a, b) \<Rightarrow> ur\<lparr> ur_endpoints := b \<rparr>) = unified_wf (ur\<lparr> ur_endpoints := r \<rparr>)" for res r
    by simp
  show "unified_wf (registry_step ev ur)"
  proof (cases ev)
    case (RPublish now i vis dlv trs cs)
    then show ?thesis using entry_op_unified [OF publish_op.entry_op_axioms wf]
      by (simp add: unified_publish_def case_prod_beta Let_def)
  next
    case (RUnpublish now i)
    then show ?thesis using entry_op_unified [OF unpublish_op.entry_op_axioms wf]
      by (simp add: unified_unpublish_def case_prod_beta Let_def)
  next
    case (RSetState now i st subs)
    then show ?thesis using entry_op_unified [OF set_state_op.entry_op_axioms wf]
      by (simp add: unified_set_state_def case_prod_beta Let_def)
  next
    case (RSubscriber now i n)
    then show ?thesis using entry_op_unified [OF note_op.entry_op_axioms wf] by (simp add: unified_note_subscriber_def)
  next
    case (RUnsubscriber now i n)
    then show ?thesis using entry_op_unified [OF unnote_op.entry_op_axioms wf]
      by (simp add: unified_note_unsubscriber_def case_prod_beta Let_def)
  next
    case (RClear i)
    then show ?thesis using entry_op_unified [OF clear_op.entry_op_axioms wf] by (simp add: unified_clear_subscribers_def)
  qed (simp_all add: wf set_self_node_wf register_directory_wf seed_wf load_ids publish_file_wf)
qed


section \<open>Properties\<close>

lemma run_wf: "unified_wf (fold registry_step evs (unified_default name))"
  by (rule registry.fold_inv [OF unified_wf_default])

lemma map_filter_all:
  "(\<And>x. x \<in> set xs \<Longrightarrow> \<exists>y. f x = Some y \<and> g y = x) \<Longrightarrow> map g (List.map_filter f xs) = xs"
  by (induction xs) (fastforce simp: map_filter_simps)+

text \<open>C32. After any sequence of registry operations from the start state, every node
  entry is filed under its own id, and every endpoint reference it holds resolves: the
  node's endpoints are, in order, exactly the mounted endpoints with those ids.\<close>

theorem registry_refs_resolve:
  assumes "ur = fold registry_step evs (unified_default name)" and "map_of (ur_nodes ur) n = Some e"
  shows "ne_node_id e = n \<and> map (se_id \<circ> ee_ep) (node_endpoints n ur) = ne_endpoint_ids e"
proof -
  note wf = run_wf [of evs name, folded assms(1)]
  have "\<exists>y. endpoint_entry_at (EndpointRef n i) (ur_endpoints ur) = Some y \<and> (se_id \<circ> ee_ep) y = i"
    if "i \<in> set (ne_endpoint_ids e)" for i
    using unified_wfD(1) [OF wf] unified_wfD(5) [OF wf assms(2) that]
    by (auto simp: reg_wf_def has_key_def endpoint_entry_at_def)
  then show ?thesis
    using unified_wfD(4) [OF wf assms(2)] assms(2) by (simp add: node_endpoints_def map_filter_all)
qed

definition probe_endpoint :: share_endpoint where
  "probe_endpoint = \<lparr> se_id = EndpointId Mic 0, se_name = ''mic'', se_available = False, se_last_error = None,
     se_target = Live, se_transport_profile = Lossy, se_strategy = strategy_passthrough Realtime \<rparr>"

lemma registry_refs_resolve_witness:
  "map (se_id \<circ> ee_ep) (node_endpoints NIL
     (fold registry_step [RSeed None 1 probe_endpoint] (unified_default ''host''))) = [EndpointId Mic 0]"
proof -
  have e: "map_of (ur_nodes (fold registry_step [RSeed None 1 probe_endpoint] (unified_default ''host''))) NIL
     = Some ((self_entry NIL ''host'')\<lparr> ne_endpoint_ids := [EndpointId Mic 0] \<rparr>)"
    by (simp add: unified_default_def unified_seed_def seed_with_owner_def registry_empty_def add_self_ref_def
      ensure_self_entry_def probe_endpoint_def Let_def self_entry_def)
  show ?thesis using registry_refs_resolve [OF refl e] by (simp add: self_entry_def)
qed

text \<open>Listings of an owner do not see the entries of another node.\<close>

lemma filter_update_other:
  "\<not> P k v \<Longrightarrow> (\<And>v'. \<not> P k v') \<Longrightarrow>
   filter (\<lambda>(k, e). P k e) (AList.update k v al) = filter (\<lambda>(k, e). P k e) al"
  by (induction al) auto

lemma manifests_register_other:
  assumes "n \<noteq> owner"
  shows "manifests_of (Some owner) (fold (\<lambda>m. register_remote m n) ms r) = manifests_of (Some owner) r"
    and "published_manifests_of (Some owner) (fold (\<lambda>m. register_remote m n) ms r) = published_manifests_of (Some owner) r"
proof -
  have *: "filter (\<lambda>(k, e). P k e) (er_endpoints (fold (\<lambda>m. register_remote m n) ms r))
      = filter (\<lambda>(k, e). P k e) (er_endpoints r)" if "\<And>i e. \<not> P (EndpointRef n i) e" for P
    using that by (induction ms arbitrary: r) (simp_all add: register_remote_def filter_update_other)
  show "manifests_of (Some owner) (fold (\<lambda>m. register_remote m n) ms r) = manifests_of (Some owner) r"
    unfolding manifests_of_def using assms by (subst *) (simp_all add: owned_by_def)
  show "published_manifests_of (Some owner) (fold (\<lambda>m. register_remote m n) ms r) = published_manifests_of (Some owner) r"
    unfolding published_manifests_of_def using assms by (subst *) (simp_all add: owned_by_def)
qed

lemma register_directory_at:
  assumes "en_node_id (ed_node dir) = n" and "\<not> node_is_nil n" and "n \<noteq> ur_self_node ur"
    and "distinct (map em_id (ed_endpoints dir))" and "m \<in> set (ed_endpoints dir)"
  shows "map_of (er_endpoints (ur_endpoints (register_remote_directory dir addr ur))) (EndpointRef n (em_id m))
    = Some \<lparr> ee_ep = remote_endpoint m, ee_strategies = strategies_of m, ee_published = em_published m,
             ee_visibility = em_visibility m, ee_delivery = em_delivery m, ee_transports = em_transports m,
             ee_codecs = em_codecs m, ee_state = em_state m, ee_subscribers = em_subscribers m,
             ee_subscriber_nodes = {}, ee_updated_at = em_updated_at m \<rparr>"
  using assms(1-3) register_all_at [OF assms(4,5)]
  by (simp add: register_remote_directory_def Let_def register_remote_at)

lemma manifest_of_registered:
  "manifest_of \<lparr> ee_ep = remote_endpoint m, ee_strategies = strategies_of m, ee_published = em_published m,
      ee_visibility = em_visibility m, ee_delivery = em_delivery m, ee_transports = em_transports m,
      ee_codecs = em_codecs m, ee_state = em_state m, ee_subscribers = em_subscribers m,
      ee_subscriber_nodes = {}, ee_updated_at = em_updated_at m \<rparr>
   = m\<lparr> em_pick_rule := es_pick (hd (strategies_of m)), em_strategies := strategies_of m \<rparr>"
  by (cases "strategies_of m") (simp_all add: manifest_of_def remote_endpoint_def em_id_def Let_def)

lemma nil_bytes: "node_wf n \<Longrightarrow> node_is_nil n \<longleftrightarrow> n = NIL"
  by (cases n) (auto simp: node_wf_def node_is_nil_def NIL_def intro: replicate_eqI)

lemma remote_directory_isolated_base:
  assumes "node_wf n" and "en_node_id (ed_node dir) = n" and "\<not> is_self_node n (ur_self_node ur)"
    and "distinct (map em_id (ed_endpoints dir))" and "m \<in> set (ed_endpoints dir)"
    and "ur' = register_remote_directory dir addr ur"
  shows "(\<forall>k. er_owner k \<noteq> n \<longrightarrow> endpoint_entry_at k (ur_endpoints ur') = endpoint_entry_at k (ur_endpoints ur))
    \<and> unified_manifests ur' = unified_manifests ur \<and> unified_published ur' = unified_published ur
    \<and> manifest_for n (em_id m) ur'
        = Some (m\<lparr> em_pick_rule := es_pick (hd (strategies_of m)), em_strategies := strategies_of m \<rparr>)
    \<and> stream_profile n (em_id m) ur' = Some (em_transport_profile m, es_pick (hd (strategies_of m)))
    \<and> resolve_strategy n (em_id m) None ur' = Some (hd (strategies_of m))"
proof -
  have n: "\<not> node_is_nil n" "n \<noteq> ur_self_node ur" "\<not> is_self_node n (ur_self_node ur')" "ur_self_node ur' = ur_self_node ur"
    using assms(3) nil_bytes [OF assms(1)] unfolding assms(6)
    by (auto simp: is_self_node_def register_remote_directory_def Let_def)
  note at = register_directory_at [OF assms(2) n(1,2) assms(4,5), of addr, folded assms(6)]
  have eps: "ur_endpoints ur' = fold (\<lambda>m. register_remote m n) (ed_endpoints dir) (ur_endpoints ur)"
    using n(1,2) assms(2) unfolding assms(6) by (simp add: register_remote_directory_def Let_def)
  have other: "\<forall>k. er_owner k \<noteq> n \<longrightarrow> endpoint_entry_at k (ur_endpoints ur') = endpoint_entry_at k (ur_endpoints ur)"
    unfolding eps endpoint_entry_at_def by (auto intro!: register_all_other)
  have listing: "unified_manifests ur' = unified_manifests ur" "unified_published ur' = unified_published ur"
    using n(2) unfolding unified_manifests_def unified_published_def n(4) eps
    by (simp_all add: manifests_register_other)
  have first: "(case strategies_of m of [] \<Rightarrow> a | s # _ \<Rightarrow> f s) = f (hd (strategies_of m))" for a :: 'x and f
    by (cases "strategies_of m") simp_all
  have prof: "se_transport_profile (remote_endpoint m) = em_transport_profile m" by (simp add: remote_endpoint_def)
  have norm: "normalize_node n (ur_self_node ur') = n" using n(3) by (simp add: normalize_node_def)
  show ?thesis
    using other listing n(3) at
    by (simp add: manifest_for_def registry_manifest_def norm stream_profile_def resolve_strategy_def
      endpoint_entry_at_def manifest_of_registered first prof)
qed

text \<open>A directory received from another node is mounted under that node only: every
  entry of every other node and the host's own listings are unchanged, while each
  endpoint of the directory resolves, through the lookup by node, to the manifest it
  came with (its strategy list made explicit), with the profile and the first strategy
  of that manifest.\<close>

theorem remote_directory_isolated:
  assumes "node_wf n" and "en_node_id (ed_node dir) = n" and "\<not> is_self_node n (ur_self_node ur)"
    and "distinct (map em_id (ed_endpoints dir))" and "m \<in> set (ed_endpoints dir)"
    and "ur' = register_remote_directory dir addr ur"
  shows "(\<forall>k. er_owner k \<noteq> n \<longrightarrow> endpoint_entry_at k (ur_endpoints ur') = endpoint_entry_at k (ur_endpoints ur))
    \<and> unified_manifests ur' = unified_manifests ur \<and> unified_published ur' = unified_published ur
    \<and> manifest_for n (em_id m) ur'
        = Some (m\<lparr> em_pick_rule := es_pick (hd (strategies_of m)), em_strategies := strategies_of m \<rparr>)
    \<and> stream_profile n (em_id m) ur' = Some (em_transport_profile m, es_pick (hd (strategies_of m)))
    \<and> resolve_strategy n (em_id m) None ur' = Some (hd (strategies_of m))"
  by (rule remote_directory_isolated_base [OF assms])

definition cam_manifest :: endpoint_manifest where
  "cam_manifest = \<lparr> em_endpoint_id = 0, em_kind = Camera, em_name = ''cam'', em_available = True, em_last_error = None,
     em_published = True, em_visibility = Public, em_delivery = Pull, em_transports = [], em_transport_profile = Lossy,
     em_pick_rule = Realtime, em_strategies = [], em_codecs = [H264], em_state = Idle, em_subscribers = 0, em_updated_at = 7 \<rparr>"

definition phone :: node_id where
  "phone = NodeId (replicate 16 7)"

lemma phone_remote: "\<not> is_self_node phone NIL"
  by (simp add: is_self_node_def phone_def NIL_def from_seed_def; code_simp)

lemma remote_directory_isolated_witness:
  "unified_manifests (register_remote_directory \<lparr> ed_node = \<lparr> en_node_id = phone, en_node_name = ''p'' \<rparr>,
     ed_endpoints = [cam_manifest] \<rparr> ''192.168.1.9'' (unified_default ''host'')) = []"
proof -
  have "\<not> is_self_node phone (ur_self_node (unified_default ''host''))"
    by (simp add: unified_default_def phone_remote)
  from remote_directory_isolated [OF _ _ this, where dir = "\<lparr> ed_node = \<lparr> en_node_id = phone, en_node_name = ''p'' \<rparr>,
     ed_endpoints = [cam_manifest] \<rparr>" and m = cam_manifest and addr = "''192.168.1.9''", OF _ _ _ _ refl]
  show ?thesis
    by (simp add: node_wf_def phone_def unified_manifests_def manifests_of_def unified_default_def registry_empty_def)
qed

text \<open>The manifests an owner publishes name distinct endpoints.\<close>

lemma em_id_manifest_of [simp]: "em_id (manifest_of e) = se_id (ee_ep e)"
  by (simp add: em_id_def manifest_of_def Let_def)

lemma owned_ids_distinct:
  assumes "reg_wf r"
  shows "distinct (map em_id (map (\<lambda>(_, e). manifest_of e)
     (filter (\<lambda>(k, e). owned_by (Some n) k \<and> P e) (er_endpoints r))))"
proof -
  let ?al = "filter (\<lambda>(k, e). owned_by (Some n) k \<and> P e) (er_endpoints r)"
  have d: "distinct (map fst (er_endpoints r))"
    and ids: "\<And>k e. map_of (er_endpoints r) k = Some e \<Longrightarrow> se_id (ee_ep e) = er_endpoint k"
    using assms unfolding reg_wf_def distinct_keys_def by blast+
  have "map em_id (map (\<lambda>(_, e). manifest_of e) ?al) = map er_endpoint (map fst ?al)"
    using ids d by (auto intro!: map_cong)
  moreover have "distinct (map fst ?al)" by (rule distinct_map_filter [OF d])
  moreover have "inj_on er_endpoint (set (map fst ?al))"
    by (rule inj_onI) (auto simp: owned_by_def intro!: endpoint_ref.expand)
  ultimately show ?thesis by (simp only: distinct_map)
qed

lemma published_ids_distinct:
  assumes "unified_wf ur"
  shows "distinct (map em_id (unified_published ur))"
proof -
  have "mset (map em_id (unified_published ur)) = mset (map em_id (map (\<lambda>(_, e). manifest_of e)
     (filter (\<lambda>(k, e). owned_by (Some (ur_self_node ur)) k \<and> ee_published e) (er_endpoints (ur_endpoints ur)))))"
    by (simp add: unified_published_def published_manifests_of_def del: map_map filter_filter)
  from mset_eq_imp_distinct_iff [OF this] show ?thesis
    using owned_ids_distinct [OF unified_wfD(1) [OF assms]] by blast
qed

lemma published_member:
  assumes "unified_wf ur"
  shows "m \<in> set (unified_published ur) \<longleftrightarrow>
    (\<exists>e. map_of (er_endpoints (ur_endpoints ur)) (own_ref ur (em_id m)) = Some e \<and> ee_published e \<and> m = manifest_of e)"
proof -
  have d: "distinct (map fst (er_endpoints (ur_endpoints ur)))"
    and ids: "\<And>k e. map_of (er_endpoints (ur_endpoints ur)) k = Some e \<Longrightarrow> se_id (ee_ep e) = er_endpoint k"
    using unified_wfD(1) [OF assms] unfolding reg_wf_def distinct_keys_def by blast+
  have "m \<in> set (unified_published ur) \<longleftrightarrow>
    (\<exists>k e. map_of (er_endpoints (ur_endpoints ur)) k = Some e \<and> er_owner k = ur_self_node ur \<and> ee_published e \<and> m = manifest_of e)"
    unfolding unified_published_def published_manifests_of_def
    by (auto simp: d owned_by_def image_iff)
  also have "\<dots> \<longleftrightarrow> (\<exists>e. map_of (er_endpoints (ur_endpoints ur)) (own_ref ur (em_id m)) = Some e \<and> ee_published e \<and> m = manifest_of e)"
  proof
    assume "\<exists>k e. map_of (er_endpoints (ur_endpoints ur)) k = Some e \<and> er_owner k = ur_self_node ur \<and> ee_published e \<and> m = manifest_of e"
    then obtain k e where k: "map_of (er_endpoints (ur_endpoints ur)) k = Some e" "er_owner k = ur_self_node ur"
      "ee_published e" "m = manifest_of e" by blast
    then have "k = own_ref ur (em_id m)" using ids [OF k(1)] by (cases k) (simp add: own_ref_def)
    with k show "\<exists>e. map_of (er_endpoints (ur_endpoints ur)) (own_ref ur (em_id m)) = Some e \<and> ee_published e \<and> m = manifest_of e"
      by blast
  next
    assume "\<exists>e. map_of (er_endpoints (ur_endpoints ur)) (own_ref ur (em_id m)) = Some e \<and> ee_published e \<and> m = manifest_of e"
    moreover have "er_owner (own_ref ur (em_id m)) = ur_self_node ur" by (simp add: own_ref_def)
    ultimately show "\<exists>k e. map_of (er_endpoints (ur_endpoints ur)) k = Some e \<and> er_owner k = ur_self_node ur \<and> ee_published e \<and> m = manifest_of e"
      by blast
  qed
  finally show ?thesis .
qed

text \<open>C35. Both ends of a subscription agree: when the publisher's directory (any
  selection of its published manifests) is registered at another node, the lookup there
  returns exactly the publisher's manifest, and the stream id both derive for the
  endpoint is the same.\<close>

theorem directory_convergence:
  assumes "pub = fold registry_step evs (unified_default name)" and "p = ur_self_node pub" and "node_wf p"
    and "\<not> is_self_node p (ur_self_node sub)" and "m \<in> set (filter P (unified_published pub))"
    and "sub' = register_remote_directory
           \<lparr> ed_node = \<lparr> en_node_id = p, en_node_name = nm \<rparr>, ed_endpoints = filter P (unified_published pub) \<rparr> addr sub"
  shows "manifest_for p (em_id m) sub' = Some m \<and> manifest_for p (em_id m) pub = Some m
    \<and> stream_profile p (em_id m) sub' = stream_profile p (em_id m) pub
    \<and> map_option (\<lambda>(prof, pick). derive_stream_id (em_id m) prof pick) (stream_profile p (em_id m) sub')
        = Some (derive_stream_id (em_id m) (em_transport_profile m) (em_pick_rule m))"
proof -
  note wf = run_wf [of evs name, folded assms(1)]
  obtain e where e: "map_of (er_endpoints (ur_endpoints pub)) (EndpointRef p (em_id m)) = Some e" "m = manifest_of e"
    using assms(5) published_member [OF wf] by (auto simp: own_ref_def assms(2))
  have "ee_strategies e \<noteq> []" using e(1) unified_wfD(1) [OF wf] unfolding reg_wf_def by blast
  then obtain s ss where s: "ee_strategies e = s # ss" by (cases "ee_strategies e") simp_all
  have ms: "em_strategies m = s # ss" "em_pick_rule m = es_pick s" "em_transport_profile m = se_transport_profile (ee_ep e)"
    unfolding e(2) manifest_of_def Let_def s by simp_all
  then have st: "strategies_of m = s # ss" by (simp add: strategies_of_def)
  have same: "m\<lparr> em_pick_rule := es_pick (hd (strategies_of m)), em_strategies := strategies_of m \<rparr> = m"
    unfolding st using ms by (cases m) simp
  have d: "distinct (map em_id (filter P (unified_published pub)))"
    by (rule distinct_map_filter [OF published_ids_distinct [OF wf]])
  have remote: "manifest_for p (em_id m) sub' = Some m"
      "stream_profile p (em_id m) sub' = Some (em_transport_profile m, em_pick_rule m)"
    using remote_directory_isolated_base [OF assms(3) _ assms(4) _ _ assms(6), of m] d assms(5) same st ms(2) by simp_all
  have norm: "normalize_node p (ur_self_node pub) = p" by (simp add: normalize_node_def assms(2))
  have own: "manifest_for p (em_id m) pub = Some m"
      "stream_profile p (em_id m) pub = Some (em_transport_profile m, em_pick_rule m)"
    using e(1) ms by (simp_all add: manifest_for_def registry_manifest_def stream_profile_def norm endpoint_entry_at_def s flip: e(2))
  show ?thesis by (simp add: remote own)
qed

definition mic_pub :: unified_registry where
  "mic_pub = fold registry_step [RSetSelf phone ''p'', RSeed None 1 probe_endpoint, RPublish 2 (EndpointId Mic 0) Public Pull [] []]
     (unified_default ''p'')"

lemma mic_pub_published:
  "ur_self_node mic_pub = phone"
  "map em_id (unified_published mic_pub) = [EndpointId Mic 0]"
  by (simp_all add: mic_pub_def unified_default_def set_self_node_def registry_empty_def self_entry_def unified_seed_def
    seed_with_owner_def probe_load_def probe_endpoint_def add_self_ref_def ensure_self_entry_def Let_def unified_publish_def
    registry_publish_def own_ref_def put_entry_def manifest_of_def unified_published_def published_manifests_of_def owned_by_def
    em_id_def phone_def NIL_def)

lemma directory_convergence_witness:
  "\<exists>m. em_id m = EndpointId Mic 0 \<and> manifest_for phone (EndpointId Mic 0) (register_remote_directory
     \<lparr> ed_node = \<lparr> en_node_id = phone, en_node_name = ''p'' \<rparr>, ed_endpoints = filter (\<lambda>_. True) (unified_published mic_pub) \<rparr>
     ''192.168.1.9'' (unified_default ''host'')) = Some m"
proof -
  obtain m where m: "unified_published mic_pub = [m]" "em_id m = EndpointId Mic 0"
    using mic_pub_published(2) by (cases "unified_published mic_pub") auto
  have "\<not> is_self_node phone (ur_self_node (unified_default ''host''))"
    by (simp add: unified_default_def phone_remote)
  moreover have "m \<in> set (filter (\<lambda>_. True) (unified_published mic_pub))" by (simp add: m)
  moreover have "node_wf phone" by (simp add: phone_def node_wf_def)
  ultimately show ?thesis
    using directory_convergence [OF mic_pub_def mic_pub_published(1) [symmetric] _ _ _ refl] m(2) by metis
qed

text \<open>Publishing and unpublishing the host's own endpoints.\<close>

lemma own_ref_put [simp]: "own_ref (ur\<lparr> ur_endpoints := r \<rparr>) i = own_ref ur i"
  by (simp add: own_ref_def)

lemma own_ref_inject [simp]: "own_ref ur i = own_ref ur j \<longleftrightarrow> i = j"
  by (simp add: own_ref_def)

text \<open>Publishing succeeds only for a mounted, available, unpublished endpoint of the
  host; it adds exactly that endpoint's manifest, with the parameters given, to the
  published list, and cannot be repeated.  Unpublishing then succeeds, and leaves the
  published list as it was before.\<close>

theorem publish_then_unpublish:
  assumes "ur = fold registry_step evs (unified_default name)"
    and "unified_publish now i vis dlv trs cs ur = (Inr m, ur')" and "unified_unpublish t i ur' = (res, ur'')"
  shows "em_id m = i \<and> em_visibility m = vis \<and> em_delivery m = dlv \<and> em_transports m = trs \<and> em_codecs m = cs
    \<and> em_available m \<and> i \<notin> em_id ` set (unified_published ur)
    \<and> set (unified_published ur') = insert m (set (unified_published ur))
    \<and> fst (unified_publish t' i vis' dlv' trs' cs' ur') = Inl (EpAlreadyPublished (own_ref ur i))
    \<and> res = Inr () \<and> set (unified_published ur'') = set (unified_published ur)"
proof -
  note wf = run_wf [of evs name, folded assms(1)]
  let ?k = "own_ref ur i" and ?al = "er_endpoints (ur_endpoints ur)"
  obtain e where e: "map_of ?al ?k = Some e" "se_available (ee_ep e)" "\<not> ee_published e"
    using assms(2) by (auto simp: unified_publish_def registry_publish_def split: option.splits if_splits)
  define e' where "e' = e\<lparr> ee_published := True, ee_visibility := vis, ee_delivery := dlv,
    ee_transports := trs, ee_codecs := cs, ee_updated_at := now \<rparr>"
  have ur': "ur' = ur\<lparr> ur_endpoints := put_entry ?k e' (ur_endpoints ur) \<rparr>" "m = manifest_of e'"
    using assms(2) e unfolding unified_publish_def registry_publish_def by (simp_all add: Let_def flip: e'_def)
  have id: "se_id (ee_ep e) = i" using e(1) unified_wfD(1) [OF wf] by (simp add: reg_wf_def own_ref_def)
  have wf': "unified_wf ur'" using entry_op_unified [OF publish_op.entry_op_axioms wf] assms(2)
    by (simp add: unified_publish_def case_prod_beta Let_def) (metis prod.sel(2))
  have wf'': "unified_wf ur''" using entry_op_unified [OF unpublish_op.entry_op_axioms wf'] assms(3)
    by (simp add: unified_unpublish_def case_prod_beta Let_def) (metis prod.sel(2))
  have pub': "ee_published e'" "map_of (er_endpoints (ur_endpoints ur')) ?k = Some e'" "own_ref ur' = own_ref ur"
    by (simp_all add: e'_def ur' fun_eq_iff)
  have fields: "em_id m = i" "em_visibility m = vis" "em_delivery m = dlv" "em_transports m = trs" "em_codecs m = cs" "em_available m"
    using e id unfolding ur'(2) by (simp_all add: e'_def manifest_of_def Let_def em_id_def endpoint_id.expand)
  have res: "res = Inr ()" and at'': "map_of (er_endpoints (ur_endpoints ur'')) k =
      (if k = ?k then Some (e'\<lparr> ee_published := False, ee_visibility := Public, ee_delivery := Pull, ee_transports := [],
         ee_codecs := [], ee_state := Idle, ee_subscribers := 0, ee_updated_at := t \<rparr>) else map_of ?al k)"
    and self'': "own_ref ur'' = own_ref ur" for k
    using assms(3) pub' by (auto simp: unified_unpublish_def registry_unpublish_def Let_def ur' fun_eq_iff)
  have notin: "i \<notin> em_id ` set (unified_published ur)" using e by (auto simp: published_member [OF wf])
  have set': "set (unified_published ur') = insert m (set (unified_published ur))"
  proof (intro set_eqI)
    fix x
    have at': "map_of (er_endpoints (ur_endpoints ur')) k = (if k = ?k then Some e' else map_of ?al k)" for k
      by (simp add: ur')
    show "x \<in> set (unified_published ur') \<longleftrightarrow> x \<in> insert m (set (unified_published ur))"
      using e(1,3) pub'(1) fields(1) unfolding published_member [OF wf] published_member [OF wf'] at' pub'(3) insert_iff
      by (cases "em_id x = i") (auto simp: ur'(2))
  qed
  have set'': "set (unified_published ur'') = set (unified_published ur)"
  proof (intro set_eqI)
    fix x show "x \<in> set (unified_published ur'') \<longleftrightarrow> x \<in> set (unified_published ur)"
      using e(1,3) unfolding published_member [OF wf] published_member [OF wf''] at'' self''
      by (cases "em_id x = i") auto
  qed
  have again: "fst (unified_publish t' i vis' dlv' trs' cs' ur') = Inl (EpAlreadyPublished ?k)"
    using pub' e by (simp add: unified_publish_def registry_publish_def case_prod_beta Let_def e'_def)
  show ?thesis using fields notin set' res set'' again by blast
qed

lemma publish_then_unpublish_witness:
  "set (unified_published (snd (unified_unpublish 9 (EndpointId Mic 0) (snd (unified_publish 2 (EndpointId Mic 0) Public Pull [] []
     (fold registry_step [RSeed None 1 probe_endpoint] (unified_default ''host'')))))))
   = set (unified_published (fold registry_step [RSeed None 1 probe_endpoint] (unified_default ''host'')))"
proof -
  let ?ur = "fold registry_step [RSeed None 1 probe_endpoint] (unified_default ''host'')"
  let ?p = "unified_publish 2 (EndpointId Mic 0) Public Pull [] [] ?ur"
  obtain ur' where p: "?p = (Inr (the (map_option manifest_of (map_of (er_endpoints (ur_endpoints (snd ?p))) (EndpointRef NIL (EndpointId Mic 0))))), ur')"
    by (simp add: unified_publish_def registry_publish_def unified_default_def unified_seed_def seed_with_owner_def
      registry_empty_def add_self_ref_def ensure_self_entry_def probe_endpoint_def probe_load_def Let_def self_entry_def
      own_ref_def)
  obtain res ur'' where u: "unified_unpublish 9 (EndpointId Mic 0) ur' = (res, ur'')"
    by (cases "unified_unpublish 9 (EndpointId Mic 0) ur'")
  from publish_then_unpublish [OF refl p u] have "set (unified_published ur'') = set (unified_published ?ur)" by blast
  moreover have "snd ?p = ur'" "snd (unified_unpublish 9 (EndpointId Mic 0) ur') = ur''" using p u by (metis prod.sel(2))+
  ultimately show ?thesis by simp
qed

text \<open>Subscriptions of one endpoint, as a sequence of joins and leaves.\<close>

definition sub_step :: "nat \<Rightarrow> endpoint_ref \<Rightarrow> bool \<times> node_id \<Rightarrow> endpoint_registry \<Rightarrow> endpoint_registry" where
  "sub_step now key ev r =
     (case ev of (True, n) \<Rightarrow> registry_note_subscriber now key n r
      | (False, n) \<Rightarrow> snd (registry_note_unsubscriber now key n r))"

definition sub_nodes :: "bool \<times> node_id \<Rightarrow> node_id set \<Rightarrow> node_id set" where
  "sub_nodes ev N = (if fst ev then insert (snd ev) N else N - {snd ev})"

lemma sub_step_at:
  assumes "map_of (er_endpoints r) key = Some e"
  obtains e' where "map_of (er_endpoints (sub_step now key ev r)) key = Some e'"
    and "ee_subscriber_nodes e' = sub_nodes ev (ee_subscriber_nodes e)"
    and "ee_subscribers e' = u32_of_nat (card (ee_subscriber_nodes e'))"
  using assms
  by (cases ev; cases "fst ev") (auto simp: sub_step_def sub_nodes_def registry_note_subscriber_def
    registry_note_unsubscriber_def Let_def)

lemma sub_nodes_bound:
  "finite N \<Longrightarrow> finite (fold sub_nodes evs N) \<and> card (fold sub_nodes evs N) \<le> card N + length evs"
proof (induction evs arbitrary: N)
  case (Cons ev evs)
  have "finite (sub_nodes ev N)" "card (sub_nodes ev N) \<le> Suc (card N)"
    using Cons.prems by (auto simp: sub_nodes_def card_insert_if intro: card_Diff1_le le_SucI)
  with Cons.IH [of "sub_nodes ev N"] show ?case by simp
qed simp

lemma sub_run_at:
  assumes "map_of (er_endpoints r) key = Some e" and "ee_subscribers e = u32_of_nat (card (ee_subscriber_nodes e))"
  shows "\<exists>e'. map_of (er_endpoints (fold (sub_step now key) evs r)) key = Some e'
    \<and> ee_subscriber_nodes e' = fold sub_nodes evs (ee_subscriber_nodes e)
    \<and> ee_subscribers e' = u32_of_nat (card (ee_subscriber_nodes e'))"
  using assms
proof (induction evs arbitrary: r e)
  case (Cons ev evs)
  obtain e1 where "map_of (er_endpoints (sub_step now key ev r)) key = Some e1"
    "ee_subscriber_nodes e1 = sub_nodes ev (ee_subscriber_nodes e)"
    "ee_subscribers e1 = u32_of_nat (card (ee_subscriber_nodes e1))"
    by (rule sub_step_at [OF Cons.prems(1)])
  then show ?case using Cons.IH [of "sub_step now key ev r" e1] by auto
qed auto

text \<open>Subscribers are counted as nodes, whatever the order of joins, repeated joins
  and leaves: from an endpoint without subscribers, after any such sequence the count is
  the number of nodes that joined and did not leave since, without wrap-around, and the
  number reported to the next leaver is 0 exactly when no other subscriber is left.\<close>

theorem subscribers_are_counted_once:
  assumes "map_of (er_endpoints r) key = Some e" and "ee_subscriber_nodes e = {}" and "ee_subscribers e = 0"
    and "length evs < 2 ^ 32" and "r' = fold (sub_step now key) evs r"
  shows "\<exists>e'. map_of (er_endpoints r') key = Some e' \<and> ee_subscriber_nodes e' = fold sub_nodes evs {}
    \<and> unat (ee_subscribers e') = card (fold sub_nodes evs {})
    \<and> (fst (registry_note_unsubscriber now key n r') = 0 \<longleftrightarrow> fold sub_nodes evs {} \<subseteq> {n})"
proof -
  let ?N = "fold sub_nodes evs ({} :: node_id set)"
  have fin: "finite ?N" "card ?N < 2 ^ 32" using sub_nodes_bound [of "{}" evs] assms(4) by auto
  obtain e' where e': "map_of (er_endpoints r') key = Some e'" "ee_subscriber_nodes e' = ?N"
      "ee_subscribers e' = u32_of_nat (card ?N)"
    using sub_run_at [OF assms(1), of now evs] assms(2,3,5) by auto
  have "card (?N - {n}) < 2 ^ 32" using fin(2) card_Diff1_le [of ?N n] by simp
  then have "(u32_of_nat (card (?N - {n})) = 0) = (card (?N - {n}) = 0)"
    by (simp add: word_of_nat_eq_0_iff nat_dvd_not_less) (metis dvd_0_right nat_dvd_not_less neq0_conv)
  also have "\<dots> \<longleftrightarrow> ?N \<subseteq> {n}" using fin(1) by auto
  finally have "fst (registry_note_unsubscriber now key n r') = 0 \<longleftrightarrow> ?N \<subseteq> {n}"
    using e' by (simp add: registry_note_unsubscriber_def Let_def)
  moreover have "unat (ee_subscribers e') = card ?N"
    using fin(2) e'(3) by (simp add: unsigned_of_nat take_bit_nat_eq_self)
  ultimately show ?thesis using e' by blast
qed

definition mic_key :: endpoint_ref where
  "mic_key = EndpointRef NIL (EndpointId Mic 0)"

definition mic_table :: endpoint_registry where
  "mic_table = snd (seed_with_owner id 1 probe_endpoint NIL registry_empty)"

lemma subscribers_are_counted_once_witness:
  "fst (registry_note_unsubscriber 4 mic_key phone
     (fold (sub_step 3 mic_key) [(True, phone), (True, NIL), (True, phone), (False, NIL)] mic_table)) = 0"
proof -
  obtain e where e: "map_of (er_endpoints mic_table) mic_key = Some e" "ee_subscriber_nodes e = {}" "ee_subscribers e = 0"
    by (simp add: mic_table_def mic_key_def seed_with_owner_def registry_empty_def probe_endpoint_def Let_def)
  have "NIL \<noteq> phone" by (simp add: NIL_def phone_def)
  then have N: "fold sub_nodes [(True, phone), (True, NIL), (True, phone), (False, NIL)] {} = {phone}"
    by (auto simp: sub_nodes_def)
  show ?thesis
    using subscribers_are_counted_once [OF e _ refl, where n = phone and now = 3
      and evs = "[(True, phone), (True, NIL), (True, phone), (False, NIL)]"] unfolding N
    by (simp add: registry_note_unsubscriber_def split: option.splits)
qed

text \<open>The order of a listing does not depend on the order of the hash map.\<close>

lemma kind_rank_inject [simp]: "kind_rank a = kind_rank b \<longleftrightarrow> a = b"
  by (cases a; cases b) simp_all

lemma endpoint_order_inj: "endpoint_order m = endpoint_order m' \<longleftrightarrow> em_id m = em_id m'"
  by (simp add: endpoint_order_def em_id_def)

lemma listing_canonical:
  assumes "reg_wf r" and "reg_wf r'" and "\<And>k. map_of (er_endpoints r) k = map_of (er_endpoints r') k"
  shows "sort_key endpoint_order (map (\<lambda>(_, e). manifest_of e) (filter (\<lambda>(k, e). owned_by (Some n) k \<and> P e) (er_endpoints r)))
    = sort_key endpoint_order (map (\<lambda>(_, e). manifest_of e) (filter (\<lambda>(k, e). owned_by (Some n) k \<and> P e) (er_endpoints r')))"
proof (rule sort_key_inj_key_eq)
  have d: "distinct (er_endpoints r)" "distinct (er_endpoints r')"
    and s: "set (er_endpoints r) = set (er_endpoints r')"
    using assms map_of_inject_set [of "er_endpoints r" "er_endpoints r'"]
    unfolding reg_wf_def distinct_keys_def by (auto simp: distinct_map fun_eq_iff)
  have "mset (er_endpoints r) = mset (er_endpoints r')"
    using d s by (simp add: set_eq_iff_mset_eq_distinct)
  then show "mset (map (\<lambda>(_, e). manifest_of e) (filter (\<lambda>(k, e). owned_by (Some n) k \<and> P e) (er_endpoints r)))
      = mset (sort_key endpoint_order (map (\<lambda>(_, e). manifest_of e)
          (filter (\<lambda>(k, e). owned_by (Some n) k \<and> P e) (er_endpoints r'))))"
    by simp
  show "inj_on endpoint_order (set (map (\<lambda>(_, e). manifest_of e)
      (filter (\<lambda>(k, e). owned_by (Some n) k \<and> P e) (er_endpoints r))))"
    using owned_ids_distinct [OF assms(1), of n P]
    by (intro inj_onI) (simp only: endpoint_order_inj distinct_map inj_on_def)
qed simp

text \<open>The listings of a node (all endpoints, and the published ones) depend only on
  what is mounted, not on the iteration order of the hash map, and are ordered by kind
  and number.\<close>

theorem listings_are_canonical:
  assumes "reg_wf r" and "reg_wf r'" and "\<And>k. endpoint_entry_at k r = endpoint_entry_at k r'"
  shows "manifests_of (Some n) r = manifests_of (Some n) r'
    \<and> published_manifests_of (Some n) r = published_manifests_of (Some n) r'
    \<and> sorted (map endpoint_order (manifests_of (Some n) r))
    \<and> distinct (map em_id (manifests_of (Some n) r))"
proof -
  have eq: "\<And>k. map_of (er_endpoints r) k = map_of (er_endpoints r') k"
    using assms(3) by (simp add: endpoint_entry_at_def)
  note all = listing_canonical [OF assms(1,2) eq, of n "\<lambda>_. True", simplified simp_thms]
  have "mset (map em_id (manifests_of (Some n) r)) = mset (map em_id (map (\<lambda>(_, e). manifest_of e)
     (filter (\<lambda>(k, e). owned_by (Some n) k \<and> True) (er_endpoints r))))"
    by (simp add: manifests_of_def del: map_map filter_filter)
  from mset_eq_imp_distinct_iff [OF this]
  have "distinct (map em_id (manifests_of (Some n) r))" using owned_ids_distinct [OF assms(1), of n "\<lambda>_. True"] by blast
  then show ?thesis
    using all listing_canonical [OF assms(1,2) eq, of n ee_published]
    by (simp add: manifests_of_def published_manifests_of_def)
qed

lemma listings_are_canonical_witness:
  "manifests_of (Some NIL) (mic_table\<lparr> er_next_file_id := 5 \<rparr>) = manifests_of (Some NIL) mic_table"
proof -
  have "reg_wf mic_table" unfolding mic_table_def
    by (rule seed_result) (simp_all add: reg_wf_def registry_empty_def distinct_keys_def)
  then show ?thesis
    using listings_are_canonical [of "mic_table\<lparr> er_next_file_id := 5 \<rparr>" mic_table NIL]
    by (simp add: endpoint_entry_at_def)
qed

text \<open>Taking a persistent node id loses no endpoint: every endpoint the host had
  mounted is found under the new id with the same manifest, nothing is left under the
  old id, the entries of all other nodes are unchanged, and the host's node entry keeps
  its endpoint references.\<close>

theorem self_rename_keeps_endpoints:
  assumes "ur = fold registry_step evs (unified_default name)" and "ur' = set_self_node new nm ur"
    and "old = ur_self_node ur"
  shows "ur_self_node ur' = new
    \<and> (\<forall>i m. unified_manifest i ur = Some m \<longrightarrow> unified_manifest i ur' = Some m \<and> manifest_for NIL i ur' = Some m)
    \<and> (old \<noteq> new \<longrightarrow> (\<forall>k. er_owner k = old \<longrightarrow> endpoint_entry_at k (ur_endpoints ur') = None))
    \<and> (\<forall>k. er_owner k \<notin> {old, new} \<longrightarrow> endpoint_entry_at k (ur_endpoints ur') = endpoint_entry_at k (ur_endpoints ur))
    \<and> map_option ne_endpoint_ids (map_of (ur_nodes ur') new) = map_option ne_endpoint_ids (map_of (ur_nodes ur) old)"
proof -
  note wf = run_wf [of evs name, folded assms(1)]
  obtain e where e: "map_of (ur_nodes ur) old = Some e"
    using unified_wfD(3) [OF wf] by (auto simp: has_key_def assms(3))
  let ?eps = "er_endpoints (ur_endpoints ur)"
  have self: "ur_self_node ur' = new" by (simp add: assms(2) set_self_node_def Let_def)
  have at: "map_of (er_endpoints (ur_endpoints ur')) k =
    (if old = new then map_of ?eps k
     else if er_owner k = new \<and> has_key ?eps (EndpointRef old (er_endpoint k))
     then map_of ?eps (EndpointRef old (er_endpoint k)) else if er_owner k = old then None else map_of ?eps k)" for k
  proof (cases "old = new")
    case True
    then show ?thesis using e unfolding assms(2) set_self_node_def Let_def assms(3) [symmetric] by simp
  next
    case False
    then show ?thesis using e rekey_all [OF False, of ?eps k]
      unfolding assms(2) set_self_node_def Let_def assms(3) [symmetric] by simp
  qed
  have nodes: "map_option ne_endpoint_ids (map_of (ur_nodes ur') new) = map_option ne_endpoint_ids (map_of (ur_nodes ur) old)"
    using e unfolding assms(2) set_self_node_def Let_def assms(3) [symmetric] by (cases "old = new") simp_all
  have norm: "normalize_node NIL q = q" "normalize_node q q = q" for q
    by (simp_all add: normalize_node_def is_self_node_def)
  show ?thesis
    using self nodes
    by (auto simp: at unified_manifest_def manifest_for_def registry_manifest_def norm endpoint_entry_at_def has_key_def
      simp flip: assms(3))
qed

lemma self_rename_keeps_endpoints_witness:
  "ur_self_node (set_self_node phone ''p'' (fold registry_step [RSeed None 1 probe_endpoint] (unified_default ''host''))) = phone"
  by (rule self_rename_keeps_endpoints [OF refl refl refl, THEN conjunct1])

text \<open>The recorded file sources are not moved: after the host got its persistent id, the
  source of a file published before is no longer found.\<close>

lemma rename_strands_file_sources:
  assumes "ur_self_node ur \<noteq> new" and "\<And>i. map_of (er_file_sources (ur_endpoints ur)) (EndpointRef new i) = None"
  shows "unified_file_source i (set_self_node new nm ur) = None"
  using assms by (auto simp: unified_file_source_def registry_file_source_def own_ref_def set_self_node_def Let_def split: option.splits)

end
