(* ===== verification/Relay.thy ===== *)
theory Relay
  imports Transport Registry "HOL-Library.Char_ord"
begin

text \<open>
  The relay of \<open>stross-kernel/src/relay\<close>: the sharded stream table, admission,
  proxies and events of \<open>state.rs\<close>, and the push, watch and proxy sessions of
  \<open>data_plane.rs\<close> as steps over one shared state, including the pairing loop of a
  multiplexed QUIC link.

  A broadcast channel (a library) is represented by its number, the frames handed
  to it and the number of its live receivers; what a receiver gets back is an input
  of the watch session.  Sending to a peer either succeeds or fails; the outcome is
  an input where the code looks at it.
\<close>


section \<open>Data\<close>

record track_info =
  tk_codec :: codec_id
  tk_width :: "u32 option"
  tk_height :: "u32 option"
  tk_fps :: "u32 option"
  tk_sample_rate :: "u32 option"
  tk_channels :: "u8 option"

record stream_info =
  si_stream_id :: stream_id
  si_title :: string
  si_video :: "track_info option"
  si_audio :: "track_info option"
  si_started_at :: nat
  si_watchers :: u32

record share_token =
  tok_v :: u8
  tok_stream_id :: stream_id
  tok_pin :: string
  tok_expires_at :: nat
  tok_media :: "media_kind list"

definition is_expired :: "nat \<Rightarrow> share_token \<Rightarrow> bool" where
  "is_expired now t \<longleftrightarrow> tok_expires_at t \<le> now"

datatype relay_event =
    StreamStarted stream_id stream_info
  | StreamEnded stream_id
  | WatchersChanged stream_id u32

record stream_entry =
  st_info :: stream_info
  st_tx :: nat
  st_last_keyframe :: "frame option"

definition STREAM_SHARDS :: nat where
  "STREAM_SHARDS = 16"

record relay_state =
  rl_shards :: "(stream_id \<times> stream_entry) list list"
  rl_receivers :: "nat \<Rightarrow> nat"
  rl_sent :: "(nat \<times> frame) list"
  rl_next_chan :: nat
  rl_proxies :: "(stream_id \<times> string) list"
  rl_allowed :: "stream_id set"
  rl_controlled :: bool
  rl_events :: "relay_event list"

datatype relay_op_error = ProxyExists stream_id | StreamExistsErr stream_id


section \<open>The shared state\<close>

definition relay_new :: "bool \<Rightarrow> relay_state" where
  "relay_new controlled =
     \<lparr> rl_shards = replicate STREAM_SHARDS [], rl_receivers = (\<lambda>_. 0), rl_sent = [], rl_next_chan = 0,
       rl_proxies = [], rl_allowed = {}, rl_controlled = controlled, rl_events = [] \<rparr>"

fun shard_hash :: "u64 \<Rightarrow> bytes \<Rightarrow> u64" where
  "shard_hash h [] = h"
| "shard_hash h (b # bs) = shard_hash ((h XOR ucast b) * 0x100000001b3) bs"

definition shard_for :: "stream_id \<Rightarrow> nat" where
  "shard_for sid = unat (shard_hash 0x811c9dc5 (str_bytes sid) AND 15)"

definition relay_streams :: "relay_state \<Rightarrow> stream_info list" where
  "relay_streams rl =
     sort_key si_stream_id
       (concat (map (map (\<lambda>(_, e). (st_info e)\<lparr> si_watchers := u32_of_nat (rl_receivers rl (st_tx e)) \<rparr>))
         (rl_shards rl)))"

definition relay_get :: "stream_id \<Rightarrow> relay_state \<Rightarrow> stream_entry option" where
  "relay_get sid rl = map_of (rl_shards rl ! shard_for sid) sid"

text \<open>Writing and deleting in the shard of a stream.\<close>

definition shard_put :: "stream_id \<Rightarrow> stream_entry \<Rightarrow> relay_state \<Rightarrow> relay_state" where
  "shard_put sid e rl =
     (let k = shard_for sid
      in rl\<lparr> rl_shards := (rl_shards rl)[k := AList.update sid e (rl_shards rl ! k)] \<rparr>)"

definition shard_del :: "stream_id \<Rightarrow> relay_state \<Rightarrow> relay_state" where
  "shard_del sid rl =
     (let k = shard_for sid
      in rl\<lparr> rl_shards := (rl_shards rl)[k := AList.delete sid (rl_shards rl ! k)] \<rparr>)"

definition relay_insert :: "stream_entry \<Rightarrow> relay_state \<Rightarrow> relay_state" where
  "relay_insert e rl = shard_put (si_stream_id (st_info e)) e rl"

definition relay_forward :: "stream_id \<Rightarrow> frame \<Rightarrow> relay_state \<Rightarrow> relay_state" where
  "relay_forward sid f rl =
     (case relay_get sid rl of
        None \<Rightarrow> rl
      | Some e \<Rightarrow>
          let e' = (if fh_track (f_header f) = TRACK_VIDEO \<and> is_keyframe (f_header f)
                    then e\<lparr> st_last_keyframe := Some f \<rparr> else e);
              rl1 = shard_put sid e' rl
          in rl1\<lparr> rl_sent := rl_sent rl1 @ [(st_tx e, f)] \<rparr>)"

definition relay_remove :: "stream_id \<Rightarrow> relay_state \<Rightarrow> bool \<times> relay_state" where
  "relay_remove sid rl = (relay_get sid rl \<noteq> None, shard_del sid rl)"

definition relay_emit :: "relay_event \<Rightarrow> relay_state \<Rightarrow> relay_state" where
  "relay_emit ev rl = rl\<lparr> rl_events := rl_events rl @ [ev] \<rparr>"

definition authorize_stream :: "stream_id \<Rightarrow> relay_state \<Rightarrow> relay_state" where
  "authorize_stream sid rl = rl\<lparr> rl_allowed := insert sid (rl_allowed rl) \<rparr>"

text \<open>Removal of a stream with the event, where there was one.\<close>

definition end_stream :: "stream_id \<Rightarrow> relay_state \<Rightarrow> relay_state" where
  "end_stream sid rl =
     (case relay_remove sid rl of
        (True, rl1) \<Rightarrow> relay_emit (StreamEnded sid) rl1
      | (False, rl1) \<Rightarrow> rl1)"

definition revoke_stream :: "stream_id \<Rightarrow> relay_state \<Rightarrow> relay_state" where
  "revoke_stream sid rl = end_stream sid (rl\<lparr> rl_allowed := rl_allowed rl - {sid} \<rparr>)"

definition is_authorized :: "stream_id \<Rightarrow> relay_state \<Rightarrow> bool" where
  "is_authorized sid rl \<longleftrightarrow> sid \<in> rl_allowed rl"

text \<open>What a handler gets from its surroundings: the clock, the JSON reader for
  tokens and the validator the kernel has set.\<close>

record relay_env =
  re_now :: nat
  re_parse :: "string \<Rightarrow> share_token option"
  re_validate :: "(share_token \<Rightarrow> bool) option"

definition token_allows :: "relay_env \<Rightarrow> stream_id \<Rightarrow> string option \<Rightarrow> bool" where
  "token_allows env sid share_token =
     (case share_token of
        None \<Rightarrow> False
      | Some s \<Rightarrow>
          (case re_validate env of
             None \<Rightarrow> False
           | Some validate \<Rightarrow>
               (case re_parse env s of
                  None \<Rightarrow> False
                | Some t \<Rightarrow> if tok_stream_id t \<noteq> sid then False else validate t)))"

definition is_allowed :: "relay_env \<Rightarrow> stream_id \<Rightarrow> string option \<Rightarrow> bool \<Rightarrow> relay_state \<Rightarrow> bool" where
  "is_allowed env sid share_token loc rl \<longleftrightarrow>
     loc \<and> is_authorized sid rl \<or> token_allows env sid share_token"

text \<open>A new stream: a fresh channel, the table entry and the event.\<close>

definition open_stream :: "stream_info \<Rightarrow> relay_state \<Rightarrow> relay_state" where
  "open_stream info rl =
     relay_emit (StreamStarted (si_stream_id info) info)
       (relay_insert \<lparr> st_info = info, st_tx = rl_next_chan rl, st_last_keyframe = None \<rparr>
         (rl\<lparr> rl_next_chan := rl_next_chan rl + 1 \<rparr>))"

definition start_proxy ::
  "nat \<Rightarrow> string \<Rightarrow> stream_id \<Rightarrow> stream_info option \<Rightarrow> relay_state \<Rightarrow> (relay_op_error + stream_id) \<times> relay_state" where
  "start_proxy now upstream sid info rl =
     (if has_key (rl_proxies rl) sid then (Inl (ProxyExists sid), rl)
      else if relay_get sid rl \<noteq> None then (Inl (StreamExistsErr sid), rl)
      else
        let i = (case info of Some i \<Rightarrow> i
                 | None \<Rightarrow> \<lparr> si_stream_id = sid, si_title = sid, si_video = None, si_audio = None,
                             si_started_at = now, si_watchers = 0 \<rparr>);
            rl1 = relay_insert \<lparr> st_info = i, st_tx = rl_next_chan rl, st_last_keyframe = None \<rparr>
                    (rl\<lparr> rl_next_chan := rl_next_chan rl + 1 \<rparr>)
        in (Inr sid, relay_emit (StreamStarted sid i)
              (rl1\<lparr> rl_proxies := AList.update sid upstream (rl_proxies rl1) \<rparr>)))"

definition remove_proxy :: "stream_id \<Rightarrow> relay_state \<Rightarrow> relay_state" where
  "remove_proxy sid rl =
     (if has_key (rl_proxies rl) sid
      then end_stream sid (rl\<lparr> rl_proxies := AList.delete sid (rl_proxies rl) \<rparr>)
      else rl)"

definition relay_proxies :: "relay_state \<Rightarrow> (stream_id \<times> string) list" where
  "relay_proxies rl = sort_key fst (rl_proxies rl)"

definition abort_proxies :: "relay_state \<Rightarrow> stream_id list \<times> relay_state" where
  "abort_proxies rl = (map fst (rl_proxies rl), rl\<lparr> rl_proxies := [] \<rparr>)"


section \<open>Sessions\<close>

datatype relay_refusal = NotAuthorised stream_id | AlreadyExists stream_id | NoSuchStream stream_id | NotHelloNorWatch

text \<open>The control messages the relay looks at; every other one is \<open>OtherMsg\<close>.\<close>

datatype relay_msg =
    Hello stream_id string "track_info option" "track_info option" "string option"
  | Bye
  | Watch stream_id
  | Welcome stream_id
  | Ready stream_id
  | ErrorMsg relay_refusal
  | StreamOpened stream_id
  | CloseStream stream_id
  | OtherMsg

text \<open>What a session's \<open>recv\<close> under the silence timeout yields.\<close>

datatype push_input = PushPkt "relay_msg session_packet" | PushClosed | PushError | PushSilence

record push_session =
  ps_local :: bool
  ps_stream :: "stream_id option"
  ps_open :: bool
  ps_out :: "relay_msg list"

definition push_new :: "bool \<Rightarrow> push_session" where
  "push_new loc = \<lparr> ps_local = loc, ps_stream = None, ps_open = True, ps_out = [] \<rparr>"

text \<open>After the loop: the stream registered last is removed.\<close>

definition push_finish :: "push_session \<times> relay_state \<Rightarrow> push_session \<times> relay_state" where
  "push_finish s =
     (case s of (ps, rl) \<Rightarrow>
        (ps\<lparr> ps_open := False \<rparr>, case ps_stream ps of Some sid \<Rightarrow> end_stream sid rl | None \<Rightarrow> rl))"

fun push_hello ::
  "relay_env \<Rightarrow> stream_id \<Rightarrow> string \<Rightarrow> track_info option \<Rightarrow> track_info option \<Rightarrow> string option
     \<Rightarrow> push_session \<times> relay_state \<Rightarrow> push_session \<times> relay_state" where
  "push_hello env sid title video audio share_token (ps, rl) =
     (if rl_controlled rl \<and> \<not> is_allowed env sid share_token (ps_local ps) rl
      then (ps\<lparr> ps_open := False, ps_out := ps_out ps @ [ErrorMsg (NotAuthorised sid)] \<rparr>, rl)
      else if relay_get sid rl \<noteq> None
      then (ps\<lparr> ps_open := False, ps_out := ps_out ps @ [ErrorMsg (AlreadyExists sid)] \<rparr>, rl)
      else
        (ps\<lparr> ps_stream := Some sid, ps_out := ps_out ps @ [Welcome sid] \<rparr>,
         open_stream \<lparr> si_stream_id = sid, si_title = title, si_video = video, si_audio = audio,
                       si_started_at = re_now env, si_watchers = 0 \<rparr> rl))"

text \<open>One turn of \<open>handle_push_loop\<close>.\<close>

fun push_step ::
  "relay_env \<Rightarrow> push_input \<Rightarrow> push_session \<times> relay_state \<Rightarrow> push_session \<times> relay_state" where
  "push_step env PushSilence s = push_finish s"
| "push_step env PushClosed s = push_finish s"
| "push_step env PushError s = push_finish s"
| "push_step env (PushPkt (ControlPkt (Hello sid title video audio tok))) s = push_hello env sid title video audio tok s"
| "push_step env (PushPkt (ControlPkt Bye)) s = push_finish s"
| "push_step env (PushPkt (ControlPkt _)) s = s"
| "push_step env (PushPkt (MediaPkt f)) (ps, rl) =
     (ps, case ps_stream ps of Some sid \<Rightarrow> relay_forward sid f rl | None \<Rightarrow> rl)"

text \<open>Watching: \<open>recv\<close> on the broadcast channel yields a frame, the notice that
  frames were missed, or the end.\<close>

datatype recv_result = RecvFrame frame | RecvLagged | RecvEnd

record watch_session =
  ws_stream :: stream_id
  ws_chan :: nat
  ws_started :: bool
  ws_open :: bool
  ws_sent :: "frame list"
  ws_out :: "relay_msg list"

definition drop_receiver :: "nat \<Rightarrow> relay_state \<Rightarrow> relay_state" where
  "drop_receiver c rl = rl\<lparr> rl_receivers := (rl_receivers rl)(c := rl_receivers rl c - 1) \<rparr>"

definition watchers_changed :: "stream_id \<Rightarrow> nat \<Rightarrow> relay_state \<Rightarrow> relay_state" where
  "watchers_changed sid n rl = relay_emit (WatchersChanged sid (u32_of_nat n)) rl"

text \<open>The start of \<open>handle_watch\<close>; \<open>kf_ok\<close> is the outcome of sending the cached key
  frame, \<open>ack\<close> the confirmation message of the transport.\<close>

definition watch_open ::
  "(stream_id \<Rightarrow> relay_msg) \<Rightarrow> bool \<Rightarrow> stream_id \<Rightarrow> relay_state \<Rightarrow> watch_session \<times> relay_state" where
  "watch_open ack kf_ok sid rl =
     (case relay_get sid rl of
        None \<Rightarrow>
          (\<lparr> ws_stream = sid, ws_chan = 0, ws_started = False, ws_open = False, ws_sent = [],
             ws_out = [ErrorMsg (NoSuchStream sid)] \<rparr>, rl)
      | Some e \<Rightarrow>
          let c = st_tx e;
              rl1 = rl\<lparr> rl_receivers := (rl_receivers rl)(c := rl_receivers rl c + 1) \<rparr>;
              rl2 = watchers_changed sid (rl_receivers rl1 c) rl1;
              ws = \<lparr> ws_stream = sid, ws_chan = c, ws_started = False, ws_open = True, ws_sent = [], ws_out = [ack sid] \<rparr>
          in case st_last_keyframe e of
               None \<Rightarrow> (ws, rl2)
             | Some kf \<Rightarrow>
                 if kf_ok then (ws\<lparr> ws_started := True, ws_sent := [kf] \<rparr>, rl2)
                 else (ws\<lparr> ws_open := False \<rparr>, watchers_changed sid 0 (drop_receiver c rl2)))"

definition watch_finish :: "watch_session \<times> relay_state \<Rightarrow> watch_session \<times> relay_state" where
  "watch_finish s =
     (case s of (ws, rl) \<Rightarrow>
        let rl1 = drop_receiver (ws_chan ws) rl;
            n = (case relay_get (ws_stream ws) rl1 of None \<Rightarrow> 0 | Some e \<Rightarrow> rl_receivers rl1 (st_tx e))
        in (ws\<lparr> ws_open := False \<rparr>, watchers_changed (ws_stream ws) n rl1))"

text \<open>The gate: whether the frame is passed on, and whether video is open after it.\<close>

definition opens_video :: "frame \<Rightarrow> bool" where
  "opens_video f \<longleftrightarrow> fh_track (f_header f) = TRACK_VIDEO \<and> (is_keyframe (f_header f) \<or> is_config (f_header f))"

definition watch_gate :: "bool \<Rightarrow> frame \<Rightarrow> bool \<times> bool" where
  "watch_gate started f =
     (if fh_track (f_header f) = TRACK_VIDEO \<and> \<not> started \<and> \<not> is_keyframe (f_header f) \<and> \<not> is_config (f_header f)
      then (False, started)
      else (True, started \<or> opens_video f))"

fun watch_step :: "bool \<Rightarrow> recv_result \<Rightarrow> watch_session \<times> relay_state \<Rightarrow> watch_session \<times> relay_state" where
  "watch_step ok RecvLagged (ws, rl) = (ws\<lparr> ws_started := False \<rparr>, rl)"
| "watch_step ok RecvEnd s = watch_finish s"
| "watch_step ok (RecvFrame f) (ws, rl) =
     (case watch_gate (ws_started ws) f of
        (False, _) \<Rightarrow> (ws, rl)
      | (True, started) \<Rightarrow>
          let ws1 = ws\<lparr> ws_started := started \<rparr> in
          if ok then (ws1\<lparr> ws_sent := ws_sent ws1 @ [f] \<rparr>, rl) else watch_finish (ws1, rl))"

text \<open>The uplink of a proxy: media is forwarded, control ignored, anything else ends it.\<close>

fun proxy_step :: "stream_id \<Rightarrow> push_input \<Rightarrow> relay_state \<Rightarrow> relay_state" where
  "proxy_step sid (PushPkt (MediaPkt f)) rl = relay_forward sid f rl"
| "proxy_step sid (PushPkt (ControlPkt _)) rl = rl"
| "proxy_step sid _ rl = remove_proxy sid rl"


section \<open>A multiplexed QUIC link\<close>

datatype stream_role = PushRole | WatchRole

record open_request =
  or_stream :: stream_id
  or_role :: stream_role
  or_title :: "string option"
  or_video :: "track_info option"
  or_audio :: "track_info option"
  or_token :: "string option"

text \<open>The queues and tables of \<open>quic_peer_loop\<close>, and the tasks it has started: the
  request and the number of the media stream it was paired with.\<close>

record quic_link =
  ql_opens :: "open_request list"
  ql_streams :: "nat list"
  ql_by_quic :: "(nat \<times> stream_id \<times> stream_role) list"
  ql_by_semantic :: "(stream_id \<times> nat) list"
  ql_tasks :: "(open_request \<times> nat) list"

definition quic_link_new :: quic_link where
  "quic_link_new = \<lparr> ql_opens = [], ql_streams = [], ql_by_quic = [], ql_by_semantic = [], ql_tasks = [] \<rparr>"

definition quic_pair1 :: "open_request \<Rightarrow> nat \<Rightarrow> quic_link \<Rightarrow> quic_link" where
  "quic_pair1 r qid l =
     l\<lparr> ql_by_quic := AList.update qid (or_stream r, or_role r) (ql_by_quic l),
        ql_by_semantic := AList.update (or_stream r) qid (ql_by_semantic l),
        ql_tasks := ql_tasks l @ [(r, qid)] \<rparr>"

fun quic_pair :: "open_request list \<Rightarrow> nat list \<Rightarrow> quic_link \<Rightarrow> quic_link" where
  "quic_pair (r # rs) (q # qs) l = quic_pair rs qs (quic_pair1 r q l)"
| "quic_pair rs qs l = l\<lparr> ql_opens := rs, ql_streams := qs \<rparr>"

datatype quic_event = QOpen open_request | QStream nat | QClose stream_id | QOther

definition quic_close :: "stream_id \<Rightarrow> quic_link \<times> relay_state \<Rightarrow> quic_link \<times> relay_state" where
  "quic_close sid s =
     (case s of (l, rl) \<Rightarrow>
        case map_of (ql_by_semantic l) sid of
          None \<Rightarrow> (l, rl)
        | Some qid \<Rightarrow>
            let l1 = l\<lparr> ql_by_semantic := AList.delete sid (ql_by_semantic l) \<rparr>;
                l2 = l1\<lparr> ql_by_quic := AList.delete qid (ql_by_quic l1) \<rparr>
            in case map_of (ql_by_quic l1) qid of
                 Some (s', PushRole) \<Rightarrow> (l2, end_stream s' rl)
               | _ \<Rightarrow> (l2, rl))"

text \<open>One turn of the link loop: the event, then pairing.\<close>

definition quic_step :: "quic_event \<Rightarrow> quic_link \<times> relay_state \<Rightarrow> quic_link \<times> relay_state" where
  "quic_step ev s =
     (let (l, rl) = (case ev of
            QOpen r \<Rightarrow> ((fst s)\<lparr> ql_opens := ql_opens (fst s) @ [r] \<rparr>, snd s)
          | QStream q \<Rightarrow> ((fst s)\<lparr> ql_streams := ql_streams (fst s) @ [q] \<rparr>, snd s)
          | QClose sid \<Rightarrow> quic_close sid s
          | QOther \<Rightarrow> s)
      in (quic_pair (ql_opens l) (ql_streams l) l, rl))"

text \<open>The push task of one media stream: admission, then the frames.\<close>

definition quic_push_open ::
  "relay_env \<Rightarrow> bool \<Rightarrow> open_request \<Rightarrow> relay_state \<Rightarrow> push_session \<times> relay_state" where
  "quic_push_open env loc r rl =
     (let sid = or_stream r;
          ps = push_new loc
      in if rl_controlled rl \<and> \<not> is_allowed env sid (or_token r) loc rl
         then (ps\<lparr> ps_open := False, ps_out := [ErrorMsg (NotAuthorised sid), CloseStream sid] \<rparr>, rl)
         else if relay_get sid rl \<noteq> None
         then (ps\<lparr> ps_open := False, ps_out := [ErrorMsg (AlreadyExists sid), CloseStream sid] \<rparr>, rl)
         else
           (ps\<lparr> ps_stream := Some sid, ps_out := [StreamOpened sid] \<rparr>,
            open_stream \<lparr> si_stream_id = sid, si_title = (case or_title r of Some t \<Rightarrow> t | None \<Rightarrow> []),
                          si_video = or_video r, si_audio = or_audio r, si_started_at = re_now env,
                          si_watchers = 0 \<rparr> rl))"

text \<open>A frame, or the end of the media stream (end, error or silence).\<close>

fun quic_push_step :: "frame option \<Rightarrow> push_session \<times> relay_state \<Rightarrow> push_session \<times> relay_state" where
  "quic_push_step (Some f) (ps, rl) =
     (ps, case ps_stream ps of Some sid \<Rightarrow> relay_forward sid f rl | None \<Rightarrow> rl)"
| "quic_push_step None (ps, rl) =
     (case push_finish (ps, rl) of (ps1, rl1) \<Rightarrow>
        (ps1\<lparr> ps_out := ps_out ps1 @ (case ps_stream ps of Some sid \<Rightarrow> [CloseStream sid] | None \<Rightarrow> []) \<rparr>, rl1))"

definition quic_watch_open :: "bool \<Rightarrow> stream_id \<Rightarrow> relay_state \<Rightarrow> watch_session \<times> relay_state" where
  "quic_watch_open kf_ok sid rl =
     (case watch_open StreamOpened kf_ok sid rl of (ws, rl1) \<Rightarrow>
        (if relay_get sid rl = None then ws\<lparr> ws_out := ws_out ws @ [CloseStream sid] \<rparr> else ws, rl1))"

definition quic_watch_step :: "bool \<Rightarrow> recv_result \<Rightarrow> watch_session \<times> relay_state \<Rightarrow> watch_session \<times> relay_state" where
  "quic_watch_step ok r s =
     (case watch_step ok r s of (ws, rl) \<Rightarrow>
        (if ws_open ws then ws else ws\<lparr> ws_out := ws_out ws @ [CloseStream (ws_stream ws)] \<rparr>, rl))"


section \<open>All sessions of a relay\<close>

datatype conn =
    CPush push_session
  | CWatch watch_session
  | CQuicPush push_session
  | CQuicWatch watch_session
  | CRefused "relay_msg list"

text \<open>The role of an SRT or single-stream QUIC connection is decided by its first message.\<close>

fun handle_connect :: "relay_env \<Rightarrow> bool \<Rightarrow> bool \<Rightarrow> push_input \<Rightarrow> relay_state \<Rightarrow> conn \<times> relay_state" where
  "handle_connect env loc kf_ok (PushPkt (ControlPkt (Hello sid title video audio tok))) rl =
     (case push_hello env sid title video audio tok (push_new loc, rl) of (ps, rl1) \<Rightarrow> (CPush ps, rl1))"
| "handle_connect env loc kf_ok (PushPkt (ControlPkt (Watch sid))) rl =
     (case watch_open Ready kf_ok sid rl of (ws, rl1) \<Rightarrow> (CWatch ws, rl1))"
| "handle_connect env loc kf_ok (PushPkt _) rl = (CRefused [ErrorMsg NotHelloNorWatch], rl)"
| "handle_connect env loc kf_ok _ rl = (CRefused [], rl)"

record relay_world =
  rw_state :: relay_state
  rw_conns :: "conn list"
  rw_links :: "quic_link list"

definition relay_start :: "bool \<Rightarrow> relay_world" where
  "relay_start controlled = \<lparr> rw_state = relay_new controlled, rw_conns = [], rw_links = [] \<rparr>"

text \<open>What can happen to a relay, in any interleaving.  A caller that gives stream
  information to a proxy gives that of the stream itself (see below for what happens
  otherwise).  The tasks of a link are started by \<open>WQuicPush\<close> and \<open>WQuicWatch\<close>.\<close>

datatype world_event =
    WConnect relay_env bool bool push_input
  | WWsPush bool
  | WWsWatch bool stream_id
  | WPacket nat relay_env push_input
  | WRecv nat bool recv_result
  | WLink
  | WLinkEvent nat quic_event
  | WQuicPush relay_env bool open_request
  | WQuicWatch bool stream_id
  | WQuicFrame nat "frame option"
  | WAuthorize stream_id
  | WRevoke stream_id
  | WProxy nat string stream_id "stream_info option"
  | WProxyInput stream_id push_input
  | WAbortProxies

definition add_conn :: "conn \<times> relay_state \<Rightarrow> relay_world \<Rightarrow> relay_world" where
  "add_conn r w = w\<lparr> rw_conns := rw_conns w @ [fst r], rw_state := snd r \<rparr>"

definition set_conn :: "nat \<Rightarrow> conn \<times> relay_state \<Rightarrow> relay_world \<Rightarrow> relay_world" where
  "set_conn i r w = w\<lparr> rw_conns := (rw_conns w)[i := fst r], rw_state := snd r \<rparr>"

definition conn_at :: "nat \<Rightarrow> relay_world \<Rightarrow> conn" where
  "conn_at i w = (if i < length (rw_conns w) then rw_conns w ! i else CRefused [])"

fun world_step :: "world_event \<Rightarrow> relay_world \<Rightarrow> relay_world" where
  "world_step (WConnect env loc kf_ok first) w = add_conn (handle_connect env loc kf_ok first (rw_state w)) w"
| "world_step (WWsPush loc) w = add_conn (CPush (push_new loc), rw_state w) w"
| "world_step (WWsWatch kf_ok sid) w = add_conn (map_prod CWatch id (watch_open Ready kf_ok sid (rw_state w))) w"
| "world_step (WPacket i env input) w =
     (case conn_at i w of
        CPush ps \<Rightarrow> if ps_open ps then set_conn i (map_prod CPush id (push_step env input (ps, rw_state w))) w else w
      | _ \<Rightarrow> w)"
| "world_step (WRecv i ok r) w =
     (case conn_at i w of
        CWatch ws \<Rightarrow> if ws_open ws then set_conn i (map_prod CWatch id (watch_step ok r (ws, rw_state w))) w else w
      | CQuicWatch ws \<Rightarrow> if ws_open ws then set_conn i (map_prod CQuicWatch id (quic_watch_step ok r (ws, rw_state w))) w else w
      | _ \<Rightarrow> w)"
| "world_step WLink w = w\<lparr> rw_links := rw_links w @ [quic_link_new] \<rparr>"
| "world_step (WLinkEvent i ev) w =
     (if i < length (rw_links w)
      then case quic_step ev (rw_links w ! i, rw_state w) of (l, rl) \<Rightarrow>
             w\<lparr> rw_links := (rw_links w)[i := l], rw_state := rl \<rparr>
      else w)"
| "world_step (WQuicPush env loc r) w = add_conn (map_prod CQuicPush id (quic_push_open env loc r (rw_state w))) w"
| "world_step (WQuicWatch kf_ok sid) w = add_conn (map_prod CQuicWatch id (quic_watch_open kf_ok sid (rw_state w))) w"
| "world_step (WQuicFrame i f) w =
     (case conn_at i w of
        CQuicPush ps \<Rightarrow> if ps_open ps then set_conn i (map_prod CQuicPush id (quic_push_step f (ps, rw_state w))) w else w
      | _ \<Rightarrow> w)"
| "world_step (WAuthorize sid) w = w\<lparr> rw_state := authorize_stream sid (rw_state w) \<rparr>"
| "world_step (WRevoke sid) w = w\<lparr> rw_state := revoke_stream sid (rw_state w) \<rparr>"
| "world_step (WProxy now up sid info) w =
     w\<lparr> rw_state := snd (start_proxy now up sid (map_option (\<lambda>i. i\<lparr> si_stream_id := sid \<rparr>) info) (rw_state w)) \<rparr>"
| "world_step (WProxyInput sid input) w =
     (if has_key (rl_proxies (rw_state w)) sid then w\<lparr> rw_state := proxy_step sid input (rw_state w) \<rparr> else w)"
| "world_step WAbortProxies w = w\<lparr> rw_state := snd (abort_proxies (rw_state w)) \<rparr>"


section \<open>The stream table\<close>

text \<open>The contract of a keyed table, and what follows from it.\<close>

locale keyed_table =
  fixes tget :: "'k \<Rightarrow> 's \<Rightarrow> 'v option" and tput :: "'k \<Rightarrow> 'v \<Rightarrow> 's \<Rightarrow> 's" and tdel :: "'k \<Rightarrow> 's \<Rightarrow> 's"
    and tok :: "'s \<Rightarrow> bool"
  assumes get_put: "tok s \<Longrightarrow> tget k (tput j v s) = (if k = j then Some v else tget k s)"
    and get_del: "tok s \<Longrightarrow> tget k (tdel j s) = (if k = j then None else tget k s)"
    and ok_put: "tok s \<Longrightarrow> tok (tput j v s)"
    and ok_del: "tok s \<Longrightarrow> tok (tdel j s)"
begin

lemma del_put: "tok s \<Longrightarrow> tget k (tdel j (tput j v s)) = tget k (tdel j s)"
  by (simp add: get_put get_del ok_put)

lemma puts: "tok s \<Longrightarrow> tok (fold (\<lambda>(j, v). tput j v) kvs s)
    \<and> tget k (fold (\<lambda>(j, v). tput j v) kvs s) = (case map_of (rev kvs) k of Some v \<Rightarrow> Some v | None \<Rightarrow> tget k s)"
  by (induction kvs arbitrary: s) (auto simp: ok_put get_put map_add_def split: option.splits)

end

definition shards_ok :: "relay_state \<Rightarrow> bool" where
  "shards_ok rl \<longleftrightarrow> length (rl_shards rl) = STREAM_SHARDS
     \<and> (\<forall>k < STREAM_SHARDS. distinct_keys (rl_shards rl ! k)
          \<and> (\<forall>sid. has_key (rl_shards rl ! k) sid \<longrightarrow> shard_for sid = k))"

lemma shard_for_less: "shard_for sid < STREAM_SHARDS"
proof -
  have m: "(15 :: u64) = mask 4" by (simp add: mask_eq_exp_minus_1)
  have "unat (x AND 15) = take_bit 4 (unat x)" for x :: u64
    unfolding m take_bit_eq_mask [symmetric] by (simp add: unsigned_take_bit_eq)
  moreover have "take_bit 4 n < (16 :: nat)" for n
    using take_bit_nat_less_exp [of 4 n] by simp
  ultimately show ?thesis by (simp add: shard_for_def STREAM_SHARDS_def)
qed

interpretation streams: keyed_table relay_get shard_put shard_del shards_ok
proof
  fix rl k j v assume ok: "shards_ok rl"
  have len: "shard_for x < length (rl_shards rl)" for x
    using ok shard_for_less by (simp add: shards_ok_def)
  have nth: "(rl_shards rl)[shard_for j := g] ! i = (if i = shard_for j then g else rl_shards rl ! i)" for g i
    using len by (simp add: nth_list_update)
  have upd: "relay_get k (rl\<lparr> rl_shards := (rl_shards rl)[shard_for j := g] \<rparr>)
      = (if shard_for k = shard_for j then map_of g k else relay_get k rl)" for g
    using len by (simp add: relay_get_def)
  show "relay_get k (shard_put j v rl) = (if k = j then Some v else relay_get k rl)"
    unfolding shard_put_def Let_def upd by (simp add: relay_get_def)
  show "relay_get k (shard_del j rl) = (if k = j then None else relay_get k rl)"
    unfolding shard_del_def Let_def upd by (simp add: relay_get_def)
  show "shards_ok (shard_put j v rl)"
    using ok unfolding shards_ok_def shard_put_def Let_def by (auto simp: nth)
  show "shards_ok (shard_del j rl)"
    using ok unfolding shards_ok_def shard_del_def Let_def by (auto simp: nth)
qed

text \<open>What the operations do to the table, the events and the channels.\<close>

lemma relay_get_more [simp]:
  "relay_get k (rl\<lparr> rl_receivers := x1 \<rparr>) = relay_get k rl"
  "relay_get k (rl\<lparr> rl_sent := x2 \<rparr>) = relay_get k rl"
  "relay_get k (rl\<lparr> rl_next_chan := x3 \<rparr>) = relay_get k rl"
  "relay_get k (rl\<lparr> rl_proxies := x4 \<rparr>) = relay_get k rl"
  "relay_get k (rl\<lparr> rl_allowed := x5 \<rparr>) = relay_get k rl"
  "relay_get k (rl\<lparr> rl_events := x6 \<rparr>) = relay_get k rl"
  by (simp_all add: relay_get_def)

lemma shards_ok_more [simp]:
  "shards_ok (rl\<lparr> rl_receivers := x1 \<rparr>) = shards_ok rl"
  "shards_ok (rl\<lparr> rl_sent := x2 \<rparr>) = shards_ok rl"
  "shards_ok (rl\<lparr> rl_next_chan := x3 \<rparr>) = shards_ok rl"
  "shards_ok (rl\<lparr> rl_proxies := x4 \<rparr>) = shards_ok rl"
  "shards_ok (rl\<lparr> rl_allowed := x5 \<rparr>) = shards_ok rl"
  "shards_ok (rl\<lparr> rl_events := x6 \<rparr>) = shards_ok rl"
  by (simp_all add: shards_ok_def)

lemma shard_fields [simp]:
  "rl_receivers (shard_put j v rl) = rl_receivers rl" "rl_receivers (shard_del j rl) = rl_receivers rl"
  "rl_events (shard_put j v rl) = rl_events rl" "rl_events (shard_del j rl) = rl_events rl"
  "rl_sent (shard_put j v rl) = rl_sent rl" "rl_sent (shard_del j rl) = rl_sent rl"
  "rl_next_chan (shard_put j v rl) = rl_next_chan rl" "rl_next_chan (shard_del j rl) = rl_next_chan rl"
  "rl_proxies (shard_put j v rl) = rl_proxies rl" "rl_proxies (shard_del j rl) = rl_proxies rl"
  "rl_controlled (shard_put j v rl) = rl_controlled rl" "rl_controlled (shard_del j rl) = rl_controlled rl"
  by (simp_all add: shard_put_def shard_del_def Let_def)

lemma shards_ok_new: "shards_ok (relay_new c)"
  by (auto simp: shards_ok_def relay_new_def STREAM_SHARDS_def distinct_keys_def has_key_def)

lemma relay_get_new [simp]: "relay_get k (relay_new c) = None"
  using shard_for_less [of k] by (simp add: relay_get_def relay_new_def)

text \<open>The live state of a stream as its events tell it: \<open>None\<close> when they are not a
  sequence of starts and ends in turn.\<close>

fun live_after :: "stream_id \<Rightarrow> bool \<Rightarrow> relay_event list \<Rightarrow> bool option" where
  "live_after sid live [] = Some live"
| "live_after sid live (StreamStarted s i # evs) =
     (if s \<noteq> sid then live_after sid live evs else if live then None else live_after sid True evs)"
| "live_after sid live (StreamEnded s # evs) =
     (if s \<noteq> sid then live_after sid live evs else if live then live_after sid False evs else None)"
| "live_after sid live (WatchersChanged s n # evs) = live_after sid live evs"

lemma live_after_append:
  "live_after sid b (evs @ evs') = (case live_after sid b evs of None \<Rightarrow> None | Some b' \<Rightarrow> live_after sid b' evs')"
  by (induction sid b evs rule: live_after.induct) auto

text \<open>The frames handed to a channel, and the last video key frame of a sequence.\<close>

definition sent_on :: "nat \<Rightarrow> (nat \<times> frame) list \<Rightarrow> frame list" where
  "sent_on c log = map snd (filter (\<lambda>x. fst x = c) log)"

definition video_key :: "frame \<Rightarrow> bool" where
  "video_key f \<longleftrightarrow> fh_track (f_header f) = TRACK_VIDEO \<and> is_keyframe (f_header f)"

definition last_key :: "frame list \<Rightarrow> frame option" where
  "last_key fs = find video_key (rev fs)"

lemma sent_on_simps [simp]:
  "sent_on c [] = []"
  "sent_on c (log @ [(d, f)]) = (if d = c then sent_on c log @ [f] else sent_on c log)"
  by (simp_all add: sent_on_def)

lemma last_key_simps [simp]:
  "last_key [] = None" "last_key (fs @ [f]) = (if video_key f then Some f else last_key fs)"
  by (simp_all add: last_key_def)

text \<open>The invariant of the table and the events.\<close>

definition table_ok :: "relay_state \<Rightarrow> bool" where
  "table_ok rl \<longleftrightarrow> shards_ok rl
     \<and> (\<forall>sid e. relay_get sid rl = Some e \<longrightarrow> si_stream_id (st_info e) = sid \<and> st_tx e < rl_next_chan rl)
     \<and> (\<forall>a b e e'. relay_get a rl = Some e \<longrightarrow> relay_get b rl = Some e' \<longrightarrow> st_tx e = st_tx e' \<longrightarrow> a = b)
     \<and> (\<forall>sid. live_after sid False (rl_events rl) = Some (relay_get sid rl \<noteq> None))
     \<and> (\<forall>sid e. relay_get sid rl = Some e \<longrightarrow> st_last_keyframe e = last_key (sent_on (st_tx e) (rl_sent rl)))
     \<and> (\<forall>c f. (c, f) \<in> set (rl_sent rl) \<longrightarrow> c < rl_next_chan rl)"

lemma table_ok_new: "table_ok (relay_new c)"
  using shards_ok_new [of c] by (simp add: table_ok_def) (simp add: relay_new_def)

lemma table_okD:
  assumes "table_ok rl"
  shows "shards_ok rl"
    and "relay_get sid rl = Some e \<Longrightarrow> si_stream_id (st_info e) = sid"
    and "relay_get sid rl = Some e \<Longrightarrow> st_tx e < rl_next_chan rl"
    and "relay_get a rl = Some e \<Longrightarrow> relay_get b rl = Some e' \<Longrightarrow> st_tx e = st_tx e' \<Longrightarrow> a = b"
    and "live_after sid False (rl_events rl) = Some (relay_get sid rl \<noteq> None)"
    and "relay_get sid rl = Some e \<Longrightarrow> st_last_keyframe e = last_key (sent_on (st_tx e) (rl_sent rl))"
    and "(c, f) \<in> set (rl_sent rl) \<Longrightarrow> c < rl_next_chan rl"
  using assms unfolding table_ok_def by blast+

lemma table_ok_more [simp]:
  "table_ok (rl\<lparr> rl_receivers := x1 \<rparr>) = table_ok rl"
  "table_ok (rl\<lparr> rl_proxies := x4 \<rparr>) = table_ok rl"
  "table_ok (rl\<lparr> rl_allowed := x5 \<rparr>) = table_ok rl"
  by (simp_all add: table_ok_def)

lemma live_after_watchers [simp]: "live_after sid b (evs @ [WatchersChanged s n]) = live_after sid b evs"
  by (simp add: live_after_append split: option.split)

lemma table_ok_watchers [simp]: "table_ok (watchers_changed sid n rl) = table_ok rl"
  by (simp add: table_ok_def watchers_changed_def relay_emit_def)

lemma relay_forward_get:
  assumes "shards_ok rl"
  shows "relay_get k (relay_forward sid f rl) = map_option (\<lambda>e. if k = sid \<and> video_key f then e\<lparr> st_last_keyframe := Some f \<rparr> else e) (relay_get k rl)"
  by (cases "relay_get sid rl"; cases "relay_get k rl"; cases "k = sid")
    (simp_all add: relay_forward_def streams.get_put [OF assms] Let_def video_key_def)

lemma relay_forward_fields [simp]:
  "rl_receivers (relay_forward sid f rl) = rl_receivers rl" "rl_events (relay_forward sid f rl) = rl_events rl"
  "rl_next_chan (relay_forward sid f rl) = rl_next_chan rl" "rl_controlled (relay_forward sid f rl) = rl_controlled rl"
  "rl_proxies (relay_forward sid f rl) = rl_proxies rl"
  "rl_sent (relay_forward sid f rl) = rl_sent rl @ (case relay_get sid rl of None \<Rightarrow> [] | Some e \<Rightarrow> [(st_tx e, f)])"
  by (simp_all add: relay_forward_def Let_def split: option.splits)

lemma table_ok_forward:
  assumes "table_ok rl"
  shows "table_ok (relay_forward sid f rl)"
proof (cases "relay_get sid rl")
  case None
  then show ?thesis using assms by (simp add: relay_forward_def)
next
  case (Some e)
  note D = table_okD [OF assms]
  note g = relay_forward_get [OF D(1)]
  have old: "\<exists>y. relay_get k rl = Some y \<and> st_tx y = st_tx x \<and> st_info y = st_info x
      \<and> st_last_keyframe x = (if k = sid \<and> video_key f then Some f else st_last_keyframe y)"
    if "relay_get k (relay_forward sid f rl) = Some x" for k x
    using that by (auto simp: g)
  show ?thesis unfolding table_ok_def
  proof (intro conjI allI impI)
    show "shards_ok (relay_forward sid f rl)"
      using Some by (simp add: relay_forward_def Let_def streams.ok_put [OF D(1)])
    show "si_stream_id (st_info x) = k" "st_tx x < rl_next_chan (relay_forward sid f rl)"
      if "relay_get k (relay_forward sid f rl) = Some x" for k x
      using old [OF that] D(2) [of k] D(3) [of k] by auto
    show "a = b" if "relay_get a (relay_forward sid f rl) = Some x" "relay_get b (relay_forward sid f rl) = Some y"
        "st_tx x = st_tx y" for a b x y
      using old [OF that(1)] old [OF that(2)] that(3) D(4) [of a _ b] by auto
    show "live_after k False (rl_events (relay_forward sid f rl)) = Some (relay_get k (relay_forward sid f rl) \<noteq> None)" for k
      using D(5) [of k] by (simp add: g)
    show "st_last_keyframe x = last_key (sent_on (st_tx x) (rl_sent (relay_forward sid f rl)))"
      if "relay_get k (relay_forward sid f rl) = Some x" for k x
      using old [OF that] D(6) [of k] D(4) [OF Some, of k] Some by auto
    show "c < rl_next_chan (relay_forward sid f rl)" if "(c, x) \<in> set (rl_sent (relay_forward sid f rl))" for c x
      using that D(7) [of c x] D(3) [OF Some] Some by auto
  qed
qed

lemma end_stream_get:
  "shards_ok rl \<Longrightarrow> relay_get k (end_stream sid rl) = (if k = sid then None else relay_get k rl)"
  by (auto simp: end_stream_def relay_remove_def relay_emit_def streams.get_del split: bool.splits)

lemma end_stream_events:
  "rl_events (end_stream sid rl) = rl_events rl @ (if relay_get sid rl = None then [] else [StreamEnded sid])"
  by (simp add: end_stream_def relay_remove_def relay_emit_def split: bool.splits)

lemma end_stream_fields [simp]:
  "rl_receivers (end_stream sid rl) = rl_receivers rl" "rl_sent (end_stream sid rl) = rl_sent rl"
  "rl_next_chan (end_stream sid rl) = rl_next_chan rl" "rl_controlled (end_stream sid rl) = rl_controlled rl"
  "rl_proxies (end_stream sid rl) = rl_proxies rl"
  by (simp_all add: end_stream_def relay_remove_def relay_emit_def split: bool.splits)

lemma table_ok_end:
  assumes "table_ok rl"
  shows "table_ok (end_stream sid rl)"
  unfolding table_ok_def
proof (intro conjI allI impI)
  note D = table_okD [OF assms]
  note g = end_stream_get [OF D(1)]
  show "shards_ok (end_stream sid rl)"
    using streams.ok_del [OF D(1), of sid]
    by (simp add: end_stream_def relay_remove_def relay_emit_def split: bool.splits)
  show "si_stream_id (st_info x) = k" "st_tx x < rl_next_chan (end_stream sid rl)"
    if "relay_get k (end_stream sid rl) = Some x" for k x
    using that D(2,3) by (auto simp: g split: if_splits)
  show "a = b" if "relay_get a (end_stream sid rl) = Some x" "relay_get b (end_stream sid rl) = Some y" "st_tx x = st_tx y"
    for a b x y
    using that D(4) by (auto simp: g split: if_splits)
  show "live_after k False (rl_events (end_stream sid rl)) = Some (relay_get k (end_stream sid rl) \<noteq> None)" for k
    using D(5) [of k] D(5) [of sid] by (simp add: g end_stream_events live_after_append)
  show "st_last_keyframe x = last_key (sent_on (st_tx x) (rl_sent (end_stream sid rl)))"
    if "relay_get k (end_stream sid rl) = Some x" for k x
    using that D(6) by (auto simp: g split: if_splits)
  show "c < rl_next_chan (end_stream sid rl)" if "(c, x) \<in> set (rl_sent (end_stream sid rl))" for c x
    using that D(7) by simp
qed

lemma open_stream_get:
  "shards_ok rl \<Longrightarrow> relay_get k (open_stream info rl) =
     (if k = si_stream_id info then Some \<lparr> st_info = info, st_tx = rl_next_chan rl, st_last_keyframe = None \<rparr>
      else relay_get k rl)"
  by (simp add: open_stream_def relay_emit_def relay_insert_def streams.get_put)

lemma open_stream_fields [simp]:
  "rl_receivers (open_stream info rl) = rl_receivers rl" "rl_sent (open_stream info rl) = rl_sent rl"
  "rl_next_chan (open_stream info rl) = rl_next_chan rl + 1" "rl_controlled (open_stream info rl) = rl_controlled rl"
  "rl_events (open_stream info rl) = rl_events rl @ [StreamStarted (si_stream_id info) info]"
  by (simp_all add: open_stream_def relay_emit_def relay_insert_def)

lemma table_ok_open:
  assumes "table_ok rl" and "relay_get (si_stream_id info) rl = None"
  shows "table_ok (open_stream info rl)"
  unfolding table_ok_def
proof (intro conjI allI impI)
  note D = table_okD [OF assms(1)]
  note g = open_stream_get [OF D(1)]
  show "shards_ok (open_stream info rl)"
    using D(1) by (simp add: open_stream_def relay_emit_def relay_insert_def streams.ok_put)
  show "si_stream_id (st_info x) = k" "st_tx x < rl_next_chan (open_stream info rl)"
    if "relay_get k (open_stream info rl) = Some x" for k x
    using that D(2) less_SucI [OF D(3)] by (auto simp: g split: if_splits)
  show "a = b" if "relay_get a (open_stream info rl) = Some x" "relay_get b (open_stream info rl) = Some y" "st_tx x = st_tx y"
    for a b x y
    using that D(4) D(3) [of a x] D(3) [of b y] by (cases "a = si_stream_id info"; cases "b = si_stream_id info") (auto simp: g)
  show "live_after k False (rl_events (open_stream info rl)) = Some (relay_get k (open_stream info rl) \<noteq> None)" for k
    using D(5) [of k] assms(2) by (cases "k = si_stream_id info") (simp_all add: g live_after_append)
  have fresh: "sent_on (rl_next_chan rl) (rl_sent rl) = []"
    using D(7) by (fastforce simp: sent_on_def filter_empty_conv)
  show "st_last_keyframe x = last_key (sent_on (st_tx x) (rl_sent (open_stream info rl)))"
    if "relay_get k (open_stream info rl) = Some x" for k x
    using that D(6) [of k x] by (cases "k = si_stream_id info") (auto simp: g fresh)
  show "c < rl_next_chan (open_stream info rl)" if "(c, x) \<in> set (rl_sent (open_stream info rl))" for c x
    using that D(7) [of c x] by simp
qed

text \<open>A proxy whose information is that of its stream registers it like a push.\<close>

lemma start_proxy_open:
  assumes "map_option si_stream_id info \<in> {None, Some sid}"
  shows "\<exists>i. si_stream_id i = sid \<and> snd (start_proxy now up sid info rl) =
     (if has_key (rl_proxies rl) sid \<or> relay_get sid rl \<noteq> None then rl
      else (open_stream i rl)\<lparr> rl_proxies := AList.update sid up (rl_proxies rl) \<rparr>)"
proof (rule exI [where x = "case info of Some i \<Rightarrow> i | None \<Rightarrow> \<lparr> si_stream_id = sid, si_title = sid, si_video = None,
    si_audio = None, si_started_at = now, si_watchers = 0 \<rparr>"])
qed (use assms in \<open>auto simp: start_proxy_def open_stream_def relay_emit_def relay_insert_def shard_put_def Let_def
    split: option.splits\<close>)

lemma table_ok_proxy:
  assumes "table_ok rl" and "map_option si_stream_id info \<in> {None, Some sid}"
  shows "table_ok (snd (start_proxy now up sid info rl))"
proof -
  obtain i where i: "si_stream_id i = sid" "snd (start_proxy now up sid info rl) =
     (if has_key (rl_proxies rl) sid \<or> relay_get sid rl \<noteq> None then rl
      else (open_stream i rl)\<lparr> rl_proxies := AList.update sid up (rl_proxies rl) \<rparr>)"
    using start_proxy_open [OF assms(2)] by blast
  show ?thesis using table_ok_open [OF assms(1), of i] assms(1) i by simp
qed

lemma table_ok_remove_proxy: "table_ok rl \<Longrightarrow> table_ok (remove_proxy sid rl)"
  by (simp add: remove_proxy_def table_ok_end)

lemma table_ok_revoke: "table_ok rl \<Longrightarrow> table_ok (revoke_stream sid rl)"
  by (simp add: revoke_stream_def table_ok_end)

lemmas table_ok_ops = table_ok_forward table_ok_end table_ok_open table_ok_proxy table_ok_remove_proxy table_ok_revoke


section \<open>Invariants over all interleavings\<close>

definition conn_watching :: "nat \<Rightarrow> conn \<Rightarrow> bool" where
  "conn_watching c x =
     (case x of CWatch ws \<Rightarrow> ws_open ws \<and> ws_chan ws = c
      | CQuicWatch ws \<Rightarrow> ws_open ws \<and> ws_chan ws = c | _ \<Rightarrow> False)"

definition world_ok :: "relay_world \<Rightarrow> bool" where
  "world_ok w \<longleftrightarrow> table_ok (rw_state w)
     \<and> (\<forall>c. rl_receivers (rw_state w) c = length (filter (conn_watching c) (rw_conns w)))"

text \<open>What one session's step owes to the others: the table stays right, and the
  receiver counts change by what the session itself takes up or gives back.\<close>

definition sess_ok :: "conn \<Rightarrow> relay_state \<Rightarrow> conn \<times> relay_state \<Rightarrow> bool" where
  "sess_ok x rl r \<longleftrightarrow> table_ok (snd r)
     \<and> (\<forall>c. rl_receivers (snd r) c + of_bool (conn_watching c x) = rl_receivers rl c + of_bool (conn_watching c (fst r)))"

lemma length_filter_update:
  "i < length xs \<Longrightarrow>
   length (filter P (xs[i := x])) + of_bool (P (xs ! i)) = length (filter P xs) + of_bool (P x)"
proof (induction xs arbitrary: i)
  case (Cons y ys)
  then show ?case by (cases i) auto
qed simp

lemma world_ok_set:
  assumes "world_ok w" and "i < length (rw_conns w)" and "sess_ok (rw_conns w ! i) (rw_state w) r"
  shows "world_ok (set_conn i r w)"
proof -
  have "rl_receivers (snd r) c = length (filter (conn_watching c) ((rw_conns w)[i := fst r]))" for c
    using assms(1,3) length_filter_update [OF assms(2), of "conn_watching c" "fst r"]
    unfolding world_ok_def sess_ok_def by (metis add_right_cancel)
  then show ?thesis using assms(3) by (simp add: world_ok_def set_conn_def sess_ok_def)
qed

lemma world_ok_add:
  assumes "world_ok w" and "sess_ok (CRefused []) (rw_state w) r"
  shows "world_ok (add_conn r w)"
  using assms by (auto simp: world_ok_def add_conn_def sess_ok_def conn_watching_def [of _ "CRefused _"])

lemma world_ok_state:
  assumes "world_ok w" and "table_ok rl" and "rl_receivers rl = rl_receivers (rw_state w)"
  shows "world_ok (w\<lparr> rw_state := rl \<rparr>)"
  using assms by (simp add: world_ok_def)

lemma push_finish_ok: "table_ok rl \<Longrightarrow> table_ok (snd (push_finish (ps, rl))) \<and> rl_receivers (snd (push_finish (ps, rl))) = rl_receivers rl"
  by (simp add: push_finish_def table_ok_end split: option.splits)

lemma push_hello_ok:
  "table_ok rl \<Longrightarrow> table_ok (snd (push_hello env sid title video audio tok (ps, rl)))
     \<and> rl_receivers (snd (push_hello env sid title video audio tok (ps, rl))) = rl_receivers rl"
  by (simp add: table_ok_open)

lemma push_step_ok:
  assumes "table_ok rl"
  shows "table_ok (snd (push_step env input (ps, rl))) \<and> rl_receivers (snd (push_step env input (ps, rl))) = rl_receivers rl"
proof (cases input)
  case (PushPkt pkt)
  show ?thesis
  proof (cases pkt)
    case (ControlPkt m)
    then show ?thesis using PushPkt assms push_finish_ok push_hello_ok
      by (cases m) (simp_all del: push_hello.simps)
  next
    case (MediaPkt f)
    then show ?thesis using PushPkt assms by (simp add: table_ok_forward split: option.split)
  qed
qed (simp_all add: push_finish_ok assms)

lemma quic_push_open_ok:
  "table_ok rl \<Longrightarrow> table_ok (snd (quic_push_open env loc r rl))
     \<and> rl_receivers (snd (quic_push_open env loc r rl)) = rl_receivers rl"
  by (simp add: quic_push_open_def Let_def table_ok_open)

lemma quic_push_step_ok:
  "table_ok rl \<Longrightarrow> table_ok (snd (quic_push_step f (ps, rl)))
     \<and> rl_receivers (snd (quic_push_step f (ps, rl))) = rl_receivers rl"
  using push_finish_ok [of rl ps] by (cases f) (simp_all add: table_ok_forward case_prod_beta split: option.split)

lemma proxy_step_ok:
  "table_ok rl \<Longrightarrow> table_ok (proxy_step sid input rl) \<and> rl_receivers (proxy_step sid input rl) = rl_receivers rl"
  by (induction sid input rl rule: proxy_step.induct) (auto simp: table_ok_ops remove_proxy_def)

lemma quic_step_ok:
  "table_ok rl \<Longrightarrow> table_ok (snd (quic_step ev (l, rl))) \<and> rl_receivers (snd (quic_step ev (l, rl))) = rl_receivers rl"
  by (auto simp: quic_step_def quic_close_def Let_def table_ok_end split: quic_event.splits option.splits stream_role.splits prod.splits)

lemma table_ok_drop [simp]: "table_ok (drop_receiver c rl) = table_ok rl"
  by (simp add: drop_receiver_def)

lemma receivers_simps [simp]:
  "rl_receivers (drop_receiver c rl) = (rl_receivers rl)(c := rl_receivers rl c - 1)"
  "rl_receivers (watchers_changed sid n rl) = rl_receivers rl"
  by (simp_all add: drop_receiver_def watchers_changed_def relay_emit_def)

lemma conn_watching_simps [simp]:
  "conn_watching c (CPush ps) = False" "conn_watching c (CQuicPush ps) = False" "conn_watching c (CRefused ms) = False"
  "conn_watching c (CWatch ws) = (ws_open ws \<and> ws_chan ws = c)"
  "conn_watching c (CQuicWatch ws) = (ws_open ws \<and> ws_chan ws = c)"
  by (simp_all add: conn_watching_def)

definition watch_ok :: "watch_session option \<Rightarrow> relay_state \<Rightarrow> watch_session \<times> relay_state \<Rightarrow> bool" where
  "watch_ok old rl r \<longleftrightarrow> table_ok (snd r)
     \<and> (\<forall>c. rl_receivers (snd r) c + of_bool (\<exists>ws. old = Some ws \<and> ws_open ws \<and> ws_chan ws = c)
            = rl_receivers rl c + of_bool (ws_open (fst r) \<and> ws_chan (fst r) = c))"

lemma watch_open_ok: "table_ok rl \<Longrightarrow> watch_ok None rl (watch_open ack kf_ok sid rl)"
  by (auto simp: watch_open_def watch_ok_def Let_def split: option.splits)

lemma watch_finish_ok:
  "table_ok rl \<Longrightarrow> ws_open ws \<Longrightarrow> 0 < rl_receivers rl (ws_chan ws) \<Longrightarrow> watch_ok (Some ws) rl (watch_finish (ws, rl))"
  by (simp add: watch_finish_def watch_ok_def Let_def)

lemma watch_step_ok:
  assumes "table_ok rl" and "ws_open ws" and "0 < rl_receivers rl (ws_chan ws)"
  shows "watch_ok (Some ws) rl (watch_step ok r (ws, rl))"
proof (cases r)
  case (RecvFrame f)
  obtain fwd started where g: "watch_gate (ws_started ws) f = (fwd, started)" by (cases "watch_gate (ws_started ws) f")
  have "watch_ok (Some ws) rl (watch_finish (ws\<lparr> ws_started := started \<rparr>, rl))"
    using watch_finish_ok [of rl "ws\<lparr> ws_started := started \<rparr>"] assms by (simp add: watch_ok_def)
  then show ?thesis using RecvFrame g assms by (cases fwd; cases ok) (simp_all add: watch_ok_def Let_def)
next
  case RecvLagged
  then show ?thesis using assms by (simp add: watch_ok_def)
next
  case RecvEnd
  then show ?thesis using watch_finish_ok [OF assms] by simp
qed

lemma watch_conn:
  "watch_ok None rl r \<Longrightarrow> sess_ok (CRefused []) rl (map_prod CWatch id r)"
  "watch_ok (Some ws) rl r \<Longrightarrow> sess_ok (CWatch ws) rl (map_prod CWatch id r)"
  by (cases r; simp add: watch_ok_def sess_ok_def)+

lemma quic_watch_conn:
  "watch_ok None rl (watch_open StreamOpened kf_ok sid rl) \<Longrightarrow>
     sess_ok (CRefused []) rl (map_prod CQuicWatch id (quic_watch_open kf_ok sid rl))"
  "watch_ok (Some ws) rl (watch_step ok r (ws, rl)) \<Longrightarrow>
     sess_ok (CQuicWatch ws) rl (map_prod CQuicWatch id (quic_watch_step ok r (ws, rl)))"
  by (simp_all add: watch_ok_def sess_ok_def quic_watch_open_def quic_watch_step_def case_prod_beta)

lemma handle_connect_ok:
  assumes "table_ok rl"
  shows "sess_ok (CRefused []) rl (handle_connect env loc kf_ok first rl)"
proof (cases first)
  case (PushPkt pkt)
  show ?thesis
  proof (cases pkt)
    case (ControlPkt m)
    then show ?thesis using PushPkt assms push_hello_ok [OF assms] watch_conn(1) [OF watch_open_ok [OF assms]]
      by (cases m) (simp_all add: sess_ok_def case_prod_beta del: push_hello.simps)
  qed (use PushPkt assms in \<open>simp add: sess_ok_def\<close>)
qed (use assms in \<open>simp_all add: sess_ok_def\<close>)

lemma conn_at_cases:
  "conn_at i w = x \<Longrightarrow> (\<And>ms. x \<noteq> CRefused ms) \<Longrightarrow> i < length (rw_conns w) \<and> rw_conns w ! i = x"
  by (auto simp: conn_at_def split: if_splits)

lemma world_watched:
  assumes "world_ok w" and "i < length (rw_conns w)" and "conn_watching c (rw_conns w ! i)"
  shows "0 < rl_receivers (rw_state w) c"
proof -
  have "rw_conns w ! i \<in> set (filter (conn_watching c) (rw_conns w))" using assms(2,3) by simp
  then have "0 < length (filter (conn_watching c) (rw_conns w))" by (metis length_pos_if_in_set)
  then show ?thesis using assms(1) by (simp add: world_ok_def)
qed

lemma start_proxy_receivers [simp]: "rl_receivers (snd (start_proxy now up sid info rl)) = rl_receivers rl"
  by (simp add: start_proxy_def relay_insert_def relay_emit_def Let_def)

lemma push_conn:
  "table_ok (snd r) \<and> rl_receivers (snd r) = rl_receivers rl \<Longrightarrow> sess_ok (CPush ps) rl (map_prod CPush id r)"
  "table_ok (snd r) \<and> rl_receivers (snd r) = rl_receivers rl \<Longrightarrow> sess_ok (CQuicPush ps) rl (map_prod CQuicPush id r)"
  "table_ok (snd r) \<and> rl_receivers (snd r) = rl_receivers rl \<Longrightarrow> sess_ok (CRefused []) rl (map_prod CQuicPush id r)"
  by (cases r; simp add: sess_ok_def)+

lemma packet_ok:
  assumes "world_ok w"
  shows "world_ok (world_step (WPacket i env input) w)"
proof (cases "conn_at i w")
  case (CPush ps)
  then have i: "i < length (rw_conns w)" "rw_conns w ! i = CPush ps" using conn_at_cases by auto
  have "table_ok (rw_state w)" using assms by (simp add: world_ok_def)
  from push_conn(1) [OF push_step_ok [OF this]] show ?thesis
    using CPush world_ok_set [OF assms i(1)] i(2) assms by simp
qed (use assms in simp_all)

lemma recv_ok:
  assumes "world_ok w"
  shows "world_ok (world_step (WRecv i ok r) w)"
proof (cases "conn_at i w")
  case (CWatch ws)
  then have i: "i < length (rw_conns w)" "rw_conns w ! i = CWatch ws" using conn_at_cases by auto
  have "sess_ok (CWatch ws) (rw_state w) (map_prod CWatch id (watch_step ok r (ws, rw_state w)))" if "ws_open ws"
    using assms i that world_watched [OF assms i(1)]
    by (intro watch_conn(2) watch_step_ok) (simp_all add: world_ok_def)
  then show ?thesis using CWatch world_ok_set [OF assms i(1)] i(2) assms by simp
next
  case (CQuicWatch ws)
  then have i: "i < length (rw_conns w)" "rw_conns w ! i = CQuicWatch ws" using conn_at_cases by auto
  have "sess_ok (CQuicWatch ws) (rw_state w) (map_prod CQuicWatch id (quic_watch_step ok r (ws, rw_state w)))" if "ws_open ws"
    using assms i that world_watched [OF assms i(1)]
    by (intro quic_watch_conn(2) watch_step_ok) (simp_all add: world_ok_def)
  then show ?thesis using CQuicWatch world_ok_set [OF assms i(1)] i(2) assms by simp
qed (use assms in simp_all)

lemma quic_frame_ok:
  assumes "world_ok w"
  shows "world_ok (world_step (WQuicFrame i f) w)"
proof (cases "conn_at i w")
  case (CQuicPush ps)
  then have i: "i < length (rw_conns w)" "rw_conns w ! i = CQuicPush ps" using conn_at_cases by auto
  have "table_ok (rw_state w)" using assms by (simp add: world_ok_def)
  from push_conn(2) [OF quic_push_step_ok [OF this]] show ?thesis
    using CQuicPush world_ok_set [OF assms i(1)] i(2) assms by simp
qed (use assms in simp_all)

lemma link_event_ok:
  assumes "world_ok w"
  shows "world_ok (world_step (WLinkEvent i ev) w)"
  using quic_step_ok [of "rw_state w" ev "rw_links w ! i"] assms
  by (simp add: world_ok_def case_prod_beta)

interpretation world: stepper world_step world_ok
proof
  fix w ev assume ok: "world_ok w"
  then have t: "table_ok (rw_state w)" by (simp add: world_ok_def)
  show "world_ok (world_step ev w)"
  proof (cases ev)
    case (WConnect env loc kf_ok first)
    then show ?thesis using world_ok_add [OF ok handle_connect_ok [OF t]] by simp
  next
    case (WWsPush loc)
    then show ?thesis using t by (simp add: world_ok_add [OF ok] sess_ok_def)
  next
    case (WWsWatch kf_ok sid)
    then show ?thesis using world_ok_add [OF ok watch_conn(1) [OF watch_open_ok [OF t]]] by simp
  next
    case (WQuicPush env loc r)
    then show ?thesis using world_ok_add [OF ok push_conn(3) [OF quic_push_open_ok [OF t]]] by simp
  next
    case (WQuicWatch kf_ok sid)
    then show ?thesis using world_ok_add [OF ok quic_watch_conn(1) [OF watch_open_ok [OF t]]] by simp
  next
    case (WAuthorize sid)
    then show ?thesis using t world_ok_state [OF ok, of "authorize_stream sid (rw_state w)"] by (simp add: authorize_stream_def)
  next
    case (WRevoke sid)
    then show ?thesis using t world_ok_state [OF ok table_ok_revoke [OF t]] by (simp add: revoke_stream_def)
  next
    case (WProxy now up sid info)
    let ?i = "map_option (\<lambda>i. i\<lparr> si_stream_id := sid \<rparr>) info"
    have "map_option si_stream_id ?i \<in> {None, Some sid}" by (cases info) simp_all
    from world_ok_state [OF ok table_ok_proxy [OF t this]] show ?thesis using WProxy by simp
  next
    case (WProxyInput sid input)
    then show ?thesis using ok world_ok_state [OF ok] proxy_step_ok [OF t] by simp
  next
    case WAbortProxies
    then show ?thesis using t world_ok_state [OF ok] by (simp add: abort_proxies_def)
  qed (use ok in \<open>simp_all add: packet_ok recv_ok quic_frame_ok link_event_ok world_ok_def [of "_\<lparr> rw_links := _ \<rparr>"] del: world_step.simps(4,5,7,10)\<close>,
       simp_all add: world_ok_def)
qed

lemma world_ok_start: "world_ok (relay_start c)"
  by (simp add: world_ok_def relay_start_def table_ok_new) (simp add: relay_new_def)


section \<open>Properties\<close>

lemma run_table_ok: "table_ok (rw_state (fold world_step evs (relay_start c)))"
  using world.fold_inv [OF world_ok_start] by (simp add: world_ok_def)

lemma shard_members:
  assumes "shards_ok rl"
  shows "(sid, e) \<in> set (concat (rl_shards rl)) \<longleftrightarrow> relay_get sid rl = Some e"
proof
  assume "(sid, e) \<in> set (concat (rl_shards rl))"
  then obtain sh where "sh \<in> set (rl_shards rl)" "(sid, e) \<in> set sh" by auto
  then obtain k where k: "k < STREAM_SHARDS" "(sid, e) \<in> set (rl_shards rl ! k)"
    using assms by (auto simp: in_set_conv_nth shards_ok_def)
  then have "map_of (rl_shards rl ! k) sid = Some e" using assms by (auto simp: shards_ok_def distinct_keys_def)
  moreover from this have "shard_for sid = k" using assms k(1) unfolding shards_ok_def by blast
  ultimately show "relay_get sid rl = Some e" by (simp add: relay_get_def)
next
  assume "relay_get sid rl = Some e"
  then have "(sid, e) \<in> set (rl_shards rl ! shard_for sid)" by (simp add: relay_get_def map_of_SomeD)
  moreover have "shard_for sid < length (rl_shards rl)" using assms shard_for_less by (simp add: shards_ok_def)
  ultimately show "(sid, e) \<in> set (concat (rl_shards rl))" by (auto simp: nth_mem)
qed

lemma distinct_concat_keys:
  assumes "\<forall>k < length xss. distinct_keys (xss ! k) \<and> (\<forall>x. has_key (xss ! k) x \<longrightarrow> h x = n + k)"
  shows "distinct (map fst (concat xss))"
  using assms
proof (induction xss arbitrary: n)
  case (Cons xs xss)
  have "\<forall>k < length xss. distinct_keys (xss ! k) \<and> (\<forall>x. has_key (xss ! k) x \<longrightarrow> h x = Suc n + k)"
    using Cons.prems by fastforce
  then have d: "distinct (map fst (concat xss))" by (rule Cons.IH)
  have xs: "distinct (map fst xs)" "\<And>x. x \<in> fst ` set xs \<Longrightarrow> h x = n"
    using Cons.prems [rule_format, of 0] by (simp_all add: distinct_keys_def has_key_keys)
  have "h x > n" if "x \<in> fst ` set (concat xss)" for x
  proof -
    from that obtain ys where ys: "ys \<in> set xss" "x \<in> fst ` set ys" by auto
    then obtain k where "k < length xss" "xss ! k = ys" by (meson in_set_conv_nth)
    with ys(2) have "k < length xss" "x \<in> fst ` set (xss ! k)" by simp_all
    then have "h x = n + Suc k" using Cons.prems [rule_format, of "Suc k"] by (simp add: has_key_keys)
    then show ?thesis by simp
  qed
  then have "fst ` set xs \<inter> fst ` set (concat xss) = {}" using xs(2) by fastforce
  then show ?case using d xs(1) by auto
qed simp



text \<open>Who may register a stream.\<close>

definition admitted :: "relay_env \<Rightarrow> bool \<Rightarrow> stream_id \<Rightarrow> string option \<Rightarrow> relay_state \<Rightarrow> bool" where
  "admitted env loc sid tok rl \<longleftrightarrow> \<not> rl_controlled rl \<or> loc \<and> sid \<in> rl_allowed rl
     \<or> (\<exists>s t v. tok = Some s \<and> re_parse env s = Some t \<and> tok_stream_id t = sid \<and> re_validate env = Some v \<and> v t)"

lemma is_allowed_iff:
  "(rl_controlled rl \<and> \<not> is_allowed env sid tok loc rl) = (\<not> admitted env loc sid tok rl)"
  by (auto simp: admitted_def is_allowed_def is_authorized_def token_allows_def split: option.splits)

text \<open>The event is a push of the stream \<open>sid\<close> that is admitted in the state it meets.\<close>

definition push_admitted :: "world_event \<Rightarrow> relay_world \<Rightarrow> stream_id \<Rightarrow> bool" where
  "push_admitted ev w sid \<longleftrightarrow>
     (\<exists>env loc kf title video audio tok.
        ev = WConnect env loc kf (PushPkt (ControlPkt (Hello sid title video audio tok))) \<and> admitted env loc sid tok (rw_state w))
   \<or> (\<exists>i ps env title video audio tok.
        ev = WPacket i env (PushPkt (ControlPkt (Hello sid title video audio tok))) \<and> conn_at i w = CPush ps
        \<and> admitted env (ps_local ps) sid tok (rw_state w))
   \<or> (\<exists>env loc r. ev = WQuicPush env loc r \<and> or_stream r = sid \<and> admitted env loc sid (or_token r) (rw_state w))"

lemma push_hello_new:
  assumes "shards_ok rl" and "relay_get k rl = None" and "relay_get k (snd (push_hello env sid title video audio tok (ps, rl))) = Some e"
  shows "k = sid \<and> admitted env (ps_local ps) sid tok rl"
  using assms by (auto simp: is_allowed_iff open_stream_get split: if_splits)

lemma push_finish_new:
  "shards_ok rl \<Longrightarrow> relay_get k rl = None \<Longrightarrow> relay_get k (snd (push_finish (ps, rl))) = None"
  by (simp add: push_finish_def end_stream_get split: option.splits)

lemma push_step_new:
  assumes "shards_ok rl" and "relay_get k rl = None" and "relay_get k (snd (push_step env input (ps, rl))) \<noteq> None"
  shows "\<exists>title video audio tok. input = PushPkt (ControlPkt (Hello k title video audio tok)) \<and> admitted env (ps_local ps) k tok rl"
proof (cases input)
  case (PushPkt pkt)
  show ?thesis
  proof (cases pkt)
    case (ControlPkt m)
    then show ?thesis
      using PushPkt assms push_finish_new [OF assms(1,2), of ps]
      by (cases m) (auto simp del: push_hello.simps dest: push_hello_new [OF assms(1,2)])
  next
    case (MediaPkt f)
    then show ?thesis using PushPkt assms by (auto simp: relay_forward_get split: option.splits)
  qed
qed (use assms push_finish_new [OF assms(1,2), of ps] in simp_all)

lemma watch_finish_get [simp]: "relay_get k (snd (watch_finish (ws, rl))) = relay_get k rl"
  by (simp add: watch_finish_def watchers_changed_def relay_emit_def drop_receiver_def Let_def)

lemma watch_step_get [simp]: "relay_get k (snd (watch_step ok r (ws, rl))) = relay_get k rl"
  by (cases r) (auto simp: Let_def split: prod.splits bool.splits)

lemma watch_open_get [simp]: "relay_get k (snd (watch_open ack kf_ok sid rl)) = relay_get k rl"
  by (simp add: watch_open_def watchers_changed_def relay_emit_def drop_receiver_def Let_def split: option.splits)

lemma quic_watch_get [simp]:
  "relay_get k (snd (quic_watch_open kf_ok sid rl)) = relay_get k rl"
  "relay_get k (snd (quic_watch_step ok r (ws, rl))) = relay_get k rl"
  by (simp_all add: quic_watch_open_def quic_watch_step_def case_prod_beta)

lemma remove_proxy_new:
  "shards_ok rl \<Longrightarrow> relay_get k rl = None \<Longrightarrow> relay_get k (remove_proxy sid rl) = None"
  by (simp add: remove_proxy_def end_stream_get)

lemma proxy_step_new:
  "shards_ok rl \<Longrightarrow> relay_get k rl = None \<Longrightarrow> relay_get k (proxy_step sid input rl) = None"
  by (induction sid input rl rule: proxy_step.induct) (simp_all add: relay_forward_get remove_proxy_new)

lemma quic_step_new:
  "shards_ok rl \<Longrightarrow> relay_get k rl = None \<Longrightarrow> relay_get k (snd (quic_step ev (l, rl))) = None"
  by (auto simp: quic_step_def quic_close_def Let_def end_stream_get split: quic_event.splits option.splits stream_role.splits prod.splits)

lemma quic_push_open_new:
  "shards_ok rl \<Longrightarrow> relay_get k rl = None \<Longrightarrow> relay_get k (snd (quic_push_open env loc r rl)) \<noteq> None \<Longrightarrow>
   k = or_stream r \<and> admitted env loc k (or_token r) rl"
  by (auto simp: quic_push_open_def Let_def is_allowed_iff open_stream_get push_new_def split: if_splits)

lemma quic_push_step_new:
  "shards_ok rl \<Longrightarrow> relay_get k rl = None \<Longrightarrow> relay_get k (snd (quic_push_step f (ps, rl))) = None"
  using push_finish_new [of rl k ps] by (cases f) (auto simp: relay_forward_get case_prod_beta split: option.split)

lemma handle_connect_new:
  assumes "shards_ok rl" and "relay_get k rl = None" and "relay_get k (snd (handle_connect env loc kf_ok first rl)) \<noteq> None"
  shows "\<exists>title video audio tok. first = PushPkt (ControlPkt (Hello k title video audio tok)) \<and> admitted env loc k tok rl"
proof (cases first)
  case (PushPkt pkt)
  show ?thesis
  proof (cases pkt)
    case (ControlPkt m)
    then show ?thesis
      using PushPkt assms
      by (cases m) (auto simp: case_prod_beta push_new_def simp del: push_hello.simps dest: push_hello_new [OF assms(1,2)])
  qed (use PushPkt assms in simp)
qed (use assms in simp_all)

lemma new_stream_admitted:
  assumes "shards_ok (rw_state w)"
    and "relay_get sid (rw_state w) = None" and "relay_get sid (rw_state (world_step ev w)) \<noteq> None"
  shows "push_admitted ev w sid \<or> (\<exists>now up info. ev = WProxy now up sid info)"
proof -
  note ok = assms(1)
  note new = assms(2,3)
  show ?thesis
  proof (cases ev)
    case (WConnect env loc kf_ok first)
    then show ?thesis using handle_connect_new [OF ok new(1)] new(2)
      by (simp add: add_conn_def push_admitted_def del: handle_connect.simps)
  next
    case (WPacket i env input)
    then show ?thesis using push_step_new [OF ok new(1)] new
      by (auto simp: set_conn_def push_admitted_def simp del: push_step.simps split: conn.splits if_splits)
  next
    case (WRecv i ok r)
    then show ?thesis using new by (simp add: set_conn_def split: conn.splits if_splits)
  next
    case (WLinkEvent i qev)
    then show ?thesis using quic_step_new [OF ok new(1), of qev "rw_links w ! i"] new
      by (simp add: case_prod_beta split: if_splits)
  next
    case (WQuicPush env loc r)
    then show ?thesis using quic_push_open_new [OF ok new(1)] new(2) by (auto simp: add_conn_def push_admitted_def)
  next
    case (WQuicFrame i f)
    then show ?thesis using quic_push_step_new [OF ok new(1)] new
      by (auto simp: set_conn_def split: conn.splits if_splits)
  next
    case (WRevoke s)
    then show ?thesis using new ok by (cases "sid = s") (simp_all add: revoke_stream_def end_stream_get)
  next
    case (WProxy now up s info)
    let ?i = "map_option (\<lambda>i. i\<lparr> si_stream_id := s \<rparr>) info"
    have "map_option si_stream_id ?i \<in> {None, Some s}" by (cases info) simp_all
    from start_proxy_open [OF this, of now up "rw_state w"] show ?thesis
      using WProxy new ok by (auto simp: open_stream_get split: if_splits)
  next
    case (WProxyInput s input)
    then show ?thesis using proxy_step_new [OF ok new(1)] new by (simp split: if_splits)
  qed (use new in \<open>simp_all add: add_conn_def authorize_stream_def abort_proxies_def\<close>)
qed


definition any_env :: relay_env where
  "any_env = \<lparr> re_now = 7, re_parse = (\<lambda>_. None), re_validate = None \<rparr>"


text \<open>What session events leave alone.\<close>

definition relay_frame :: "relay_state \<Rightarrow> relay_state \<Rightarrow> bool" where
  "relay_frame rl rl' \<longleftrightarrow> rl_allowed rl' = rl_allowed rl \<and> rl_controlled rl' = rl_controlled rl
     \<and> (\<forall>sid. has_key (rl_proxies rl) sid \<longrightarrow> has_key (rl_proxies rl') sid \<or> relay_get sid rl' = None)"

lemma allowed_simps [simp]:
  "rl_allowed (shard_put j v rl) = rl_allowed rl" "rl_allowed (shard_del j rl) = rl_allowed rl"
  "rl_allowed (relay_forward sid f rl) = rl_allowed rl" "rl_allowed (end_stream sid rl) = rl_allowed rl"
  "rl_allowed (open_stream info rl) = rl_allowed rl" "rl_proxies (open_stream info rl) = rl_proxies rl"
  by (simp_all add: shard_put_def shard_del_def Let_def relay_forward_def end_stream_def relay_remove_def relay_emit_def
    open_stream_def relay_insert_def split: option.splits bool.splits)

lemma relay_frame_refl [simp]: "relay_frame rl rl"
  by (simp add: relay_frame_def)

lemma relay_frame_core:
  "relay_frame rl (relay_forward sid f rl)" "relay_frame rl (end_stream sid rl)" "relay_frame rl (open_stream info rl)"
  "relay_frame rl (drop_receiver c rl)" "relay_frame rl (watchers_changed sid n rl)"
  by (simp_all add: relay_frame_def drop_receiver_def watchers_changed_def relay_emit_def)

lemma relay_frame_trans_plain:
  "rl_proxies rl1 = rl_proxies rl \<Longrightarrow> rl_allowed rl1 = rl_allowed rl \<Longrightarrow> rl_controlled rl1 = rl_controlled rl
     \<Longrightarrow> relay_frame rl rl1"
  by (simp add: relay_frame_def)

lemma push_frame:
  "relay_frame rl (snd (push_finish (ps, rl)))"
  "relay_frame rl (snd (push_hello env sid title video audio tok (ps, rl)))"
  "relay_frame rl (snd (quic_push_open env loc r rl))"
  by (simp_all add: push_finish_def quic_push_open_def relay_frame_core Let_def split: option.split)

lemma push_step_frame: "relay_frame rl (snd (push_step env input (ps, rl)))"
proof (cases input)
  case (PushPkt pkt)
  show ?thesis
  proof (cases pkt)
    case (ControlPkt m)
    then show ?thesis using PushPkt push_frame by (cases m) (simp_all del: push_hello.simps)
  next
    case (MediaPkt f)
    then show ?thesis using PushPkt by (simp add: relay_frame_core split: option.split)
  qed
qed (simp_all add: push_frame)

lemma quic_push_step_frame: "relay_frame rl (snd (quic_push_step f (ps, rl)))"
  using push_frame(1) [of rl ps] by (cases f) (simp_all add: relay_frame_core case_prod_beta split: option.split)

lemma watch_finish_plain [simp]:
  "rl_proxies (snd (watch_finish (ws, rl))) = rl_proxies rl" "rl_allowed (snd (watch_finish (ws, rl))) = rl_allowed rl"
  "rl_controlled (snd (watch_finish (ws, rl))) = rl_controlled rl"
  by (simp_all add: watch_finish_def watchers_changed_def relay_emit_def drop_receiver_def Let_def)

lemma watch_frame:
  "relay_frame rl (snd (watch_step ok r (ws, rl)))" "relay_frame rl (snd (watch_open ack kf_ok sid rl))"
  by (cases r; rule relay_frame_trans_plain; auto simp: Let_def split: prod.splits bool.splits)
    (rule relay_frame_trans_plain; simp add: watch_open_def watchers_changed_def relay_emit_def drop_receiver_def Let_def
      split: option.splits)+

lemma quic_watch_frame:
  "relay_frame rl (snd (quic_watch_step ok r (ws, rl)))" "relay_frame rl (snd (quic_watch_open kf_ok sid rl))"
  using watch_frame [where rl = rl] by (simp_all add: quic_watch_open_def quic_watch_step_def case_prod_beta)

lemma quic_step_frame: "relay_frame rl (snd (quic_step ev (l, rl)))"
  by (auto simp: quic_step_def quic_close_def Let_def relay_frame_core split: quic_event.splits option.splits stream_role.splits prod.splits)

lemma remove_proxy_frame: "shards_ok rl \<Longrightarrow> relay_frame rl (remove_proxy sid rl)"
  by (auto simp: relay_frame_def remove_proxy_def end_stream_get)

lemma proxy_step_frame: "shards_ok rl \<Longrightarrow> relay_frame rl (proxy_step sid input rl)"
  by (induction sid input rl rule: proxy_step.induct) (simp_all add: remove_proxy_frame relay_frame_core)

lemma start_proxy_frame: "relay_frame rl (snd (start_proxy now up sid info rl))"
  by (auto simp: relay_frame_def start_proxy_def Let_def relay_insert_def relay_emit_def)

lemma handle_connect_frame: "relay_frame rl (snd (handle_connect env loc kf_ok first rl))"
proof (cases first)
  case (PushPkt pkt)
  show ?thesis
  proof (cases pkt)
    case (ControlPkt m)
    then show ?thesis using PushPkt push_frame watch_frame
      by (cases m) (simp_all add: case_prod_beta del: push_hello.simps)
  qed (use PushPkt in simp)
qed simp_all

text \<open>An event that is neither the kernel's (authorising and revoking) nor the end of
  the server.\<close>

definition session_event :: "world_event \<Rightarrow> bool" where
  "session_event ev = (case ev of WAuthorize _ \<Rightarrow> False | WRevoke _ \<Rightarrow> False | WAbortProxies \<Rightarrow> False | _ \<Rightarrow> True)"

lemma session_event_frame:
  assumes "shards_ok (rw_state w)" and "session_event ev"
  shows "relay_frame (rw_state w) (rw_state (world_step ev w))"
proof (cases ev)
  case (WLinkEvent i qev)
  then show ?thesis using quic_step_frame [of "rw_state w" qev "rw_links w ! i"] by (simp add: case_prod_beta)
qed (use assms in \<open>simp_all add: session_event_def add_conn_def set_conn_def handle_connect_frame push_step_frame
    watch_frame quic_watch_frame push_frame quic_push_step_frame start_proxy_frame proxy_step_frame
    del: handle_connect.simps push_step.simps watch_step.simps quic_push_step.simps split: conn.split\<close>)

text \<open>What a watch session sends, over the results of \<open>recv\<close> when every send succeeds.\<close>

definition watch_run :: "recv_result list \<Rightarrow> watch_session \<times> relay_state \<Rightarrow> watch_session \<times> relay_state" where
  "watch_run rs s = fold (watch_step True) rs s"

text \<open>The reference: cut the results at the notices of missed frames; in a stretch,
  frames are visible from the first one that opens the video, other tracks always.\<close>

fun stretches :: "recv_result list \<Rightarrow> frame list \<Rightarrow> frame list list" where
  "stretches [] acc = [acc]"
| "stretches (RecvFrame f # rs) acc = stretches rs (acc @ [f])"
| "stretches (RecvLagged # rs) acc = acc # stretches rs []"
| "stretches (RecvEnd # rs) acc = [acc]"

definition is_video :: "frame \<Rightarrow> bool" where
  "is_video f \<longleftrightarrow> fh_track (f_header f) = TRACK_VIDEO"

definition visible :: "bool \<Rightarrow> frame list \<Rightarrow> frame list" where
  "visible started fs =
     (if started then fs
      else filter (\<lambda>f. \<not> is_video f) (takeWhile (\<lambda>f. \<not> opens_video f) fs) @ dropWhile (\<lambda>f. \<not> opens_video f) fs)"

lemma watch_gate_eq: "watch_gate b f = (b \<or> opens_video f \<or> \<not> is_video f, b \<or> opens_video f)"
  by (auto simp: watch_gate_def opens_video_def is_video_def)

lemma visible_snoc:
  "visible b (fs @ [f]) =
     visible b fs @ (if b \<or> (\<exists>g \<in> set fs. opens_video g) \<or> opens_video f \<or> \<not> is_video f then [f] else [])"
proof (cases "b \<or> (\<exists>g \<in> set fs. opens_video g)")
  case True
  then show ?thesis by (auto simp: visible_def)
next
  case False
  then have all: "takeWhile (\<lambda>f. \<not> opens_video f) fs = fs" "dropWhile (\<lambda>f. \<not> opens_video f) fs = []"
    by (auto simp: takeWhile_eq_all_conv dropWhile_eq_Nil_conv)
  have more: "takeWhile (\<lambda>f. \<not> opens_video f) (fs @ [f]) = (if opens_video f then fs else fs @ [f])"
    "dropWhile (\<lambda>f. \<not> opens_video f) (fs @ [f]) = (if opens_video f then [f] else [])"
    using False by (simp_all add: takeWhile_append2 dropWhile_append2)
  show ?thesis using False by (simp add: visible_def all more)
qed

lemma visible_Nil [simp]: "visible b [] = []"
  by (simp add: visible_def)

lemma stretches_ne [simp]: "stretches rs acc \<noteq> []"
  by (induction rs acc rule: stretches.induct) simp_all

lemma watch_run_sent:
  assumes "RecvEnd \<notin> set rs" and "ws_sent ws = pre @ visible b acc"
    and "ws_started ws = (b \<or> (\<exists>g \<in> set acc. opens_video g))"
  shows "ws_sent (fst (watch_run rs (ws, rl)))
      = pre @ visible b (hd (stretches rs acc)) @ concat (map (visible False) (tl (stretches rs acc)))
    \<and> snd (watch_run rs (ws, rl)) = rl"
  using assms
proof (induction rs arbitrary: ws pre b acc)
  case Nil
  then show ?case by (simp add: watch_run_def)
next
  case (Cons r rs)
  show ?case
  proof (cases r)
    case (RecvFrame f)
    let ?go = "b \<or> (\<exists>g \<in> set acc. opens_video g) \<or> opens_video f \<or> \<not> is_video f"
    let ?ws = "if ?go then ws\<lparr> ws_started := ws_started ws \<or> opens_video f, ws_sent := ws_sent ws @ [f] \<rparr> else ws"
    have step: "watch_step True r (ws, rl) = (?ws, rl)"
      using Cons.prems(3) by (simp add: RecvFrame watch_gate_eq Let_def)
    have "ws_sent ?ws = pre @ visible b (acc @ [f])" using Cons.prems(2) by (simp add: visible_snoc)
    moreover have "ws_started ?ws = (b \<or> (\<exists>g \<in> set (acc @ [f]). opens_video g))" using Cons.prems(3) by auto
    ultimately show ?thesis using Cons.IH [of ?ws pre b "acc @ [f]"] Cons.prems(1) step
      by (simp add: watch_run_def RecvFrame)
  next
    case RecvLagged
    let ?ws = "ws\<lparr> ws_started := False \<rparr>"
    have "ws_sent ?ws = (pre @ visible b acc) @ visible False []" "ws_started ?ws = (False \<or> (\<exists>g \<in> set []. opens_video g))"
      using Cons.prems(2) by simp_all
    from Cons.IH [OF _ this] Cons.prems(1) show ?thesis
      by (cases "stretches rs []") (simp_all add: watch_run_def RecvLagged)
  next
    case RecvEnd
    then show ?thesis using Cons.prems(1) by simp
  qed
qed

lemma watch_step_out: "r \<noteq> RecvEnd \<Longrightarrow> ws_out (fst (watch_step True r s)) = ws_out (fst s)"
  by (cases r; cases s) (auto simp: watch_gate_eq Let_def split: bool.split)


definition delta_frame :: "nat \<Rightarrow> frame" where
  "delta_frame n = frame_new TRACK_VIDEO CODEC_H264 0 (word_of_nat n) []"

definition key_frame :: "nat \<Rightarrow> frame" where
  "key_frame n = frame_new TRACK_VIDEO CODEC_H264 FLAG_KEYFRAME (word_of_nat n) []"

lemma sample_frames:
  "opens_video (key_frame n)" "\<not> opens_video (delta_frame n)" "is_video (delta_frame n)" "is_video (key_frame n)"
  by (simp_all add: opens_video_def is_video_def key_frame_def delta_frame_def frame_new_def is_keyframe_def is_config_def
    track_defs flag_defs)

definition sample_relay :: relay_state where
  "sample_relay = open_stream \<lparr> si_stream_id = ''s'', si_title = ''t'', si_video = None, si_audio = None,
     si_started_at = 0, si_watchers = 0 \<rparr> (relay_new False)"

lemma sample_relay_get: "relay_get ''s'' sample_relay = Some \<lparr> st_info = \<lparr> si_stream_id = ''s'', si_title = ''t'',
     si_video = None, si_audio = None, si_started_at = 0, si_watchers = 0 \<rparr>, st_tx = 0, st_last_keyframe = None \<rparr>"
  by (simp add: sample_relay_def open_stream_get shards_ok_new) (simp add: relay_new_def)




definition q_opens :: "quic_event list \<Rightarrow> open_request list" where
  "q_opens evs = List.map_filter (\<lambda>ev. case ev of QOpen r \<Rightarrow> Some r | _ \<Rightarrow> None) evs"

definition q_streams :: "quic_event list \<Rightarrow> nat list" where
  "q_streams evs = List.map_filter (\<lambda>ev. case ev of QStream q \<Rightarrow> Some q | _ \<Rightarrow> None) evs"

lemma quic_pair_result:
  "ql_tasks (quic_pair rs qs l) = ql_tasks l @ zip rs qs
     \<and> ql_opens (quic_pair rs qs l) = drop (length qs) rs \<and> ql_streams (quic_pair rs qs l) = drop (length rs) qs"
  by (induction rs qs l rule: quic_pair.induct) (simp_all add: quic_pair1_def)

lemma zip_queues:
  "zip os ss @ zip (drop (length ss) os @ o') (drop (length os) ss @ s') = zip (os @ o') (ss @ s')"
  by (induction os ss rule: list_induct2') simp_all

lemma quic_step_queues:
  assumes "ql_tasks l = zip os ss" "ql_opens l = drop (length ss) os" "ql_streams l = drop (length os) ss"
    and "quic_step ev (l, rl) = (l', rl')"
  shows "ql_tasks l' = zip (os @ q_opens [ev]) (ss @ q_streams [ev])
    \<and> ql_opens l' = drop (length (ss @ q_streams [ev])) (os @ q_opens [ev])
    \<and> ql_streams l' = drop (length (os @ q_opens [ev])) (ss @ q_streams [ev])"
proof -
  obtain l1 rl1 where l1: "(case ev of QOpen r \<Rightarrow> (l\<lparr> ql_opens := ql_opens l @ [r] \<rparr>, rl)
      | QStream q \<Rightarrow> (l\<lparr> ql_streams := ql_streams l @ [q] \<rparr>, rl) | QClose sid \<Rightarrow> quic_close sid (l, rl) | QOther \<Rightarrow> (l, rl)) = (l1, rl1)"
    by fastforce
  have same: "ql_tasks (fst (quic_close sid (l, rl))) = ql_tasks l \<and> ql_opens (fst (quic_close sid (l, rl))) = ql_opens l
      \<and> ql_streams (fst (quic_close sid (l, rl))) = ql_streams l" for sid
    by (auto simp: quic_close_def Let_def split: option.splits prod.splits stream_role.splits)
  have fst1: "l1 = fst (case ev of QOpen r \<Rightarrow> (l\<lparr> ql_opens := ql_opens l @ [r] \<rparr>, rl)
      | QStream q \<Rightarrow> (l\<lparr> ql_streams := ql_streams l @ [q] \<rparr>, rl) | QClose sid \<Rightarrow> quic_close sid (l, rl) | QOther \<Rightarrow> (l, rl))"
    unfolding l1 by simp
  have q: "ql_tasks l1 = zip os ss" "ql_opens l1 = drop (length ss) os @ q_opens [ev]"
      "ql_streams l1 = drop (length os) ss @ q_streams [ev]"
    using assms(1-3) same unfolding fst1 by (cases ev; simp add: q_opens_def q_streams_def map_filter_simps)+
  have l': "l' = quic_pair (ql_opens l1) (ql_streams l1) l1"
    using assms(4) l1 by (simp add: quic_step_def Let_def cong: quic_event.case_cong)
  have len: "length (q_opens [ev]) \<le> 1" "length (q_streams [ev]) \<le> 1"
    by (cases ev; simp add: q_opens_def q_streams_def map_filter_simps)+
  have "drop (length (drop (length os) ss @ s')) (drop (length ss) os @ o') = drop (length (ss @ s')) (os @ o')"
    for o' s' and os :: "'x list" and ss :: "'y list"
    by (cases "length os \<le> length ss") (simp_all add: add.commute)
  from this this [of ss os] show ?thesis
    using quic_pair_result [of "ql_opens l1" "ql_streams l1" l1] zip_queues [of os ss "q_opens [ev]" "q_streams [ev]"]
    unfolding l' q by simp
qed

text \<open>On a multiplexed link the requests to open a stream and the media streams
  are paired strictly first to first, whatever the order in which the two kinds of
  event arrive and whatever is closed in between: the n-th request is served on the
  n-th media stream, none is lost, and at most one of the two queues is not empty.\<close>

theorem quic_pairs_in_order:
  assumes "fold quic_step evs (quic_link_new, rl) = (l, rl')"
  shows "ql_tasks l = zip (q_opens evs) (q_streams evs)
    \<and> ql_opens l = drop (length (q_streams evs)) (q_opens evs)
    \<and> ql_streams l = drop (length (q_opens evs)) (q_streams evs)
    \<and> (ql_opens l = [] \<or> ql_streams l = [])"
proof -
  have app: "q_opens (xs @ ys) = q_opens xs @ q_opens ys" "q_streams (xs @ ys) = q_streams xs @ q_streams ys" for xs ys
    by (simp_all add: q_opens_def q_streams_def List.map_filter_def)
  have "ql_tasks l = zip (q_opens evs) (q_streams evs)
    \<and> ql_opens l = drop (length (q_streams evs)) (q_opens evs)
    \<and> ql_streams l = drop (length (q_opens evs)) (q_streams evs)"
    using assms
  proof (induction evs arbitrary: l rl' rule: rev_induct)
    case Nil
    then show ?case by (auto simp: quic_link_new_def q_opens_def q_streams_def map_filter_simps)
  next
    case (snoc ev evs)
    obtain l1 rl1 where l1: "fold quic_step evs (quic_link_new, rl) = (l1, rl1)" by fastforce
    with snoc.prems have "quic_step ev (l1, rl1) = (l, rl')" by simp
    with snoc.IH [OF l1] show ?case using quic_step_queues unfolding app by blast
  qed
  then show ?thesis by (auto simp: not_le)
qed

lemma quic_pairs_in_order_witness:
  "ql_tasks (fst (fold quic_step [QStream 4, QClose ''a'', QOpen \<lparr> or_stream = ''a'', or_role = WatchRole, or_title = None,
     or_video = None, or_audio = None, or_token = None \<rparr>, QStream 8] (quic_link_new, relay_new True)))
   = [(\<lparr> or_stream = ''a'', or_role = WatchRole, or_title = None, or_video = None, or_audio = None, or_token = None \<rparr>, 4)]"
proof -
  let ?evs = "[QStream 4, QClose ''a'', QOpen \<lparr> or_stream = ''a'', or_role = WatchRole, or_title = None,
     or_video = None, or_audio = None, or_token = None \<rparr>, QStream 8]"
  obtain l rl where "fold quic_step ?evs (quic_link_new, relay_new True) = (l, rl)" by fastforce
  from quic_pairs_in_order [OF this] this show ?thesis by (simp add: q_opens_def q_streams_def map_filter_simps)
qed


section \<open>What the relay does not guard against\<close>

text \<open>A link records a push request before it is admitted, and a close message for the
  id then removes the stream, whoever pushes it: a peer without any authorisation can
  end a foreign stream.\<close>

lemma quic_close_ends_foreign_stream:
  assumes "shards_ok rl" and "or_stream r = sid" and "or_role r = PushRole"
  shows "relay_get sid (snd (fold quic_step [QOpen r, QStream q, QClose sid] (quic_link_new, rl))) = None"
  using assms by (simp add: quic_step_def quic_close_def quic_link_new_def quic_pair1_def end_stream_get Let_def)

text \<open>A second \<open>Hello\<close> on one connection replaces the id the session remembers: the
  first stream outlives the connection.\<close>

lemma second_hello_leaks_stream:
  assumes "shards_ok rl" and "relay_get a rl = Some e" and "a \<noteq> b" and "relay_get b rl = None"
    and "admitted env loc b tok rl" and "ps_stream ps = Some a" and "ps_local ps = loc"
  shows "relay_get a (snd (fold (push_step env) [PushPkt (ControlPkt (Hello b t v u tok)), PushPkt (ControlPkt Bye)] (ps, rl))) = Some e"
proof -
  let ?i = "\<lparr> si_stream_id = b, si_title = t, si_video = v, si_audio = u, si_started_at = re_now env, si_watchers = 0 \<rparr>"
  have ok: "shards_ok (open_stream ?i rl)"
    using assms(1) by (simp add: open_stream_def relay_emit_def relay_insert_def streams.ok_put)
  show ?thesis
    using assms by (simp add: is_allowed_iff push_finish_def end_stream_get [OF ok] open_stream_get)
qed

text \<open>A session that was not closed keeps pushing under its id: after a revocation it
  feeds the stream that someone else registers under that id, and its end removes it.\<close>

lemma stale_session_feeds_new_stream:
  assumes "shards_ok rl" and "ps_stream ps = Some sid" and "rl' = open_stream i (revoke_stream sid rl)" and "si_stream_id i = sid"
  shows "rl_sent (snd (push_step env (PushPkt (MediaPkt f)) (ps, rl'))) = rl_sent rl @ [(rl_next_chan rl, f)]"
    and "relay_get sid (snd (push_step env PushClosed (ps, rl'))) = None"
proof -
  have ok: "shards_ok (revoke_stream sid rl)"
    using assms(1) by (simp add: revoke_stream_def end_stream_def relay_remove_def relay_emit_def streams.ok_del split: bool.splits)
  have ok': "shards_ok rl'"
    using ok by (simp add: assms(3) open_stream_def relay_emit_def relay_insert_def streams.ok_put)
  have r: "rl_sent (revoke_stream sid rl) = rl_sent rl" "rl_next_chan (revoke_stream sid rl) = rl_next_chan rl"
    by (simp_all add: revoke_stream_def)
  show "rl_sent (snd (push_step env (PushPkt (MediaPkt f)) (ps, rl'))) = rl_sent rl @ [(rl_next_chan rl, f)]"
    using assms(2,4) r by (simp add: assms(3) open_stream_get [OF ok])
  show "relay_get sid (snd (push_step env PushClosed (ps, rl'))) = None"
    using assms(2) by (simp add: push_finish_def end_stream_get [OF ok'])
qed

text \<open>\<open>start_proxy\<close> checks the requested id but stores under the id inside the given
  information: information of another stream replaces that stream's entry.\<close>

lemma start_proxy_overwrites:
  assumes "shards_ok rl" and "relay_get sid rl = None" and "\<not> has_key (rl_proxies rl) sid" and "si_stream_id i \<noteq> sid"
  shows "relay_get (si_stream_id i) (snd (start_proxy now up sid (Some i) rl))
      = Some \<lparr> st_info = i, st_tx = rl_next_chan rl, st_last_keyframe = None \<rparr>"
    and "relay_get sid (snd (start_proxy now up sid (Some i) rl)) = None"
  using assms by (simp_all add: start_proxy_def relay_emit_def relay_insert_def streams.get_put Let_def)

end
