(* ===== verification/Control.thy ===== *)
theory Control
  imports Relay
begin

text \<open>
  The control plane of the kernel: sessions (\<open>kernel/session.rs\<close>,
  \<open>kernel/session_api.rs\<close>), access codes (\<open>kernel/auth.rs\<close>), access tokens and the
  data-plane adapter (\<open>kernel/data_plane.rs\<close>), over the relay and the registry.  The
  random PIN and the clock are arguments; engines are known by their stream ids.  The
  capability graph that negotiation reads is \<open>kn_caps\<close>.
\<close>


section \<open>Sessions\<close>

datatype capability_kind = SourceCap | SinkCap

record capability =
  cd_kind :: capability_kind
  cd_media :: "media_kind list"
  cd_codecs :: "codec_id list"
  cd_transports :: "transport_id list"
  cd_max_width :: "u32 option"
  cd_max_height :: "u32 option"
  cd_preferred_profile :: profile

datatype route_path = Direct string | ViaRelay string | Mesh "string list"

record negotiated =
  ng_transport :: transport_id
  ng_codec :: codec_id
  ng_profile :: profile

record session =
  ss_id :: stream_id
  ss_title :: string
  ss_source :: string
  ss_sinks :: "string list"
  ss_path :: route_path
  ss_negotiated :: negotiated
  ss_requires_pin :: bool
  ss_authorized :: bool

record session_prefs =
  sp_profile :: profile
  sp_preferred_transport :: "transport_id option"
  sp_access_code :: "string option"
  sp_title :: string

datatype auth_error = CodeRequired | CodeMismatch

text \<open>The errors of the kernel; a message of the source is known by its cause.\<close>

datatype control_error =
    PinRequired
  | SessionNotFound stream_id
  | PinMismatch
  | NoSinks
  | TokenNotIssued stream_id
  | TokenDiffers
  | TokenExpired
  | RegistryError registry_error
  | HandleNotFound stream_id
  | NoBackend
  | EngineFailed
  | AlreadyStreaming

record active_share =
  as_endpoint :: endpoint_id
  as_delivery :: delivery

record subscribe_ctx =
  sc_subscriber :: node_id
  sc_delivery :: delivery
  sc_stream_id :: stream_id
  sc_profile :: profile
  sc_strategy :: endpoint_strategy
  sc_relay_addr :: "string option"
  sc_share_token :: "string option"

text \<open>The kernel's tables.  \<open>kn_self\<close> tells whether the kernel holds a reference to
  itself, which endpoint callbacks need; \<open>kn_started\<close> lists the calls of \<open>share\<close> on
  endpoint objects, which then work on their own.\<close>

record kernel =
  kn_caps :: "(node_id \<times> capability list) list"
  kn_sessions :: "(stream_id \<times> session) list"
  kn_pins :: "(stream_id \<times> string) list"
  kn_tokens :: "(stream_id \<times> share_token) list"
  kn_next_id :: nat
  kn_attached :: bool
  kn_relay :: relay_state
  kn_registry :: unified_registry
  kn_shares :: "(stream_id \<times> active_share) list"
  kn_engines :: "stream_id list"
  kn_relay_ports :: "(u16 \<times> u16 option \<times> u16 option) option"
  kn_identity :: "(node_id \<times> string) option"
  kn_self :: bool
  kn_started :: "(endpoint_id \<times> subscribe_ctx) list"

definition kernel_new :: "string \<Rightarrow> kernel" where
  "kernel_new host_name =
     \<lparr> kn_caps = [], kn_sessions = [], kn_pins = [], kn_tokens = [], kn_next_id = 1, kn_attached = False,
       kn_relay = relay_new True, kn_registry = unified_default host_name, kn_shares = [], kn_engines = [],
       kn_relay_ports = None, kn_identity = None, kn_self = False, kn_started = [] \<rparr>"

definition remember_self :: "kernel \<Rightarrow> kernel" where
  "remember_self k = k\<lparr> kn_self := True \<rparr>"

definition set_identity :: "node_id \<Rightarrow> string \<Rightarrow> kernel \<Rightarrow> kernel" where
  "set_identity n name k = k\<lparr> kn_registry := set_self_node n name (kn_registry k), kn_identity := Some (n, name) \<rparr>"

text \<open>The relay that backs the data plane; before one is attached \<open>kn_relay\<close> has no role.\<close>

definition attach_data_plane :: "relay_state \<Rightarrow> kernel \<Rightarrow> kernel" where
  "attach_data_plane rl k = (remember_self k)\<lparr> kn_attached := True, kn_relay := rl \<rparr>"

definition kernel_seed ::
  "(share_endpoint \<Rightarrow> share_endpoint) \<Rightarrow> nat \<Rightarrow> share_endpoint \<Rightarrow> kernel \<Rightarrow> kernel" where
  "kernel_seed load now ep k = k\<lparr> kn_registry := snd (unified_seed load now ep (kn_registry k)) \<rparr>"

definition session_require_authorized :: "session \<Rightarrow> control_error + unit" where
  "session_require_authorized s = (if ss_requires_pin s \<and> \<not> ss_authorized s then Inl PinRequired else Inr ())"

definition require_authorized :: "stream_id \<Rightarrow> kernel \<Rightarrow> control_error + unit" where
  "require_authorized sid k =
     (case map_of (kn_sessions k) sid of
        None \<Rightarrow> Inl (SessionNotFound sid)
      | Some s \<Rightarrow> session_require_authorized s)"

definition mark_authorized :: "stream_id \<Rightarrow> kernel \<Rightarrow> (control_error + unit) \<times> kernel" where
  "mark_authorized sid k =
     (case map_of (kn_sessions k) sid of
        None \<Rightarrow> (Inl (SessionNotFound sid), k)
      | Some s \<Rightarrow> (Inr (), k\<lparr> kn_sessions := AList.update sid (s\<lparr> ss_authorized := True \<rparr>) (kn_sessions k) \<rparr>))"

definition session_snapshot :: "kernel \<Rightarrow> session list" where
  "session_snapshot k = sort_key ss_id (map snd (kn_sessions k))"

definition has_session :: "stream_id \<Rightarrow> kernel \<Rightarrow> bool" where
  "has_session sid k \<longleftrightarrow> has_key (kn_sessions k) sid"

definition default_path :: "string list \<Rightarrow> route_path" where
  "default_path sinks = (case sinks of [one] \<Rightarrow> Direct one | many \<Rightarrow> Mesh many)"


section \<open>Access codes\<close>

fun from_auth :: "auth_error \<Rightarrow> control_error" where
  "from_auth CodeRequired = PinRequired"
| "from_auth CodeMismatch = PinMismatch"

definition pin_authorize :: "stream_id \<Rightarrow> string option \<Rightarrow> kernel \<Rightarrow> auth_error + unit" where
  "pin_authorize sid code k =
     (case map_of (kn_pins k) sid of
        None \<Rightarrow> Inr ()
      | Some pin \<Rightarrow>
          (case code of
             None \<Rightarrow> Inl CodeRequired
           | Some c \<Rightarrow> if c = pin then Inr () else Inl CodeMismatch))"

definition set_code :: "stream_id \<Rightarrow> string option \<Rightarrow> kernel \<Rightarrow> kernel" where
  "set_code sid code k =
     (case code of
        Some c \<Rightarrow> k\<lparr> kn_pins := AList.update sid c (kn_pins k) \<rparr>
      | None \<Rightarrow> k\<lparr> kn_pins := AList.delete sid (kn_pins k) \<rparr>)"

definition authorize_session :: "stream_id \<Rightarrow> string option \<Rightarrow> kernel \<Rightarrow> (control_error + unit) \<times> kernel" where
  "authorize_session sid code k =
     (case pin_authorize sid code k of
        Inl e \<Rightarrow> (Inl (from_auth e), k)
      | Inr _ \<Rightarrow> mark_authorized sid k)"


section \<open>The data plane as the kernel sees it\<close>

definition dp_authorize :: "stream_id \<Rightarrow> kernel \<Rightarrow> kernel" where
  "dp_authorize sid k = (if kn_attached k then k\<lparr> kn_relay := authorize_stream sid (kn_relay k) \<rparr> else k)"

definition dp_revoke :: "stream_id \<Rightarrow> kernel \<Rightarrow> kernel" where
  "dp_revoke sid k = (if kn_attached k then k\<lparr> kn_relay := revoke_stream sid (kn_relay k) \<rparr> else k)"

definition stream_watchers :: "stream_id \<Rightarrow> relay_state \<Rightarrow> u32 option" where
  "stream_watchers sid rl = map_option si_watchers (find (\<lambda>i. si_stream_id i = sid) (relay_streams rl))"


section \<open>Building and tearing down sessions\<close>

definition session_negotiate :: "string \<Rightarrow> session_prefs \<Rightarrow> kernel \<Rightarrow> negotiated" where
  "session_negotiate src prefs k =
     (let caps = (case map_of (kn_caps k) (node_from_str src) of Some cs \<Rightarrow> cs | None \<Rightarrow> []);
          transports = concat (map cd_transports caps);
          fallback = (if WebRtc \<in> set transports then WebRtc else Ws);
          transport = (case sp_preferred_transport prefs of
              Some t \<Rightarrow> if transports = [] \<or> t \<in> set transports then t else fallback
            | None \<Rightarrow> fallback);
          codec = (case concat (map cd_codecs caps) of c # _ \<Rightarrow> c | [] \<Rightarrow> H264)
      in \<lparr> ng_transport = transport, ng_codec = codec, ng_profile = sp_profile prefs \<rparr>)"

definition build_session ::
  "stream_id \<Rightarrow> string \<Rightarrow> string list \<Rightarrow> session_prefs \<Rightarrow> kernel \<Rightarrow> (control_error + session) \<times> kernel" where
  "build_session sid src sinks prefs k =
     (if sinks = [] then (Inl NoSinks, k)
      else
        let requires_pin = (sp_access_code prefs \<noteq> None);
            k1 = (if requires_pin then set_code sid (sp_access_code prefs) k else k);
            k2 = dp_authorize sid k1;
            s = \<lparr> ss_id = sid, ss_title = sp_title prefs, ss_source = src, ss_sinks = sinks,
                  ss_path = default_path sinks, ss_negotiated = session_negotiate src prefs k2,
                  ss_requires_pin = requires_pin, ss_authorized = \<not> requires_pin \<rparr>
        in (Inr s, k2\<lparr> kn_sessions := AList.update sid s (kn_sessions k2) \<rparr>))"

definition ensure_session_with_id ::
  "stream_id \<Rightarrow> string \<Rightarrow> string list \<Rightarrow> session_prefs \<Rightarrow> kernel \<Rightarrow> (control_error + session) \<times> kernel" where
  "ensure_session_with_id sid src sinks prefs k =
     (case map_of (kn_sessions k) sid of
        Some s \<Rightarrow> (Inr s, k)
      | None \<Rightarrow> build_session sid src sinks prefs k)"

definition teardown_internal :: "stream_id \<Rightarrow> bool \<Rightarrow> kernel \<Rightarrow> (control_error + unit) \<times> kernel" where
  "teardown_internal sid check_auth k =
     (case (if check_auth then require_authorized sid k else Inr ()) of
        Inl e \<Rightarrow> (Inl e, k)
      | Inr _ \<Rightarrow>
          let k1 = k\<lparr> kn_sessions := AList.delete sid (kn_sessions k) \<rparr>;
              k2 = set_code sid None k1;
              k3 = k2\<lparr> kn_tokens := AList.delete sid (kn_tokens k2) \<rparr>
          in (Inr (), dp_revoke sid k3))"

definition teardown :: "stream_id \<Rightarrow> kernel \<Rightarrow> (control_error + unit) \<times> kernel" where
  "teardown sid k = teardown_internal sid True k"

definition force_teardown :: "stream_id \<Rightarrow> kernel \<Rightarrow> (control_error + unit) \<times> kernel" where
  "force_teardown sid k = teardown_internal sid False k"

fun hex_digits :: "nat \<Rightarrow> string" where
  "hex_digits n = (if n < 16 then [hex_char n] else hex_digits (n div 16) @ [hex_char (n mod 16)])"

declare hex_digits.simps [simp del]

text \<open>\<open>CreateSession\<close> of the control interface.\<close>

definition create_session :: "string \<Rightarrow> string list \<Rightarrow> kernel \<Rightarrow> (control_error + session) \<times> kernel" where
  "create_session title sinks k =
     build_session (''sess-'' @ hex_digits (kn_next_id k)) ''local'' sinks
       \<lparr> sp_profile = Lossy, sp_preferred_transport = None, sp_access_code = None, sp_title = title \<rparr>
       (k\<lparr> kn_next_id := kn_next_id k + 1 \<rparr>)"


section \<open>Access tokens\<close>

definition create_share_token ::
  "nat \<Rightarrow> string \<Rightarrow> stream_id \<Rightarrow> media_kind list \<Rightarrow> nat \<Rightarrow> kernel \<Rightarrow> (control_error + share_token) \<times> kernel" where
  "create_share_token now pin sid media ttl k =
     (if \<not> has_session sid k then (Inl (SessionNotFound sid), k)
      else
        let live = filter (\<lambda>(_, t). \<not> is_expired now t) (kn_tokens k);
            t = \<lparr> tok_v = 1, tok_stream_id = sid, tok_pin = pin, tok_expires_at = sat_add64 now ttl, tok_media = media \<rparr>
        in (Inr t, k\<lparr> kn_tokens := AList.update sid t live \<rparr>))"

definition verify_share_token :: "nat \<Rightarrow> (stream_id \<times> share_token) list \<Rightarrow> share_token \<Rightarrow> control_error + unit" where
  "verify_share_token now tokens t =
     (case map_of tokens (tok_stream_id t) of
        None \<Rightarrow> Inl (TokenNotIssued (tok_stream_id t))
      | Some stored \<Rightarrow>
          if stored \<noteq> t then Inl TokenDiffers
          else if is_expired now stored then Inl TokenExpired
          else Inr ())"

text \<open>\<open>KernelTokenValidator\<close>, which the kernel installs in the relay.\<close>

definition kernel_validate :: "nat \<Rightarrow> kernel \<Rightarrow> share_token \<Rightarrow> bool" where
  "kernel_validate now k t = is_ok (verify_share_token now (kn_tokens k) t)"

record token_view =
  tv_token :: "share_token option"
  tv_stream_id :: stream_id
  tv_pin :: string
  tv_expires_at :: nat

definition issue_share_token_for ::
  "nat \<Rightarrow> string \<Rightarrow> string \<Rightarrow> media_kind list \<Rightarrow> nat option \<Rightarrow> kernel \<Rightarrow> (control_error + token_view) \<times> kernel" where
  "issue_share_token_for now pin title media ttl k =
     (case build_session (''sess-'' @ hex_digits (kn_next_id k)) ''local'' [''local'']
             \<lparr> sp_profile = Lossy, sp_preferred_transport = None, sp_access_code = None, sp_title = title \<rparr>
             (k\<lparr> kn_next_id := kn_next_id k + 1 \<rparr>) of
        (Inl e, k1) \<Rightarrow> (Inl e, k1)
      | (Inr s, k1) \<Rightarrow>
          (case create_share_token now pin (ss_id s) media (case ttl of Some x \<Rightarrow> x | None \<Rightarrow> 600) k1 of
             (Inl e, k2) \<Rightarrow> (Inl e, k2)
           | (Inr t, k2) \<Rightarrow>
               (Inr \<lparr> tv_token = Some t, tv_stream_id = tok_stream_id t, tv_pin = tok_pin t,
                      tv_expires_at = tok_expires_at t \<rparr>, k2)))"

end
