(* ===== verification/Shares.thy ===== *)
theory Shares
  imports Control
begin

text \<open>
  Streams and endpoint shares of the kernel: \<open>kernel/streams.rs\<close>,
  \<open>kernel/endpoint_api.rs\<close>, \<open>kernel/share_service.rs\<close> and the forwarding of relay
  events in \<open>kernel/mod.rs\<close>.  A share is registered when a subscription is reached; it
  ends with its stream, when nobody watches any more, when the last subscriber leaves
  or when the endpoint is withdrawn.
\<close>


section \<open>Streams\<close>

text \<open>A stream the host pushes must have a session when a data plane is attached; a push
  with a token goes to another host.\<close>

definition ensure_session ::
  "string \<Rightarrow> stream_id \<Rightarrow> bool \<Rightarrow> kernel \<Rightarrow> (control_error + stream_id) \<times> kernel" where
  "ensure_session title sid with_token k =
     (if with_token then (Inr sid, k)
      else if \<not> kn_attached k \<or> has_session sid k then (Inr sid, k)
      else case build_session (''sess-'' @ hex_digits (kn_next_id k)) ''local'' [''local'']
                  \<lparr> sp_profile = Lossy, sp_preferred_transport = None, sp_access_code = None, sp_title = title \<rparr>
                  (k\<lparr> kn_next_id := kn_next_id k + 1 \<rparr>) of
             (Inl e, k1) \<Rightarrow> (Inl e, k1)
           | (Inr s, k1) \<Rightarrow> (Inr (ss_id s), k1))"

text \<open>\<open>backend\<close>: a capture back end is set; \<open>engine_ok\<close>: the engine starts.\<close>

definition start_stream ::
  "bool \<Rightarrow> bool \<Rightarrow> string \<Rightarrow> stream_id \<Rightarrow> bool \<Rightarrow> kernel \<Rightarrow> (control_error + stream_id) \<times> kernel" where
  "start_stream backend engine_ok title sid with_token k =
     (if \<not> backend then (Inl NoBackend, k)
      else case ensure_session title sid with_token k of
             (Inl e, k1) \<Rightarrow> (Inl e, k1)
           | (Inr s, k1) \<Rightarrow>
               if \<not> engine_ok then (Inl EngineFailed, k1)
               else if s \<in> set (kn_engines k1) then (Inl AlreadyStreaming, k1)
               else (Inr s, k1\<lparr> kn_engines := s # kn_engines k1 \<rparr>))"

definition stop_stream :: "kernel \<Rightarrow> kernel" where
  "stop_stream k = k\<lparr> kn_engines := [] \<rparr>"


section \<open>The table of shares\<close>

definition active_share_by_endpoint :: "endpoint_id \<Rightarrow> kernel \<Rightarrow> (stream_id \<times> delivery) option" where
  "active_share_by_endpoint i k =
     map_option (\<lambda>(sid, s). (sid, as_delivery s)) (find (\<lambda>(_, s). as_endpoint s = i) (kn_shares k))"

definition active_share_by_stream :: "stream_id \<Rightarrow> kernel \<Rightarrow> active_share option" where
  "active_share_by_stream sid k = map_of (kn_shares k) sid"

definition clear_active_share :: "stream_id \<Rightarrow> kernel \<Rightarrow> active_share option \<times> kernel" where
  "clear_active_share sid k = (map_of (kn_shares k) sid, k\<lparr> kn_shares := AList.delete sid (kn_shares k) \<rparr>)"

definition kernel_set_state :: "nat \<Rightarrow> endpoint_id \<Rightarrow> endpoint_state \<Rightarrow> u32 \<Rightarrow> kernel \<Rightarrow> kernel" where
  "kernel_set_state now i st n k = k\<lparr> kn_registry := snd (unified_set_state now i st n (kn_registry k)) \<rparr>"

definition note_share_active :: "nat \<Rightarrow> endpoint_id \<Rightarrow> stream_id \<Rightarrow> delivery \<Rightarrow> kernel \<Rightarrow> kernel" where
  "note_share_active now i sid dlv k =
     kernel_set_state now i Active 0
       (k\<lparr> kn_shares := AList.update sid \<lparr> as_endpoint = i, as_delivery = dlv \<rparr> (kn_shares k) \<rparr>)"

text \<open>The end of a stream: the share is cleared and its endpoint reset, the engine
  stopped, the session torn down.\<close>

definition reap_stream :: "nat \<Rightarrow> stream_id \<Rightarrow> kernel \<Rightarrow> endpoint_id option \<times> kernel" where
  "reap_stream now sid k =
     (let (share, k1) = clear_active_share sid k;
          k2 = (case share of None \<Rightarrow> k1
                | Some s \<Rightarrow> kernel_set_state now (as_endpoint s) Idle 0
                    (k1\<lparr> kn_registry := unified_clear_subscribers (as_endpoint s) (kn_registry k1) \<rparr>));
          k3 = k2\<lparr> kn_engines := removeAll sid (kn_engines k2) \<rparr>;
          k4 = (if has_session sid k3 then snd (force_teardown sid k3) else k3)
      in (map_option as_endpoint share, k4))"

definition stop_share_by_stream :: "nat \<Rightarrow> stream_id \<Rightarrow> kernel \<Rightarrow> kernel" where
  "stop_share_by_stream now sid k = snd (reap_stream now sid k)"

definition share_stop :: "nat \<Rightarrow> endpoint_id \<Rightarrow> kernel \<Rightarrow> kernel" where
  "share_stop now i k =
     (case find (\<lambda>(_, s). as_endpoint s = i) (kn_shares k) of
        None \<Rightarrow> k
      | Some (sid, _) \<Rightarrow> stop_share_by_stream now sid k)"

definition reap_if_unwatched :: "nat \<Rightarrow> stream_id \<Rightarrow> kernel \<Rightarrow> kernel" where
  "reap_if_unwatched now sid k =
     (if \<not> kn_attached k then k
      else if stream_watchers sid (kn_relay k) = Some 0 then stop_share_by_stream now sid k
      else k)"

definition share_on_subscribed :: "nat \<Rightarrow> endpoint_id \<Rightarrow> subscribe_ctx \<Rightarrow> kernel \<Rightarrow> kernel" where
  "share_on_subscribed now i ctx k =
     (if \<not> kn_self k then k
      else (note_share_active now i (sc_stream_id ctx) (sc_delivery ctx) k)
             \<lparr> kn_started := kn_started k @ [(i, ctx)] \<rparr>)"

definition share_active :: "kernel \<Rightarrow> (stream_id \<times> active_share \<times> node_id set) list" where
  "share_active k =
     sort_key fst (map (\<lambda>(sid, s). (sid, s,
         case registry_subscriber_nodes (own_ref (kn_registry k) (as_endpoint s)) (ur_endpoints (kn_registry k)) of
           Some ns \<Rightarrow> ns | None \<Rightarrow> {})) (kn_shares k))"


section \<open>Publishing\<close>

definition publish_endpoint ::
  "nat \<Rightarrow> endpoint_id \<Rightarrow> visibility \<Rightarrow> delivery \<Rightarrow> transport_preference list option \<Rightarrow> codec_id list option
     \<Rightarrow> kernel \<Rightarrow> (control_error + endpoint_manifest) \<times> kernel" where
  "publish_endpoint now i vis dlv trs cs k =
     (let reg = kn_registry k;
          target = (case registry_target (own_ref reg i) (ur_endpoints reg) of Some t \<Rightarrow> t | None \<Rightarrow> Live);
          trs' = (case trs of Some t \<Rightarrow> t | None \<Rightarrow> default_transports target);
          cs' = (case cs of Some c \<Rightarrow> c | None \<Rightarrow> [H264, Aac]);
          (res, reg') = unified_publish now i vis dlv trs' cs' reg
      in (map_sum RegistryError id res, k\<lparr> kn_registry := reg' \<rparr>))"

definition unpublish_endpoint :: "nat \<Rightarrow> endpoint_id \<Rightarrow> kernel \<Rightarrow> (control_error + unit) \<times> kernel" where
  "unpublish_endpoint now i k =
     (let k1 = share_stop now i k;
          (res, reg') = unified_unpublish now i (kn_registry k1)
      in (map_sum RegistryError id res, k1\<lparr> kn_registry := reg' \<rparr>))"

definition publish_file_endpoint where
  "publish_file_endpoint now path name stat is_file vis dlv k =
     (let (res, reg') = unified_publish_file now path name stat is_file vis dlv (kn_registry k)
      in (map_sum RegistryError id res, k\<lparr> kn_registry := reg' \<rparr>))"

definition manifest_stream :: "endpoint_manifest \<Rightarrow> stream_id" where
  "manifest_stream m = derive_stream_id (em_id m) (em_transport_profile m) (em_pick_rule m)"

definition default_delivery :: "target_kind \<Rightarrow> delivery" where
  "default_delivery target = (case target of Live \<Rightarrow> Pull | Determined \<Rightarrow> Pull)"

text \<open>\<open>ShareService::publish\<close> gives out a handle, the stream id the endpoint's
  manifest determines; \<open>unpublish\<close> finds the endpoint from the handle.\<close>

definition share_publish ::
  "nat \<Rightarrow> share_endpoint \<Rightarrow> visibility \<Rightarrow> kernel \<Rightarrow> (control_error + stream_id) \<times> kernel" where
  "share_publish now ep vis k =
     (case publish_endpoint now (se_id ep) vis (default_delivery (se_target ep)) None None k of
        (Inl e, k1) \<Rightarrow> (Inl e, k1)
      | (Inr m, k1) \<Rightarrow> (Inr (derive_stream_id (se_id ep) (em_transport_profile m) (em_pick_rule m)), k1))"

definition endpoint_id_of_stream :: "stream_id \<Rightarrow> kernel \<Rightarrow> endpoint_id option" where
  "endpoint_id_of_stream sid k =
     (case find (\<lambda>(s, _). s = sid) (kn_shares k) of
        Some (_, s) \<Rightarrow> Some (as_endpoint s)
      | None \<Rightarrow> map_option em_id (find (\<lambda>m. manifest_stream m = sid) (unified_published (kn_registry k))))"

definition share_unpublish :: "nat \<Rightarrow> stream_id \<Rightarrow> kernel \<Rightarrow> (control_error + unit) \<times> kernel" where
  "share_unpublish now sid k =
     (case endpoint_id_of_stream sid k of
        None \<Rightarrow> (Inl (HandleNotFound sid), k)
      | Some i \<Rightarrow> unpublish_endpoint now i k)"


section \<open>Subscribers and relay events\<close>

definition note_endpoint_subscribed :: "nat \<Rightarrow> endpoint_id \<Rightarrow> node_id \<Rightarrow> kernel \<Rightarrow> kernel" where
  "note_endpoint_subscribed now i n k =
     k\<lparr> kn_registry := unified_note_subscriber now i n (kn_registry k) \<rparr>"

definition note_endpoint_unsubscribed :: "nat \<Rightarrow> endpoint_id \<Rightarrow> node_id \<Rightarrow> kernel \<Rightarrow> u32 \<times> kernel" where
  "note_endpoint_unsubscribed now i n k =
     (let (left, reg') = unified_note_unsubscriber now i n (kn_registry k);
          k1 = k\<lparr> kn_registry := reg' \<rparr>
      in (left, if left = 0 then share_stop now i k1 else k1))"

text \<open>The forwarding task handles the relay's events; a stream of a share that nobody
  watches any more is looked at again later.\<close>

fun kernel_forward :: "nat \<Rightarrow> relay_event \<Rightarrow> kernel \<Rightarrow> kernel" where
  "kernel_forward now (StreamStarted sid info) k = k"
| "kernel_forward now (StreamEnded sid) k = snd (reap_stream now sid k)"
| "kernel_forward now (WatchersChanged sid n) k =
     (case active_share_by_stream sid k of
        None \<Rightarrow> k
      | Some s \<Rightarrow> kernel_set_state now (as_endpoint s) Active n k)"

fun reap_scheduled :: "relay_event \<Rightarrow> kernel \<Rightarrow> stream_id option" where
  "reap_scheduled (WatchersChanged sid n) k =
     (if n = 0 \<and> active_share_by_stream sid k \<noteq> None then Some sid else None)"
| "reap_scheduled _ k = None"

end
