(* ===== verification/System.thy ===== *)
theory System
  imports Shares
begin

text \<open>
  The host as a whole: the operations that reach the kernel as events, the relay it
  backs its data plane with, and the peers' sessions on that relay.  What the relay
  asks of the kernel (the validator of tokens) and what the kernel does to the relay
  (authorising and revoking) go through the one shared state.
\<close>


section \<open>Events of the kernel\<close>

datatype kernel_event =
    KIdentity node_id string
  | KSeed "string option" nat share_endpoint
  | KRemote endpoint_dir string
  | KCaps "(node_id \<times> capability list) list"
  | KPorts "(u16 \<times> u16 option \<times> u16 option) option"
  | KSelf
  | KCreate string "string list"
  | KOpen stream_id string "string list" session_prefs
  | KAuthorize stream_id "string option"
  | KTeardown stream_id
  | KForceTeardown stream_id
  | KToken nat string stream_id "media_kind list" nat
  | KIssue nat string string "media_kind list" "nat option"
  | KStart bool bool string stream_id bool
  | KStop
  | KPublish nat endpoint_id visibility delivery "transport_preference list option" "codec_id list option"
  | KUnpublish nat endpoint_id
  | KPublishFile nat string string "(bool \<times> nat) option" bool visibility delivery
  | KShare nat endpoint_id subscribe_ctx
  | KSubscribe nat endpoint_id node_id
  | KUnsubscribe nat endpoint_id node_id
  | KReap nat stream_id
  | KForward nat relay_event

fun kernel_step :: "kernel_event \<Rightarrow> kernel \<Rightarrow> kernel" where
  "kernel_step (KIdentity n name) k = set_identity n name k"
| "kernel_step (KSeed err now ep) k = kernel_seed (probe_load err) now ep k"
| "kernel_step (KRemote dir addr) k = k\<lparr> kn_registry := register_remote_directory dir addr (kn_registry k) \<rparr>"
| "kernel_step (KCaps caps) k = k\<lparr> kn_caps := caps \<rparr>"
| "kernel_step (KPorts ports) k = k\<lparr> kn_relay_ports := ports \<rparr>"
| "kernel_step KSelf k = remember_self k"
| "kernel_step (KCreate title sinks) k = snd (create_session title sinks k)"
| "kernel_step (KOpen sid src sinks prefs) k = snd (ensure_session_with_id sid src sinks prefs k)"
| "kernel_step (KAuthorize sid code) k = snd (authorize_session sid code k)"
| "kernel_step (KTeardown sid) k = snd (teardown sid k)"
| "kernel_step (KForceTeardown sid) k = snd (force_teardown sid k)"
| "kernel_step (KToken now pin sid media ttl) k = snd (create_share_token now pin sid media ttl k)"
| "kernel_step (KIssue now pin title media ttl) k = snd (issue_share_token_for now pin title media ttl k)"
| "kernel_step (KStart backend ok title sid tok) k = snd (start_stream backend ok title sid tok k)"
| "kernel_step KStop k = stop_stream k"
| "kernel_step (KPublish now i vis dlv trs cs) k = snd (publish_endpoint now i vis dlv trs cs k)"
| "kernel_step (KUnpublish now i) k = snd (unpublish_endpoint now i k)"
| "kernel_step (KPublishFile now path name stat is_file vis dlv) k =
     snd (publish_file_endpoint now path name stat is_file vis dlv k)"
| "kernel_step (KShare now i ctx) k = share_on_subscribed now i ctx k"
| "kernel_step (KSubscribe now i n) k = note_endpoint_subscribed now i n k"
| "kernel_step (KUnsubscribe now i n) k = snd (note_endpoint_unsubscribed now i n k)"
| "kernel_step (KReap now sid) k = reap_if_unwatched now sid k"
| "kernel_step (KForward now ev) k = kernel_forward now ev k"


section \<open>What the operations do to sessions, tokens, codes and the relay\<close>

definition same_control :: "kernel \<Rightarrow> kernel \<Rightarrow> bool" where
  "same_control k k' \<longleftrightarrow> kn_sessions k' = kn_sessions k \<and> kn_pins k' = kn_pins k \<and> kn_tokens k' = kn_tokens k
     \<and> kn_attached k' = kn_attached k \<and> kn_relay k' = kn_relay k"

lemma same_control_refl [simp]: "same_control k k"
  by (simp add: same_control_def)

lemma same_control_fields [simp]:
  "same_control k (k\<lparr> kn_registry := x1 \<rparr>)" "same_control k (k\<lparr> kn_shares := x2 \<rparr>)"
  "same_control k (k\<lparr> kn_engines := x3 \<rparr>)" "same_control k (k\<lparr> kn_caps := x4 \<rparr>)"
  "same_control k (k\<lparr> kn_relay_ports := x5 \<rparr>)" "same_control k (k\<lparr> kn_self := x6 \<rparr>)"
  "same_control k (k\<lparr> kn_started := x7 \<rparr>)" "same_control k (k\<lparr> kn_next_id := x8 \<rparr>)"
  "same_control k (k\<lparr> kn_registry := x1, kn_identity := x9 \<rparr>)"
  by (simp_all add: same_control_def)

lemma same_control_trans: "same_control a b \<Longrightarrow> same_control b c \<Longrightarrow> same_control a c"
  by (simp add: same_control_def)

lemma same_control_set_state [simp]: "same_control k (kernel_set_state now i st n k)"
  by (simp add: kernel_set_state_def)

text \<open>Every kernel event changes these tables only by opening sessions, tearing them
  down, issuing tokens and authorising; what these keep, every event keeps.\<close>

locale control_inv =
  fixes P :: "kernel \<Rightarrow> bool" and auth :: "stream_id \<Rightarrow> string option \<Rightarrow> bool"
  assumes same: "P k \<Longrightarrow> same_control k k' \<Longrightarrow> P k'"
    and build: "P k \<Longrightarrow> P (snd (build_session sid src sinks prefs k))"
    and torn: "P k \<Longrightarrow> P (snd (teardown_internal sid chk k))"
    and token: "P k \<Longrightarrow> P (snd (create_share_token now pin sid media ttl k))"
    and authorise: "P k \<Longrightarrow> auth sid code \<Longrightarrow> P (snd (authorize_session sid code k))"
begin

lemma set_state_keeps: "P k \<Longrightarrow> P (kernel_set_state now i st n k)"
  by (erule same) simp

lemma fields_keep:
  assumes "P k"
  shows "P (k\<lparr> kn_registry := x1 \<rparr>)" "P (k\<lparr> kn_shares := x2 \<rparr>)" "P (k\<lparr> kn_engines := x3 \<rparr>)"
    "P (k\<lparr> kn_next_id := x8 \<rparr>)" "P (k\<lparr> kn_started := x7 \<rparr>)"
  by (rule same [OF assms]; simp)+

lemma reap_keeps:
  assumes "P k"
  shows "P (snd (reap_stream now sid k))"
proof -
  define k1 where "k1 = k\<lparr> kn_shares := AList.delete sid (kn_shares k) \<rparr>"
  define k2 where "k2 = (case map_of (kn_shares k) sid of None \<Rightarrow> k1
    | Some s \<Rightarrow> kernel_set_state now (as_endpoint s) Idle 0
        (k1\<lparr> kn_registry := unified_clear_subscribers (as_endpoint s) (kn_registry k1) \<rparr>))"
  define k3 where "k3 = k2\<lparr> kn_engines := removeAll sid (kn_engines k2) \<rparr>"
  have "P k1" using fields_keep(2) [OF assms] by (simp add: k1_def)
  then have "P k2"
    unfolding k2_def by (cases "map_of (kn_shares k) sid") (simp_all add: set_state_keeps fields_keep)
  then have "P k3" by (simp add: k3_def fields_keep)
  moreover have "snd (reap_stream now sid k) = (if has_session sid k3 then snd (force_teardown sid k3) else k3)"
    by (simp only: reap_stream_def clear_active_share_def Let_def case_prod_conv snd_conv k1_def k2_def k3_def)
  ultimately show ?thesis using torn by (simp add: force_teardown_def)
qed

lemma stop_keeps: "P k \<Longrightarrow> P (share_stop now i k)"
  by (auto simp: share_stop_def stop_share_by_stream_def reap_keeps split: option.split)

lemma issue_keeps:
  assumes "P k"
  shows "P (snd (issue_share_token_for now pin title media ttl k))"
proof -
  define r where "r = build_session (''sess-'' @ hex_digits (kn_next_id k)) ''local'' [''local'']
    \<lparr> sp_profile = Lossy, sp_preferred_transport = None, sp_access_code = None, sp_title = title \<rparr>
    (k\<lparr> kn_next_id := kn_next_id k + 1 \<rparr>)"
  have r: "P (snd r)" unfolding r_def by (rule build [OF fields_keep(4) [OF assms]])
  show ?thesis
  proof (cases r)
    case (Pair res k1)
    define q where "q = (\<lambda>sid. create_share_token now pin sid media (case ttl of Some x \<Rightarrow> x | None \<Rightarrow> 600) k1)"
    have "P (snd (q sid))" for sid using token r Pair by (simp add: q_def)
    moreover have "snd (issue_share_token_for now pin title media ttl k)
        = (case res of Inl e \<Rightarrow> k1 | Inr s \<Rightarrow> snd (q (ss_id s)))"
      unfolding issue_share_token_for_def r_def [symmetric] Pair q_def [symmetric]
      by (simp add: case_prod_beta q_def split: sum.split)
    ultimately show ?thesis using r Pair by (cases res) simp_all
  qed
qed

lemma stream_keeps:
  assumes "P k"
  shows "P (snd (start_stream backend ok title sid tok k))"
proof -
  define r where "r = build_session (''sess-'' @ hex_digits (kn_next_id k)) ''local'' [''local'']
    \<lparr> sp_profile = Lossy, sp_preferred_transport = None, sp_access_code = None, sp_title = title \<rparr>
    (k\<lparr> kn_next_id := kn_next_id k + 1 \<rparr>)"
  have "P (snd r)" unfolding r_def by (rule build [OF fields_keep(4) [OF assms]])
  then have e: "P (snd (ensure_session title sid tok k))"
    unfolding ensure_session_def r_def [symmetric] using assms by (simp add: case_prod_beta split: sum.split)
  define q where "q = ensure_session title sid tok k"
  show ?thesis
    using e assms fields_keep(3) [OF e]
    unfolding start_stream_def q_def [symmetric] by (cases q; cases "fst q") simp_all
qed

lemma step_keeps:
  assumes "P k" and "\<And>sid code. ev = KAuthorize sid code \<Longrightarrow> auth sid code"
  shows "P (kernel_step ev k)"
proof (cases ev)
  case (KCreate title sinks)
  from build [OF fields_keep(4) [OF assms(1)]] show ?thesis using KCreate by (simp add: create_session_def)
next
  case (KOpen sid src sinks prefs)
  then show ?thesis using build [OF assms(1)] assms(1) by (simp add: ensure_session_with_id_def split: option.split)
next
  case (KUnpublish now i)
  then show ?thesis using fields_keep(1) [OF stop_keeps [OF assms(1)]] by (simp add: unpublish_endpoint_def Let_def case_prod_beta)
next
  case (KUnsubscribe now i n)
  then show ?thesis using stop_keeps [OF fields_keep(1) [OF assms(1)]] fields_keep(1) [OF assms(1)]
    by (simp add: note_endpoint_unsubscribed_def Let_def case_prod_beta)
next
  case (KShare now i ctx)
  have "P (note_share_active now i (sc_stream_id ctx) (sc_delivery ctx) k)"
    unfolding note_share_active_def by (rule set_state_keeps [OF fields_keep(2) [OF assms(1)]])
  then show ?thesis using KShare assms(1) fields_keep(5) by (simp add: share_on_subscribed_def)
next
  case (KForward now rev)
  then show ?thesis using assms(1) reap_keeps set_state_keeps [OF assms(1)]
    by (cases rev) (simp_all split: option.split)
qed (use assms in \<open>simp_all add: torn teardown_def force_teardown_def token issue_keeps stream_keeps authorise
    reap_if_unwatched_def stop_share_by_stream_def reap_keeps same [OF assms(1)] set_identity_def kernel_seed_def
    remember_self_def stop_stream_def publish_endpoint_def publish_file_endpoint_def note_endpoint_subscribed_def
    Let_def case_prod_beta\<close>)

end


section \<open>The kernel and its relay\<close>

text \<open>What the relay admits is what the kernel has a session for.\<close>

definition admission_ok :: "kernel \<Rightarrow> bool" where
  "admission_ok k \<longleftrightarrow> kn_attached k
     \<and> rl_allowed (kn_relay k) = {sid. has_session sid k}
     \<and> distinct_keys (kn_tokens k)
     \<and> (\<forall>sid t. map_of (kn_tokens k) sid = Some t \<longrightarrow> tok_stream_id t = sid \<and> has_session sid k)
     \<and> (\<forall>sid e. relay_get sid (kn_relay k) = Some e \<longrightarrow> has_session sid k \<or> has_key (rl_proxies (kn_relay k)) sid)
     \<and> table_ok (kn_relay k)
     \<and> rl_controlled (kn_relay k)"

lemma admission_same: "admission_ok k \<Longrightarrow> same_control k k' \<Longrightarrow> admission_ok k'"
  by (simp add: admission_ok_def same_control_def has_session_def)

text \<open>Building a session.\<close>

lemma build_fields:
  assumes "sinks \<noteq> []"
  shows "kn_attached (snd (build_session sid src sinks prefs k)) = kn_attached k"
    and "kn_attached k \<Longrightarrow> kn_relay (snd (build_session sid src sinks prefs k)) = authorize_stream sid (kn_relay k)"
    and "kn_tokens (snd (build_session sid src sinks prefs k)) = kn_tokens k"
    and "kn_pins (snd (build_session sid src sinks prefs k)) =
          (case sp_access_code prefs of None \<Rightarrow> kn_pins k | Some c \<Rightarrow> AList.update sid c (kn_pins k))"
    and "\<exists>s. fst (build_session sid src sinks prefs k) = Inr s
          \<and> kn_sessions (snd (build_session sid src sinks prefs k)) = AList.update sid s (kn_sessions k)
          \<and> ss_id s = sid \<and> (ss_requires_pin s \<longleftrightarrow> sp_access_code prefs \<noteq> None) \<and> (ss_authorized s \<longleftrightarrow> sp_access_code prefs = None)"
  using assms by (cases "sp_access_code prefs"; cases "kn_attached k"; simp add: build_session_def set_code_def dp_authorize_def Let_def)+

lemma build_refused: "build_session sid src [] prefs k = (Inl NoSinks, k)"
  by (simp add: build_session_def)

lemma authorize_stream_fields [simp]:
  "relay_get x (authorize_stream sid rl) = relay_get x rl" "table_ok (authorize_stream sid rl) = table_ok rl"
  "rl_allowed (authorize_stream sid rl) = insert sid (rl_allowed rl)" "rl_proxies (authorize_stream sid rl) = rl_proxies rl"
  "shards_ok (authorize_stream sid rl) = shards_ok rl" "rl_controlled (authorize_stream sid rl) = rl_controlled rl"
  "rl_receivers (authorize_stream sid rl) = rl_receivers rl"
  by (simp_all add: authorize_stream_def)

lemma admission_build:
  assumes "admission_ok k"
  shows "admission_ok (snd (build_session sid src sinks prefs k))"
proof (cases "sinks = []")
  case True
  then show ?thesis using assms by (simp add: build_refused)
next
  case False
  note B = build_fields [OF False, where sid = sid and src = src and prefs = prefs and k = k]
  have a: "kn_attached k" using assms by (simp add: admission_ok_def)
  have h: "has_session x (snd (build_session sid src sinks prefs k)) \<longleftrightarrow> x = sid \<or> has_session x k" for x
    using B(5) by (auto simp: has_session_def)
  show ?thesis using assms unfolding admission_ok_def h B(2) [OF a] B(3) by (auto simp: B(1))
qed

text \<open>Tearing a session down, when the check lets it happen.\<close>

lemma teardown_fields:
  assumes k': "k' = snd (teardown_internal sid chk k)"
  shows "k' = k \<or> kn_attached k' = kn_attached k \<and> (kn_attached k \<longrightarrow> kn_relay k' = revoke_stream sid (kn_relay k))
     \<and> kn_sessions k' = AList.delete sid (kn_sessions k) \<and> kn_tokens k' = AList.delete sid (kn_tokens k)
     \<and> kn_pins k' = AList.delete sid (kn_pins k)"
  unfolding k'
  by (simp add: teardown_internal_def set_code_def dp_revoke_def Let_def split: sum.split)

lemma revoke_stream_fields [simp]:
  "rl_allowed (revoke_stream sid rl) = rl_allowed rl - {sid}" "rl_proxies (revoke_stream sid rl) = rl_proxies rl"
  "rl_controlled (revoke_stream sid rl) = rl_controlled rl" "rl_receivers (revoke_stream sid rl) = rl_receivers rl"
  by (simp_all add: revoke_stream_def)

lemma revoke_stream_get:
  "shards_ok rl \<Longrightarrow> relay_get x (revoke_stream sid rl) = (if x = sid then None else relay_get x rl)"
  by (simp add: revoke_stream_def end_stream_get)

lemma admission_teardown:
  assumes "admission_ok k"
  shows "admission_ok (snd (teardown_internal sid chk k))"
proof -
  have a: "kn_attached k" and t: "table_ok (kn_relay k)" using assms by (simp_all add: admission_ok_def)
  define k' where "k' = snd (teardown_internal sid chk k)"
  consider "k' = k" | "kn_attached k'" "kn_relay k' = revoke_stream sid (kn_relay k)"
      "kn_sessions k' = AList.delete sid (kn_sessions k)" "kn_tokens k' = AList.delete sid (kn_tokens k)"
    using teardown_fields [OF k'_def] a by blast
  then have "admission_ok k'"
  proof cases
    case 2
    have h: "has_session x k' \<longleftrightarrow> x \<noteq> sid \<and> has_session x k" for x by (simp add: has_session_def 2)
    show ?thesis using assms unfolding admission_ok_def h 2
      by (auto simp: revoke_stream_get [OF table_okD(1) [OF t]] table_ok_revoke 2 split: if_splits)
  qed (use assms in simp)
  then show ?thesis by (simp add: k'_def)
qed

lemma map_of_filter:
  "distinct_keys al \<Longrightarrow> map_of (filter Q al) x = (case map_of al x of Some v \<Rightarrow> if Q (x, v) then Some v else None | None \<Rightarrow> None)"
  by (induction al) (auto simp: distinct_keys_def map_of_eq_None_iff image_iff split: option.splits)

lemma distinct_keys_filter [simp]: "distinct_keys al \<Longrightarrow> distinct_keys (filter Q al)"
  by (simp add: distinct_keys_def distinct_map_filter)

lemma token_fields:
  assumes "k' = snd (create_share_token now pin sid media ttl k)"
  shows "k' = k \<or> has_session sid k \<and> k' = k\<lparr> kn_tokens := AList.update sid
     \<lparr> tok_v = 1, tok_stream_id = sid, tok_pin = pin, tok_expires_at = sat_add64 now ttl, tok_media = media \<rparr>
     (filter (\<lambda>(_, t). \<not> is_expired now t) (kn_tokens k)) \<rparr>"
  unfolding assms by (simp add: create_share_token_def Let_def)

lemma admission_token:
  assumes "admission_ok k"
  shows "admission_ok (snd (create_share_token now pin sid media ttl k))"
proof -
  define k' where "k' = snd (create_share_token now pin sid media ttl k)"
  from token_fields [OF this] show ?thesis
    unfolding k'_def [symmetric] using assms
    by (auto simp: admission_ok_def has_session_def map_of_filter split: option.splits if_splits) blast
qed

lemma authorise_fields:
  assumes "k' = snd (authorize_session sid code k)"
  shows "k' = k \<or> (\<exists>s. map_of (kn_sessions k) sid = Some s \<and> pin_authorize sid code k = Inr ()
     \<and> k' = k\<lparr> kn_sessions := AList.update sid (s\<lparr> ss_authorized := True \<rparr>) (kn_sessions k) \<rparr>)"
  unfolding assms by (auto simp: authorize_session_def mark_authorized_def split: sum.split option.split)

lemma admission_authorise:
  assumes "admission_ok k"
  shows "admission_ok (snd (authorize_session sid code k))"
proof -
  define k' where "k' = snd (authorize_session sid code k)"
  from authorise_fields [OF this] have "k' = k \<or> (\<forall>x. has_session x k' = has_session x k) \<and>
      (\<exists>ss. k' = k\<lparr> kn_sessions := ss \<rparr>)"
    by (auto simp: has_session_def)
  then show ?thesis unfolding k'_def [symmetric] using assms by (auto simp: admission_ok_def) blast
qed

interpretation admission: control_inv admission_ok "\<lambda>_ _. True"
  by unfold_locales (simp_all add: admission_same admission_build admission_teardown admission_token admission_authorise)

text \<open>The kernel does not touch the receivers of the relay.\<close>

interpretation receivers: control_inv "\<lambda>k :: kernel. kn_attached k \<and> rl_receivers (kn_relay k) = r" "\<lambda>_ _. True" for r
proof
  fix k :: kernel and sid src sinks prefs
  assume "kn_attached k \<and> rl_receivers (kn_relay k) = r"
  then show "kn_attached (snd (build_session sid src sinks prefs k)) \<and> rl_receivers (kn_relay (snd (build_session sid src sinks prefs k))) = r"
    by (cases "sinks = []") (simp_all add: build_refused build_fields)
next
  fix k :: kernel and sid chk
  assume "kn_attached k \<and> rl_receivers (kn_relay k) = r"
  then show "kn_attached (snd (teardown_internal sid chk k)) \<and> rl_receivers (kn_relay (snd (teardown_internal sid chk k))) = r"
    using teardown_fields [OF refl, of sid chk k] by fastforce
next
  fix k :: kernel and now pin sid media ttl
  assume "kn_attached k \<and> rl_receivers (kn_relay k) = r"
  then show "kn_attached (snd (create_share_token now pin sid media ttl k)) \<and> rl_receivers (kn_relay (snd (create_share_token now pin sid media ttl k))) = r"
    using token_fields [OF refl, of now pin sid media ttl k] by fastforce
next
  fix k :: kernel and sid code
  assume "kn_attached k \<and> rl_receivers (kn_relay k) = r"
  then show "kn_attached (snd (authorize_session sid code k)) \<and> rl_receivers (kn_relay (snd (authorize_session sid code k))) = r"
    using authorise_fields [OF refl, of sid code k] by fastforce
qed (simp add: same_control_def)


text \<open>A session with an access code has its code on record, and is authorised only
  where that very code was presented.\<close>

definition pin_ok :: "kernel_event set \<Rightarrow> kernel \<Rightarrow> bool" where
  "pin_ok evs k \<longleftrightarrow> (\<forall>sid s. map_of (kn_sessions k) sid = Some s \<and> ss_requires_pin s \<longrightarrow>
     (\<exists>c. map_of (kn_pins k) sid = Some c \<and> (ss_authorized s \<longrightarrow> KAuthorize sid (Some c) \<in> evs)))"

lemma pin_okD:
  "pin_ok evs k \<Longrightarrow> map_of (kn_sessions k) sid = Some s \<Longrightarrow> ss_requires_pin s \<Longrightarrow>
   \<exists>c. map_of (kn_pins k) sid = Some c \<and> (ss_authorized s \<longrightarrow> KAuthorize sid (Some c) \<in> evs)"
  unfolding pin_ok_def by blast

lemma pin_okI:
  "(\<And>sid s. map_of (kn_sessions k) sid = Some s \<Longrightarrow> ss_requires_pin s \<Longrightarrow>
     \<exists>c. map_of (kn_pins k) sid = Some c \<and> (ss_authorized s \<longrightarrow> KAuthorize sid (Some c) \<in> evs)) \<Longrightarrow> pin_ok evs k"
  unfolding pin_ok_def by blast

lemma pin_same: "pin_ok evs k \<Longrightarrow> kn_sessions k' = kn_sessions k \<Longrightarrow> kn_pins k' = kn_pins k \<Longrightarrow> pin_ok evs k'"
  by (simp add: pin_ok_def)

lemma pin_build:
  assumes ok: "pin_ok evs k"
  shows "pin_ok evs (snd (build_session sid src sinks prefs k))"
proof (cases "sinks = []")
  case False
  note B = build_fields [OF False, where sid = sid and src = src and prefs = prefs and k = k]
  obtain s where s: "kn_sessions (snd (build_session sid src sinks prefs k)) = AList.update sid s (kn_sessions k)"
    "ss_requires_pin s \<longleftrightarrow> sp_access_code prefs \<noteq> None" "ss_authorized s \<longleftrightarrow> sp_access_code prefs = None"
    using B(5) by (elim exE conjE) (rule that)
  show ?thesis
  proof (rule pin_okI, unfold s(1) B(4))
    fix x t
    assume t: "map_of (AList.update sid s (kn_sessions k)) x = Some t" "ss_requires_pin t"
    show "\<exists>c. map_of (case sp_access_code prefs of None \<Rightarrow> kn_pins k | Some c \<Rightarrow> AList.update sid c (kn_pins k)) x = Some c
        \<and> (ss_authorized t \<longrightarrow> KAuthorize x (Some c) \<in> evs)"
    proof (cases "x = sid")
      case True
      then show ?thesis using t s(2,3) by (cases "sp_access_code prefs") simp_all
    next
      case False
      then show ?thesis using pin_okD [OF ok, of x t] t by (cases "sp_access_code prefs") simp_all
    qed
  qed
qed (use ok in \<open>simp add: build_refused\<close>)

lemma pin_torn:
  assumes ok: "pin_ok evs k"
  shows "pin_ok evs (snd (teardown_internal sid chk k))"
proof -
  define k' where "k' = snd (teardown_internal sid chk k)"
  have "pin_ok evs k'" using teardown_fields [OF k'_def]
  proof (elim disjE conjE)
    assume 1: "kn_sessions k' = AList.delete sid (kn_sessions k)" "kn_pins k' = AList.delete sid (kn_pins k)"
    show ?thesis
    proof (rule pin_okI, unfold 1)
      fix x t
      assume t: "map_of (AList.delete sid (kn_sessions k)) x = Some t" "ss_requires_pin t"
      then have x: "x \<noteq> sid" "map_of (kn_sessions k) x = Some t" by (auto split: if_splits)
      show "\<exists>c. map_of (AList.delete sid (kn_pins k)) x = Some c \<and> (ss_authorized t \<longrightarrow> KAuthorize x (Some c) \<in> evs)"
        using pin_okD [OF ok x(2) t(2)] x(1) by simp
    qed
  qed (use ok in simp)
  then show ?thesis by (simp add: k'_def)
qed

lemma pin_token: "pin_ok evs k \<Longrightarrow> pin_ok evs (snd (create_share_token now pin sid media ttl k))"
  using token_fields [OF refl, of now pin sid media ttl k] by (elim disjE) (simp_all add: pin_same [of evs k])

lemma pin_authorise:
  assumes ok: "pin_ok evs k" and au: "KAuthorize sid code \<in> evs"
  shows "pin_ok evs (snd (authorize_session sid code k))"
proof -
  define k' where "k' = snd (authorize_session sid code k)"
  have "pin_ok evs k'" using authorise_fields [OF k'_def]
  proof (elim disjE exE conjE)
    fix s assume s: "map_of (kn_sessions k) sid = Some s" "pin_authorize sid code k = Inr ()"
      and k': "k' = k\<lparr> kn_sessions := AList.update sid (s\<lparr> ss_authorized := True \<rparr>) (kn_sessions k) \<rparr>"
    have c: "\<exists>c. map_of (kn_pins k) sid = Some c \<and> KAuthorize sid (Some c) \<in> evs" if "ss_requires_pin s"
      using pin_okD [OF ok s(1) that] s(2) au by (auto simp: pin_authorize_def split: option.splits if_splits)
    show ?thesis
    proof (rule pin_okI, unfold k')
      fix x t
      assume t: "map_of (kn_sessions (k\<lparr> kn_sessions := AList.update sid (s\<lparr> ss_authorized := True \<rparr>) (kn_sessions k) \<rparr>)) x = Some t"
        "ss_requires_pin t"
      show "\<exists>c. map_of (kn_pins (k\<lparr> kn_sessions := AList.update sid (s\<lparr> ss_authorized := True \<rparr>) (kn_sessions k) \<rparr>)) x = Some c
          \<and> (ss_authorized t \<longrightarrow> KAuthorize x (Some c) \<in> evs)"
      proof (cases "x = sid")
        case True
        then show ?thesis using t c by auto
      next
        case False
        then show ?thesis using pin_okD [OF ok, of x t] t by simp
      qed
    qed
  qed (use ok in simp)
  then show ?thesis by (simp add: k'_def)
qed

interpretation pins: control_inv "pin_ok evs" "\<lambda>sid code. KAuthorize sid code \<in> evs" for evs
proof
  show "pin_ok evs k'" if "pin_ok evs k" "same_control k k'" for k k'
    using pin_same [OF that(1)] that(2) by (simp add: same_control_def)
qed (simp_all add: pin_build pin_torn pin_token pin_authorise)

lemma pin_run:
  assumes "set evs \<subseteq> E" and "pin_ok E k"
  shows "pin_ok E (fold kernel_step evs k)"
  using assms
proof (induction evs arbitrary: k)
  case (Cons ev evs)
  have "pin_ok E (kernel_step ev k)" using Cons.prems by (intro pins.step_keeps) auto
  then show ?case using Cons by simp
qed simp


section \<open>The system\<close>

record system =
  sy_kernel :: kernel
  sy_world :: relay_world

datatype sys_event = SKernel kernel_event | SRelay world_event

text \<open>The relay asks the kernel's validator.\<close>

definition with_kernel :: "kernel \<Rightarrow> relay_env \<Rightarrow> relay_env" where
  "with_kernel k env = env\<lparr> re_validate := Some (kernel_validate (re_now env) k) \<rparr>"

fun asks_kernel :: "kernel \<Rightarrow> world_event \<Rightarrow> world_event" where
  "asks_kernel k (WConnect env loc kf_ok first) = WConnect (with_kernel k env) loc kf_ok first"
| "asks_kernel k (WPacket i env input) = WPacket i (with_kernel k env) input"
| "asks_kernel k (WQuicPush env loc r) = WQuicPush (with_kernel k env) loc r"
| "asks_kernel k ev = ev"

definition sys_start :: "string \<Rightarrow> system" where
  "sys_start name = \<lparr> sy_kernel = attach_data_plane (relay_new True) (kernel_new name), sy_world = relay_start True \<rparr>"

fun sys_step :: "sys_event \<Rightarrow> system \<Rightarrow> system" where
  "sys_step (SKernel ev) s =
     (let k = kernel_step ev (sy_kernel s)
      in \<lparr> sy_kernel = k, sy_world = (sy_world s)\<lparr> rw_state := kn_relay k \<rparr> \<rparr>)"
| "sys_step (SRelay ev) s =
     (if \<not> session_event ev then s
      else let w = world_step (asks_kernel (sy_kernel s) ev) (sy_world s)
           in \<lparr> sy_kernel = (sy_kernel s)\<lparr> kn_relay := rw_state w \<rparr>, sy_world = w \<rparr>)"

definition sys_ok :: "system \<Rightarrow> bool" where
  "sys_ok s \<longleftrightarrow> rw_state (sy_world s) = kn_relay (sy_kernel s) \<and> world_ok (sy_world s) \<and> admission_ok (sy_kernel s)"

lemma kernel_relay_has [simp]: "has_session sid (k\<lparr> kn_relay := rl \<rparr>) = has_session sid k"
  by (simp add: has_session_def)

text \<open>An admitted push is for an open session.\<close>

lemma admitted_has_session:
  assumes "admission_ok k" and "admitted (with_kernel k env) loc sid tok (kn_relay k)"
  shows "has_session sid k"
proof -
  have tok: "has_session (tok_stream_id t) k" if "kernel_validate now k t" for now t
    using that assms(1) by (auto simp: kernel_validate_def verify_share_token_def admission_ok_def split: option.splits if_splits)
  show ?thesis using assms tok by (auto simp: admitted_def with_kernel_def admission_ok_def)
qed

lemma push_admitted_session:
  assumes "admission_ok k" and "rw_state w = kn_relay k" and "push_admitted (asks_kernel k ev) w sid"
  shows "has_session sid k"
  using assms(3) admitted_has_session [OF assms(1)] unfolding push_admitted_def assms(2)
  by (cases ev) auto

interpretation sys: stepper sys_step sys_ok
proof
  fix s ev assume ok: "sys_ok s"
  then have eq: "rw_state (sy_world s) = kn_relay (sy_kernel s)" and w: "world_ok (sy_world s)"
    and a: "admission_ok (sy_kernel s)" by (simp_all add: sys_ok_def)
  have t: "shards_ok (rw_state (sy_world s))" using w by (simp add: world_ok_def table_okD)
  show "sys_ok (sys_step ev s)"
  proof (cases ev)
    case (SKernel kev)
    have a': "admission_ok (kernel_step kev (sy_kernel s))" by (rule admission.step_keeps [OF a TrueI])
    have "rl_receivers (kn_relay (kernel_step kev (sy_kernel s))) = rl_receivers (kn_relay (sy_kernel s))"
      using receivers.step_keeps [OF _ TrueI, of "sy_kernel s" "rl_receivers (kn_relay (sy_kernel s))" kev] a
      by (simp add: admission_ok_def)
    then have "world_ok ((sy_world s)\<lparr> rw_state := kn_relay (kernel_step kev (sy_kernel s)) \<rparr>)"
      using world_ok_state [OF w, of "kn_relay (kernel_step kev (sy_kernel s))"] a' eq by (simp add: admission_ok_def)
    then show ?thesis using a' SKernel by (simp add: sys_ok_def Let_def)
  next
    case (SRelay wev)
    show ?thesis
    proof (cases "session_event wev")
      case True
      define wev' where "wev' = asks_kernel (sy_kernel s) wev"
      have se: "session_event wev'" using True by (cases wev) (simp_all add: wev'_def session_event_def)
      define rl where "rl = rw_state (world_step wev' (sy_world s))"
      have fr: "relay_frame (kn_relay (sy_kernel s)) rl"
        using session_event_frame [OF t se] by (simp add: rl_def eq)
      have t': "table_ok rl" "world_ok (world_step wev' (sy_world s))"
        using world.step_inv [OF w] by (simp_all add: rl_def world_ok_def)
      have str: "has_session sid (sy_kernel s) \<or> has_key (rl_proxies rl) sid" if e: "relay_get sid rl = Some e" for sid e
      proof (cases "relay_get sid (kn_relay (sy_kernel s))")
        case None
        from e consider "push_admitted wev' (sy_world s) sid" | now up info where "wev' = WProxy now up sid info"
          using new_stream_admitted [OF t, of sid wev'] None by (auto simp: eq rl_def)
        then show ?thesis
        proof cases
          case 1
          then show ?thesis using push_admitted_session [OF a eq] by (simp add: wev'_def)
        next
          case 2
          then have "rl = snd (start_proxy now up sid (map_option (\<lambda>i. i\<lparr> si_stream_id := sid \<rparr>) info) (kn_relay (sy_kernel s)))"
            by (simp add: rl_def eq)
          then show ?thesis using e None by (auto simp: start_proxy_def Let_def relay_emit_def split: if_splits)
        qed
      next
        case (Some e0)
        then have "has_session sid (sy_kernel s) \<or> has_key (rl_proxies (kn_relay (sy_kernel s))) sid"
          using a by (auto simp: admission_ok_def)
        then show ?thesis using fr e by (auto simp: relay_frame_def)
      qed
      have "admission_ok ((sy_kernel s)\<lparr> kn_relay := rl \<rparr>)"
        using a fr t'(1) str by (auto simp: admission_ok_def relay_frame_def)
      then show ?thesis using True SRelay t'(2) by (simp add: sys_ok_def Let_def rl_def wev'_def)
    qed (use ok SRelay in simp)
  qed
qed

lemma sys_ok_start: "sys_ok (sys_start name)"
  using world_ok_start [of True]
  by (simp add: sys_ok_def sys_start_def attach_data_plane_def remember_self_def kernel_new_def relay_start_def
    admission_ok_def table_ok_new has_session_def has_key_def distinct_keys_def) (simp add: relay_new_def)


lemma sys_run: "sys_ok (fold sys_step evs (sys_start name))"
  by (rule sys.fold_inv [OF sys_ok_start])


section \<open>Properties\<close>


definition push_as :: "stream_id \<Rightarrow> world_event" where
  "push_as sid = WConnect any_env True True (PushPkt (ControlPkt (Hello sid ''t'' None None None)))"

lemma first_id: "hex_digits 1 = ''1''"
  by code_simp

definition pushed :: system where
  "pushed = fold sys_step [SKernel (KCreate ''t'' [''local'']), SRelay (push_as ''sess-1'')] (sys_start ''h'')"

lemma pushed_live:
  "relay_get ''sess-1'' (rw_state (sy_world pushed)) \<noteq> None"
  "\<not> has_key (rl_proxies (rw_state (sy_world pushed))) ''sess-1''"
  using shards_ok_new [of True]
  by (simp add: pushed_def sys_start_def push_as_def session_event_def add_conn_def push_new_def is_allowed_def is_authorized_def
    attach_data_plane_def remember_self_def kernel_new_def create_session_def build_session_def dp_authorize_def Let_def
    first_id [unfolded One_nat_def] relay_start_def open_stream_get)
  (simp add: pushed_def sys_start_def push_as_def session_event_def add_conn_def push_new_def is_allowed_def is_authorized_def
    attach_data_plane_def remember_self_def kernel_new_def create_session_def build_session_def dp_authorize_def Let_def
    first_id [unfolded One_nat_def] relay_start_def relay_new_def authorize_stream_def has_key_def)



definition one_session :: kernel where
  "one_session = snd (create_session ''t'' [''local''] (kernel_new ''h''))"

lemma one_session_has: "has_session ''sess-1'' one_session" "kn_tokens one_session = []"
  by (simp_all add: one_session_def create_session_def build_session_def kernel_new_def dp_authorize_def has_session_def
    has_key_def Let_def first_id [unfolded One_nat_def])


text \<open>C15. Sessions with an access code: in every state the kernel reaches, such a session
  has its code on record; it is authorised only if some request presented exactly that
  code; and until then the control interface neither tears it down nor authorises it for
  a wrong or missing code, and leaves the kernel as it is.\<close>

theorem pin_sessions_need_their_code:
  assumes "k = fold kernel_step evs (kernel_new name)"
    and "map_of (kn_sessions k) sid = Some s" and "ss_requires_pin s"
  shows "\<exists>c. map_of (kn_pins k) sid = Some c
    \<and> (ss_authorized s \<longrightarrow> KAuthorize sid (Some c) \<in> set evs)
    \<and> (\<not> ss_authorized s \<longrightarrow> teardown sid k = (Inl PinRequired, k))
    \<and> authorize_session sid None k = (Inl PinRequired, k)
    \<and> (\<forall>c'. c' \<noteq> c \<longrightarrow> authorize_session sid (Some c') k = (Inl PinMismatch, k))
    \<and> fst (authorize_session sid (Some c) k) = Inr ()
    \<and> fst (teardown sid (snd (authorize_session sid (Some c) k))) = Inr ()"
proof -
  have "pin_ok (set evs) (kernel_new name)" by (rule pin_okI) (simp add: kernel_new_def)
  from pin_run [OF subset_refl this] have ok: "pin_ok (set evs) k" by (simp add: assms(1))
  from pin_okD [OF this assms(2,3)] obtain c where c: "map_of (kn_pins k) sid = Some c"
    "ss_authorized s \<longrightarrow> KAuthorize sid (Some c) \<in> set evs" by blast
  have "\<not> ss_authorized s \<longrightarrow> teardown sid k = (Inl PinRequired, k)"
    using assms(2,3) by (simp add: teardown_def teardown_internal_def require_authorized_def session_require_authorized_def)
  moreover have "authorize_session sid None k = (Inl PinRequired, k)"
    "c' \<noteq> c \<Longrightarrow> authorize_session sid (Some c') k = (Inl PinMismatch, k)" for c'
    using c(1) by (simp_all add: authorize_session_def pin_authorize_def)
  moreover have "fst (authorize_session sid (Some c) k) = Inr ()"
    "fst (teardown sid (snd (authorize_session sid (Some c) k))) = Inr ()"
    using c(1) assms(2) by (simp_all add: authorize_session_def pin_authorize_def mark_authorized_def
      teardown_def teardown_internal_def require_authorized_def session_require_authorized_def Let_def)
  ultimately show ?thesis using c by blast
qed

definition coded :: session_prefs where
  "coded = \<lparr> sp_profile = Lossy, sp_preferred_transport = None, sp_access_code = Some ''42'', sp_title = ''t'' \<rparr>"

lemma pin_sessions_need_their_code_witness:
  "teardown ''s'' (fold kernel_step [KOpen ''s'' ''local'' [''local''] coded] (kernel_new ''h''))
     = (Inl PinRequired, fold kernel_step [KOpen ''s'' ''local'' [''local''] coded] (kernel_new ''h''))"
proof -
  let ?k = "fold kernel_step [KOpen ''s'' ''local'' [''local''] coded] (kernel_new ''h'')"
  obtain s where "map_of (kn_sessions ?k) ''s'' = Some s" "ss_requires_pin s" "\<not> ss_authorized s"
    by (simp add: ensure_session_with_id_def build_session_def kernel_new_def coded_def Let_def set_code_def dp_authorize_def)
  then show ?thesis using pin_sessions_need_their_code [of ?k, OF refl] by blast
qed


text \<open>The forwarding task reads the relay's events one by one; \<open>c\<close> is the number read so
  far, and handling an event may make the relay emit further ones.\<close>

fun forward_all :: "nat \<Rightarrow> nat \<Rightarrow> nat \<Rightarrow> kernel \<Rightarrow> nat \<times> kernel" where
  "forward_all now 0 c k = (c, k)"
| "forward_all now (Suc n) c k =
     (if c < length (rl_events (kn_relay k))
      then forward_all now n (c + 1) (kernel_forward now (rl_events (kn_relay k) ! c) k)
      else (c, k))"

text \<open>What reaping does to each table.\<close>

lemma reap_fields:
  assumes "kn_attached k" and k': "k' = snd (reap_stream now sid k)"
  shows "kn_shares k' = AList.delete sid (kn_shares k)"
    and "kn_engines k' = removeAll sid (kn_engines k)"
    and "has_session x k' \<longleftrightarrow> x \<noteq> sid \<and> has_session x k"
    and "kn_relay k' = (if has_session sid k then revoke_stream sid (kn_relay k) else kn_relay k)"
    and "kn_attached k'"
  unfolding k' using assms(1)
  by (simp_all add: reap_stream_def clear_active_share_def kernel_set_state_def force_teardown_def teardown_internal_def
    set_code_def dp_revoke_def has_session_def Let_def split: option.split) blast+

definition live_streams :: "relay_state \<Rightarrow> nat" where
  "live_streams rl = length (concat (rl_shards rl))"

lemma length_concat_update:
  "i < length xss \<Longrightarrow> length (concat (xss[i := ys])) + length (xss ! i) = length (concat xss) + length ys"
proof (induction xss arbitrary: i)
  case (Cons xs xss)
  then show ?case by (cases i) auto
qed simp

lemma length_delete: "length (AList.delete x al) \<le> length al" "has_key al x \<Longrightarrow> length (AList.delete x al) < length al"
proof -
  show "length (AList.delete x al) \<le> length al" by (simp add: AList.delete_eq)
  assume "has_key al x"
  then obtain p where "p \<in> set al" "fst p = x" by (auto simp: has_key_keys)
  then show "length (AList.delete x al) < length al"
    unfolding AList.delete_eq using length_filter_less [of p al "\<lambda>(k', _). x \<noteq> k'"] by (auto simp: case_prod_beta)
qed

lemma revoke_effects:
  assumes "shards_ok rl"
  shows "\<exists>out. rl_events (revoke_stream sid rl) = rl_events rl @ out
     \<and> length out + live_streams (revoke_stream sid rl) \<le> live_streams rl"
proof -
  let ?k = "shard_for sid"
  have k: "?k < length (rl_shards rl)" using assms shard_for_less by (simp add: shards_ok_def)
  have sh: "rl_shards (revoke_stream sid rl) = (rl_shards rl)[?k := AList.delete sid (rl_shards rl ! ?k)]"
    by (simp add: revoke_stream_def end_stream_def relay_remove_def relay_emit_def shard_del_def Let_def split: bool.split)
  have ev: "rl_events (revoke_stream sid rl) = rl_events rl @ (if relay_get sid rl = None then [] else [StreamEnded sid])"
    by (simp add: revoke_stream_def end_stream_events)
  have "has_key (rl_shards rl ! ?k) sid \<longleftrightarrow> relay_get sid rl \<noteq> None" by (simp add: has_key_def relay_get_def)
  then have "length (if relay_get sid rl = None then [] else [StreamEnded sid]) + live_streams (revoke_stream sid rl) \<le> live_streams rl"
    unfolding live_streams_def sh
    using length_concat_update [OF k, of "AList.delete sid (rl_shards rl ! ?k)"] length_delete [where x = sid and al = "rl_shards rl ! ?k"]
    by auto
  then show ?thesis using ev by blast
qed

lemma shards_ok_revoke: "shards_ok rl \<Longrightarrow> shards_ok (revoke_stream sid rl)"
  by (simp add: revoke_stream_def end_stream_def relay_remove_def relay_emit_def streams.ok_del split: bool.split)

text \<open>Handling one event.\<close>

lemma forward_effects:
  assumes "kn_attached k" and "shards_ok (kn_relay k)" and k': "k' = kernel_forward now ev k"
  shows "kn_attached k'" and "shards_ok (kn_relay k')"
    and "\<exists>out. rl_events (kn_relay k') = rl_events (kn_relay k) @ out
           \<and> length out + live_streams (kn_relay k') \<le> live_streams (kn_relay k)"
    and "has_session x k' \<Longrightarrow> has_session x k \<and> ev \<noteq> StreamEnded x"
    and "has_key (kn_shares k') x \<Longrightarrow> has_key (kn_shares k) x \<and> ev \<noteq> StreamEnded x"
    and "x \<in> set (kn_engines k') \<Longrightarrow> x \<in> set (kn_engines k) \<and> ev \<noteq> StreamEnded x"
proof -
  have "kn_attached k' \<and> shards_ok (kn_relay k')
    \<and> (\<exists>out. rl_events (kn_relay k') = rl_events (kn_relay k) @ out
           \<and> length out + live_streams (kn_relay k') \<le> live_streams (kn_relay k))
    \<and> (has_session x k' \<longrightarrow> has_session x k \<and> ev \<noteq> StreamEnded x)
    \<and> (has_key (kn_shares k') x \<longrightarrow> has_key (kn_shares k) x \<and> ev \<noteq> StreamEnded x)
    \<and> (x \<in> set (kn_engines k') \<longrightarrow> x \<in> set (kn_engines k) \<and> ev \<noteq> StreamEnded x)"
  proof (cases ev)
    case (StreamEnded sid)
    then have "k' = snd (reap_stream now sid k)" by (simp add: k')
    note R = reap_fields [OF assms(1) this]
    show ?thesis
      using revoke_effects [OF assms(2), of sid] shards_ok_revoke [OF assms(2)] assms(2) StreamEnded
      by (cases "has_session sid k") (auto simp: R)
  qed (use assms in \<open>auto simp: kernel_set_state_def has_session_def split: option.split\<close>)
  then show "kn_attached k'" and "shards_ok (kn_relay k')"
    and "\<exists>out. rl_events (kn_relay k') = rl_events (kn_relay k) @ out
           \<and> length out + live_streams (kn_relay k') \<le> live_streams (kn_relay k)"
    and "has_session x k' \<Longrightarrow> has_session x k \<and> ev \<noteq> StreamEnded x"
    and "has_key (kn_shares k') x \<Longrightarrow> has_key (kn_shares k) x \<and> ev \<noteq> StreamEnded x"
    and "x \<in> set (kn_engines k') \<Longrightarrow> x \<in> set (kn_engines k) \<and> ev \<noteq> StreamEnded x"
    by blast+
qed

definition settled :: "stream_id \<Rightarrow> kernel \<Rightarrow> bool" where
  "settled sid k \<longleftrightarrow> \<not> has_session sid k \<and> \<not> has_key (kn_shares k) sid \<and> sid \<notin> set (kn_engines k)"

lemma forward_settles:
  assumes "kn_attached k" and "shards_ok (kn_relay k)" and "settled x k \<or> ev = StreamEnded x"
  shows "settled x (kernel_forward now ev k)"
  using forward_effects(4,5,6) [OF assms(1,2) refl, where x = x and now = now and ev = ev] assms(3) by (auto simp: settled_def)

lemma forward_all_catches_up:
  assumes "kn_attached k" and "shards_ok (kn_relay k)" and "c \<le> length (rl_events (kn_relay k))"
    and "length (rl_events (kn_relay k)) - c + live_streams (kn_relay k) \<le> n"
    and "forward_all now n c k = (c', k')"
  shows "c' = length (rl_events (kn_relay k')) \<and> (\<exists>zs. rl_events (kn_relay k') = rl_events (kn_relay k) @ zs)
     \<and> (\<forall>x. settled x k \<or> StreamEnded x \<in> set (drop c (rl_events (kn_relay k'))) \<longrightarrow> settled x k')"
  using assms
proof (induction n arbitrary: c k)
  case 0
  then show ?case by auto
next
  case (Suc n)
  show ?case
  proof (cases "c < length (rl_events (kn_relay k))")
    case False
    then show ?thesis using Suc.prems by auto
  next
    case True
    define ev where "ev = rl_events (kn_relay k) ! c"
    define k1 where "k1 = kernel_forward now ev k"
    note F = forward_effects [OF Suc.prems(1,2) k1_def]
    obtain out where out: "rl_events (kn_relay k1) = rl_events (kn_relay k) @ out"
      "length out + live_streams (kn_relay k1) \<le> live_streams (kn_relay k)" using F(3) by blast
    have run: "forward_all now n (c + 1) k1 = (c', k')" using Suc.prems(5) True by (simp add: k1_def ev_def)
    have "c' = length (rl_events (kn_relay k')) \<and> (\<exists>zs. rl_events (kn_relay k') = rl_events (kn_relay k1) @ zs)
       \<and> (\<forall>x. settled x k1 \<or> StreamEnded x \<in> set (drop (c + 1) (rl_events (kn_relay k'))) \<longrightarrow> settled x k')"
      by (rule Suc.IH [OF F(1,2) _ _ run]) (use out True Suc.prems(4) in auto)
    then obtain zs where zs: "c' = length (rl_events (kn_relay k'))" "rl_events (kn_relay k') = rl_events (kn_relay k1) @ zs"
      and st: "\<And>x. settled x k1 \<or> StreamEnded x \<in> set (drop (c + 1) (rl_events (kn_relay k'))) \<Longrightarrow> settled x k'" by blast
    have "drop c (rl_events (kn_relay k')) = ev # drop (c + 1) (rl_events (kn_relay k'))"
      using True unfolding zs(2) out(1) ev_def by (subst Cons_nth_drop_Suc [symmetric]) (auto simp: nth_append)
    then show ?thesis
      using zs out(1) st forward_settles [OF Suc.prems(1,2), of _ ev now] by (auto simp: k1_def)
  qed
qed

lemma forward_all_admission:
  "admission_ok k \<Longrightarrow> admission_ok (snd (forward_all now n c k))"
proof (induction n arbitrary: c k)
  case (Suc n)
  have "admission_ok (kernel_forward now ev k)" for ev
    using admission.step_keeps [OF Suc.prems TrueI, of "KForward now ev"] by simp
  then show ?case using Suc by simp
qed simp



definition torn_down :: system where
  "torn_down = fold sys_step
     [SKernel (KCreate ''t'' [''local'']), SRelay (push_as ''sess-1''), SKernel (KForceTeardown ''sess-1'')] (sys_start ''h'')"

lemma torn_down_step: "torn_down = sys_step (SKernel (KForceTeardown ''sess-1'')) pushed"
  by (simp only: torn_down_def pushed_def fold_simps)


end
