(* ===== verification/Negotiator.thy ===== *)
theory Negotiator
  imports System
begin

text \<open>
  The access counter of \<open>stross-kernel/src/negotiator/mod.rs\<close>: trusted nodes, the
  decision table, grants, requests that wait for the user, the directory and the end of
  a subscription, over the kernel; and the loader of \<open>stross-serialize\<close> that decides
  which strategies can be granted.  The clock and random PINs are arguments; what an
  HTTP client gets is a value of \<open>reply\<close>.  Writing the trust list to disk is left out:
  the list is what counts while the host runs.
\<close>


section \<open>Serialisation\<close>

record loader =
  ld_serialize :: serialize_rule
  ld_rule :: pick_rule

definition loader_for :: "endpoint_strategy \<Rightarrow> loader option" where
  "loader_for s =
     (case es_serialize s of
        SerPassthrough \<Rightarrow> Some \<lparr> ld_serialize = es_serialize s, ld_rule = es_pick s \<rparr>
      | SerChunked \<Rightarrow> None)"

fun track_codec_bytes :: "codec_id \<Rightarrow> (u8 \<times> u8) option" where
  "track_codec_bytes H264 = Some (TRACK_VIDEO, CODEC_H264)"
| "track_codec_bytes Aac = Some (TRACK_AUDIO, CODEC_AAC)"
| "track_codec_bytes Opus = None"
| "track_codec_bytes Av1 = None"

definition loader_load :: "loader \<Rightarrow> track_info \<Rightarrow> bytes \<Rightarrow> u32 \<Rightarrow> frame list" where
  "loader_load ld tk payload pts =
     (case track_codec_bytes (tk_codec tk) of
        Some (track, codec) \<Rightarrow> [frame_new track codec 0 pts payload]
      | None \<Rightarrow> [])"


section \<open>Trust\<close>

record trusted_node =
  tn_name :: string
  tn_added_at :: nat

type_synonym trust_store = "(node_id \<times> trusted_node) list"

definition is_trusted :: "node_id \<Rightarrow> trust_store \<Rightarrow> bool" where
  "is_trusted n store \<longleftrightarrow> has_key store n"

definition trusted_name :: "node_id \<Rightarrow> trust_store \<Rightarrow> string option" where
  "trusted_name n store = map_option tn_name (map_of store n)"

definition remember :: "nat \<Rightarrow> node_id \<Rightarrow> string \<Rightarrow> trust_store \<Rightarrow> trust_store" where
  "remember now n name store = AList.update n \<lparr> tn_name = name, tn_added_at = now \<rparr> store"


section \<open>Messages\<close>

record relay_addr =
  ra_ws_port :: u16
  ra_srt_port :: "u16 option"
  ra_quic_port :: "u16 option"

record share_request =
  rq_node_id :: node_id
  rq_node_name :: string
  rq_endpoint_id :: "u32 option"
  rq_endpoint_kind :: "media_kind option"
  rq_strategy_id :: "strategy_id option"
  rq_delivery_mode :: "delivery option"
  rq_relay_addr :: "string option"
  rq_share_token :: "string option"
  rq_media :: "media_kind list"

record share_grant =
  gr_view :: token_view
  gr_trusted :: bool
  gr_delivery :: "delivery option"
  gr_transports :: "transport_id list option"
  gr_transport_profile :: "profile option"
  gr_pick_rule :: "pick_rule option"
  gr_strategy :: "endpoint_strategy option"
  gr_relay :: "relay_addr option"

record unsubscribe_request =
  uq_node_id :: node_id
  uq_endpoint_kind :: media_kind
  uq_endpoint_id :: u32

datatype reject_reason = NotOnList | UserRefused

datatype neg_error = KernelError control_error | UnsupportedSerialize serialize_rule endpoint_id strategy_id | NoSuchRequest nat

datatype reply =
    Granted share_grant
  | MediaMissing
  | EndpointGone
  | EndpointNotAvailable "string option"
  | Forbidden reject_reason
  | ServerError neg_error
  | RequestDropped
  | WaitTimedOut

datatype decision = DecGrant | DecPending | DecReject reject_reason

record pending_entry =
  pe_node_id :: node_id
  pe_node_name :: string
  pe_endpoint_id :: "endpoint_id option"
  pe_strategy_id :: "strategy_id option"
  pe_delivery_mode :: "delivery option"
  pe_relay_addr :: "string option"
  pe_share_token :: "string option"

text \<open>The server's state: the kernel, the trust list, the requests that wait for the
  user and the number of the next one.\<close>

record negotiator =
  ng_kernel :: kernel
  ng_store :: trust_store
  ng_pending :: "(nat \<times> pending_entry) list"
  ng_next :: nat


section \<open>Decisions and grants\<close>

definition policy_decision :: "trust_store \<Rightarrow> endpoint_manifest option \<Rightarrow> node_id \<Rightarrow> decision" where
  "policy_decision store ep requester =
     (case ep of
        None \<Rightarrow> if is_trusted requester store then DecGrant else DecPending
      | Some m \<Rightarrow>
          (case em_visibility m of
             Public \<Rightarrow> DecGrant
           | Confirm \<Rightarrow> if is_trusted requester store then DecGrant else DecPending
           | Private nodes \<Rightarrow> if requester \<in> set nodes then DecGrant else DecReject NotOnList))"

definition checked_strategy ::
  "endpoint_manifest \<Rightarrow> strategy_id option \<Rightarrow> neg_error + endpoint_strategy" where
  "checked_strategy m sid =
     (let s = manifest_strategy (map_option strategy_as_str sid) m
      in if loader_for s = None then Inl (UnsupportedSerialize (es_serialize s) (em_id m) (es_strategy_id s))
         else Inr s)"

definition relay_addr_of :: "kernel \<Rightarrow> relay_addr option" where
  "relay_addr_of k =
     map_option (\<lambda>(ws, srt, quic). \<lparr> ra_ws_port = ws, ra_srt_port = srt, ra_quic_port = quic \<rparr>) (kn_relay_ports k)"

definition stream_view :: "stream_id \<Rightarrow> token_view" where
  "stream_view sid = \<lparr> tv_token = None, tv_stream_id = sid, tv_pin = [], tv_expires_at = 0 \<rparr>"

definition DEFAULT_GRANT_TTL_SECS :: nat where
  "DEFAULT_GRANT_TTL_SECS = 600"

definition compose_grant ::
  "nat \<Rightarrow> string \<Rightarrow> trust_store \<Rightarrow> node_id \<Rightarrow> endpoint_manifest option \<Rightarrow> strategy_id option
     \<Rightarrow> media_kind list \<Rightarrow> string \<Rightarrow> kernel \<Rightarrow> (neg_error + share_grant) \<times> kernel" where
  "compose_grant now pin store node ep sid media title k =
     (case Option.bind ep (\<lambda>m. map_option (\<lambda>(s, _). (m, s)) (active_share_by_endpoint (em_id m) k)) of
        Some (m, s) \<Rightarrow>
          (map_sum id (\<lambda>st. \<lparr> gr_view = stream_view s, gr_trusted = is_trusted node store, gr_delivery = Some Pull,
              gr_transports = Some (map tp_transport (em_transports m)),
              gr_transport_profile = Some (em_transport_profile m), gr_pick_rule = Some (em_pick_rule m),
              gr_strategy = Some st, gr_relay = relay_addr_of k \<rparr>) (checked_strategy m sid), k)
      | None \<Rightarrow>
          (case ep of
             None \<Rightarrow>
               (case issue_share_token_for now pin title media (Some DEFAULT_GRANT_TTL_SECS) k of
                  (Inl e, k1) \<Rightarrow> (Inl (KernelError e), k1)
                | (Inr view, k1) \<Rightarrow>
                    (Inr \<lparr> gr_view = view, gr_trusted = is_trusted node store, gr_delivery = None,
                       gr_transports = None, gr_transport_profile = None, gr_pick_rule = None,
                       gr_strategy = None, gr_relay = None \<rparr>, k1))
           | Some m \<Rightarrow>
               (case ensure_session_with_id (manifest_stream m) ''local'' [''local'']
                       \<lparr> sp_profile = Lossy, sp_preferred_transport = None, sp_access_code = None, sp_title = title \<rparr> k of
                  (Inl e, k1) \<Rightarrow> (Inl (KernelError e), k1)
                | (Inr _, k1) \<Rightarrow>
                    (map_sum id (\<lambda>st. \<lparr> gr_view = stream_view (manifest_stream m), gr_trusted = is_trusted node store,
                        gr_delivery = Some Pull, gr_transports = Some (map tp_transport (em_transports m)),
                        gr_transport_profile = Some (em_transport_profile m), gr_pick_rule = Some (em_pick_rule m),
                        gr_strategy = Some st, gr_relay = relay_addr_of k1 \<rparr>) (checked_strategy m sid), k1))))"

text \<open>A subscription is reached: the subscriber is noted, and the share starts unless the
  endpoint is shared already.\<close>

definition notify_subscribed ::
  "nat \<Rightarrow> endpoint_id option \<Rightarrow> share_grant \<Rightarrow> node_id \<Rightarrow> kernel \<Rightarrow> kernel" where
  "notify_subscribed now ep grant subscriber k0 =
     (let k = remember_self k0 in
      case (ep, gr_delivery grant) of
        (Some i, Some dlv) \<Rightarrow>
          let k1 = note_endpoint_subscribed now i subscriber k in
          if active_share_by_endpoint i k1 \<noteq> None then k1
          else
            let ctx = \<lparr> sc_subscriber = subscriber, sc_delivery = dlv, sc_stream_id = tv_stream_id (gr_view grant),
                        sc_profile = (case gr_transport_profile grant of Some p \<Rightarrow> p | None \<Rightarrow> Lossy),
                        sc_strategy = (case gr_strategy grant of Some s \<Rightarrow> s
                          | None \<Rightarrow> strategy_passthrough (case gr_pick_rule grant of Some r \<Rightarrow> r | None \<Rightarrow> Realtime)),
                        sc_relay_addr = None, sc_share_token = None \<rparr>
            in if endpoint_arc (own_ref (kn_registry k1) i) (ur_endpoints (kn_registry k1)) = None then k1
               else share_on_subscribed now i ctx k1
      | _ \<Rightarrow> k)"

text \<open>The titles of sessions: the words around the name are UTF-8 bytes.\<close>

definition share_title :: "string \<Rightarrow> string" where
  "share_title name =
     map char_of [0xE6 :: nat, 0x8E, 0xA5, 0xE6, 0x94, 0xB6, 0x20] @ name
       @ map char_of [0x20 :: nat, 0xE5, 0x85, 0xB1, 0xE4, 0xBA, 0xAB]"


section \<open>Handlers\<close>

definition request_endpoint :: "share_request \<Rightarrow> endpoint_id option" where
  "request_endpoint req =
     (case (rq_endpoint_kind req, rq_endpoint_id req) of
        (Some kind, Some i) \<Rightarrow> Some (EndpointId kind i)
      | _ \<Rightarrow> None)"

text \<open>A request is answered at once, or waits under a number.\<close>

datatype request_result = Answer reply | WaitFor nat

text \<open>The branch of a granted request.\<close>

definition grant_request ::
  "nat \<Rightarrow> string \<Rightarrow> share_request \<Rightarrow> endpoint_id option \<Rightarrow> endpoint_manifest option \<Rightarrow> negotiator
     \<Rightarrow> request_result \<times> negotiator" where
  "grant_request now pin req eid found n =
     (let title = share_title (case found of Some m \<Rightarrow> em_name m | None \<Rightarrow> rq_node_name req);
          media = (case found of Some m \<Rightarrow> [em_kind m] | None \<Rightarrow> rq_media req)
      in case compose_grant now pin (ng_store n) (rq_node_id req) found (rq_strategy_id req) media title (ng_kernel n) of
           (Inl e, k1) \<Rightarrow> (Answer (ServerError e), n\<lparr> ng_kernel := k1 \<rparr>)
         | (Inr g, k1) \<Rightarrow> (Answer (Granted g), n\<lparr> ng_kernel := notify_subscribed now eid g (rq_node_id req) k1 \<rparr>))"

definition handle_request ::
  "nat \<Rightarrow> string \<Rightarrow> share_request \<Rightarrow> negotiator \<Rightarrow> request_result \<times> negotiator" where
  "handle_request now pin req n =
     (let k = ng_kernel n;
          eid = request_endpoint req;
          found = Option.bind eid (\<lambda>i. unified_manifest i (kn_registry k))
      in case (eid, found) of
           (Some _, None) \<Rightarrow> (Answer EndpointGone, n)
         | _ \<Rightarrow>
             if (case found of Some m \<Rightarrow> \<not> em_available m | None \<Rightarrow> False)
             then (Answer (EndpointNotAvailable (Option.bind found em_last_error)), n)
             else if found = None \<and> rq_media req = [] then (Answer MediaMissing, n)
             else
               (case policy_decision (ng_store n) found (rq_node_id req) of
                  DecGrant \<Rightarrow> grant_request now pin req eid found n
                | DecReject r \<Rightarrow> (Answer (Forbidden r), n)
                | DecPending \<Rightarrow>
                    (WaitFor (ng_next n),
                     n\<lparr> ng_next := ng_next n + 1,
                        ng_pending := AList.update (ng_next n)
                          \<lparr> pe_node_id = rq_node_id req, pe_node_name = rq_node_name req, pe_endpoint_id = eid,
                            pe_strategy_id = rq_strategy_id req, pe_delivery_mode = rq_delivery_mode req,
                            pe_relay_addr = rq_relay_addr req, pe_share_token = rq_share_token req \<rparr> (ng_pending n) \<rparr>)))"

definition respond_grant ::
  "nat \<Rightarrow> string \<Rightarrow> trust_store \<Rightarrow> pending_entry \<Rightarrow> kernel \<Rightarrow> (neg_error + share_grant) \<times> kernel" where
  "respond_grant now pin store e k =
     (let found = Option.bind (pe_endpoint_id e) (\<lambda>i. unified_manifest i (kn_registry k));
          (title, media) = (case found of
              Some m \<Rightarrow> (share_title (em_name m), [em_kind m])
            | None \<Rightarrow> (share_title (pe_node_name e), [Mic]))
      in compose_grant now pin store (pe_node_id e) found (pe_strategy_id e) media title k)"

text \<open>The user's answer.  First what the user's interface gets, then what the waiting
  client gets: when the grant fails its channel is dropped.\<close>

definition respond ::
  "nat \<Rightarrow> string \<Rightarrow> nat \<Rightarrow> bool \<Rightarrow> bool \<Rightarrow> negotiator \<Rightarrow> (neg_error + share_grant option) \<times> reply option \<times> negotiator" where
  "respond now pin rid allow remembered n =
     (case map_of (ng_pending n) rid of
        None \<Rightarrow> (Inl (NoSuchRequest rid), None, n)
      | Some e \<Rightarrow>
          let n1 = n\<lparr> ng_pending := AList.delete rid (ng_pending n) \<rparr> in
          if \<not> allow then (Inr None, Some (Forbidden UserRefused), n1)
          else
            let store = (if remembered then remember now (pe_node_id e) (pe_node_name e) (ng_store n1) else ng_store n1);
                n2 = n1\<lparr> ng_store := store \<rparr>
            in (case respond_grant now pin store e (ng_kernel n2) of
                  (Inl err, k1) \<Rightarrow> (Inl err, Some RequestDropped, n2\<lparr> ng_kernel := k1 \<rparr>)
                | (Inr g, k1) \<Rightarrow>
                    (Inr (Some g), Some (Granted g),
                     n2\<lparr> ng_kernel := notify_subscribed now (pe_endpoint_id e) g (pe_node_id e) k1 \<rparr>)))"

definition wait_timeout :: "nat \<Rightarrow> negotiator \<Rightarrow> reply \<times> negotiator" where
  "wait_timeout rid n = (WaitTimedOut, n\<lparr> ng_pending := AList.delete rid (ng_pending n) \<rparr>)"

record pending_request =
  pr_id :: nat
  pr_node_id :: node_id
  pr_node_name :: string
  pr_endpoint_name :: "string option"
  pr_created_at :: nat

definition pending_requests :: "negotiator \<Rightarrow> pending_request list" where
  "pending_requests n =
     map (\<lambda>(rid, e). \<lparr> pr_id = rid, pr_node_id = pe_node_id e, pr_node_name = pe_node_name e,
         pr_endpoint_name = map_option em_name
           (Option.bind (pe_endpoint_id e) (\<lambda>i. unified_manifest i (kn_registry (ng_kernel n)))),
         pr_created_at = 0 \<rparr>) (ng_pending n)"

definition is_private :: "visibility \<Rightarrow> bool" where
  "is_private v = (case v of Private _ \<Rightarrow> True | _ \<Rightarrow> False)"

text \<open>The directory; \<open>local_name\<close> stands for a host without identity (not ASCII in the source).\<close>

definition handle_endpoints :: "string \<Rightarrow> kernel \<Rightarrow> endpoint_dir" where
  "handle_endpoints local_name k =
     (let (node, name) = (case kn_identity k of Some (i, nm) \<Rightarrow> (i, nm) | None \<Rightarrow> (NIL, local_name))
      in \<lparr> ed_node = \<lparr> en_node_id = node, en_node_name = name \<rparr>,
           ed_endpoints = filter (\<lambda>m. \<not> is_private (em_visibility m)) (unified_published (kn_registry k)) \<rparr>)"

definition handle_unsubscribe :: "nat \<Rightarrow> unsubscribe_request \<Rightarrow> kernel \<Rightarrow> u32 option \<times> kernel" where
  "handle_unsubscribe now req k =
     (let i = EndpointId (uq_endpoint_kind req) (uq_endpoint_id req) in
      if unified_manifest i (kn_registry k) = None then (None, k)
      else let (left, k1) = note_endpoint_unsubscribed now i (uq_node_id req) k in (Some left, k1))"



section \<open>The counter as an event system over the kernel\<close>

datatype neg_event =
    NRequest nat string share_request
  | NRespond nat string nat bool bool
  | NTimeout nat
  | NUnsubscribe nat unsubscribe_request
  | NHost kernel_event

fun neg_step :: "neg_event \<Rightarrow> negotiator \<Rightarrow> negotiator" where
  "neg_step (NRequest now pin req) n = snd (handle_request now pin req n)"
| "neg_step (NRespond now pin rid allow rem) n = snd (snd (respond now pin rid allow rem n))"
| "neg_step (NTimeout rid) n = snd (wait_timeout rid n)"
| "neg_step (NUnsubscribe now req) n = n\<lparr> ng_kernel := snd (handle_unsubscribe now req (ng_kernel n)) \<rparr>"
| "neg_step (NHost ev) n = n\<lparr> ng_kernel := kernel_step ev (ng_kernel n) \<rparr>"

definition neg_start :: "string \<Rightarrow> trust_store \<Rightarrow> negotiator" where
  "neg_start name store = \<lparr> ng_kernel = kernel_new name, ng_store = store, ng_pending = [], ng_next = 1 \<rparr>"

text \<open>The events the counter may cause in the kernel: it opens sessions without access
  code from this host to itself, issues tokens, and starts and ends subscriptions.\<close>

definition counter_event :: "kernel_event \<Rightarrow> bool" where
  "counter_event ev = (case ev of
      KSelf \<Rightarrow> True
    | KOpen sid src sinks prefs \<Rightarrow> src = ''local'' \<and> sinks = [''local''] \<and> sp_access_code prefs = None
    | KIssue now pin title media ttl \<Rightarrow> ttl = Some DEFAULT_GRANT_TTL_SECS
    | KSubscribe _ _ _ \<Rightarrow> True
    | KUnsubscribe _ _ _ \<Rightarrow> True
    | KShare _ _ ctx \<Rightarrow> sc_delivery ctx = Pull \<and> sc_share_token ctx = None
    | _ \<Rightarrow> False)"

lemma counter_simps [simp]:
  "counter_event KSelf" "counter_event (KSubscribe now i n)" "counter_event (KUnsubscribe now i n)"
  "counter_event (KIssue now pin title media (Some DEFAULT_GRANT_TTL_SECS))"
  "counter_event (KOpen sid ''local'' [''local''] prefs) \<longleftrightarrow> sp_access_code prefs = None"
  "counter_event (KShare now i ctx) \<longleftrightarrow> sc_delivery ctx = Pull \<and> sc_share_token ctx = None"
  by (simp_all add: counter_event_def)

definition via_kernel :: "kernel \<Rightarrow> kernel \<Rightarrow> bool" where
  "via_kernel k k' \<longleftrightarrow> (\<exists>evs. list_all counter_event evs \<and> k' = fold kernel_step evs k)"

lemma via_kernel_refl [simp]: "via_kernel k k"
  unfolding via_kernel_def by (intro exI [of _ "[]"]) simp

lemma via_kernel_step: "counter_event ev \<Longrightarrow> via_kernel k (kernel_step ev k)"
  unfolding via_kernel_def by (intro exI [of _ "[ev]"]) simp

lemma via_kernel_trans: "via_kernel a b \<Longrightarrow> via_kernel b c \<Longrightarrow> via_kernel a c"
  unfolding via_kernel_def by (metis fold_append comp_apply list_all_append)

lemma compose_grant_via:
  assumes "compose_grant now pin store node ep sid media title k = (res, k1)"
  shows "via_kernel k k1 \<and> (\<forall>g. res = Inr g \<longrightarrow> gr_delivery g \<in> {None, Some Pull})"
proof (cases "Option.bind ep (\<lambda>m. map_option (\<lambda>(s, _). (m, s)) (active_share_by_endpoint (em_id m) k))")
  case (Some p)
  then show ?thesis using assms by (cases p) (auto simp: compose_grant_def map_sum_def split: sum.splits)
next
  case None
  show ?thesis
  proof (cases ep)
    case e: None
    have "via_kernel k (snd (issue_share_token_for now pin title media (Some DEFAULT_GRANT_TTL_SECS) k))"
      using via_kernel_step [of "KIssue now pin title media (Some DEFAULT_GRANT_TTL_SECS)" k] by simp
    then show ?thesis using assms e by (auto simp: compose_grant_def split: prod.splits sum.splits)
  next
    case (Some m)
    let ?p = "\<lparr> sp_profile = Lossy, sp_preferred_transport = None, sp_access_code = None, sp_title = title \<rparr>"
    have "via_kernel k (snd (ensure_session_with_id (manifest_stream m) ''local'' [''local''] ?p k))"
      using via_kernel_step [of "KOpen (manifest_stream m) ''local'' [''local''] ?p" k] by simp
    then show ?thesis using assms None Some
      by (auto simp: compose_grant_def map_sum_def split: prod.splits sum.splits)
  qed
qed

lemma notify_via:
  assumes "gr_delivery g \<in> {None, Some Pull}"
  shows "via_kernel k (notify_subscribed now ep g n k)"
proof -
  have self: "via_kernel k (remember_self k)" using via_kernel_step [of KSelf k] by simp
  have noted: "via_kernel k' (note_endpoint_subscribed now i n k')" for i k'
    using via_kernel_step [of "KSubscribe now i n" k'] by simp
  have share: "via_kernel k' (share_on_subscribed now i ctx k')" if "sc_delivery ctx = Pull" "sc_share_token ctx = None" for i ctx k'
    using via_kernel_step [of "KShare now i ctx" k'] that by simp
  show ?thesis
    using assms self via_kernel_trans [OF via_kernel_trans [OF self noted] share] via_kernel_trans [OF self noted]
    by (auto simp: notify_subscribed_def Let_def split: option.split)
qed

lemma grant_request_via: "via_kernel (ng_kernel n) (ng_kernel (snd (grant_request now pin req eid found n)))"
proof -
  define r where "r = compose_grant now pin (ng_store n) (rq_node_id req) found (rq_strategy_id req)
    (case found of Some m \<Rightarrow> [em_kind m] | None \<Rightarrow> rq_media req)
    (share_title (case found of Some m \<Rightarrow> em_name m | None \<Rightarrow> rq_node_name req)) (ng_kernel n)"
  obtain res k1 where p: "r = (res, k1)" by (cases r)
  have c: "via_kernel (ng_kernel n) k1" "\<And>g. res = Inr g \<Longrightarrow> gr_delivery g \<in> {None, Some Pull}"
    using compose_grant_via p unfolding r_def by blast+
  have "via_kernel (ng_kernel n) (notify_subscribed now eid g (rq_node_id req) k1)" if "res = Inr g" for g
    using via_kernel_trans [OF c(1) notify_via [OF c(2) [OF that]]] .
  then show ?thesis
    unfolding grant_request_def Let_def r_def [symmetric] p using c(1) by (cases res) simp_all
qed

lemma request_via: "via_kernel (ng_kernel n) (ng_kernel (snd (handle_request now pin req n)))"
  using grant_request_via [of n now pin req]
  by (simp add: handle_request_def Let_def split: option.split decision.split)

lemma respond_via: "via_kernel (ng_kernel n) (ng_kernel (snd (snd (respond now pin rid allow rem n))))"
proof (cases "map_of (ng_pending n) rid")
  case (Some e)
  define store where "store = (if rem then remember now (pe_node_id e) (pe_node_name e) (ng_store n) else ng_store n)"
  define r where "r = respond_grant now pin store e (ng_kernel n)"
  obtain res k1 where p: "r = (res, k1)" by (cases r)
  have c: "via_kernel (ng_kernel n) k1" "\<And>g. res = Inr g \<Longrightarrow> gr_delivery g \<in> {None, Some Pull}"
    using compose_grant_via p unfolding r_def respond_grant_def Let_def by (auto split: prod.splits)
  have "via_kernel (ng_kernel n) (notify_subscribed now (pe_endpoint_id e) g (pe_node_id e) k1)" if "res = Inr g" for g
    using via_kernel_trans [OF c(1) notify_via [OF c(2) [OF that]]] .
  then show ?thesis
    using c(1) Some p [unfolded r_def store_def] by (cases rem; cases allow; cases res) (simp_all add: respond_def Let_def)
qed (simp add: respond_def)

lemma unsubscribe_via: "via_kernel k (snd (handle_unsubscribe now req k))"
  using via_kernel_step [of "KUnsubscribe now (EndpointId (uq_endpoint_kind req) (uq_endpoint_id req)) (uq_node_id req)" k]
  by (simp add: handle_unsubscribe_def Let_def case_prod_beta)


section \<open>Properties\<close>

lemma step_via:
  "(\<exists>hev. ev = NHost hev \<and> ng_kernel (neg_step ev n) = kernel_step hev (ng_kernel n))
     \<or> via_kernel (ng_kernel n) (ng_kernel (neg_step ev n))"
  using request_via respond_via unsubscribe_via by (cases ev) (simp_all add: wait_timeout_def)


definition tv_request :: share_request where
  "tv_request = \<lparr> rq_node_id = phone, rq_node_name = ''tv'', rq_endpoint_id = None, rq_endpoint_kind = None,
     rq_strategy_id = None, rq_delivery_mode = None, rq_relay_addr = None, rq_share_token = None, rq_media = [Mic] \<rparr>"


text \<open>Where trust comes from.\<close>

definition asked :: "neg_event list \<Rightarrow> node_id \<Rightarrow> bool" where
  "asked evs x \<longleftrightarrow> (\<exists>now pin req. NRequest now pin req \<in> set evs \<and> rq_node_id req = x)"

definition allowed_for_good :: "neg_event list \<Rightarrow> bool" where
  "allowed_for_good evs \<longleftrightarrow> (\<exists>now pin rid. NRespond now pin rid True True \<in> set evs)"

definition trust_inv :: "trust_store \<Rightarrow> neg_event list \<Rightarrow> negotiator \<Rightarrow> bool" where
  "trust_inv store evs n \<longleftrightarrow>
     (\<forall>x. is_trusted x (ng_store n) \<longrightarrow> is_trusted x store \<or> asked evs x \<and> allowed_for_good evs)
     \<and> (\<forall>rid e. map_of (ng_pending n) rid = Some e \<longrightarrow> asked evs (pe_node_id e))"

lemma asked_snoc: "asked (evs @ [ev]) x \<longleftrightarrow> asked evs x \<or> (\<exists>now pin req. ev = NRequest now pin req \<and> rq_node_id req = x)"
  by (auto simp: asked_def)

lemma allowed_snoc: "allowed_for_good (evs @ [ev]) \<longleftrightarrow> allowed_for_good evs \<or> (\<exists>now pin rid. ev = NRespond now pin rid True True)"
  by (auto simp: allowed_for_good_def)

lemma grant_request_rest [simp]:
  "ng_store (snd (grant_request now pin req eid found n)) = ng_store n"
  "ng_pending (snd (grant_request now pin req eid found n)) = ng_pending n"
  by (simp_all add: grant_request_def Let_def case_prod_beta split: sum.split)

lemma request_rest:
  "ng_store (snd (handle_request now pin req n)) = ng_store n"
  "map_of (ng_pending (snd (handle_request now pin req n))) rid = Some e \<Longrightarrow>
     map_of (ng_pending n) rid = Some e \<or> pe_node_id e = rq_node_id req"
  by (auto simp: handle_request_def Let_def split: option.splits decision.splits if_splits)

lemma respond_rest:
  "ng_store (snd (snd (respond now pin rid allow rem n))) = ng_store n
   \<or> (\<exists>e. map_of (ng_pending n) rid = Some e \<and> allow \<and> rem
        \<and> ng_store (snd (snd (respond now pin rid allow rem n))) = remember now (pe_node_id e) (pe_node_name e) (ng_store n))"
  "map_of (ng_pending (snd (snd (respond now pin rid allow rem n)))) x = Some e \<Longrightarrow> map_of (ng_pending n) x = Some e"
  by (auto simp: respond_def Let_def case_prod_beta split: option.splits sum.splits if_splits)

lemma trust_invI:
  "(\<And>x. is_trusted x (ng_store n) \<Longrightarrow> is_trusted x store \<or> asked evs x \<and> allowed_for_good evs) \<Longrightarrow>
   (\<And>rid e. map_of (ng_pending n) rid = Some e \<Longrightarrow> asked evs (pe_node_id e)) \<Longrightarrow> trust_inv store evs n"
  unfolding trust_inv_def by blast

lemma trust_invD:
  assumes "trust_inv store evs n"
  shows "is_trusted x (ng_store n) \<Longrightarrow> is_trusted x store \<or> asked evs x \<and> allowed_for_good evs"
    and "map_of (ng_pending n) rid = Some e \<Longrightarrow> asked evs (pe_node_id e)"
  using assms unfolding trust_inv_def by simp_all

lemma asked_mono: "asked evs x \<Longrightarrow> asked (evs @ [ev]) x" "allowed_for_good evs \<Longrightarrow> allowed_for_good (evs @ [ev])"
  by (simp_all add: asked_snoc allowed_snoc)

lemma trust_step:
  assumes "trust_inv store evs n"
  shows "trust_inv store (evs @ [ev]) (neg_step ev n)"
proof -
  have st: "is_trusted x store \<or> asked (evs @ [ev]) x \<and> allowed_for_good (evs @ [ev])" if "is_trusted x (ng_store n)" for x
    using trust_invD(1) [OF assms that] by (elim disjE conjE) (simp_all add: asked_mono)
  have pe: "asked (evs @ [ev]) (pe_node_id e)" if "map_of (ng_pending n) rid = Some e" for rid e
    by (rule asked_mono(1) [OF trust_invD(2) [OF assms that]])
  show ?thesis
  proof (cases ev)
    case (NRequest now pin req)
    have me: "asked (evs @ [ev]) (rq_node_id req)" by (simp add: asked_snoc NRequest)
    show ?thesis
    proof (rule trust_invI)
      show "is_trusted x store \<or> asked (evs @ [ev]) x \<and> allowed_for_good (evs @ [ev])"
        if "is_trusted x (ng_store (neg_step ev n))" for x
        using that st by (simp add: NRequest request_rest(1))
      show "asked (evs @ [ev]) (pe_node_id e)" if a: "map_of (ng_pending (neg_step ev n)) rid = Some e" for rid e
      proof -
        have "map_of (ng_pending n) rid = Some e \<or> pe_node_id e = rq_node_id req"
          using a unfolding NRequest neg_step.simps by (rule request_rest(2))
        then show ?thesis using pe me by (elim disjE) simp_all
      qed
    qed
  next
    case (NRespond now pin rid allow rem)
    show ?thesis
    proof (rule trust_invI)
      fix x assume x: "is_trusted x (ng_store (neg_step ev n))"
      show "is_trusted x store \<or> asked (evs @ [ev]) x \<and> allowed_for_good (evs @ [ev])"
        using respond_rest(1) [where now = now and pin = pin and rid = rid and allow = allow and rem = rem and n = n]
      proof (elim disjE exE conjE)
        assume "ng_store (snd (snd (respond now pin rid allow rem n))) = ng_store n"
        then have "is_trusted x (ng_store n)" using x NRespond by simp
        then show ?thesis by (rule st)
      next
        fix e assume e: "map_of (ng_pending n) rid = Some e" "allow" "rem"
          "ng_store (snd (snd (respond now pin rid allow rem n))) = remember now (pe_node_id e) (pe_node_name e) (ng_store n)"
        then have "x = pe_node_id e \<or> is_trusted x (ng_store n)" using x NRespond by (simp add: remember_def is_trusted_def)
        moreover have "allowed_for_good (evs @ [ev])" using e(2,3) NRespond by (simp add: allowed_snoc)
        ultimately show ?thesis using st [of x] pe [OF e(1)] by (elim disjE) simp_all
      qed
    next
      fix r e assume "map_of (ng_pending (neg_step ev n)) r = Some e"
      then have "map_of (ng_pending (snd (snd (respond now pin rid allow rem n)))) r = Some e" by (simp add: NRespond)
      then have "map_of (ng_pending n) r = Some e" by (rule respond_rest(2))
      then show "asked (evs @ [ev]) (pe_node_id e)" by (rule pe)
    qed
  next
    case (NTimeout rid)
    show ?thesis by (rule trust_invI) (use st pe in \<open>simp_all add: NTimeout wait_timeout_def split: if_splits\<close>)
  next
    case (NUnsubscribe now req)
    show ?thesis by (rule trust_invI) (use st pe in \<open>simp_all add: NUnsubscribe\<close>)
  next
    case (NHost kev)
    show ?thesis by (rule trust_invI) (use st pe in \<open>simp_all add: NHost\<close>)
  qed
qed

lemma trust_run: "trust_inv store evs (fold neg_step evs (neg_start name store))"
proof (induction evs rule: rev_induct)
  case Nil
  show ?case by (simp add: trust_inv_def neg_start_def)
qed (simp add: trust_step)

lemma published_flag: "m \<in> set (unified_published ur) \<Longrightarrow> em_published m"
  by (auto simp: unified_published_def published_manifests_of_def manifest_of_def Let_def)

lemma grant_request_outcome:
  "(\<exists>g. fst (grant_request now pin req eid found n) = Answer (Granted g)
       \<and> (found \<noteq> None \<longrightarrow> (\<exists>s. gr_strategy g = Some s \<and> loader_for s \<noteq> None)))
   \<or> (\<exists>e. fst (grant_request now pin req eid found n) = Answer (ServerError e))"
proof -
  have "\<exists>s. gr_strategy g = Some s \<and> loader_for s \<noteq> None"
    if "compose_grant now pin store node (Some m) sid media title k = (Inr g, k1)" for store node m sid media title k g k1
    using that by (auto simp: compose_grant_def checked_strategy_def Let_def split: option.splits prod.splits sum.splits if_splits)
  then show ?thesis
    by (cases found) (auto simp: grant_request_def Let_def split: prod.splits sum.splits)
qed


definition trusting :: negotiator where
  "trusting = fold neg_step [] (neg_start ''h'' [(phone, \<lparr> tn_name = ''tv'', tn_added_at = 1 \<rparr>)])"

lemma trusting_grants: "\<exists>g. fst (handle_request 7 ''000042'' tv_request trusting) = Answer (Granted g)"
  by (simp add: trusting_def neg_start_def handle_request_def request_endpoint_def tv_request_def policy_decision_def
    is_trusted_def has_key_def grant_request_def compose_grant_def issue_share_token_for_def create_share_token_def
    build_session_def kernel_new_def dp_authorize_def has_session_def Let_def)


text \<open>An endpoint that was seeded but never published is granted like a public one: the
  handler looks at availability and visibility only, and visibility is public before
  publication.\<close>

lemma unpublished_endpoint_granted:
  assumes "unified_manifest i (kn_registry (ng_kernel n)) = Some m" and "request_endpoint req = Some i"
    and "em_available m" and "em_visibility m = Public"
  shows "handle_request now pin req n = grant_request now pin req (Some i) (Some m) n"
  using assms by (simp add: handle_request_def policy_decision_def)

end
