(* ===== verification/Subscriptions.thy ===== *)
theory Subscriptions
  imports Negotiator
begin

text \<open>
  Two subscribers of one endpoint, from the first request to the last cancellation:
  what the grants, the kernel's tables of shares and sessions and the endpoint's entry
  in the registry do along the way.
\<close>

lemma find_update:
  "find (\<lambda>(_, s). Q s) al = None \<Longrightarrow> Q v \<Longrightarrow> find (\<lambda>(_, s). Q s) (AList.update x v al) = Some (x, v)"
  by (induction al) (auto split: if_splits)

lemma find_delete_update:
  "find (\<lambda>(_, s). Q s) al = None \<Longrightarrow> find (\<lambda>(_, s). Q s) (AList.delete x (AList.update x v al)) = None"
proof -
  assume n: "find (\<lambda>(_, s). Q s) al = None"
  have "AList.delete x (AList.update x v al) = AList.delete x al" by (induction al) auto
  then show ?thesis using n by (auto simp: find_None_iff AList.delete_eq)
qed

text \<open>An endpoint of the host, by its entry.\<close>

definition own_entry :: "endpoint_id \<Rightarrow> kernel \<Rightarrow> endpoint_entry option" where
  "own_entry i k = map_of (er_endpoints (ur_endpoints (kn_registry k))) (own_ref (kn_registry k) i)"

lemma own_manifest: "unified_manifest i (kn_registry k) = map_option manifest_of (own_entry i k)"
  by (simp add: unified_manifest_def manifest_for_def registry_manifest_def own_entry_def own_ref_def normalize_node_def)

lemma own_entry_simps [simp]:
  "own_entry i (note_endpoint_subscribed now i n k) =
     map_option (\<lambda>e. e\<lparr> ee_subscriber_nodes := insert n (ee_subscriber_nodes e),
        ee_subscribers := u32_of_nat (card (insert n (ee_subscriber_nodes e))), ee_updated_at := now \<rparr>) (own_entry i k)"
  "own_entry i (kernel_set_state now i st c k) =
     map_option (\<lambda>e. e\<lparr> ee_state := st, ee_subscribers := c, ee_updated_at := now \<rparr>) (own_entry i k)"
  "own_entry i (k\<lparr> kn_registry := unified_clear_subscribers i (kn_registry k) \<rparr>) =
     map_option (\<lambda>e. e\<lparr> ee_subscriber_nodes := {}, ee_subscribers := 0 \<rparr>) (own_entry i k)"
  by (auto simp: own_entry_def note_endpoint_subscribed_def unified_note_subscriber_def registry_note_subscriber_def
    kernel_set_state_def unified_set_state_def registry_set_state_def unified_clear_subscribers_def
    registry_clear_subscribers_def put_entry_def own_ref_def Let_def split: option.split)

lemma own_entry_frame:
  "kn_registry k' = kn_registry k \<Longrightarrow> own_entry i k' = own_entry i k"
  by (simp add: own_entry_def)

lemma subscribed_fields [simp]:
  "kn_shares (note_endpoint_subscribed now i n k) = kn_shares k"
  "kn_sessions (note_endpoint_subscribed now i n k) = kn_sessions k"
  "kn_started (note_endpoint_subscribed now i n k) = kn_started k"
  "kn_self (note_endpoint_subscribed now i n k) = kn_self k"
  "kn_shares (kernel_set_state now i st c k) = kn_shares k"
  "kn_sessions (kernel_set_state now i st c k) = kn_sessions k"
  "kn_started (kernel_set_state now i st c k) = kn_started k"
  "kn_engines (kernel_set_state now i st c k) = kn_engines k"
  by (simp_all add: note_endpoint_subscribed_def kernel_set_state_def)

lemma opened:
  assumes "k1 = snd (ensure_session_with_id sid src [x] prefs k)"
  shows "kn_registry k1 = kn_registry k" "kn_shares k1 = kn_shares k" "kn_started k1 = kn_started k"
    "has_session sid k1" "\<exists>s. ensure_session_with_id sid src [x] prefs k = (Inr s, k1)"
  unfolding assms
  by (auto simp: ensure_session_with_id_def build_session_def set_code_def dp_authorize_def has_session_def has_key_def
    Let_def split: option.splits)

text \<open>The first subscription of an endpoint that is not shared.\<close>

lemma first_grant:
  assumes "active_share_by_endpoint (em_id m) k = None" and "checked_strategy m sid = Inr st"
    and k1: "k1 = snd (ensure_session_with_id (manifest_stream m) ''local'' [''local'']
          \<lparr> sp_profile = Lossy, sp_preferred_transport = None, sp_access_code = None, sp_title = title \<rparr> k)"
  shows "\<exists>g. compose_grant now pin store node (Some m) sid media title k = (Inr g, k1)
    \<and> gr_delivery g = Some Pull \<and> tv_stream_id (gr_view g) = manifest_stream m"
proof -
  obtain s where "ensure_session_with_id (manifest_stream m) ''local'' [''local'']
          \<lparr> sp_profile = Lossy, sp_preferred_transport = None, sp_access_code = None, sp_title = title \<rparr> k = (Inr s, k1)"
    using opened(5) [OF k1] by blast
  then show ?thesis using assms(1,2) by (simp add: compose_grant_def stream_view_def)
qed

lemma next_grant:
  assumes "active_share_by_endpoint (em_id m) k = Some (s, d)" and "checked_strategy m sid = Inr st"
  shows "\<exists>g. compose_grant now pin store node (Some m) sid media title k = (Inr g, k)
    \<and> gr_delivery g = Some Pull \<and> tv_stream_id (gr_view g) = s"
  using assms by (auto simp: compose_grant_def stream_view_def)

lemma first_notify:
  assumes "own_entry i k = Some e" and "active_share_by_endpoint i k = None"
    and "gr_delivery g = Some Pull" and "tv_stream_id (gr_view g) = sid"
    and k'_def: "k' = notify_subscribed now (Some i) g n k"
  shows "own_entry i k' = Some (e\<lparr> ee_subscriber_nodes := insert n (ee_subscriber_nodes e), ee_state := Active,
           ee_subscribers := 0, ee_updated_at := now \<rparr>)"
    and "active_share_by_endpoint i k' = Some (sid, Pull)" and "kn_sessions k' = kn_sessions k"
    and "\<exists>ctx. kn_started k' = kn_started k @ [(i, ctx)]"
    and "kn_shares k' = AList.update sid \<lparr> as_endpoint = i, as_delivery = Pull \<rparr> (kn_shares k)"
proof -
  have nos: "find (\<lambda>(_, s). as_endpoint s = i) (kn_shares k) = None"
    using assms(2) by (simp add: active_share_by_endpoint_def)
  define k1 where "k1 = note_endpoint_subscribed now i n (remember_self k)"
  have e1: "own_entry i k1 = Some (e\<lparr> ee_subscriber_nodes := insert n (ee_subscriber_nodes e),
      ee_subscribers := u32_of_nat (card (insert n (ee_subscriber_nodes e))), ee_updated_at := now \<rparr>)"
    using assms(1) by (simp add: k1_def remember_self_def own_entry_frame [of "k\<lparr> kn_self := True \<rparr>" k])
  have f: "kn_shares k1 = kn_shares k" "kn_sessions k1 = kn_sessions k" "kn_started k1 = kn_started k" "kn_self k1"
    by (simp_all add: k1_def remember_self_def)
  have a: "active_share_by_endpoint i k1 = None" using assms(2) by (simp add: active_share_by_endpoint_def f)
  have arc: "endpoint_arc (own_ref (kn_registry k1) i) (ur_endpoints (kn_registry k1)) \<noteq> None"
    using e1 by (simp add: endpoint_arc_def own_entry_def)
  define ctx where "ctx = \<lparr> sc_subscriber = n, sc_delivery = Pull, sc_stream_id = tv_stream_id (gr_view g),
      sc_profile = (case gr_transport_profile g of Some p \<Rightarrow> p | None \<Rightarrow> Lossy),
      sc_strategy = (case gr_strategy g of Some s \<Rightarrow> s
        | None \<Rightarrow> strategy_passthrough (case gr_pick_rule g of Some r \<Rightarrow> r | None \<Rightarrow> Realtime)),
      sc_relay_addr = None, sc_share_token = None \<rparr>"
  have k': "k' = share_on_subscribed now i ctx k1"
    using a arc assms(3) by (auto simp: k'_def notify_subscribed_def Let_def k1_def [symmetric] ctx_def)
  have c: "sc_stream_id ctx = sid" "sc_delivery ctx = Pull" using assms(4) by (simp_all add: ctx_def)
  define k2 where "k2 = k1\<lparr> kn_shares := AList.update sid \<lparr> as_endpoint = i, as_delivery = Pull \<rparr> (kn_shares k1) \<rparr>"
  have k3: "k' = (kernel_set_state now i Active 0 k2)\<lparr> kn_started := kn_started k1 @ [(i, ctx)] \<rparr>"
    using f(4) c by (simp add: k' share_on_subscribed_def note_share_active_def k2_def)
  have e2: "own_entry i k2 = own_entry i k1" by (rule own_entry_frame) (simp add: k2_def)
  have e3: "own_entry i k' = own_entry i (kernel_set_state now i Active 0 k2)" by (rule own_entry_frame) (simp add: k3)
  show "own_entry i k' = Some (e\<lparr> ee_subscriber_nodes := insert n (ee_subscriber_nodes e), ee_state := Active,
           ee_subscribers := 0, ee_updated_at := now \<rparr>)" unfolding e3 by (simp add: e2 e1)
  show sh: "kn_shares k' = AList.update sid \<lparr> as_endpoint = i, as_delivery = Pull \<rparr> (kn_shares k)"
    by (simp add: k3 k2_def f)
  show "active_share_by_endpoint i k' = Some (sid, Pull)"
    unfolding active_share_by_endpoint_def sh using find_update [OF nos] by simp
  show "kn_sessions k' = kn_sessions k" "\<exists>ctx. kn_started k' = kn_started k @ [(i, ctx)]"
    by (simp_all add: k3 k2_def f)
qed

lemma next_notify:
  assumes "own_entry i k = Some e" and "active_share_by_endpoint i k = Some p" and "gr_delivery g = Some Pull"
    and k'_def: "k' = notify_subscribed now (Some i) g n k"
  shows "own_entry i k' = Some (e\<lparr> ee_subscriber_nodes := insert n (ee_subscriber_nodes e),
           ee_subscribers := u32_of_nat (card (insert n (ee_subscriber_nodes e))), ee_updated_at := now \<rparr>)"
    and "kn_shares k' = kn_shares k" and "kn_sessions k' = kn_sessions k" and "kn_started k' = kn_started k"
proof -
  define k1 where "k1 = note_endpoint_subscribed now i n (remember_self k)"
  have "active_share_by_endpoint i k1 \<noteq> None" using assms(2) by (auto simp: active_share_by_endpoint_def k1_def remember_self_def)
  then have k': "k' = k1"
    using assms(3) by (auto simp: k'_def notify_subscribed_def Let_def k1_def [symmetric])
  show "own_entry i k' = Some (e\<lparr> ee_subscriber_nodes := insert n (ee_subscriber_nodes e),
           ee_subscribers := u32_of_nat (card (insert n (ee_subscriber_nodes e))), ee_updated_at := now \<rparr>)"
    using assms(1) by (simp add: k' k1_def remember_self_def own_entry_frame [of "k\<lparr> kn_self := True \<rparr>" k])
  show "kn_shares k' = kn_shares k" "kn_sessions k' = kn_sessions k" "kn_started k' = kn_started k"
    by (simp_all add: k' k1_def remember_self_def)
qed

text \<open>A subscriber leaves; when none is left the share ends.\<close>

lemma leave:
  assumes "own_entry i k = Some e" and "nodes = ee_subscriber_nodes e - {n}"
  shows "\<exists>k1. note_endpoint_unsubscribed now i n k
        = (u32_of_nat (card nodes), if u32_of_nat (card nodes) = 0 then share_stop now i k1 else k1)
    \<and> own_entry i k1 = Some (e\<lparr> ee_subscriber_nodes := nodes, ee_subscribers := u32_of_nat (card nodes), ee_updated_at := now \<rparr>)
    \<and> kn_shares k1 = kn_shares k \<and> kn_sessions k1 = kn_sessions k"
proof (rule exI [of _ "k\<lparr> kn_registry := snd (unified_note_unsubscriber now i n (kn_registry k)) \<rparr>"])
qed (use assms in \<open>simp add: note_endpoint_unsubscribed_def unified_note_unsubscriber_def registry_note_unsubscriber_def
    own_entry_def own_ref_def put_entry_def Let_def\<close>)

lemma stop_effect:
  assumes "own_entry i k = Some e" and "kn_shares k = AList.update sid \<lparr> as_endpoint = i, as_delivery = d \<rparr> al"
    and nos: "find (\<lambda>(_, s). as_endpoint s = i) al = None"
  shows "active_share_by_endpoint i (share_stop now i k) = None" and "\<not> has_session sid (share_stop now i k)"
    and "own_entry i (share_stop now i k) = Some (e\<lparr> ee_subscriber_nodes := {}, ee_state := Idle, ee_subscribers := 0, ee_updated_at := now \<rparr>)"
proof -
  define k1 where "k1 = k\<lparr> kn_shares := AList.delete sid (kn_shares k) \<rparr>"
  define k2 where "k2 = k1\<lparr> kn_registry := unified_clear_subscribers i (kn_registry k1) \<rparr>"
  define k3 where "k3 = (kernel_set_state now i Idle 0 k2)\<lparr> kn_engines := removeAll sid (kn_engines k2) \<rparr>"
  have "share_stop now i k = snd (reap_stream now sid k)"
    unfolding share_stop_def assms(2) using find_update [OF nos] by (simp add: stop_share_by_stream_def)
  also have "\<dots> = (if has_session sid k3 then snd (force_teardown sid k3) else k3)"
    unfolding reap_stream_def clear_active_share_def k1_def [symmetric] Let_def
    by (simp add: assms(2) k3_def k2_def)
  finally have st: "share_stop now i k = (if has_session sid k3 then snd (force_teardown sid k3) else k3)" .
  have reg: "kn_registry (share_stop now i k) = kn_registry k3" "kn_shares (share_stop now i k) = kn_shares k3"
    unfolding st by (simp_all add: force_teardown_def teardown_internal_def set_code_def dp_revoke_def Let_def)
  have "own_entry i k1 = Some e" using assms(1) own_entry_frame [of k1 k] by (simp add: k1_def)
  then have "own_entry i (kernel_set_state now i Idle 0 k2) = Some (e\<lparr> ee_subscriber_nodes := {}, ee_state := Idle, ee_subscribers := 0, ee_updated_at := now \<rparr>)"
    by (simp add: k2_def)
  then show "own_entry i (share_stop now i k) = Some (e\<lparr> ee_subscriber_nodes := {}, ee_state := Idle, ee_subscribers := 0, ee_updated_at := now \<rparr>)"
    using own_entry_frame [of "share_stop now i k" "kernel_set_state now i Idle 0 k2"] reg(1) by (simp add: k3_def)
  show "active_share_by_endpoint i (share_stop now i k) = None"
    unfolding active_share_by_endpoint_def reg(2) using find_delete_update [OF nos]
    by (simp add: k3_def k2_def k1_def assms(2))
  show "\<not> has_session sid (share_stop now i k)"
    unfolding st by (simp add: force_teardown_def teardown_internal_def set_code_def dp_revoke_def Let_def has_session_def)
qed

text \<open>C28. Subscriptions of one endpoint converge.  Two nodes one after the other ask for
  the same public endpoint that nobody subscribes to yet: both are granted, with the same
  stream id, the one the endpoint's manifest determines; the first grant opens the
  session and starts the share, the second opens no session, registers no share and
  starts nothing; the endpoint counts exactly these two.  When one of them leaves the
  share goes on; when both have left, the share and the session are gone and the endpoint
  is idle without subscribers.\<close>

theorem subscriptions_converge:
  assumes "unified_manifest i (kn_registry (ng_kernel n)) = Some m" and "em_id m = i" and "em_available m"
    and "em_visibility m = Public" and "loader_for (manifest_strategy None m) \<noteq> None"
    and "registry_subscriber_nodes (own_ref (kn_registry (ng_kernel n)) i) (ur_endpoints (kn_registry (ng_kernel n))) = Some {}"
    and "active_share_by_endpoint i (ng_kernel n) = None"
    and "request_endpoint ra = Some i" and "rq_strategy_id ra = None" and "rq_node_id ra = a"
    and "request_endpoint rb = Some i" and "rq_strategy_id rb = None" and "rq_node_id rb = b" and "a \<noteq> b"
    and "handle_request t1 p1 ra n = (r1, n1)" and "handle_request t2 p2 rb n1 = (r2, n2)"
    and "note_endpoint_unsubscribed t3 i a (ng_kernel n2) = (left3, k3)" and "note_endpoint_unsubscribed t4 i b k3 = (left4, k4)"
  shows "(\<exists>g1 g2. r1 = Answer (Granted g1) \<and> r2 = Answer (Granted g2)
        \<and> tv_stream_id (gr_view g1) = manifest_stream m \<and> tv_stream_id (gr_view g2) = manifest_stream m)
    \<and> has_session (manifest_stream m) (ng_kernel n1) \<and> kn_sessions (ng_kernel n2) = kn_sessions (ng_kernel n1)
    \<and> active_share_by_endpoint i (ng_kernel n1) = Some (manifest_stream m, Pull)
    \<and> kn_shares (ng_kernel n2) = kn_shares (ng_kernel n1)
    \<and> map fst (kn_started (ng_kernel n2)) = map fst (kn_started (ng_kernel n)) @ [i]
    \<and> map_option em_subscribers (unified_manifest i (kn_registry (ng_kernel n2))) = Some 2
    \<and> left3 = 1 \<and> active_share_by_endpoint i k3 = Some (manifest_stream m, Pull) \<and> has_session (manifest_stream m) k3
    \<and> left4 = 0 \<and> active_share_by_endpoint i k4 = None \<and> \<not> has_session (manifest_stream m) k4
    \<and> (\<exists>m4. unified_manifest i (kn_registry k4) = Some m4 \<and> em_state m4 = Idle \<and> em_subscribers m4 = 0)"
proof -
  let ?k = "ng_kernel n" and ?sid = "manifest_stream m"
  obtain e where e: "own_entry i ?k = Some e" "manifest_of e = m" using assms(1) by (auto simp: own_manifest)
  have nodes: "ee_subscriber_nodes e = {}" using assms(6) e(1) by (auto simp: registry_subscriber_nodes_def own_entry_def)
  obtain st where st: "checked_strategy m None = Inr st" using assms(5) by (auto simp: checked_strategy_def Let_def)
  have nos: "find (\<lambda>(_, s). as_endpoint s = i) (kn_shares ?k) = None"
    using assms(7) by (simp add: active_share_by_endpoint_def)
  define p where "p = \<lparr> sp_profile = Lossy, sp_preferred_transport = None, sp_access_code = None, sp_title = share_title (em_name m) \<rparr>"
  define ka where "ka = snd (ensure_session_with_id ?sid ''local'' [''local''] p ?k)"
  note O = opened [OF ka_def]
  obtain g1 where g1: "compose_grant t1 p1 (ng_store n) a (Some m) None [em_kind m] (share_title (em_name m)) ?k = (Inr g1, ka)"
    "gr_delivery g1 = Some Pull" "tv_stream_id (gr_view g1) = ?sid"
    using first_grant [OF _ st ka_def [unfolded p_def], of t1 p1 "ng_store n" a "[em_kind m]"] assms(2,7) by auto
  define k1 where "k1 = notify_subscribed t1 (Some i) g1 a ka"
  have n1: "r1 = Answer (Granted g1)" "n1 = n\<lparr> ng_kernel := k1 \<rparr>"
    using assms(15) g1(1) unfolding unpublished_endpoint_granted [OF assms(1,8,3,4)]
    by (simp_all add: grant_request_def assms(9,10) k1_def)
  have ea: "own_entry i ka = Some e" using e(1) own_entry_frame [OF O(1)] by simp
  have sa: "active_share_by_endpoint i ka = None" using assms(7) by (simp add: active_share_by_endpoint_def O(2))
  note N1 = first_notify [OF ea sa g1(2,3) k1_def]
  define e1 where "e1 = e\<lparr> ee_subscriber_nodes := insert a (ee_subscriber_nodes e), ee_state := Active, ee_subscribers := 0, ee_updated_at := t1 \<rparr>"
  define m1 where "m1 = manifest_of e1"
  have e1: "own_entry i k1 = Some e1" using N1(1) by (simp add: e1_def)
  have m1: "em_id m1 = i" "em_available m1 = em_available m" "em_visibility m1 = em_visibility m" "em_name m1 = em_name m"
    "em_kind m1 = em_kind m" "em_strategies m1 = em_strategies m" "em_pick_rule m1 = em_pick_rule m"
    using assms(2) unfolding m1_def e1_def e(2) [symmetric]
    by (cases "ee_strategies e"; simp add: manifest_of_def em_id_def Let_def)+
  have "manifest_strategy None m1 = manifest_strategy None m"
    unfolding manifest_strategy_none m1(6,7) ..
  then have st1: "checked_strategy m1 None = Inr st"
    using st m1(1) assms(2) by (simp add: checked_strategy_def Let_def split: if_splits)
  have um1: "unified_manifest i (kn_registry (ng_kernel n1)) = Some m1" by (simp add: own_manifest n1 e1 m1_def)
  have av1: "em_available m1" "em_visibility m1 = Public" using m1 assms(3,4) by simp_all
  have sh1: "active_share_by_endpoint (em_id m1) k1 = Some (?sid, Pull)" using N1(2) m1(1) by simp
  obtain g2 where g2: "compose_grant t2 p2 (ng_store n) b (Some m1) None [em_kind m1] (share_title (em_name m1)) k1 = (Inr g2, k1)"
    "gr_delivery g2 = Some Pull" "tv_stream_id (gr_view g2) = ?sid"
    using next_grant [OF sh1 st1] by blast
  define k2 where "k2 = notify_subscribed t2 (Some i) g2 b k1"
  have n2: "r2 = Answer (Granted g2)" "n2 = n1\<lparr> ng_kernel := k2 \<rparr>"
    using assms(16) g2(1) unfolding unpublished_endpoint_granted [OF um1 assms(11) av1]
    by (simp_all add: grant_request_def assms(12,13) k2_def n1(2))
  note N2 = next_notify [OF e1 N1(2) g2(2) k2_def]
  have cd: "card (insert b (insert a {})) = 2" using assms(14) by simp
  define e2 where "e2 = e1\<lparr> ee_subscriber_nodes := insert b (ee_subscriber_nodes e1),
      ee_subscribers := u32_of_nat (card (insert b (ee_subscriber_nodes e1))), ee_updated_at := t2 \<rparr>"
  have e2: "own_entry i k2 = Some e2" using N2(1) by (simp add: e2_def)
  have nd2: "ee_subscriber_nodes e2 = {a, b}" by (auto simp: e2_def e1_def nodes)
  have sub2: "ee_subscribers e2 = 2" using cd by (simp add: e2_def e1_def nodes)
  obtain ku where ku: "note_endpoint_unsubscribed t3 i a k2 = (u32_of_nat (card {b}), if u32_of_nat (card {b}) = 0 then share_stop t3 i ku else ku)"
    "own_entry i ku = Some (e2\<lparr> ee_subscriber_nodes := {b}, ee_subscribers := u32_of_nat (card {b}), ee_updated_at := t3 \<rparr>)"
    "kn_shares ku = kn_shares k2" "kn_sessions ku = kn_sessions k2"
    using leave [OF e2 refl, where n = a and now = t3] nd2 assms(14) by (auto simp: insert_Diff_if)
  have k3: "left3 = 1" "k3 = ku" using assms(17) ku(1) by (simp_all add: n2)
  obtain kv where kv: "note_endpoint_unsubscribed t4 i b ku = (0, share_stop t4 i kv)"
    "own_entry i kv = Some (e2\<lparr> ee_subscriber_nodes := {}, ee_subscribers := 0, ee_updated_at := t4 \<rparr>)"
    "kn_shares kv = kn_shares ku"
    using leave [OF ku(2) refl, where n = b and now = t4] by auto
  have k4: "left4 = 0" "k4 = share_stop t4 i kv" using assms(18) kv(1) by (simp_all add: k3)
  have shv: "kn_shares kv = AList.update ?sid \<lparr> as_endpoint = i, as_delivery = Pull \<rparr> (kn_shares ?k)"
    using N1(5) N2(2) by (simp add: kv(3) ku(3) O(2))
  note S = stop_effect [OF kv(2) shv nos, of t4]
  have s3: "active_share_by_endpoint i k3 = Some (?sid, Pull)"
    using N1(2) N2(2) by (simp add: k3 active_share_by_endpoint_def ku(3))
  have hs: "has_session ?sid (ng_kernel n1)" "has_session ?sid k3"
    using O(4) N1(3) N2(3) ku(4) by (simp_all add: n1 k3 has_session_def)
  have m4: "\<exists>m4. unified_manifest i (kn_registry k4) = Some m4 \<and> em_state m4 = Idle \<and> em_subscribers m4 = 0"
    using S(3) by (simp add: own_manifest k4 manifest_of_def Let_def)
  have sub: "map_option em_subscribers (unified_manifest i (kn_registry (ng_kernel n2))) = Some 2"
    using sub2 by (simp add: own_manifest n2 e2 manifest_of_def Let_def)
  show ?thesis
    using n1 n2 g1(3) g2(3) hs N1(2,4) N2(2,3,4) s3 S(1,2) k3(1) k4 m4 sub O(3) by auto
qed

definition mic :: endpoint_id where
  "mic = EndpointId Mic 0"

definition tablet :: node_id where
  "tablet = NodeId (replicate 16 255)"

definition mic_host :: negotiator where
  "mic_host = neg_step (NHost (KSeed None 1 probe_endpoint)) (neg_start ''h'' [])"

definition mic_request :: "node_id \<Rightarrow> share_request" where
  "mic_request n = \<lparr> rq_node_id = n, rq_node_name = ''x'', rq_endpoint_id = Some 0, rq_endpoint_kind = Some Mic,
     rq_strategy_id = None, rq_delivery_mode = None, rq_relay_addr = None, rq_share_token = None, rq_media = [] \<rparr>"

lemma mic_request_simps:
  "request_endpoint (mic_request n) = Some mic" "rq_strategy_id (mic_request n) = None" "rq_node_id (mic_request n) = n"
  by (simp_all add: mic_request_def request_endpoint_def mic_def)

lemma phone_tablet: "phone \<noteq> tablet"
  by (simp add: phone_def tablet_def replicate_eq_replicate)

lemma mic_host_entry:
  "\<exists>e. own_entry mic (ng_kernel mic_host) = Some e \<and> se_id (ee_ep e) = mic \<and> se_available (ee_ep e)
     \<and> ee_visibility e = Public \<and> ee_subscriber_nodes e = {}
     \<and> loader_for (manifest_strategy None (manifest_of e)) \<noteq> None"
  by (simp add: mic_host_def neg_start_def kernel_seed_def kernel_new_def own_entry_def unified_seed_def seed_with_owner_def
    probe_endpoint_def probe_load_def own_ref_def unified_default_def registry_empty_def mic_def add_self_ref_def
    ensure_self_entry_def self_entry_def manifest_of_def manifest_strategy_none strategy_passthrough_def loader_for_def Let_def)

lemma subscriptions_converge_witness:
  "kn_shares (ng_kernel (snd (handle_request 6 [] (mic_request tablet) (snd (handle_request 5 [] (mic_request phone) mic_host)))))
     = kn_shares (ng_kernel (snd (handle_request 5 [] (mic_request phone) mic_host)))
   \<and> active_share_by_endpoint mic (ng_kernel (snd (handle_request 5 [] (mic_request phone) mic_host))) \<noteq> None"
proof -
  obtain e where e: "own_entry mic (ng_kernel mic_host) = Some e" "se_id (ee_ep e) = mic" "se_available (ee_ep e)"
    "ee_visibility e = Public" "ee_subscriber_nodes e = {}" "loader_for (manifest_strategy None (manifest_of e)) \<noteq> None"
    using mic_host_entry by blast
  have m: "unified_manifest mic (kn_registry (ng_kernel mic_host)) = Some (manifest_of e)" by (simp add: own_manifest e(1))
  have f1: "em_id (manifest_of e) = mic" using e(2) by simp
  have f2: "em_available (manifest_of e)" "em_visibility (manifest_of e) = Public"
    using e(3,4) by (simp_all add: manifest_of_def Let_def)
  have nd: "registry_subscriber_nodes (own_ref (kn_registry (ng_kernel mic_host)) mic) (ur_endpoints (kn_registry (ng_kernel mic_host))) = Some {}"
    using e(1,5) by (simp add: registry_subscriber_nodes_def own_entry_def)
  have sh: "active_share_by_endpoint mic (ng_kernel mic_host) = None"
    by (simp add: active_share_by_endpoint_def mic_host_def neg_start_def kernel_seed_def kernel_new_def)
  obtain r1 n1 where 1: "handle_request 5 [] (mic_request phone) mic_host = (r1, n1)" by fastforce
  obtain r2 n2 where 2: "handle_request 6 [] (mic_request tablet) n1 = (r2, n2)" by fastforce
  obtain l3 k3 where 3: "note_endpoint_unsubscribed 7 mic phone (ng_kernel n2) = (l3, k3)" by fastforce
  obtain l4 k4 where 4: "note_endpoint_unsubscribed 8 mic tablet k3 = (l4, k4)" by fastforce
  show ?thesis
    using subscriptions_converge [OF m f1 f2 e(6) nd sh mic_request_simps mic_request_simps phone_tablet 1 2 3 4]
    by (simp add: 1 2)
qed

end
