(* ===== verification/Search.thy ===== *)
theory Search
  imports Prelude "HOL-Library.Sublist"
begin

text \<open>
  Searching in byte buffers.  The search itself is that of the \<open>memchr\<close> crate: the
  splitters take it as an argument, and what they rely on is that it finds the first
  occurrence.
\<close>

fun first_match :: "bytes \<Rightarrow> bytes \<Rightarrow> nat option" where
  "first_match needle [] = (if needle = [] then Some 0 else None)"
| "first_match needle (b # bs) =
     (if prefix needle (b # bs) then Some 0 else map_option Suc (first_match needle bs))"

definition finds_first :: "bytes \<Rightarrow> (bytes \<Rightarrow> nat option) \<Rightarrow> bool" where
  "finds_first needle search \<longleftrightarrow> (\<forall>bs. search bs = first_match needle bs)"

lemma finds_firstD: "finds_first needle search \<Longrightarrow> search bs = first_match needle bs"
  by (simp add: finds_first_def)

lemma finds_first_itself: "finds_first needle (first_match needle)"
  by (simp add: finds_first_def)

lemma first_match_hit:
  "first_match needle bs = Some i \<Longrightarrow> i + length needle \<le> length bs \<and> prefix needle (drop i bs)"
proof (induction needle bs arbitrary: i rule: first_match.induct)
  case (2 needle b bs)
  then show ?case by (auto split: if_splits dest: prefix_length_le)
qed (auto split: if_splits)

lemma first_match_append:
  "first_match needle bs = Some i \<Longrightarrow> first_match needle (bs @ ds) = Some i"
proof (induction needle bs arbitrary: i rule: first_match.induct)
  case (1 needle)
  then show ?case by (cases ds) (auto split: if_splits)
next
  case (2 needle b bs)
  show ?case
  proof (cases "prefix needle (b # bs)")
    case True
    then have "prefix needle ((b # bs) @ ds)" by (rule prefix_prefix)
    then show ?thesis using 2 True by simp
  next
    case False
    then obtain j where j: "first_match needle bs = Some j" "i = Suc j" using 2(2) by auto
    have "\<not> prefix needle ((b # bs) @ ds)"
    proof
      assume p: "prefix needle ((b # bs) @ ds)"
      have "length needle \<le> length (b # bs)" using first_match_hit [OF j(1)] by simp
      then have "prefix needle (b # bs)" using p by (metis prefix_length_prefix prefixI)
      then show False using False by simp
    qed
    then show ?thesis using 2(1) [OF False j(1)] j(2) by simp
  qed
qed

lemma plus_Suc_fun: "(+) (Suc k) = (\<lambda>x. Suc (k + x))"
  by (rule ext) simp

lemma map_plus_zero: "map_option ((+) 0) (x :: nat option) = x"
  by (cases x) auto

text \<open>Nothing found in the first part: an occurrence reaches into the second.\<close>

lemma first_match_later:
  assumes "first_match needle bs = None" and "needle \<noteq> []"
  shows "first_match needle (bs @ ds) =
    map_option ((+) (length bs - (length needle - 1)))
      (first_match needle (drop (length bs - (length needle - 1)) (bs @ ds)))"
  using assms
proof (induction needle bs rule: first_match.induct)
  case (2 needle b bs)
  have nb: "\<not> prefix needle (b # bs)" and n: "first_match needle bs = None" using 2(2) by (auto split: if_splits)
  note IH = 2(1) [OF nb n 2(3)]
  let ?m = "length needle - 1"
  show ?case
  proof (cases "?m \<le> length bs")
    case False
    then have z: "length (b # bs) - ?m = 0" by simp
    show ?thesis unfolding z by (simp only: map_plus_zero drop_0)
  next
    case True
    have "\<not> prefix needle ((b # bs) @ ds)"
    proof
      assume p: "prefix needle ((b # bs) @ ds)"
      have "length needle \<le> length (b # bs)" using True by simp
      then have "prefix needle (b # bs)" using p by (metis prefix_length_prefix prefixI)
      then show False using nb by simp
    qed
    then have "first_match needle ((b # bs) @ ds) = map_option Suc (first_match needle (bs @ ds))" by simp
    also have "\<dots> = map_option Suc (map_option ((+) (length bs - ?m)) (first_match needle (drop (length bs - ?m) (bs @ ds))))"
      by (simp only: IH)
    also have "\<dots> = map_option ((+) (Suc (length bs - ?m))) (first_match needle (drop (length bs - ?m) (bs @ ds)))"
      by (simp add: option.map_comp comp_def plus_Suc_fun)
    also have "Suc (length bs - ?m) = length (b # bs) - ?m" using True by simp
    also have "drop (length bs - ?m) (bs @ ds) = drop (length (b # bs) - ?m) ((b # bs) @ ds)"
      using True by (simp add: Suc_diff_le)
    finally show ?thesis .
  qed
qed (simp add: map_plus_zero)

lemma first_match_none_drop: "first_match needle bs = None \<Longrightarrow> first_match needle (drop k bs) = None"
proof (induction needle bs arbitrary: k rule: first_match.induct)
  case (2 needle b bs)
  then show ?case by (cases k) (auto split: if_splits)
qed simp

end
