(* ===== verification/Annexb.thy ===== *)
theory Annexb
  imports Search
begin

text \<open>
  The Annex-B splitter of \<open>stross-endpoint/src/codec/nal.rs\<close>: bytes arrive in chunks of
  any length and complete NAL units come out, without their start codes.  The scan resumes
  two bytes before the new data; the reference \<open>raw_split\<close> cuts the whole stream at its
  start codes, and \<open>feed\<close> is shown to do the same whatever the chunks are.
\<close>

definition NAL_SLICE_NON_IDR :: u8 where "NAL_SLICE_NON_IDR = 1"
definition NAL_SLICE_IDR :: u8 where "NAL_SLICE_IDR = 5"
definition NAL_SPS :: u8 where "NAL_SPS = 7"
definition NAL_PPS :: u8 where "NAL_PPS = 8"

definition MAX_PENDING_NAL :: nat where
  "MAX_PENDING_NAL = 8388608"

definition nal_type :: "bytes \<Rightarrow> u8 option" where
  "nal_type nal = (case nal of [] \<Rightarrow> None | b # _ \<Rightarrow> Some (b AND 0x1f))"

definition NAL_START_CODE :: bytes where
  "NAL_START_CODE = [0, 0, 1]"

lemma NAL_START_CODE_simps [simp]: "length NAL_START_CODE = 3" "NAL_START_CODE \<noteq> []"
  by (simp_all add: NAL_START_CODE_def)


section \<open>The splitter\<close>

record annexb_splitter =
  ab_buf :: bytes

definition annexb_new :: annexb_splitter where
  "annexb_new = \<lparr> ab_buf = [] \<rparr>"

text \<open>Step back over the zeros in front of a start code, but not before \<open>prev\<close>.\<close>

fun code_start_of :: "bytes \<Rightarrow> nat \<Rightarrow> nat \<Rightarrow> nat" where
  "code_start_of buf prev c =
     (if prev < c \<and> buf ! (c - 1) = 0 then code_start_of buf prev (c - 1) else c)"

declare code_start_of.simps [simp del]

text \<open>The search loop, with \<open>None\<close> for a slice out of range: it returns the units cut off
  and the start of what is left.\<close>

function annexb_loop :: "(bytes \<Rightarrow> nat option) \<Rightarrow> bytes \<Rightarrow> nat \<Rightarrow> nat \<Rightarrow> (bytes list \<times> nat) option" where
  "annexb_loop finder buf prev search_pos =
     (if length buf < search_pos then None
      else case finder (drop search_pos buf) of
        None \<Rightarrow> Some ([], prev)
      | Some rel \<Rightarrow>
          let match_idx = search_pos + rel in
          if length buf < match_idx then None
          else
            let code_start = code_start_of buf prev match_idx;
                seg = (if prev < code_start \<and> code_start - prev \<le> MAX_PENDING_NAL
                       then [bslice prev code_start buf] else [])
            in map_option (\<lambda>(out, p). (seg @ out, p)) (annexb_loop finder buf (match_idx + 3) (match_idx + 3)))"
  by pat_completeness auto
termination
  by (relation "measure (\<lambda>(finder, buf, prev, pos). length buf + 4 - pos)") auto

declare annexb_loop.simps [simp del]

definition annexb_feed ::
  "(bytes \<Rightarrow> nat option) \<Rightarrow> annexb_splitter \<Rightarrow> bytes \<Rightarrow> (bytes list \<times> annexb_splitter) option" where
  "annexb_feed finder sp data =
     (let old_len = length (ab_buf sp); buf = ab_buf sp @ data in
      case annexb_loop finder buf 0 (old_len - 2) of
        None \<Rightarrow> None
      | Some (out, prev) \<Rightarrow>
          if prev = 0 \<and> MAX_PENDING_NAL < length buf then Some (out, sp\<lparr>ab_buf := []\<rparr>)
          else Some (out, sp\<lparr>ab_buf := drop prev buf\<rparr>))"

definition annexb_finish :: "annexb_splitter \<Rightarrow> bytes list" where
  "annexb_finish sp = (if ab_buf sp = [] then [] else [ab_buf sp])"

text \<open>A reader of the encoder's pipe: feed every chunk, then finish.\<close>

fun annexb_feeds ::
  "(bytes \<Rightarrow> nat option) \<Rightarrow> annexb_splitter \<Rightarrow> bytes list \<Rightarrow> (bytes list \<times> annexb_splitter) option" where
  "annexb_feeds finder sp [] = Some ([], sp)"
| "annexb_feeds finder sp (d # ds) =
     (case annexb_feed finder sp d of
        None \<Rightarrow> None
      | Some (out, sp') \<Rightarrow> map_option (\<lambda>(out', sp''). (out @ out', sp'')) (annexb_feeds finder sp' ds))"

definition annexb_read :: "(bytes \<Rightarrow> nat option) \<Rightarrow> bytes list \<Rightarrow> bytes list option" where
  "annexb_read finder chunks =
     map_option (\<lambda>(out, sp). out @ annexb_finish sp) (annexb_feeds finder annexb_new chunks)"


section \<open>The reference: cutting a whole stream\<close>

function raw_split :: "bytes \<Rightarrow> bytes list \<times> bytes" where
  "raw_split bs =
     (case first_match NAL_START_CODE bs of
        None \<Rightarrow> ([], bs)
      | Some i \<Rightarrow> let (segs, tl) = raw_split (drop (i + 3) bs) in (take i bs # segs, tl))"
  by pat_completeness auto
termination
  by (relation "measure length") (auto dest!: first_match_hit)

declare raw_split.simps [simp del]

definition strip_zeros :: "bytes \<Rightarrow> bytes" where
  "strip_zeros s = rev (dropWhile ((=) 0) (rev s))"

definition nals_of :: "bytes list \<Rightarrow> bytes list" where
  "nals_of segs = filter (\<lambda>s. s \<noteq> [] \<and> length s \<le> MAX_PENDING_NAL) (map strip_zeros segs)"

lemma nals_of_simps [simp]:
  "nals_of [] = []"
  "nals_of (s # segs) =
     (if strip_zeros s \<noteq> [] \<and> length (strip_zeros s) \<le> MAX_PENDING_NAL then [strip_zeros s] else []) @ nals_of segs"
  "nals_of (segs @ segs') = nals_of segs @ nals_of segs'"
  by (simp_all add: nals_of_def)

lemma strip_zeros_simps [simp]:
  "strip_zeros [] = []"
  "strip_zeros (s @ [0]) = strip_zeros s"
  "b \<noteq> 0 \<Longrightarrow> strip_zeros (s @ [b]) = s @ [b]"
  by (simp_all add: strip_zeros_def)

lemma raw_split_none: "first_match NAL_START_CODE bs = None \<Longrightarrow> raw_split bs = ([], bs)"
  by (simp add: raw_split.simps [of bs])

lemma raw_split_some:
  "first_match NAL_START_CODE bs = Some i \<Longrightarrow>
   raw_split bs = (take i bs # fst (raw_split (drop (i + 3) bs)), snd (raw_split (drop (i + 3) bs)))"
  by (simp add: raw_split.simps [of bs] case_prod_unfold Let_def)

lemma raw_split_tail: "first_match NAL_START_CODE (snd (raw_split bs)) = None"
proof (induction bs rule: raw_split.induct)
  case (1 bs)
  then show ?case by (cases "first_match NAL_START_CODE bs") (auto simp: raw_split_none raw_split_some)
qed

text \<open>Cutting a stream in two: the tail of the first part goes in front of the second.\<close>

lemma raw_split_append:
  "raw_split (as @ bs) =
     (fst (raw_split as) @ fst (raw_split (snd (raw_split as) @ bs)), snd (raw_split (snd (raw_split as) @ bs)))"
proof (induction as rule: raw_split.induct)
  case (1 as)
  show ?case
  proof (cases "first_match NAL_START_CODE as")
    case None
    then show ?thesis by (simp add: raw_split_none)
  next
    case (Some i)
    have len: "i + 3 \<le> length as" using first_match_hit [OF Some] by simp
    have s: "first_match NAL_START_CODE (as @ bs) = Some i" by (rule first_match_append [OF Some])
    show ?thesis using 1 [OF Some] len by (simp add: raw_split_some [OF s] raw_split_some [OF Some])
  qed
qed

lemma raw_split_no_code:
  assumes "fst (raw_split bs) = []"
  shows "first_match NAL_START_CODE bs = None \<and> snd (raw_split bs) = bs"
  using assms by (cases "first_match NAL_START_CODE bs") (auto simp: raw_split_none raw_split_some)


section \<open>The loop cuts like the reference\<close>

lemma code_start_of_strip:
  assumes "prev \<le> c" and "c \<le> length buf"
  shows "code_start_of buf prev c = prev + length (strip_zeros (bslice prev c buf)) \<and>
         bslice prev (code_start_of buf prev c) buf = strip_zeros (bslice prev c buf)"
  using assms
proof (induction c rule: less_induct)
  case (less c)
  show ?case
  proof (cases "prev < c")
    case False
    then have "c = prev" using less.prems by simp
    then show ?thesis by (simp add: code_start_of.simps [of buf prev] bslice_def)
  next
    case True
    have e: "bslice prev c buf = bslice prev (c - 1) buf @ [buf ! (c - 1)]"
    proof -
      have "drop prev buf ! (c - 1 - prev) = buf ! (c - 1)" using True less.prems by simp
      moreover have "c - prev = Suc (c - 1 - prev)" using True by simp
      moreover have "c - 1 - prev < length (drop prev buf)" using True less.prems by simp
      ultimately show ?thesis by (simp add: bslice_def take_Suc_conv_app_nth)
    qed
    show ?thesis
    proof (cases "buf ! (c - 1) = 0")
      case z: True
      have a: "code_start_of buf prev c = code_start_of buf prev (c - 1)"
        using True z by (simp add: code_start_of.simps [of buf prev c])
      have b: "strip_zeros (bslice prev c buf) = strip_zeros (bslice prev (c - 1) buf)"
        unfolding e z by (simp only: strip_zeros_simps)
      show ?thesis unfolding a b by (rule less.IH) (use less.prems True in auto)
    next
      case nz: False
      have "code_start_of buf prev c = c" using nz by (simp add: code_start_of.simps [of buf prev c])
      moreover have "strip_zeros (bslice prev c buf) = bslice prev c buf" unfolding e by (simp only: strip_zeros_simps(3) [OF nz])
      ultimately show ?thesis using less.prems by (simp add: length_bslice)
    qed
  qed
qed

definition loop_result :: "bytes \<Rightarrow> nat \<Rightarrow> (bytes list \<times> nat) option \<Rightarrow> bool" where
  "loop_result buf prev r \<longleftrightarrow>
     (\<exists>out p. r = Some (out, p) \<and> out = nals_of (fst (raw_split (drop prev buf))) \<and>
        p \<le> length buf \<and> drop p buf = snd (raw_split (drop prev buf)) \<and>
        (if fst (raw_split (drop prev buf)) = [] then p = prev else prev < p))"

lemma loop_resultE:
  assumes "loop_result buf prev r"
  obtains out p where "r = Some (out, p)" "out = nals_of (fst (raw_split (drop prev buf)))"
    "p \<le> length buf" "drop p buf = snd (raw_split (drop prev buf))" "prev \<le> p"
    "fst (raw_split (drop prev buf)) = [] \<Longrightarrow> p = prev" "fst (raw_split (drop prev buf)) \<noteq> [] \<Longrightarrow> prev < p"
  using assms unfolding loop_result_def by (auto split: if_splits)

lemma loop_step:
  assumes found: "finds_first NAL_START_CODE finder"
    and prev: "prev \<le> length buf" and pos: "search_pos \<le> length buf"
    and same: "map_option ((+) search_pos) (first_match NAL_START_CODE (drop search_pos buf)) =
               map_option ((+) prev) (first_match NAL_START_CODE (drop prev buf))"
    and rest: "\<And>p. prev < p \<Longrightarrow> p \<le> length buf \<Longrightarrow> loop_result buf p (annexb_loop finder buf p p)"
  shows "loop_result buf prev (annexb_loop finder buf prev search_pos)"
proof (cases "first_match NAL_START_CODE (drop prev buf)")
  case None
  then have "first_match NAL_START_CODE (drop search_pos buf) = None" using same by simp
  then show ?thesis using prev pos
    by (simp add: annexb_loop.simps [of finder buf prev search_pos] finds_firstD [OF found] loop_result_def raw_split_none [OF None])
next
  case (Some i)
  then obtain rel where rel: "first_match NAL_START_CODE (drop search_pos buf) = Some rel" and eq: "search_pos + rel = prev + i"
    using same by auto
  have hit: "i + 3 \<le> length buf - prev" using first_match_hit [OF Some] by simp
  let ?m = "prev + i" and ?seg = "take i (drop prev buf)"
  have m: "?m \<le> length buf" and m3: "?m + 3 \<le> length buf" using hit prev by simp_all
  have b: "bslice prev ?m buf = ?seg" by (simp add: bslice_def)
  note st = code_start_of_strip [OF le_add1 m, unfolded b]
  have cs: "code_start_of buf prev ?m = prev + length (strip_zeros ?seg)"
    by (rule st [THEN conjunct1])
  have cb: "bslice prev (prev + length (strip_zeros ?seg)) buf = strip_zeros ?seg"
    using st [THEN conjunct2] unfolding cs .
  have r0: "loop_result buf (?m + 3) (annexb_loop finder buf (?m + 3) (?m + 3))" by (rule rest) (use m3 in simp_all)
  obtain out p where r: "annexb_loop finder buf (?m + 3) (?m + 3) = Some (out, p)"
      "out = nals_of (fst (raw_split (drop (?m + 3) buf)))" "p \<le> length buf"
      "drop p buf = snd (raw_split (drop (?m + 3) buf))" "?m + 3 \<le> p"
    by (rule loop_resultE [OF r0])
  have d: "drop (i + 3) (drop prev buf) = drop (?m + 3) buf" "i + 3 + prev = ?m + 3" by (simp_all add: ac_simps)
  have "annexb_loop finder buf prev search_pos =
    Some ((if strip_zeros ?seg \<noteq> [] \<and> length (strip_zeros ?seg) \<le> MAX_PENDING_NAL then [strip_zeros ?seg] else []) @ out, p)"
    using pos m cs cb r(1)
    by (simp add: annexb_loop.simps [of finder buf prev search_pos] finds_firstD [OF found] rel eq Let_def)
  then show ?thesis using r(2-5) by (simp add: loop_result_def raw_split_some [OF Some] d)
qed

lemma loop_from_prev:
  assumes found: "finds_first NAL_START_CODE finder"
  shows "prev \<le> length buf \<Longrightarrow> loop_result buf prev (annexb_loop finder buf prev prev)"
proof (induction "length buf - prev" arbitrary: prev rule: less_induct)
  case less
  show ?case
    by (rule loop_step [OF found less.prems less.prems refl]) (rule less.hyps, use less.prems in auto)
qed

text \<open>The resumed scan of \<open>feed\<close> sees the same start codes as a scan of the whole buffer.\<close>

lemma loop_resumed:
  assumes found: "finds_first NAL_START_CODE finder"
    and none: "first_match NAL_START_CODE bs = None"
  shows "loop_result (bs @ data) 0 (annexb_loop finder (bs @ data) 0 (length bs - 2))"
proof (rule loop_step [OF found])
  show "map_option ((+) (length bs - 2)) (first_match NAL_START_CODE (drop (length bs - 2) (bs @ data))) =
      map_option ((+) 0) (first_match NAL_START_CODE (drop 0 (bs @ data)))"
    using first_match_later [OF none, of data] by (simp only: NAL_START_CODE_simps map_plus_zero drop_0) simp
  show "\<And>p. 0 < p \<Longrightarrow> p \<le> length (bs @ data) \<Longrightarrow>
      loop_result (bs @ data) p (annexb_loop finder (bs @ data) p p)" by (rule loop_from_prev [OF found])
qed auto



section \<open>Feeding\<close>

lemma feed_cuts:
  assumes found: "finds_first NAL_START_CODE finder"
    and none: "first_match NAL_START_CODE (ab_buf sp) = None"
    and fits: "fst (raw_split (ab_buf sp @ data)) = [] \<Longrightarrow> length (ab_buf sp @ data) \<le> MAX_PENDING_NAL"
  shows "annexb_feed finder sp data =
    Some (nals_of (fst (raw_split (ab_buf sp @ data))), sp\<lparr>ab_buf := snd (raw_split (ab_buf sp @ data))\<rparr>)"
proof -
  let ?all = "ab_buf sp @ data"
  obtain out p where r: "annexb_loop finder ?all 0 (length (ab_buf sp) - 2) = Some (out, p)"
      "out = nals_of (fst (raw_split ?all))" "drop p ?all = snd (raw_split ?all)"
      "fst (raw_split ?all) = [] \<Longrightarrow> p = 0" "fst (raw_split ?all) \<noteq> [] \<Longrightarrow> 0 < p"
    by (rule loop_resultE [OF loop_resumed [OF found none, of data]]) auto
  have keep: "\<not> (p = 0 \<and> MAX_PENDING_NAL < length ?all)" using r(4,5) fits by (metis less_irrefl not_le)
  show ?thesis unfolding annexb_feed_def Let_def r(1) using keep by (simp only: option.case prod.case if_False r(2,3))
qed

text \<open>Data without a start code past the limit: the buffer is dropped, nothing comes out.\<close>

lemma feed_resyncs:
  assumes found: "finds_first NAL_START_CODE finder"
    and none: "first_match NAL_START_CODE (ab_buf sp) = None"
    and seg: "fst (raw_split (ab_buf sp @ data)) = []" and big: "MAX_PENDING_NAL < length (ab_buf sp @ data)"
  shows "annexb_feed finder sp data = Some ([], sp\<lparr>ab_buf := []\<rparr>)"
proof -
  let ?all = "ab_buf sp @ data"
  obtain out p where r: "annexb_loop finder ?all 0 (length (ab_buf sp) - 2) = Some (out, p)"
      "out = nals_of (fst (raw_split ?all))" "p = 0"
    by (rule loop_resultE [OF loop_resumed [OF found none, of data]]) (auto simp: seg)
  show ?thesis unfolding annexb_feed_def Let_def r(1) using big by (simp add: r(2,3) seg)
qed

text \<open>So \<open>feed\<close> never panics, and keeps no complete start code: the invariant of the resumed scan.\<close>

definition splitter_inv :: "annexb_splitter \<Rightarrow> bool" where
  "splitter_inv sp \<longleftrightarrow> first_match NAL_START_CODE (ab_buf sp) = None \<and> length (ab_buf sp) \<le> MAX_PENDING_NAL"

lemma splitter_inv_new: "splitter_inv annexb_new"
  by (simp add: splitter_inv_def annexb_new_def)

lemma feed_keeps_scan_invariant:
  assumes found: "finds_first NAL_START_CODE finder" and none: "first_match NAL_START_CODE (ab_buf sp) = None"
  shows "\<exists>out sp'. annexb_feed finder sp data = Some (out, sp') \<and> first_match NAL_START_CODE (ab_buf sp') = None \<and>
           (\<forall>n \<in> set out. n \<noteq> [] \<and> length n \<le> MAX_PENDING_NAL)"
proof (cases "fst (raw_split (ab_buf sp @ data)) = [] \<and> MAX_PENDING_NAL < length (ab_buf sp @ data)")
  case True
  then show ?thesis by (simp add: feed_resyncs [OF found none])
next
  case False
  have "annexb_feed finder sp data =
    Some (nals_of (fst (raw_split (ab_buf sp @ data))), sp\<lparr>ab_buf := snd (raw_split (ab_buf sp @ data))\<rparr>)"
    by (rule feed_cuts [OF found none]) (use False in auto)
  then show ?thesis using raw_split_tail [of "ab_buf sp @ data"] by (auto simp: nals_of_def)
qed


section \<open>Chunks do not matter\<close>

text \<open>What a stream must keep to, so that \<open>feed\<close> does not take it for garbage: no
  start code is further than the limit from the one before.\<close>

definition bounded_stream :: "bytes \<Rightarrow> bool" where
  "bounded_stream bs \<longleftrightarrow>
     (\<forall>s \<in> set (fst (raw_split bs)). length s + 2 \<le> MAX_PENDING_NAL) \<and> length (snd (raw_split bs)) \<le> MAX_PENDING_NAL"

definition split_nals :: "bytes \<Rightarrow> bytes list" where
  "split_nals bs = nals_of (fst (raw_split bs)) @ (if snd (raw_split bs) = [] then [] else [snd (raw_split bs)])"

lemma bounded_stream_rest:
  "bounded_stream (as @ bs) \<Longrightarrow> bounded_stream (snd (raw_split as) @ bs)"
  by (auto simp: bounded_stream_def raw_split_append [of as bs])

lemma bounded_stream_prefix:
  assumes b: "bounded_stream (as @ bs)" and none: "first_match NAL_START_CODE as = None"
  shows "length as \<le> MAX_PENDING_NAL"
proof (cases "first_match NAL_START_CODE (as @ bs)")
  case None
  then show ?thesis using b by (simp add: bounded_stream_def raw_split_none)
next
  case (Some i)
  then have "length as - 2 \<le> i" using first_match_later [OF none, of bs] by auto
  moreover have "i + 2 \<le> MAX_PENDING_NAL"
    using b first_match_hit [OF Some] by (auto simp: bounded_stream_def raw_split_some [OF Some] min_def split: if_splits)
  ultimately show ?thesis by simp
qed

lemma feeds_cut:
  assumes found: "finds_first NAL_START_CODE finder"
  shows "first_match NAL_START_CODE (ab_buf sp) = None \<Longrightarrow> bounded_stream (ab_buf sp @ concat ds) \<Longrightarrow>
    annexb_feeds finder sp ds =
      Some (nals_of (fst (raw_split (ab_buf sp @ concat ds))), sp\<lparr>ab_buf := snd (raw_split (ab_buf sp @ concat ds))\<rparr>)"
proof (induction ds arbitrary: sp)
  case Nil
  then show ?case by (simp add: raw_split_none)
next
  case (Cons d ds)
  let ?all = "ab_buf sp @ d" and ?sp = "sp\<lparr>ab_buf := snd (raw_split (ab_buf sp @ d))\<rparr>"
  have b: "bounded_stream (?all @ concat ds)" using Cons.prems(2) by simp
  have f: "annexb_feed finder sp d = Some (nals_of (fst (raw_split ?all)), ?sp)"
    by (rule feed_cuts [OF found Cons.prems(1)]) (metis b bounded_stream_prefix raw_split_no_code)
  have "annexb_feeds finder ?sp ds =
      Some (nals_of (fst (raw_split (ab_buf ?sp @ concat ds))), ?sp\<lparr>ab_buf := snd (raw_split (ab_buf ?sp @ concat ds))\<rparr>)"
    by (rule Cons.IH) (use raw_split_tail bounded_stream_rest [OF b] in simp_all)
  then show ?case using raw_split_append [of ?all "concat ds"] by (simp add: f)
qed

lemma read_is_split:
  assumes "finds_first NAL_START_CODE finder" and "bounded_stream (concat chunks)"
  shows "annexb_read finder chunks = Some (split_nals (concat chunks))"
  using feeds_cut [OF assms(1), of annexb_new chunks] assms(2)
  by (simp add: annexb_read_def annexb_new_def split_nals_def annexb_finish_def)

text \<open>C16. However the pipe cuts the stream into chunks, the splitter hands out exactly the
  non-empty units between the start codes of the whole stream, with the zeros in front of
  each start code removed, and the unterminated rest when it ends; it never panics.\<close>

theorem splitter_ignores_chunks:
  assumes "finds_first NAL_START_CODE finder" and "bounded_stream (concat chunks)"
  shows "annexb_read finder chunks = Some (split_nals (concat chunks))"
  by (rule read_is_split [OF assms])

definition sample_chunks :: "bytes list" where
  "sample_chunks = [[0, 0], [0, 1, 0x67, 0x42, 0], [0], [1, 0x65, 0xaa, 0, 0, 1], [0x41, 0]]"

theorem splitter_ignores_chunks_witness:
  "annexb_read (first_match NAL_START_CODE) sample_chunks = Some [[0x67, 0x42], [0x65, 0xaa], [0x41, 0]]"
proof -
  have r: "raw_split (concat sample_chunks) = ([[0], [0x67, 0x42], [0x65, 0xaa]], [0x41, 0])"
    by (simp add: sample_chunks_def raw_split.simps NAL_START_CODE_def)
  have "bounded_stream (concat sample_chunks)"
    unfolding bounded_stream_def r by (simp add: MAX_PENDING_NAL_def)
  then have "annexb_read (first_match NAL_START_CODE) sample_chunks = Some (split_nals (concat sample_chunks))"
    by (rule splitter_ignores_chunks [OF finds_first_itself])
  also have "split_nals (concat sample_chunks) = [[0x67, 0x42], [0x65, 0xaa], [0x41, 0]]"
    unfolding split_nals_def r by (simp add: strip_zeros_def MAX_PENDING_NAL_def)
  finally show ?thesis .
qed

end
