(* ===== verification/Bits.thy ===== *)
theory Bits
  imports Search "HOL-Library.Monad_Syntax"
begin

text \<open>
  The bit level of \<open>stross-endpoint/src/codec/nal.rs\<close>: removal of the emulation-prevention
  bytes and the reader of Exp-Golomb codes.  A reader is related to the bits still to be
  read; on the other side stand an encoder of the codes and the insertion of the
  prevention bytes as the H.264 standard prescribes them, and the lemmas that each is undone.
\<close>

section \<open>Emulation prevention\<close>

definition EP_CODE :: bytes where
  "EP_CODE = [0, 0, 3]"

lemma u8_not_2_le_1: "\<not> (2 :: u8) \<le> 1"
  by (simp add: word_le_nat_alt)

lemma replicate_2: "replicate 2 x = [x, x]"
  by (simp add: numeral_2_eq_2)

text \<open>The copying loop; the counter of zeros is a \<open>u8\<close>.\<close>

fun ep_copy :: "u8 \<Rightarrow> bytes \<Rightarrow> bytes" where
  "ep_copy zeros [] = []"
| "ep_copy zeros (b # bs) =
     (if 2 \<le> zeros \<and> b = 3 then ep_copy 0 bs
      else b # ep_copy (if b = 0 then zeros + 1 else 0) bs)"

definition de_emulation_prevention :: "(bytes \<Rightarrow> nat option) \<Rightarrow> bytes \<Rightarrow> bytes" where
  "de_emulation_prevention ep_finder ebsp = (if ep_finder ebsp = None then ebsp else ep_copy 0 ebsp)"

text \<open>Insertion: a byte up to 3 after two zeros is preceded by a 3.\<close>

fun ep_insert :: "nat \<Rightarrow> bytes \<Rightarrow> bytes" where
  "ep_insert zeros [] = []"
| "ep_insert zeros (b # bs) =
     (if 2 \<le> zeros \<and> b \<le> 3 then 3 # b # ep_insert (if b = 0 then 1 else 0) bs
      else b # ep_insert (if b = 0 then zeros + 1 else 0) bs)"

lemma ep_copy_insert: "zeros \<le> 2 \<Longrightarrow> ep_copy (word_of_nat zeros) (ep_insert zeros bs) = bs"
proof (induction bs arbitrary: zeros)
  case (Cons b bs)
  consider "zeros = 0" | "zeros = 1" | "zeros = 2" using Cons.prems by linarith
  then show ?case using Cons.IH [of 0] Cons.IH [of 1] Cons.IH [of 2] Cons.IH [of "Suc (Suc 0)"] u8_not_2_le_1
    by cases auto
qed simp

lemma ep_copy_insert_start: "ep_copy 0 (ep_insert 0 bs) = bs"
  using ep_copy_insert [of 0 bs] by simp

text \<open>The shortcut of the source agrees with the loop: without the pattern nothing is removed.\<close>

lemma ep_copy_zeros:
  assumes "first_match EP_CODE (replicate k 0 @ bs) = None" and "k \<le> 2" and "k = 2 \<or> n = word_of_nat k"
  shows "ep_copy n bs = bs"
  using assms
proof (induction bs arbitrary: k n)
  case (Cons b bs)
  consider "k = 0" "n = 0" | "k = 1" "n = 1" | "k = 2" using Cons.prems(2,3) by (auto simp: le_Suc_eq numeral_2_eq_2)
  then show ?case
  proof cases
    case 1
    have m: "first_match EP_CODE (b # bs) = None" using Cons.prems(1) 1 by simp
    then have m': "first_match EP_CODE bs = None" by (auto split: if_splits)
    show ?thesis
      using Cons.IH [of 0 0] Cons.IH [of 1 1] m m' 1 by (cases "b = 0") auto
  next
    case 2
    have m: "first_match EP_CODE (0 # b # bs) = None" using Cons.prems(1) 2 by simp
    then have m': "first_match EP_CODE bs = None" by (auto split: if_splits)
    show ?thesis
      using Cons.IH [of 0 0] Cons.IH [of 2 2] m m' 2 u8_not_2_le_1 by (cases "b = 0") (auto simp: replicate_2)
  next
    case 3
    have m: "first_match EP_CODE (0 # 0 # b # bs) = None" using Cons.prems(1) 3 by (simp add: replicate_2)
    then have b3: "b \<noteq> 3" by (auto simp: EP_CODE_def)
    have m': "first_match EP_CODE bs = None" and m0: "first_match EP_CODE (0 # b # bs) = None"
      using m by (auto split: if_splits)
    show ?thesis
      using Cons.IH [of 0 0] Cons.IH [of 2] m' m0 b3 3 by (cases "b = 0") (auto simp: replicate_2)
  qed
qed simp

lemma de_emulation_is_copy:
  assumes "finds_first EP_CODE ep_finder"
  shows "de_emulation_prevention ep_finder bs = ep_copy 0 bs"
  using ep_copy_zeros [of 0 bs 0] by (simp add: de_emulation_prevention_def finds_firstD [OF assms])

lemma de_emulation_undoes_insertion:
  "finds_first EP_CODE ep_finder \<Longrightarrow> de_emulation_prevention ep_finder (ep_insert 0 bs) = bs"
  by (simp add: de_emulation_is_copy ep_copy_insert_start)


section \<open>The bit reader\<close>

record bit_reader =
  br_buf :: bytes
  br_pos :: nat

definition br_new :: "bytes \<Rightarrow> bit_reader" where
  "br_new buf = \<lparr> br_buf = buf, br_pos = 0 \<rparr>"

definition br_bit :: "bit_reader \<Rightarrow> (u32 \<times> bit_reader) option" where
  "br_bit br =
     (if br_pos br div 8 < length (br_buf br)
      then Some (ucast (drop_bit (7 - br_pos br mod 8) (br_buf br ! (br_pos br div 8)) AND 1), br\<lparr>br_pos := br_pos br + 1\<rparr>)
      else None)"

definition br_skip :: "nat \<Rightarrow> bit_reader \<Rightarrow> bit_reader option" where
  "br_skip n br =
     (if length (br_buf br) * 8 < br_pos br + n then None else Some (br\<lparr>br_pos := br_pos br + n\<rparr>))"

fun br_bits :: "nat \<Rightarrow> u32 \<Rightarrow> bit_reader \<Rightarrow> (u32 \<times> bit_reader) option" where
  "br_bits 0 v br = Some (v, br)"
| "br_bits (Suc n) v br = do { (b, br) \<leftarrow> br_bit br; br_bits n (push_bit 1 v OR b) br }"

definition br_u :: "nat \<Rightarrow> bit_reader \<Rightarrow> (u32 \<times> bit_reader) option" where
  "br_u n br = br_bits n 0 br"

text \<open>The run of leading zeros, up to 31.\<close>

function ue_zeros :: "nat \<Rightarrow> bit_reader \<Rightarrow> (nat \<times> bit_reader) option" where
  "ue_zeros zeros br =
     (case br_bit br of
        None \<Rightarrow> None
      | Some (b, br') \<Rightarrow>
          if b = 0 then (if 31 < zeros + 1 then None else ue_zeros (zeros + 1) br') else Some (zeros, br'))"
  by pat_completeness auto
termination
  by (relation "measure (\<lambda>(zeros, br). 32 - zeros)") auto

declare ue_zeros.simps [simp del]

definition br_ue :: "bit_reader \<Rightarrow> (u32 \<times> bit_reader) option" where
  "br_ue br =
     do { (zeros, br) \<leftarrow> ue_zeros 0 br;
          (v, br) \<leftarrow> br_bits zeros 0 br;
          Some (push_bit zeros 1 - 1 + v, br) }"

definition br_se :: "bit_reader \<Rightarrow> (int \<times> bit_reader) option" where
  "br_se br =
     do { (ue, br) \<leftarrow> br_ue br;
          let k = (uint ue + 1) div 2;
          Some (if uint ue mod 2 = 1 then k else - k, br) }"


section \<open>The bits still to be read\<close>

definition byte_bits :: "u8 \<Rightarrow> bool list" where
  "byte_bits b = map (\<lambda>i. bit b (7 - i)) [0..<8]"

definition bits_of :: "bytes \<Rightarrow> bool list" where
  "bits_of buf = concat (map byte_bits buf)"

definition br_rest :: "bit_reader \<Rightarrow> bool list" where
  "br_rest br = drop (br_pos br) (bits_of (br_buf br))"

lemma length_byte_bits [simp]: "length (byte_bits b) = 8"
  by (simp add: byte_bits_def)

lemma length_bits_of [simp]: "length (bits_of buf) = 8 * length buf"
  by (induction buf) (simp_all add: bits_of_def)

lemma bits_of_nth: "p < 8 * length buf \<Longrightarrow> bits_of buf ! p = bit (buf ! (p div 8)) (7 - p mod 8)"
proof (induction buf arbitrary: p)
  case (Cons b buf)
  have c: "bits_of (b # buf) = byte_bits b @ bits_of buf" by (simp add: bits_of_def)
  show ?case
  proof (cases "p < 8")
    case True
    then show ?thesis by (simp add: c nth_append byte_bits_def)
  next
    case False
    then have "p - 8 < 8 * length buf" using Cons.prems by simp
    then have "bits_of buf ! (p - 8) = bit (buf ! ((p - 8) div 8)) (7 - (p - 8) mod 8)" by (rule Cons.IH)
    moreover have "p div 8 = Suc ((p - 8) div 8)" "(p - 8) mod 8 = p mod 8"
      using False by (simp_all add: le_div_geq le_mod_geq)
    ultimately show ?thesis using False by (simp add: c nth_append)
  qed
qed simp

lemma br_bit_rest:
  "br_bit br = (case br_rest br of [] \<Rightarrow> None | b # _ \<Rightarrow> Some (of_bool b, br\<lparr>br_pos := br_pos br + 1\<rparr>))"
proof (cases "br_pos br < 8 * length (br_buf br)")
  case True
  then have d: "br_rest br = bits_of (br_buf br) ! br_pos br # drop (Suc (br_pos br)) (bits_of (br_buf br))"
    by (simp add: br_rest_def Cons_nth_drop_Suc)
  have l: "br_pos br div 8 < length (br_buf br)" using True by auto
  have "ucast (drop_bit k (w :: u8) AND 1) = (of_bool (bit w k) :: u32)" for k w
    by (rule bit_word_eqI) (auto simp: bit_simps)
  then show ?thesis using l by (simp add: br_bit_def d bits_of_nth [OF True])
next
  case False
  then have "\<not> br_pos br div 8 < length (br_buf br)" by auto
  then show ?thesis using False by (simp add: br_bit_def br_rest_def)
qed

lemma br_rest_step: "br_rest br = b # r \<Longrightarrow> br_rest (br\<lparr>br_pos := br_pos br + 1\<rparr>) = r"
  by (simp add: br_rest_def) (metis drop_Suc list.sel(3) tl_drop)

lemma br_rest_after: "br_rest br = bs @ r \<Longrightarrow> br_rest (br\<lparr>br_pos := br_pos br + length bs\<rparr>) = r"
  by (simp add: br_rest_def) (metis add.commute append_eq_conv_conj drop_drop)


section \<open>Parsers and the bits they consume\<close>

text \<open>\<open>reads m bs a\<close>: on any reader whose next bits are \<open>bs\<close>, \<open>m\<close> returns \<open>a\<close> and leaves the
  reader right behind them.  \<open>skips\<close> is the same for a parser without a result.\<close>

definition reads :: "(bit_reader \<Rightarrow> ('a \<times> bit_reader) option) \<Rightarrow> bool list \<Rightarrow> 'a \<Rightarrow> bool" where
  "reads m bs a \<longleftrightarrow> (\<forall>br r. br_rest br = bs @ r \<longrightarrow> (\<exists>br'. m br = Some (a, br') \<and> br_rest br' = r))"

definition skips :: "(bit_reader \<Rightarrow> bit_reader option) \<Rightarrow> bool list \<Rightarrow> bool" where
  "skips m bs \<longleftrightarrow> (\<forall>br r. br_rest br = bs @ r \<longrightarrow> (\<exists>br'. m br = Some br' \<and> br_rest br' = r))"

lemma reads_return: "reads (\<lambda>br. Some (a, br)) [] a"
  by (simp add: reads_def)

lemma skips_return: "skips Some []"
  by (simp add: skips_def)

lemma reads_bind:
  assumes "reads m bs a" and "reads (k a) cs c"
  shows "reads (\<lambda>br. Option.bind (m br) (\<lambda>(x, br). k x br)) (bs @ cs) c"
  unfolding reads_def
proof (intro allI impI)
  fix br r assume "br_rest br = (bs @ cs) @ r"
  then obtain br' where "m br = Some (a, br')" "br_rest br' = cs @ r"
    using assms(1) unfolding reads_def by (metis append_assoc)
  then show "\<exists>br'. Option.bind (m br) (\<lambda>(x, br). k x br) = Some (c, br') \<and> br_rest br' = r"
    using assms(2) unfolding reads_def by auto
qed

lemma skips_bind:
  assumes "reads m bs a" and "skips (k a) cs"
  shows "skips (\<lambda>br. Option.bind (m br) (\<lambda>(x, br). k x br)) (bs @ cs)"
  unfolding skips_def
proof (intro allI impI)
  fix br r assume "br_rest br = (bs @ cs) @ r"
  then obtain br' where "m br = Some (a, br')" "br_rest br' = cs @ r"
    using assms(1) unfolding reads_def by (metis append_assoc)
  then show "\<exists>br'. Option.bind (m br) (\<lambda>(x, br). k x br) = Some br' \<and> br_rest br' = r"
    using assms(2) unfolding skips_def by auto
qed

lemma reads_then:
  assumes "skips m bs" and "reads k cs c"
  shows "reads (\<lambda>br. Option.bind (m br) k) (bs @ cs) c"
  unfolding reads_def
proof (intro allI impI)
  fix br r assume "br_rest br = (bs @ cs) @ r"
  then obtain br' where "m br = Some br'" "br_rest br' = cs @ r"
    using assms(1) unfolding skips_def by (metis append_assoc)
  then show "\<exists>br'. Option.bind (m br) k = Some (c, br') \<and> br_rest br' = r"
    using assms(2) unfolding reads_def by auto
qed

lemma skips_then:
  assumes "skips m bs" and "skips k cs"
  shows "skips (\<lambda>br. Option.bind (m br) k) (bs @ cs)"
  unfolding skips_def
proof (intro allI impI)
  fix br r assume "br_rest br = (bs @ cs) @ r"
  then obtain br' where "m br = Some br'" "br_rest br' = cs @ r"
    using assms(1) unfolding skips_def by (metis append_assoc)
  then show "\<exists>br'. Option.bind (m br) k = Some br' \<and> br_rest br' = r"
    using assms(2) unfolding skips_def by auto
qed

lemma reads_bit: "reads br_bit [b] (of_bool b)"
  by (auto simp: reads_def br_bit_rest dest: br_rest_step)

lemma skips_bits:
  assumes "length bs = n" and "0 < n"
  shows "skips (br_skip n) bs"
  unfolding skips_def
proof (intro allI impI)
  fix br r assume rest: "br_rest br = bs @ r"
  then have "length (br_rest br) = length bs + length r" by simp
  then have "length bs \<le> 8 * length (br_buf br) - br_pos br" by (simp add: br_rest_def)
  then have "br_pos br + n \<le> length (br_buf br) * 8" using assms by linarith
  then show "\<exists>br'. br_skip n br = Some br' \<and> br_rest br' = r"
    using br_rest_after [OF rest] assms by (simp add: br_skip_def)
qed


section \<open>The codes of the standard\<close>

fun bin_bits :: "nat \<Rightarrow> nat \<Rightarrow> bool list" where
  "bin_bits 0 v = []"
| "bin_bits (Suc n) v = odd (v div 2 ^ n) # bin_bits n v"

fun ue_len :: "nat \<Rightarrow> nat" where
  "ue_len n = (if n = 0 then 0 else Suc (ue_len ((n - 1) div 2)))"

declare ue_len.simps [simp del]

definition enc_ue :: "nat \<Rightarrow> bool list" where
  "enc_ue n = replicate (ue_len n) False @ [True] @ bin_bits (ue_len n) (n + 1 - 2 ^ ue_len n)"

definition enc_se :: "int \<Rightarrow> bool list" where
  "enc_se v = enc_ue (if 0 < v then nat (2 * v - 1) else nat (- 2 * v))"

lemma length_bin_bits [simp]: "length (bin_bits n v) = n"
  by (induction n) auto

lemma ue_len_range: "2 ^ ue_len n \<le> n + 1 \<and> n + 1 < 2 ^ (ue_len n + 1)"
proof (induction n rule: ue_len.induct)
  case (1 n)
  show ?case
  proof (cases "n = 0")
    case False
    then have "ue_len n = Suc (ue_len ((n - 1) div 2))" by (simp add: ue_len.simps [of n])
    moreover have "n = 2 * ((n - 1) div 2) + 1 \<or> n = 2 * ((n - 1) div 2) + 2" using False by presburger
    ultimately show ?thesis using 1 [OF False] by (elim disjE) (simp_all only: power_Suc power_add, linarith+)
  qed (simp add: ue_len.simps)
qed

lemma ue_len_bound: "n < 2 ^ 32 - 1 \<Longrightarrow> ue_len n \<le> 31"
proof (rule ccontr)
  assume n: "n < 2 ^ 32 - 1" and "\<not> ue_len n \<le> 31"
  then have "(2 :: nat) ^ 32 \<le> 2 ^ ue_len n" by (intro power_increasing) auto
  then show False using ue_len_range [of n] n by simp
qed

lemma reads_bits: "reads (br_bits n v) (bin_bits n x) (push_bit n v OR take_bit n (word_of_nat x))"
proof (induction n arbitrary: v)
  case 0
  show ?case using reads_return [of v] by (simp add: fun_eq_iff)
next
  case (Suc n)
  let ?b = "odd (x div 2 ^ n)" let ?W = "word_of_nat x :: u32"
  have val: "push_bit n (push_bit 1 v OR of_bool ?b) OR take_bit n ?W = push_bit (Suc n) v OR take_bit (Suc n) ?W"
    unfolding bit_iff_odd [symmetric] by (rule bit_word_eqI) (auto simp: bit_simps less_Suc_eq)
  have "reads (\<lambda>br. do { (b, br) \<leftarrow> br_bit br; br_bits n (push_bit 1 v OR b) br }) ([?b] @ bin_bits n x)
     (push_bit n (push_bit 1 v OR of_bool ?b) OR take_bit n ?W)"
    by (rule reads_bind [OF reads_bit Suc.IH])
  then show ?case unfolding val by (simp add: fun_eq_iff)
qed

lemma reads_u: "reads (br_u n) (bin_bits n x) (take_bit n (word_of_nat x))"
  using reads_bits [of n 0 x] by (simp add: br_u_def [abs_def])

lemma reads_zeros: "zeros + k \<le> 31 \<Longrightarrow> reads (ue_zeros zeros) (replicate k False @ [True]) (zeros + k)"
proof (induction k arbitrary: zeros)
  case 0
  show ?case
    by (auto simp: reads_def ue_zeros.simps [of zeros] br_bit_rest dest: br_rest_step)
next
  case (Suc k)
  show ?case unfolding reads_def
  proof (intro allI impI)
    fix br r assume rest: "br_rest br = (replicate (Suc k) False @ [True]) @ r"
    then have "ue_zeros zeros br = ue_zeros (zeros + 1) (br\<lparr>br_pos := br_pos br + 1\<rparr>)"
      using Suc.prems by (simp add: ue_zeros.simps [of zeros] br_bit_rest)
    moreover have "br_rest (br\<lparr>br_pos := br_pos br + 1\<rparr>) = (replicate k False @ [True]) @ r"
      using rest by (intro br_rest_step [where b = False]) simp
    ultimately show "\<exists>br'. ue_zeros zeros br = Some (zeros + Suc k, br') \<and> br_rest br' = r"
      using Suc.IH [of "zeros + 1"] Suc.prems unfolding reads_def by simp
  qed
qed

lemma reads_ue:
  assumes "n < 2 ^ 32 - 1"
  shows "reads br_ue (enc_ue n) (word_of_nat n)"
proof -
  let ?m = "ue_len n" let ?x = "n + 1 - 2 ^ ue_len n"
  have m: "?m \<le> 31" by (rule ue_len_bound [OF assms])
  have x: "?x < 2 ^ ?m" "2 ^ ?m + ?x = n + 1" using ue_len_range [of n] by auto
  have "take_bit ?m (word_of_nat ?x :: u32) = word_of_nat ?x"
    using x(1) m by (simp add: take_bit_of_nat take_bit_nat_eq_self)
  then have val: "push_bit ?m 1 - 1 + (push_bit ?m 0 OR take_bit ?m (word_of_nat ?x)) = (word_of_nat n :: u32)"
    using arg_cong [OF x(2), of "word_of_nat :: nat \<Rightarrow> u32"] by (simp add: push_bit_eq_mult algebra_simps)
  have "reads br_ue ((replicate ?m False @ [True]) @ bin_bits ?m ?x @ []) (push_bit ?m 1 - 1 + (push_bit ?m 0 OR take_bit ?m (word_of_nat ?x)))"
    unfolding br_ue_def [abs_def]
    by (rule reads_bind, rule reads_zeros [of 0, simplified], rule m, rule reads_bind, rule reads_bits, rule reads_return)
  then show ?thesis unfolding val by (simp add: enc_ue_def)
qed

lemma reads_se:
  assumes "\<bar>v\<bar> < 2 ^ 31 - 1"
  shows "reads br_se (enc_se v) v"
proof -
  let ?n = "if 0 < v then nat (2 * v - 1) else nat (- 2 * v)"
  have n: "?n < 2 ^ 32 - 1" using assms by auto
  then have u: "uint (word_of_nat ?n :: u32) = int ?n" using take_bit_nat_eq_self [of ?n 32] by (simp only: unsigned_of_nat) simp
  have val: "(if int ?n mod 2 = 1 then (int ?n + 1) div 2 else - ((int ?n + 1) div 2)) = v"
    by (auto simp: mod_eq_dvd_iff) presburger+
  have "reads br_se (enc_ue ?n @ []) (if int ?n mod 2 = 1 then (int ?n + 1) div 2 else - ((int ?n + 1) div 2))"
    unfolding br_se_def [abs_def]
    by (rule reads_bind, rule reads_ue [OF n]) (simp only: u Let_def reads_return)
  then show ?thesis unfolding val by (simp add: enc_se_def)
qed

end
