(* ===== verification/Sps.thy ===== *)
theory Sps
  imports Annexb Bits "HOL-Library.Signed_Division"
begin

text \<open>
  The picture size of an H.264 sequence parameter set: \<open>sps_dimensions\<close> of
  \<open>stross-endpoint/src/codec/nal.rs\<close>, and a writer of parameter sets after the standard
  (7.3.2.1.1), which the parser is shown to understand.  Arithmetic on \<open>u32\<close> wraps, as in
  a release build.
\<close>

section \<open>The parser\<close>

definition high_profile :: "u32 \<Rightarrow> bool" where
  "high_profile p \<longleftrightarrow> p \<in> {100, 110, 122, 244, 44, 83, 86, 118, 128, 138, 139, 134, 135}"

definition i32_wrap :: "int \<Rightarrow> int" where
  "i32_wrap v = signed_take_bit 31 v"

fun scaling_list :: "nat \<Rightarrow> int \<Rightarrow> int \<Rightarrow> bit_reader \<Rightarrow> bit_reader option" where
  "scaling_list 0 last_v next_v br = Some br"
| "scaling_list (Suc n) last_v next_v br =
     (if next_v \<noteq> 0 then
        do { (delta, br) \<leftarrow> br_se br;
             let next_v' = i32_wrap (i32_wrap (last_v + delta) + 256) smod 256;
             scaling_list n (if next_v' = 0 then last_v else next_v') next_v' br }
      else scaling_list n last_v next_v br)"

fun scaling_matrix :: "nat list \<Rightarrow> bit_reader \<Rightarrow> bit_reader option" where
  "scaling_matrix [] br = Some br"
| "scaling_matrix (i # is) br =
     do { (present, br) \<leftarrow> br_bit br;
          br \<leftarrow> (if present = 1 then scaling_list (if i < 6 then 16 else 64) 8 8 br else Some br);
          scaling_matrix is br }"

definition sps_chroma :: "u32 \<Rightarrow> bit_reader \<Rightarrow> (u32 \<times> bit_reader) option" where
  "sps_chroma profile_idc br =
     (if high_profile profile_idc then
        do { (chroma_format_idc, br) \<leftarrow> br_ue br;
             br \<leftarrow> (if chroma_format_idc = 3 then br_skip 1 br else Some br);
             (_, br) \<leftarrow> br_ue br;
             (_, br) \<leftarrow> br_ue br;
             br \<leftarrow> br_skip 1 br;
             (scaling, br) \<leftarrow> br_bit br;
             br \<leftarrow> (if scaling = 1 then scaling_matrix [0..<if chroma_format_idc = 3 then 12 else 8] br else Some br);
             Some (chroma_format_idc, br) }
      else Some (1, br))"

fun skip_offsets :: "nat \<Rightarrow> bit_reader \<Rightarrow> bit_reader option" where
  "skip_offsets 0 br = Some br"
| "skip_offsets (Suc n) br = do { (_, br) \<leftarrow> br_se br; skip_offsets n br }"

definition sps_poc :: "bit_reader \<Rightarrow> bit_reader option" where
  "sps_poc br =
     do { (poc_type, br) \<leftarrow> br_ue br;
          if poc_type = 0 then do { (_, br) \<leftarrow> br_ue br; Some br }
          else if poc_type = 1 then
            do { br \<leftarrow> br_skip 1 br;
                 (_, br) \<leftarrow> br_se br;
                 (_, br) \<leftarrow> br_se br;
                 (n, br) \<leftarrow> br_ue br;
                 skip_offsets (unat n) br }
          else Some br }"

definition sps_crop :: "bit_reader \<Rightarrow> ((u32 \<times> u32 \<times> u32 \<times> u32) \<times> bit_reader) option" where
  "sps_crop br =
     do { (cropped, br) \<leftarrow> br_bit br;
          if cropped = 1 then
            do { (l, br) \<leftarrow> br_ue br; (r, br) \<leftarrow> br_ue br; (t, br) \<leftarrow> br_ue br; (b, br) \<leftarrow> br_ue br;
                 Some ((l, r, t, b), br) }
          else Some ((0, 0, 0, 0), br) }"

definition crop_unit :: "u32 \<Rightarrow> u32 \<Rightarrow> u32 \<times> u32" where
  "crop_unit chroma_format_idc frame_mbs_only_flag =
     (if chroma_format_idc = 0 then (1, 2 - frame_mbs_only_flag)
      else if chroma_format_idc = 1 then (2, 2)
      else if chroma_format_idc = 2 then (2, 1)
      else (1, 1))"

definition sps_size :: "u32 \<Rightarrow> u32 \<Rightarrow> u32 \<Rightarrow> u32 \<Rightarrow> u32 \<times> u32 \<times> u32 \<times> u32 \<Rightarrow> u32 \<times> u32" where
  "sps_size chroma_format_idc pic_width_in_mbs_minus1 pic_height_in_map_units_minus1 frame_mbs_only_flag crop =
     (let (crop_unit_x, crop_unit_y) = crop_unit chroma_format_idc frame_mbs_only_flag;
          (l, r, t, b) = crop
      in ((pic_width_in_mbs_minus1 + 1) * 16 - (l + r) * crop_unit_x,
          (pic_height_in_map_units_minus1 + 1) * (2 - frame_mbs_only_flag) * 16 - (t + b) * crop_unit_y))"

definition sps_read :: "bit_reader \<Rightarrow> ((u32 \<times> u32) \<times> bit_reader) option" where
  "sps_read br =
     do { (profile_idc, br) \<leftarrow> br_u 8 br;
          br \<leftarrow> br_skip 8 br;
          br \<leftarrow> br_skip 8 br;
          (_, br) \<leftarrow> br_ue br;
          (chroma_format_idc, br) \<leftarrow> sps_chroma profile_idc br;
          (_, br) \<leftarrow> br_ue br;
          br \<leftarrow> sps_poc br;
          (_, br) \<leftarrow> br_ue br;
          br \<leftarrow> br_skip 1 br;
          (pic_width_in_mbs_minus1, br) \<leftarrow> br_ue br;
          (pic_height_in_map_units_minus1, br) \<leftarrow> br_ue br;
          (frame_mbs_only_flag, br) \<leftarrow> br_bit br;
          br \<leftarrow> (if frame_mbs_only_flag = 0 then br_skip 1 br else Some br);
          br \<leftarrow> br_skip 1 br;
          (crop, br) \<leftarrow> sps_crop br;
          Some (sps_size chroma_format_idc pic_width_in_mbs_minus1 pic_height_in_map_units_minus1
                  frame_mbs_only_flag crop, br) }"

definition sps_dimensions :: "(bytes \<Rightarrow> nat option) \<Rightarrow> bytes \<Rightarrow> (u32 \<times> u32) option" where
  "sps_dimensions ep_finder nal =
     (if nal_type nal \<noteq> Some NAL_SPS \<or> length nal < 4 then None
      else
        do { ((width, height), br) \<leftarrow> sps_read (br_new (de_emulation_prevention ep_finder (drop 1 nal)));
             if width = 0 \<or> height = 0 then None else Some (width, height) })"


section \<open>A writer of parameter sets\<close>

datatype poc = Poc_lsb u32 | Poc_cycle bool int int "int list" | Poc_other u32

record sps =
  sp_profile :: u8
  sp_constraints :: u8
  sp_level :: u8
  sp_id :: u32
  sp_chroma :: u32
  sp_colour_plane :: bool
  sp_depth_luma :: u32
  sp_depth_chroma :: u32
  sp_bypass :: bool
  sp_frame_num :: u32
  sp_poc :: poc
  sp_refs :: u32
  sp_gaps :: bool
  sp_width_mbs :: u32
  sp_height_units :: u32
  sp_frame_mbs_only :: bool
  sp_mbaff :: bool
  sp_direct8 :: bool
  sp_crop :: "(u32 \<times> u32 \<times> u32 \<times> u32) option"

abbreviation ue_word :: "u32 \<Rightarrow> bool list" where
  "ue_word w \<equiv> enc_ue (unat w)"

definition chroma_bits :: "sps \<Rightarrow> bool list" where
  "chroma_bits s =
     (if high_profile (ucast (sp_profile s)) then
        ue_word (sp_chroma s) @ (if sp_chroma s = 3 then [sp_colour_plane s] else []) @
        ue_word (sp_depth_luma s) @ ue_word (sp_depth_chroma s) @ [sp_bypass s] @ [False] @ [] @ []
      else [])"

fun offset_bits :: "int list \<Rightarrow> bool list" where
  "offset_bits [] = []"
| "offset_bits (v # vs) = enc_se v @ offset_bits vs"

fun poc_bits :: "poc \<Rightarrow> bool list" where
  "poc_bits (Poc_lsb v) = ue_word 0 @ ue_word v @ []"
| "poc_bits (Poc_cycle zero nonref topbot offsets) =
     ue_word 1 @ [zero] @ enc_se nonref @ enc_se topbot @ ue_word (word_of_nat (length offsets)) @ offset_bits offsets"
| "poc_bits (Poc_other t) = ue_word t @ []"

definition crop_bits :: "sps \<Rightarrow> bool list" where
  "crop_bits s = (case sp_crop s of
       None \<Rightarrow> [False] @ []
     | Some (l, r, t, b) \<Rightarrow> [True] @ ue_word l @ ue_word r @ ue_word t @ ue_word b @ [])"

definition byte_be :: "u8 \<Rightarrow> bool list" where
  "byte_be b = bin_bits 8 (unat b)"

definition sps_bits :: "sps \<Rightarrow> bool list" where
  "sps_bits s =
     byte_be (sp_profile s) @ byte_be (sp_constraints s) @ byte_be (sp_level s) @ ue_word (sp_id s) @
     chroma_bits s @ ue_word (sp_frame_num s) @ poc_bits (sp_poc s) @ ue_word (sp_refs s) @ [sp_gaps s] @
     ue_word (sp_width_mbs s) @ ue_word (sp_height_units s) @ [sp_frame_mbs_only s] @
     (if sp_frame_mbs_only s then [] else [sp_mbaff s]) @ [sp_direct8 s] @ crop_bits s @ []"

definition ue_ok :: "u32 \<Rightarrow> bool" where
  "ue_ok w \<longleftrightarrow> unat w < 2 ^ 32 - 1"

definition se_ok :: "int \<Rightarrow> bool" where
  "se_ok v \<longleftrightarrow> \<bar>v\<bar> < 2 ^ 31 - 1"

fun poc_ok :: "poc \<Rightarrow> bool" where
  "poc_ok (Poc_lsb v) = ue_ok v"
| "poc_ok (Poc_cycle zero nonref topbot offsets) =
     (se_ok nonref \<and> se_ok topbot \<and> length offsets < 256 \<and> list_all se_ok offsets)"
| "poc_ok (Poc_other t) = (ue_ok t \<and> t \<noteq> 0 \<and> t \<noteq> 1)"

definition crop_ok :: "sps \<Rightarrow> bool" where
  "crop_ok s = (case sp_crop s of None \<Rightarrow> True | Some (l, r, t, b) \<Rightarrow> ue_ok l \<and> ue_ok r \<and> ue_ok t \<and> ue_ok b)"

text \<open>Every value has a code, and the chroma format of a profile that does not carry it is 1.\<close>

definition sps_ok :: "sps \<Rightarrow> bool" where
  "sps_ok s \<longleftrightarrow> ue_ok (sp_id s) \<and> ue_ok (sp_chroma s) \<and> ue_ok (sp_depth_luma s) \<and> ue_ok (sp_depth_chroma s) \<and>
     ue_ok (sp_frame_num s) \<and> poc_ok (sp_poc s) \<and> ue_ok (sp_refs s) \<and> ue_ok (sp_width_mbs s) \<and>
     ue_ok (sp_height_units s) \<and> crop_ok s \<and> (\<not> high_profile (ucast (sp_profile s)) \<longrightarrow> sp_chroma s = 1)"


section \<open>The parser reads what the writer writes\<close>

lemma reads_ue_word: "ue_ok w \<Longrightarrow> reads br_ue (ue_word w) w"
  using reads_ue [of "unat w"] by (simp add: ue_ok_def)

lemma reads_se_ok: "se_ok v \<Longrightarrow> reads br_se (enc_se v) v"
  by (rule reads_se) (simp add: se_ok_def)

lemma skips_1: "skips (br_skip 1) [b]"
  by (rule skips_bits) simp_all

lemma skips_byte: "skips (br_skip 8) (byte_be b)"
  by (rule skips_bits) (simp_all add: byte_be_def)

lemma reads_byte: "reads (br_u 8) (byte_be b) (ucast b)"
proof -
  have "take_bit 8 (word_of_nat (unat b) :: u32) = ucast b"
    by (rule bit_word_eqI) (auto simp: bit_simps dest: bit_imp_le_length)
  then show ?thesis using reads_u [of 8 "unat b"] by (simp add: byte_be_def)
qed

lemma skips_if: "(c \<Longrightarrow> skips m bs) \<Longrightarrow> skips (\<lambda>br. if c then m br else Some br) (if c then bs else [])"
  using skips_return by (cases c) simp_all

lemma skips_offsets: "list_all se_ok vs \<Longrightarrow> skips (skip_offsets (length vs)) (offset_bits vs)"
proof (induction vs)
  case Nil
  show ?case using skips_return by (simp add: fun_eq_iff)
next
  case (Cons v vs)
  have "skips (\<lambda>br. do { (_, br) \<leftarrow> br_se br; skip_offsets (length vs) br }) (enc_se v @ offset_bits vs)"
    by (rule skips_bind [OF reads_se_ok]) (use Cons in simp_all)
  then show ?case by (simp add: fun_eq_iff)
qed

lemma reads_chroma:
  assumes ok: "sps_ok s"
  shows "reads (sps_chroma (ucast (sp_profile s))) (chroma_bits s) (sp_chroma s)"
proof (cases "high_profile (ucast (sp_profile s))")
  case False
  then have "sp_chroma s = 1" using ok by (simp add: sps_ok_def)
  then show ?thesis using False reads_return by (simp add: sps_chroma_def [abs_def] chroma_bits_def)
next
  case True
  note ue = reads_ue_word
  have o: "ue_ok (sp_chroma s)" "ue_ok (sp_depth_luma s)" "ue_ok (sp_depth_chroma s)"
    using ok by (simp_all add: sps_ok_def)
  show ?thesis
    unfolding sps_chroma_def [abs_def] chroma_bits_def if_P [OF True]
    by (rule reads_bind [OF ue [OF o(1)]], rule reads_then [OF skips_if [OF skips_1]],
        rule reads_bind [OF ue [OF o(2)]], rule reads_bind [OF ue [OF o(3)]], rule reads_then [OF skips_1],
        rule reads_bind [OF reads_bit], rule reads_then)
      (simp_all add: skips_return reads_return)
qed

lemma skips_poc: "poc_ok p \<Longrightarrow> skips sps_poc (poc_bits p)"
proof (cases p)
  case (Poc_lsb v)
  assume "poc_ok p"
  then have o: "ue_ok v" "ue_ok 0" using Poc_lsb by (simp_all add: ue_ok_def)
  show ?thesis unfolding sps_poc_def [abs_def] Poc_lsb poc_bits.simps
    by (rule skips_bind [OF reads_ue_word [OF o(2)]], unfold if_P [OF refl], rule skips_bind [OF reads_ue_word [OF o(1)]], rule skips_return)
next
  case (Poc_cycle z nr tb vs)
  assume "poc_ok p"
  then have o: "se_ok nr" "se_ok tb" "length vs < 256" "list_all se_ok vs" "ue_ok 1" "ue_ok (word_of_nat (length vs))"
    "unat (word_of_nat (length vs) :: u32) = length vs"
    using Poc_cycle by (auto simp: ue_ok_def unsigned_of_nat take_bit_nat_eq_self)
  have n: "(1 :: u32) \<noteq> 0" by simp
  show ?thesis unfolding sps_poc_def [abs_def] Poc_cycle poc_bits.simps
    by (rule skips_bind [OF reads_ue_word [OF o(5)]], unfold if_not_P [OF n] if_P [OF refl], rule skips_then [OF skips_1],
        rule skips_bind [OF reads_se_ok [OF o(1)]], rule skips_bind [OF reads_se_ok [OF o(2)]],
        rule skips_bind [OF reads_ue_word [OF o(6)]], unfold o(7), rule skips_offsets [OF o(4)])
next
  case (Poc_other t)
  assume "poc_ok p"
  then have o: "ue_ok t" "t \<noteq> 0" "t \<noteq> 1" using Poc_other by auto
  show ?thesis unfolding sps_poc_def [abs_def] Poc_other poc_bits.simps
    by (rule skips_bind [OF reads_ue_word [OF o(1)]], unfold if_not_P [OF o(2)] if_not_P [OF o(3)], rule skips_return)
qed

definition crop_of :: "sps \<Rightarrow> u32 \<times> u32 \<times> u32 \<times> u32" where
  "crop_of s = (case sp_crop s of None \<Rightarrow> (0, 0, 0, 0) | Some c \<Rightarrow> c)"

lemma reads_crop: "crop_ok s \<Longrightarrow> reads sps_crop (crop_bits s) (crop_of s)"
proof (cases "sp_crop s")
  case None
  have e: "reads sps_crop ([False] @ []) (0, 0, 0, 0)"
    unfolding sps_crop_def [abs_def] by (rule reads_bind [OF reads_bit]) (simp add: reads_return)
  then show ?thesis by (simp add: None crop_bits_def crop_of_def)
next
  case (Some c)
  assume ok: "crop_ok s"
  obtain l r t b where c: "c = (l, r, t, b)" by (cases c)
  have o: "ue_ok l" "ue_ok r" "ue_ok t" "ue_ok b" using ok Some c by (simp_all add: crop_ok_def)
  have "reads (\<lambda>br. do { (l, br) \<leftarrow> br_ue br; (r, br) \<leftarrow> br_ue br; (t, br) \<leftarrow> br_ue br; (b, br) \<leftarrow> br_ue br;
            Some ((l, r, t, b), br) }) (ue_word l @ ue_word r @ ue_word t @ ue_word b @ []) (l, r, t, b)"
    by (rule reads_bind [OF reads_ue_word [OF o(1)]], rule reads_bind [OF reads_ue_word [OF o(2)]],
        rule reads_bind [OF reads_ue_word [OF o(3)]], rule reads_bind [OF reads_ue_word [OF o(4)]], rule reads_return)
  then have e: "reads sps_crop ([True] @ ue_word l @ ue_word r @ ue_word t @ ue_word b @ []) (l, r, t, b)"
    unfolding sps_crop_def [abs_def] by (intro reads_bind [OF reads_bit]) simp
  then show ?thesis by (simp add: Some c crop_bits_def crop_of_def)
qed

definition size_of_sps :: "sps \<Rightarrow> u32 \<times> u32" where
  "size_of_sps s =
     sps_size (sp_chroma s) (sp_width_mbs s) (sp_height_units s) (of_bool (sp_frame_mbs_only s)) (crop_of s)"

lemma skips_unless: "(\<not> c \<Longrightarrow> skips m bs) \<Longrightarrow>
  skips (\<lambda>br. if (of_bool c :: u32) = 0 then m br else Some br) (if c then [] else bs)"
  using skips_return by (cases c) simp_all

lemma reads_sps:
  assumes ok: "sps_ok s"
  shows "reads sps_read (sps_bits s) (size_of_sps s)"
proof -
  have o: "ue_ok (sp_id s)" "ue_ok (sp_frame_num s)" "poc_ok (sp_poc s)" "ue_ok (sp_refs s)"
    "ue_ok (sp_width_mbs s)" "ue_ok (sp_height_units s)" "crop_ok s"
    using ok by (simp_all add: sps_ok_def)
  show ?thesis unfolding sps_read_def [abs_def] sps_bits_def size_of_sps_def
    by (rule reads_bind [OF reads_byte], rule reads_then [OF skips_byte], rule reads_then [OF skips_byte],
        rule reads_bind [OF reads_ue_word [OF o(1)]], rule reads_bind [OF reads_chroma [OF ok]],
        rule reads_bind [OF reads_ue_word [OF o(2)]], rule reads_then [OF skips_poc [OF o(3)]],
        rule reads_bind [OF reads_ue_word [OF o(4)]], rule reads_then [OF skips_1],
        rule reads_bind [OF reads_ue_word [OF o(5)]], rule reads_bind [OF reads_ue_word [OF o(6)]],
        rule reads_bind [OF reads_bit], rule reads_then [OF skips_unless [OF skips_1]], rule reads_then [OF skips_1],
        rule reads_bind [OF reads_crop [OF o(7)]], rule reads_return)
qed


section \<open>The unit as bytes\<close>

text \<open>The payload ends with a stop bit and zeros up to the byte; then comes the
  insertion of the prevention bytes.\<close>

definition pack_byte :: "bool list \<Rightarrow> u8" where
  "pack_byte bs = horner_sum of_bool 2 (rev (take 8 (bs @ replicate 7 False)))"

function pack_bits :: "bool list \<Rightarrow> bytes" where
  "pack_bits bs = (if bs = [] then [] else pack_byte bs # pack_bits (drop 8 bs))"
  by pat_completeness auto
termination
  by (relation "measure length") auto

declare pack_bits.simps [simp del]

lemma byte_bits_pack_byte:
  assumes "bs \<noteq> []"
  shows "byte_bits (pack_byte bs) = take 8 (bs @ replicate 7 False)"
proof -
  define t where "t = take 8 (bs @ replicate 7 False)"
  have l: "length t = 8" using assms by (cases bs) (auto simp: t_def)
  have "byte_bits (pack_byte bs) ! i = t ! i" if i: "i < 8" for i
  proof -
    have "bit (pack_byte bs) (7 - i) = rev t ! (7 - i)"
      using l unfolding pack_byte_def t_def [symmetric] bit_horner_sum_bit_word_iff using less_imp_diff_less [of 7 8 i] by simp
    also have "\<dots> = t ! (8 - Suc (7 - i))" using l by (simp add: rev_nth)
    also have "8 - Suc (7 - i) = i" using i by simp
    finally show ?thesis using i by (simp add: byte_bits_def)
  qed
  then show ?thesis unfolding t_def [symmetric] using l by (intro nth_equalityI) simp_all
qed

lemma bits_of_pack: "\<exists>k<8. bits_of (pack_bits bs) = bs @ replicate k False"
proof (induction bs rule: pack_bits.induct)
  case (1 bs)
  show ?case
  proof (cases "bs = []")
    case False
    obtain k where k: "k < 8" "bits_of (pack_bits (drop 8 bs)) = drop 8 bs @ replicate k False" using 1 [OF False] by blast
    have e: "bits_of (pack_bits bs) = take 8 (bs @ replicate 7 False) @ bits_of (pack_bits (drop 8 bs))"
      by (simp add: pack_bits.simps [of bs] False bits_of_def byte_bits_pack_byte [OF False] del: take_append)
    show ?thesis
    proof (cases "8 \<le> length bs")
      case True
      then have "bits_of (pack_bits bs) = bs @ replicate k False"
        unfolding e k(2) by simp
      then show ?thesis using k(1) by blast
    next
      case F: False
      then have "bits_of (pack_bits bs) = bs @ replicate (8 - length bs) False"
        unfolding e using False by (cases bs) (auto simp: pack_bits.simps [of "[]"] bits_of_def min_def)
      then show ?thesis using False by (intro exI [of _ "8 - length bs"]) auto
    qed
  qed (auto simp: pack_bits.simps bits_of_def)
qed

definition sps_nal :: "u8 \<Rightarrow> sps \<Rightarrow> bool list \<Rightarrow> bytes" where
  "sps_nal hdr s vui = hdr # ep_insert 0 (pack_bits (sps_bits s @ vui @ [True]))"

lemma length_ep_insert: "length bs \<le> length (ep_insert z bs)"
  by (induction z bs rule: ep_insert.induct) auto

lemma length_pack_bits: "length bs \<le> 8 * length (pack_bits bs)"
proof -
  obtain k where "bits_of (pack_bits bs) = bs @ replicate k False" using bits_of_pack by blast
  then have "8 * length (pack_bits bs) = length bs + k" using length_bits_of [of "pack_bits bs"] by simp
  then show ?thesis by simp
qed

lemma dimensions_of_sps:
  assumes found: "finds_first EP_CODE ep_finder" and hdr: "hdr AND 0x1f = NAL_SPS"
    and ok: "sps_ok s" and size_s: "size_of_sps s = (w, h)" and pos: "w \<noteq> 0" "h \<noteq> 0"
  shows "sps_dimensions ep_finder (sps_nal hdr s vui) = Some (w, h)"
proof -
  let ?bits = "sps_bits s @ vui @ [True]"
  obtain k where k: "bits_of (pack_bits ?bits) = ?bits @ replicate k False" using bits_of_pack by blast
  have "br_rest (br_new (pack_bits ?bits)) = sps_bits s @ (vui @ [True] @ replicate k False)"
    by (simp add: br_rest_def br_new_def k)
  then obtain br' where "sps_read (br_new (pack_bits ?bits)) = Some ((w, h), br')"
    using reads_sps [OF ok] unfolding reads_def size_s by blast
  moreover have "24 \<le> length ?bits" by (simp add: sps_bits_def byte_be_def)
  then have "3 \<le> length (pack_bits ?bits)" using length_pack_bits [of ?bits] by linarith
  then have "3 \<le> length (ep_insert 0 (pack_bits ?bits))" using length_ep_insert le_trans by blast
  ultimately show ?thesis
    using pos hdr by (simp add: sps_dimensions_def sps_nal_def nal_type_def de_emulation_undoes_insertion [OF found])
qed



section \<open>The size of the standard\<close>

text \<open>7.4.2.1.1: the unit of vertical cropping doubles for field coding, in every chroma
  format.\<close>

definition std_crop_unit :: "sps \<Rightarrow> int \<times> int" where
  "std_crop_unit s =
     (let (sub_w, sub_h) = (if sp_chroma s = 1 then (2, 2) else if sp_chroma s = 2 then (2, 1) else (1, 1))
      in (sub_w, sub_h * (2 - of_bool (sp_frame_mbs_only s))))"

definition std_size :: "sps \<Rightarrow> int \<times> int" where
  "std_size s =
     (let (ux, uy) = std_crop_unit s; (l, r, t, b) = crop_of s
      in ((uint (sp_width_mbs s) + 1) * 16 - (uint l + uint r) * ux,
          (uint (sp_height_units s) + 1) * (2 - of_bool (sp_frame_mbs_only s)) * 16 - (uint t + uint b) * uy))"

definition uncropped_below :: "int \<Rightarrow> sps \<Rightarrow> bool" where
  "uncropped_below n s \<longleftrightarrow>
     (uint (sp_width_mbs s) + 1) * 16 < n \<and>
     (uint (sp_height_units s) + 1) * (2 - of_bool (sp_frame_mbs_only s)) * 16 < n"

text \<open>Where the source follows the standard: progressive, monochrome, or without vertical cropping.\<close>

definition crop_units_agree :: "sps \<Rightarrow> bool" where
  "crop_units_agree s \<longleftrightarrow> sp_frame_mbs_only s \<or> sp_chroma s = 0 \<or> (case crop_of s of (l, r, t, b) \<Rightarrow> t = 0 \<and> b = 0)"

lemma of_int_uint_u32: "(of_int (uint (x :: u32)) :: u32) = x"
  by simp

lemma size_is_std:
  assumes "crop_units_agree s"
  shows "size_of_sps s = (of_int (fst (std_size s)), of_int (snd (std_size s)))"
proof -
  obtain l r t b where c: "crop_of s = (l, r, t, b)" by (cases "crop_of s")
  show ?thesis
    using assms
    by (cases "sp_frame_mbs_only s") (auto simp: size_of_sps_def sps_size_def c std_size_def crop_unit_def std_crop_unit_def crop_units_agree_def)
qed

definition sps_stream_ok :: "sps \<Rightarrow> bool" where
  "sps_stream_ok s \<longleftrightarrow> sps_ok s \<and> crop_units_agree s \<and> 0 < fst (std_size s) \<and> 0 < snd (std_size s) \<and>
     uncropped_below (2 ^ 32) s"

lemma std_size_fits:
  assumes "sps_stream_ok s"
  shows "fst (std_size s) < 2 ^ 32" and "snd (std_size s) < 2 ^ 32"
proof -
  obtain l r t b where c: "crop_of s = (l, r, t, b)" by (cases "crop_of s")
  define x y where "x = uint l + uint r" and "y = uint t + uint b"
  define A B where "A = (uint (sp_width_mbs s) + 1) * 16"
    and "B = (uint (sp_height_units s) + 1) * (2 - of_bool (sp_frame_mbs_only s)) * 16"
  have u: "A < 2 ^ 32" "B < 2 ^ 32" using assms by (simp_all add: sps_stream_ok_def uncropped_below_def A_def B_def)
  have z: "0 \<le> x" "0 \<le> y" by (simp_all add: x_def y_def)
  obtain ux uy where ux0: "std_crop_unit s = (ux, uy)" by (cases "std_crop_unit s")
  then have ux: "std_crop_unit s = (ux, uy)" "0 \<le> ux" "0 \<le> uy"
    by (cases "sp_chroma s = 1"; cases "sp_chroma s = 2"; auto simp: std_crop_unit_def)+
  have e: "std_size s = (A - x * ux, B - y * uy)"
    by (simp add: std_size_def c ux(1) A_def B_def x_def y_def)
  have "0 \<le> x * ux" "0 \<le> y * uy" using z ux by simp_all
  then show "fst (std_size s) < 2 ^ 32" "snd (std_size s) < 2 ^ 32" unfolding e using u by simp_all
qed

lemma dimensions_std:
  assumes found: "finds_first EP_CODE ep_finder" and hdr: "hdr AND 0x1f = NAL_SPS" and ok: "sps_stream_ok s"
  shows "sps_dimensions ep_finder (sps_nal hdr s vui) = Some (of_int (fst (std_size s)), of_int (snd (std_size s)))"
proof (rule dimensions_of_sps [OF found hdr])
  have nz: "(of_int v :: u32) \<noteq> 0" if "0 < v" "v < 2 ^ 32" for v
  proof
    assume z: "(of_int v :: u32) = 0"
    have "uint (of_int v :: u32) = v" using that by (simp add: uint_word_of_int_eq take_bit_int_eq_self)
    then show False using z that by simp
  qed
  show "sps_ok s" using ok by (simp add: sps_stream_ok_def)
  show "size_of_sps s = (of_int (fst (std_size s)), of_int (snd (std_size s)))"
    by (rule size_is_std) (use ok in \<open>simp add: sps_stream_ok_def\<close>)
  show "(of_int (fst (std_size s)) :: u32) \<noteq> 0" "(of_int (snd (std_size s)) :: u32) \<noteq> 0"
    using nz std_size_fits [OF ok] ok by (simp_all add: sps_stream_ok_def)
qed

text \<open>The unit is clean: prevention bytes keep start codes out, the stop bit keeps the last byte
  from being zero.\<close>

lemma ep_insert_no_code:
  "z \<le> 2 \<Longrightarrow> first_match NAL_START_CODE (replicate z 0 @ ep_insert z bs) = None"
proof (induction bs arbitrary: z)
  case Nil
  then show ?case by (auto simp: NAL_START_CODE_def le_Suc_eq numeral_2_eq_2)
next
  case (Cons b bs)
  note IH = Cons.IH [of 0, simplified] Cons.IH [of 1, simplified] Cons.IH [of 2, simplified, unfolded replicate_2]
  have b1: "b \<noteq> 1" if "\<not> b \<le> 3" using that by auto
  consider "z = 0" | "z = 1" | "z = 2" using Cons.prems by linarith
  then show ?case
  proof cases
    case 3
    show ?thesis using IH b1 unfolding 3 replicate_2
      by (cases "b \<le> 3"; cases "b = 0") (auto simp: NAL_START_CODE_def)
  qed (use IH in \<open>cases "b = 0"; auto simp: NAL_START_CODE_def numeral_2_eq_2\<close>)+
qed

lemma last_ep_insert: "bs \<noteq> [] \<Longrightarrow> ep_insert z bs \<noteq> [] \<and> last (ep_insert z bs) = last bs"
proof (induction z bs rule: ep_insert.induct)
  case (2 z b bs)
  then show ?case by (cases bs) auto
qed simp

lemma last_pack_bits: "pack_bits (bs @ [True]) \<noteq> [] \<and> last (pack_bits (bs @ [True])) \<noteq> 0"
proof -
  let ?ys = "pack_bits (bs @ [True])"
  obtain k where k: "k < 8" "bits_of ?ys = (bs @ [True]) @ replicate k False" using bits_of_pack by blast
  have l: "8 * length ?ys = length bs + 1 + k" using arg_cong [OF k(2), of length] by simp
  then have ne: "?ys \<noteq> []" by auto
  have d: "length bs div 8 = length ?ys - 1" using l k(1) by linarith
  have "bits_of ?ys ! length bs" by (simp add: k(2) nth_append)
  then have "bit (?ys ! (length ?ys - 1)) (7 - length bs mod 8)" using bits_of_nth [of "length bs" ?ys] l d by simp
  then have "bit (last ?ys) (7 - length bs mod 8)" by (simp add: last_conv_nth [OF ne])
  then show ?thesis using ne by auto
qed

lemma sps_nal_clean:
  assumes hdr: "hdr AND 0x1f = NAL_SPS" and len: "length (sps_nal hdr s vui) + 2 \<le> MAX_PENDING_NAL"
  shows "first_match NAL_START_CODE (sps_nal hdr s vui) = None \<and> last (sps_nal hdr s vui) \<noteq> 0"
proof -
  have h: "hdr \<noteq> 0" using hdr by (auto simp: NAL_SPS_def)
  let ?p = "pack_bits (sps_bits s @ vui @ [True])"
  have p: "?p \<noteq> []" "last ?p \<noteq> 0" using last_pack_bits [of "sps_bits s @ vui"] by simp_all
  have "first_match NAL_START_CODE (ep_insert 0 ?p) = None" using ep_insert_no_code [of 0 ?p] by simp
  moreover have "\<not> prefix NAL_START_CODE (hdr # ep_insert 0 ?p)" using h by (simp add: NAL_START_CODE_def)
  ultimately show ?thesis using last_ep_insert [OF p(1), of 0] p(2) by (simp add: sps_nal_def)
qed


text \<open>Field coding with vertical cropping: 1080 lines are taken for 1084.\<close>

definition interlaced_1080 :: sps where
  "interlaced_1080 = \<lparr> sp_profile = 77, sp_constraints = 0, sp_level = 40, sp_id = 0, sp_chroma = 1,
     sp_colour_plane = False, sp_depth_luma = 0, sp_depth_chroma = 0, sp_bypass = False, sp_frame_num = 0,
     sp_poc = Poc_lsb 2, sp_refs = 1, sp_gaps = False, sp_width_mbs = 119, sp_height_units = 33,
     sp_frame_mbs_only = False, sp_mbaff = False, sp_direct8 = True, sp_crop = Some (0, 0, 0, 2) \<rparr>"

lemma interlaced_crop_is_halved:
  assumes "finds_first EP_CODE ep_finder"
  shows "std_size interlaced_1080 = (1920, 1080)"
    and "sps_dimensions ep_finder (sps_nal 0x67 interlaced_1080 []) = Some (1920, 1084)"
proof -
  show "std_size interlaced_1080 = (1920, 1080)"
    by (simp add: std_size_def std_crop_unit_def crop_of_def interlaced_1080_def)
  have ok: "sps_ok interlaced_1080"
    by (simp add: sps_ok_def interlaced_1080_def ue_ok_def crop_ok_def)
  show "sps_dimensions ep_finder (sps_nal 0x67 interlaced_1080 []) = Some (1920, 1084)"
    by (rule dimensions_of_sps [OF assms _ ok])
      (simp_all add: NAL_SPS_def size_of_sps_def sps_size_def crop_unit_def crop_of_def interlaced_1080_def)
qed

end
