(* ===== verification/Access_Units.thy ===== *)
theory Access_Units
  imports Sps
begin

text \<open>
  Access units of \<open>stross-endpoint/src/codec/nal.rs\<close>: the grouping of NAL units into
  frames by \<open>first_mb_in_slice\<close>, their serialisation with start codes, and the extraction
  of the decoder configuration.  The splitter, the builder and the serialiser are shown to
  be inverse to each other on streams of well-formed frames.
\<close>

section \<open>The first macroblock of a slice\<close>

text \<open>At most six bytes behind the NAL header, without prevention bytes.\<close>

fun mb_clean :: "nat \<Rightarrow> nat \<Rightarrow> bytes \<Rightarrow> bytes" where
  "mb_clean ci zeros [] = []"
| "mb_clean ci zeros (b # bs) =
     (if 6 \<le> ci then []
      else if b = 0 then b # mb_clean (ci + 1) (zeros + 1) bs
      else if b = 3 \<and> 2 \<le> zeros then mb_clean ci 0 bs
      else b # mb_clean (ci + 1) 0 bs)"

definition mb_bit :: "bytes \<Rightarrow> nat \<Rightarrow> u8 option" where
  "mb_bit cleaned p =
     (if length cleaned \<le> p div 8 then None else Some (drop_bit (7 - p mod 8) (cleaned ! (p div 8)) AND 1))"

function mb_zeros :: "bytes \<Rightarrow> nat \<Rightarrow> nat \<Rightarrow> (nat \<times> nat) option" where
  "mb_zeros cleaned p m =
     (case mb_bit cleaned p of
        None \<Rightarrow> None
      | Some b \<Rightarrow> if b = 0 then (if 32 < m + 1 then None else mb_zeros cleaned (p + 1) (m + 1)) else Some (p, m))"
  by pat_completeness auto
termination
  by (relation "measure (\<lambda>(cleaned, p, m). 33 - m)") auto

declare mb_zeros.simps [simp del]

fun mb_value :: "bytes \<Rightarrow> nat \<Rightarrow> nat \<Rightarrow> u64 \<Rightarrow> u64 option" where
  "mb_value cleaned p 0 value = Some value"
| "mb_value cleaned p (Suc m) value =
     do { b \<leftarrow> mb_bit cleaned p; mb_value cleaned (p + 1) m (push_bit 1 value OR ucast b) }"

definition first_mb_in_slice :: "bytes \<Rightarrow> u64 option" where
  "first_mb_in_slice nal =
     (if length nal < 2 then None
      else
        let cleaned = mb_clean 0 0 (drop 1 nal) in
        if cleaned = [] then None
        else
          do { (p, m) \<leftarrow> mb_zeros cleaned 0 0;
               value \<leftarrow> mb_value cleaned (p + 1) m 0;
               Some (push_bit m 1 - 1 + value) })"


section \<open>Access units and their builder\<close>

record access_unit =
  au_nals :: "bytes list"
  au_keyframe :: bool

fun to_annex_b :: "bytes list \<Rightarrow> bytes" where
  "to_annex_b [] = []"
| "to_annex_b (nal # nals) = [0, 0, 1] @ nal @ to_annex_b nals"

definition au_to_annex_b :: "access_unit \<Rightarrow> bytes" where
  "au_to_annex_b au = to_annex_b (au_nals au)"

definition payload_len :: "access_unit \<Rightarrow> nat" where
  "payload_len au = sum_list (map length (au_nals au))"

lemma annex_b_length: "length (au_to_annex_b au) = payload_len au + 3 * length (au_nals au)"
proof -
  have "length (to_annex_b ns) = sum_list (map length ns) + 3 * length ns" for ns
    by (induction ns) auto
  then show ?thesis by (simp add: au_to_annex_b_def payload_len_def)
qed

lemma access_unit_eta [simp]: "\<lparr> au_nals = au_nals au, au_keyframe = au_keyframe au \<rparr> = (au :: access_unit)"
  by (cases au) simp

record au_builder =
  bu_pending :: "bytes list"
  bu_current :: "bytes list"
  bu_keyframe :: bool

definition builder_new :: au_builder where
  "builder_new = \<lparr> bu_pending = [], bu_current = [], bu_keyframe = False \<rparr>"

definition first_slice :: "bytes \<Rightarrow> bool" where
  "first_slice nal = (case first_mb_in_slice nal of None \<Rightarrow> True | Some v \<Rightarrow> v = 0)"

definition builder_push :: "bytes \<Rightarrow> au_builder \<Rightarrow> access_unit option \<times> au_builder" where
  "builder_push nal bu =
     (if nal_type nal = Some NAL_SLICE_NON_IDR \<or> nal_type nal = Some NAL_SLICE_IDR then
        let is_idr = (nal_type nal = Some NAL_SLICE_IDR) in
        if first_slice nal then
          ((if bu_current bu = [] then None
            else Some \<lparr> au_nals = bu_current bu, au_keyframe = bu_keyframe bu \<rparr>),
           bu\<lparr>bu_pending := [], bu_current := bu_pending bu @ [nal], bu_keyframe := is_idr\<rparr>)
        else (None, bu\<lparr>bu_current := bu_current bu @ [nal], bu_keyframe := is_idr\<rparr>)
      else
        (None, bu\<lparr>bu_pending := (if 32 \<le> length (bu_pending bu) then [] else bu_pending bu) @ [nal]\<rparr>))"

definition builder_take :: "au_builder \<Rightarrow> access_unit \<times> au_builder" where
  "builder_take bu =
     (\<lparr> au_nals = bu_pending bu @ bu_current bu, au_keyframe = bu_keyframe bu \<rparr>,
      bu\<lparr>bu_pending := [], bu_current := [], bu_keyframe := False\<rparr>)"

definition builder_finish :: "au_builder \<Rightarrow> access_unit option \<times> au_builder" where
  "builder_finish bu =
     (if bu_current bu = [] \<and> bu_pending bu = [] then (None, bu)
      else (Some (fst (builder_take bu)), snd (builder_take bu)))"

text \<open>A capture loop: every unit is pushed, then the builder is flushed.\<close>

fun builder_run :: "bytes list \<Rightarrow> au_builder \<Rightarrow> access_unit list \<times> au_builder" where
  "builder_run [] bu = ([], bu)"
| "builder_run (n # ns) bu =
     (let (out, bu') = builder_push n bu; (outs, bu'') = builder_run ns bu'
      in (case out of None \<Rightarrow> outs | Some au \<Rightarrow> au # outs, bu''))"

definition builder_all :: "bytes list \<Rightarrow> access_unit list" where
  "builder_all ns =
     (let (outs, bu) = builder_run ns builder_new
      in outs @ (case fst (builder_finish bu) of None \<Rightarrow> [] | Some au \<Rightarrow> [au]))"

lemma builder_run_append:
  "builder_run (ns @ ms) bu =
     (fst (builder_run ns bu) @ fst (builder_run ms (snd (builder_run ns bu))), snd (builder_run ms (snd (builder_run ns bu))))"
  by (induction ns arbitrary: bu) (auto simp: case_prod_unfold Let_def split: option.splits)


section \<open>Well-formed frames\<close>

definition is_slice :: "bytes \<Rightarrow> bool" where
  "is_slice n \<longleftrightarrow> nal_type n = Some NAL_SLICE_NON_IDR \<or> nal_type n = Some NAL_SLICE_IDR"

definition is_idr :: "bytes \<Rightarrow> bool" where
  "is_idr n \<longleftrightarrow> nal_type n = Some NAL_SLICE_IDR"

text \<open>A frame: at most 32 units of configuration, the slice of macroblock 0, the slices that
  continue it; all of them key slices or none.\<close>

definition frame_of :: "bytes list \<Rightarrow> bytes \<Rightarrow> bytes list \<Rightarrow> access_unit" where
  "frame_of cfg s ss = \<lparr> au_nals = cfg @ [s] @ ss, au_keyframe = is_idr s \<rparr>"

definition is_frame :: "access_unit \<Rightarrow> bool" where
  "is_frame au \<longleftrightarrow> (\<exists>cfg s ss. au = frame_of cfg s ss \<and> length cfg \<le> 32 \<and> (\<forall>n \<in> set cfg. \<not> is_slice n) \<and>
     is_slice s \<and> first_slice s \<and> (\<forall>n \<in> set ss. is_slice n \<and> \<not> first_slice n \<and> (is_idr n = is_idr s)))"

lemma builder_push_config:
  "\<not> is_slice n \<Longrightarrow> length (bu_pending bu) < 32 \<Longrightarrow> builder_push n bu = (None, bu\<lparr>bu_pending := bu_pending bu @ [n]\<rparr>)"
  by (simp add: builder_push_def is_slice_def)

lemma builder_push_first:
  "is_slice n \<Longrightarrow> first_slice n \<Longrightarrow> builder_push n bu =
     ((if bu_current bu = [] then None else Some \<lparr> au_nals = bu_current bu, au_keyframe = bu_keyframe bu \<rparr>),
      \<lparr> bu_pending = [], bu_current = bu_pending bu @ [n], bu_keyframe = is_idr n \<rparr>)"
  by (simp add: builder_push_def is_slice_def is_idr_def)

lemma builder_push_next:
  "is_slice n \<Longrightarrow> \<not> first_slice n \<Longrightarrow>
   builder_push n bu = (None, bu\<lparr>bu_current := bu_current bu @ [n], bu_keyframe := is_idr n\<rparr>)"
  by (simp add: builder_push_def is_slice_def is_idr_def)

lemma run_configs:
  "(\<forall>n \<in> set cfg. \<not> is_slice n) \<Longrightarrow> length (bu_pending bu) + length cfg \<le> 32 \<Longrightarrow>
   builder_run cfg bu = ([], bu\<lparr>bu_pending := bu_pending bu @ cfg\<rparr>)"
  by (induction cfg arbitrary: bu) (simp_all add: builder_push_config)

lemma run_nexts:
  "(\<forall>n \<in> set ss. is_slice n \<and> \<not> first_slice n \<and> (is_idr n = bu_keyframe bu)) \<Longrightarrow>
   builder_run ss bu = ([], bu\<lparr>bu_current := bu_current bu @ ss\<rparr>)"
  by (induction ss arbitrary: bu) (simp_all add: builder_push_next)

lemma run_frame:
  assumes "is_frame au" and "bu_pending bu = []"
  shows "builder_run (au_nals au) bu =
    ((if bu_current bu = [] then [] else [\<lparr> au_nals = bu_current bu, au_keyframe = bu_keyframe bu \<rparr>]),
     \<lparr> bu_pending = [], bu_current = au_nals au, bu_keyframe = au_keyframe au \<rparr>)"
proof -
  obtain cfg s ss where au: "au = frame_of cfg s ss" and c: "length cfg \<le> 32" "\<forall>n \<in> set cfg. \<not> is_slice n"
    and s: "is_slice s" "first_slice s" and ss: "\<forall>n \<in> set ss. is_slice n \<and> \<not> first_slice n \<and> (is_idr n = is_idr s)"
    using assms(1) unfolding is_frame_def by blast
  have "builder_run (cfg @ [s] @ ss) bu =
    ((if bu_current bu = [] then [] else [\<lparr> au_nals = bu_current bu, au_keyframe = bu_keyframe bu \<rparr>]),
     \<lparr> bu_pending = [], bu_current = cfg @ [s] @ ss, bu_keyframe = is_idr s \<rparr>)"
    using c ss by (simp add: builder_run_append run_configs assms(2) builder_push_first [OF s] run_nexts)
  then show ?thesis by (simp add: au frame_of_def)
qed

lemma frame_nonempty: "is_frame au \<Longrightarrow> au_nals au \<noteq> []"
  by (auto simp: is_frame_def frame_of_def)

lemma run_frames:
  assumes "\<forall>au \<in> set aus. is_frame au" and "bu_pending bu = []" and "bu_current bu \<noteq> []"
  shows "let (outs, bu') = builder_run (concat (map au_nals aus)) bu
         in outs @ (case fst (builder_finish bu') of None \<Rightarrow> [] | Some au \<Rightarrow> [au]) =
            \<lparr> au_nals = bu_current bu, au_keyframe = bu_keyframe bu \<rparr> # aus"
  using assms
proof (induction aus arbitrary: bu)
  case Nil
  then show ?case by (simp add: builder_finish_def builder_take_def)
next
  case (Cons au aus)
  let ?bu = "\<lparr> bu_pending = [], bu_current = au_nals au, bu_keyframe = au_keyframe au \<rparr>"
  have "let (outs, bu') = builder_run (concat (map au_nals aus)) ?bu
         in outs @ (case fst (builder_finish bu') of None \<Rightarrow> [] | Some au \<Rightarrow> [au]) = au # aus"
    using Cons.IH [of ?bu] Cons.prems frame_nonempty [of au] by simp
  then show ?case
    using Cons.prems by (simp add: builder_run_append run_frame case_prod_unfold Let_def)
qed

lemma builder_groups_frames:
  assumes "\<forall>au \<in> set aus. is_frame au"
  shows "builder_all (concat (map au_nals aus)) = aus"
proof (cases aus)
  case Nil
  then show ?thesis by (simp add: builder_all_def builder_finish_def builder_new_def)
next
  case (Cons au aus')
  let ?bu = "\<lparr> bu_pending = [], bu_current = au_nals au, bu_keyframe = au_keyframe au \<rparr>"
  have "builder_run (au_nals au) builder_new = ([], ?bu)"
    using assms Cons by (simp add: run_frame builder_new_def)
  then show ?thesis
    using run_frames [of aus' ?bu] assms Cons frame_nonempty [of au]
    by (simp add: builder_all_def builder_run_append case_prod_unfold Let_def)
qed

text \<open>The mark of a key frame is that of its last slice, and configuration at the end of the stream
  goes in front of the last frame.\<close>

lemma keyframe_mark_of_last_slice:
  "builder_all [[0x65, 0x80], [0x41, 0x40]] = [\<lparr> au_nals = [[0x65, 0x80], [0x41, 0x40]], au_keyframe = False \<rparr>]"
  "builder_all [[0x65, 0x80], [0x67, 0x42]] = [\<lparr> au_nals = [[0x67, 0x42], [0x65, 0x80]], au_keyframe = True \<rparr>]"
  by (simp_all add: builder_all_def builder_push_def builder_finish_def builder_take_def builder_new_def first_slice_def
      first_mb_in_slice_def mb_zeros.simps mb_bit_def nal_type_def NAL_SLICE_NON_IDR_def NAL_SLICE_IDR_def)



section \<open>Streams of clean units\<close>

text \<open>An encoder's unit contains no start code, does not end in zero, and is not too long.\<close>

definition clean_nal :: "bytes \<Rightarrow> bool" where
  "clean_nal n \<longleftrightarrow> n \<noteq> [] \<and> last n \<noteq> 0 \<and> first_match NAL_START_CODE n = None \<and> length n + 2 \<le> MAX_PENDING_NAL"

lemma first_code_after_clean:
  assumes "n = [] \<or> last n \<noteq> 0" and "first_match NAL_START_CODE n = None"
  shows "first_match NAL_START_CODE (n @ [0, 0, 1] @ y) = Some (length n)"
proof -
  consider "n = []" | b where "n = [b]" "b \<noteq> 0" | m a b where "n = m @ [a, b]" "b \<noteq> 0"
    using assms(1) by (cases n rule: rev_cases; cases "butlast n" rule: rev_cases) auto
  then show ?thesis
  proof cases
    case (3 m a b)
    have "first_match NAL_START_CODE ([a, b] @ [0, 0, 1] @ y) = Some 2" using 3(2) by (auto simp: NAL_START_CODE_def)
    then show ?thesis using first_match_later [OF assms(2), of "[0, 0, 1] @ y"] 3(1) by simp
  qed (auto simp: NAL_START_CODE_def)
qed

lemma raw_split_code: "raw_split ([0, 0, 1] @ y) = ([] # fst (raw_split y), snd (raw_split y))"
  using raw_split_some [of "[0, 0, 1] @ y" 0] by (simp add: NAL_START_CODE_def)

lemma clean_nalD:
  assumes "clean_nal n"
  shows "n \<noteq> []" "last n \<noteq> 0" "first_match NAL_START_CODE n = None" "length n + 2 \<le> MAX_PENDING_NAL" "strip_zeros n = n"
proof -
  show c: "n \<noteq> []" "last n \<noteq> 0" "first_match NAL_START_CODE n = None" "length n + 2 \<le> MAX_PENDING_NAL"
    using assms by (simp_all add: clean_nal_def)
  show "strip_zeros n = n" using c(1,2) by (cases n rule: rev_cases) simp_all
qed

lemma raw_split_annex_b:
  assumes "list_all clean_nal (n # ns)"
  shows "raw_split (n @ to_annex_b ns) = (butlast (n # ns), last (n # ns))"
  using assms
proof (induction ns arbitrary: n)
  case Nil
  then show ?case by (simp add: raw_split_none clean_nalD)
next
  case (Cons m ns)
  have n: "clean_nal n" and ms: "list_all clean_nal (m # ns)" using Cons.prems by simp_all
  have f: "first_match NAL_START_CODE (n @ [0, 0, 1] @ m @ to_annex_b ns) = Some (length n)"
    by (rule first_code_after_clean) (simp_all add: clean_nalD [OF n])
  show ?case using Cons.IH [OF ms] raw_split_some [OF f] by simp
qed

lemma nals_of_clean: "list_all clean_nal ns \<Longrightarrow> nals_of ns = ns"
  by (induction ns) (auto simp: clean_nalD dest: clean_nalD(4))

lemma split_annex_b:
  assumes "list_all clean_nal ns"
  shows "split_nals (to_annex_b ns) = ns \<and> bounded_stream (to_annex_b ns)"
proof (cases ns)
  case Nil
  then show ?thesis by (simp add: split_nals_def bounded_stream_def raw_split.simps)
next
  case (Cons n ms)
  have r: "raw_split (to_annex_b ns) = ([] # butlast ns, last ns)"
    using raw_split_code [of "n @ to_annex_b ms"] raw_split_annex_b [of n ms] assms Cons by simp
  have c: "list_all clean_nal (butlast ns)" "clean_nal (last ns)" "ns \<noteq> []"
    using assms Cons by (auto simp: list_all_iff dest: in_set_butlastD)
  have "length s + 2 \<le> MAX_PENDING_NAL" if "s \<in> set (butlast ns)" for s
    using c(1) that clean_nalD(4) by (auto simp: list_all_iff)
  moreover have "split_nals (to_annex_b ns) = ns"
    using c clean_nalD(1) [OF c(2)] by (simp add: split_nals_def r nals_of_clean)
  ultimately show ?thesis
    using clean_nalD(4) [OF c(2)] by (simp add: bounded_stream_def r MAX_PENDING_NAL_def)
qed

lemma to_annex_b_append: "to_annex_b (ns @ ms) = to_annex_b ns @ to_annex_b ms"
  by (induction ns) simp_all

lemma annex_b_of_units: "concat (map au_to_annex_b aus) = to_annex_b (concat (map au_nals aus))"
  by (induction aus) (simp_all add: au_to_annex_b_def to_annex_b_append)

text \<open>C5. What a sender writes as Annex-B comes back frame by frame: cut into any chunks, split
  and grouped, the stream of well-formed frames gives the very same frames, with their
  configuration in front and their key-frame marks.\<close>

theorem frames_survive_the_stream:
  assumes "finds_first NAL_START_CODE finder"
    and "\<forall>au \<in> set aus. is_frame au \<and> list_all clean_nal (au_nals au)"
    and "concat chunks = concat (map au_to_annex_b aus)"
  shows "map_option builder_all (annexb_read finder chunks) = Some aus"
proof -
  have "list_all clean_nal (concat (map au_nals aus))" using assms(2) by (auto simp: list_all_iff)
  note s = split_annex_b [OF this]
  have "annexb_read finder chunks = Some (concat (map au_nals aus))"
    using read_is_split [OF assms(1), of chunks] s by (simp add: assms(3) annex_b_of_units)
  then show ?thesis using builder_groups_frames [of aus] assms(2) by simp
qed

definition two_frames :: "access_unit list" where
  "two_frames = [frame_of [[0x67, 0x42], [0x68, 0xce]] [0x65, 0x88] [[0x65, 0x40]], frame_of [] [0x41, 0x9a] []]"

lemmas first_slice_eval = first_slice_def first_mb_in_slice_def mb_zeros.simps mb_bit_def

theorem frames_survive_the_stream_witness:
  "map_option builder_all
     (annexb_read (first_match NAL_START_CODE) [take 9 (concat (map au_to_annex_b two_frames)), drop 9 (concat (map au_to_annex_b two_frames))])
   = Some two_frames"
proof (rule frames_survive_the_stream [OF finds_first_itself])
  have "is_frame (frame_of [[0x67, 0x42], [0x68, 0xce]] [0x65, 0x88] [[0x65, 0x40]])"
    unfolding is_frame_def
    by (intro exI conjI, rule refl) (simp_all add: is_slice_def is_idr_def nal_type_def NAL_SLICE_NON_IDR_def NAL_SLICE_IDR_def first_slice_eval)
  moreover have "is_frame (frame_of [] [0x41, 0x9a] [])"
    unfolding is_frame_def
    by (intro exI conjI, rule refl) (simp_all add: is_slice_def is_idr_def nal_type_def NAL_SLICE_NON_IDR_def NAL_SLICE_IDR_def first_slice_eval)
  ultimately show "\<forall>au \<in> set two_frames. is_frame au \<and> list_all clean_nal (au_nals au)"
    by (simp add: two_frames_def frame_of_def clean_nal_def NAL_START_CODE_def MAX_PENDING_NAL_def)
qed simp

end
