(* ===== verification/Avc_Config.thy ===== *)
theory Avc_Config
  imports Access_Units
begin

text \<open>
  The decoder configuration of an access unit (\<open>extract_avc_config\<close> and
  \<open>extract_avc_csd\<close> of \<open>stross-endpoint/src/codec/nal.rs\<close>): parameter sets without their start codes,
  and the picture size.  The byte-level scan is shown to be a fold over the units.
\<close>

section \<open>The scan\<close>

record avc_config =
  ac_csd :: bytes
  ac_width :: u32
  ac_height :: u32

text \<open>The variables of the loop: collected bytes, whether a sequence parameter set was seen, the size.\<close>

type_synonym avc_state = "bytes \<times> bool \<times> u32 \<times> u32"

definition avc_collect :: "(bytes \<Rightarrow> nat option) \<Rightarrow> u8 \<Rightarrow> bytes \<Rightarrow> avc_state \<Rightarrow> avc_state" where
  "avc_collect ep_finder kind nal st =
     (let (csd, saw_sps, width, height) = st in
      if kind = NAL_SPS then
        (let (w, h) = (case sps_dimensions ep_finder nal of Some (w, h) \<Rightarrow> (w, h) | None \<Rightarrow> (width, height))
         in (csd @ nal, True, w, h))
      else if kind = NAL_PPS then (csd @ nal, saw_sps, width, height)
      else st)"

definition avc_stop :: "u8 \<Rightarrow> avc_state \<Rightarrow> bool" where
  "avc_stop kind st \<longleftrightarrow> kind \<noteq> NAL_SPS \<and> kind \<noteq> NAL_PPS \<and> fst (snd st)"

text \<open>The end of the unit at \<open>hdr\<close>, and where the search goes on; \<open>None\<close> out of range.\<close>

definition avc_unit_end :: "(bytes \<Rightarrow> nat option) \<Rightarrow> bytes \<Rightarrow> nat \<Rightarrow> (nat \<times> nat) option" where
  "avc_unit_end finder au hdr =
     (case finder (drop hdr au) of
        Some next_rel \<Rightarrow>
          if length au < hdr + next_rel then None
          else Some (code_start_of au hdr (hdr + next_rel), hdr + next_rel)
      | None \<Rightarrow> Some (code_start_of au hdr (length au), length au))"

lemma avc_unit_end_next: "avc_unit_end finder au hdr = Some (e, n) \<Longrightarrow> hdr < length au \<Longrightarrow> hdr \<le> n \<and> n \<le> length au"
  by (auto simp: avc_unit_end_def split: option.splits if_splits)

text \<open>Outer \<open>None\<close>: a slice out of range; inner \<open>None\<close>: the early return of the source.\<close>

function avc_scan ::
  "(bytes \<Rightarrow> nat option) \<Rightarrow> (bytes \<Rightarrow> nat option) \<Rightarrow> bytes \<Rightarrow> nat \<Rightarrow> avc_state \<Rightarrow> avc_state option option" where
  "avc_scan finder ep_finder au search_pos st =
     (if length au < search_pos then None
      else case finder (drop search_pos au) of
        None \<Rightarrow> Some (Some st)
      | Some rel \<Rightarrow>
          let hdr = search_pos + rel + 3 in
          if length au \<le> hdr then Some (Some st)
          else case nal_type (drop hdr au) of
            None \<Rightarrow> Some None
          | Some kind \<Rightarrow>
              (case avc_unit_end finder au hdr of
                 None \<Rightarrow> None
               | Some (e, next_search) \<Rightarrow>
                   let st' = avc_collect ep_finder kind (bslice hdr e au) st in
                   if avc_stop kind st then Some (Some st')
                   else avc_scan finder ep_finder au next_search st'))"
  by pat_completeness auto
termination
  by (relation "measure (\<lambda>(finder, ep_finder, au, pos, st). length au - pos)")
    (auto dest!: avc_unit_end_next)

declare avc_scan.simps [simp del]

definition extract_avc_config ::
  "(bytes \<Rightarrow> nat option) \<Rightarrow> (bytes \<Rightarrow> nat option) \<Rightarrow> bytes \<Rightarrow> avc_config option option" where
  "extract_avc_config finder ep_finder au =
     map_option (\<lambda>r. do { (csd, saw_sps, width, height) \<leftarrow> r;
         if \<not> saw_sps \<or> width = 0 \<or> height = 0 then None
         else Some \<lparr> ac_csd = csd, ac_width = width, ac_height = height \<rparr> })
       (avc_scan finder ep_finder au 0 ([], False, 0, 0))"

definition extract_avc_csd ::
  "(bytes \<Rightarrow> nat option) \<Rightarrow> (bytes \<Rightarrow> nat option) \<Rightarrow> bytes \<Rightarrow> bytes option option" where
  "extract_avc_csd finder ep_finder au = map_option (map_option ac_csd) (extract_avc_config finder ep_finder au)"


section \<open>The scan is a fold over the units\<close>

fun avc_fold :: "(bytes \<Rightarrow> nat option) \<Rightarrow> bytes list \<Rightarrow> avc_state \<Rightarrow> avc_state" where
  "avc_fold ep_finder [] st = st"
| "avc_fold ep_finder (n # ns) st =
     (if avc_stop (hd n AND 0x1f) st then avc_collect ep_finder (hd n AND 0x1f) n st
      else avc_fold ep_finder ns (avc_collect ep_finder (hd n AND 0x1f) n st))"

lemma unit_end_clean:
  assumes found: "finds_first NAL_START_CODE finder" and n: "clean_nal n"
  shows "\<exists>e. avc_unit_end finder (pre @ n @ to_annex_b ns) (length pre) = Some (e, length pre + length n) \<and>
             bslice (length pre) e (pre @ n @ to_annex_b ns) = n"
proof -
  let ?au = "pre @ n @ to_annex_b ns"
  have b: "bslice (length pre) (length pre + length n) ?au = n" by (rule bslice_append_exact)
  have le: "length pre + length n \<le> length ?au" by simp
  have cs: "code_start_of ?au (length pre) (length pre + length n) = length pre + length n"
    using code_start_of_strip [OF le_add1 le, unfolded b clean_nalD(5) [OF n]] by blast
  have d: "drop (length pre) ?au = n @ to_annex_b ns" by simp
  show ?thesis
  proof (cases ns)
    case Nil
    have "avc_unit_end finder ?au (length pre) = Some (length pre + length n, length pre + length n)"
      using cs Nil clean_nalD(3) [OF n] by (simp add: avc_unit_end_def finds_firstD [OF found])
    then show ?thesis using b by blast
  next
    case (Cons m ms)
    have "first_match NAL_START_CODE (n @ to_annex_b ns) = Some (length n)"
      using first_code_after_clean [of n "m @ to_annex_b ms"] clean_nalD [OF n] Cons by simp
    then have "avc_unit_end finder ?au (length pre) = Some (length pre + length n, length pre + length n)"
      using cs unfolding avc_unit_end_def finds_firstD [OF found] d by simp
    then show ?thesis using b by blast
  qed
qed

lemma scan_is_fold:
  assumes found: "finds_first NAL_START_CODE finder"
  shows "list_all clean_nal ns \<Longrightarrow>
    avc_scan finder ep_finder (pre @ to_annex_b ns) (length pre) st = Some (Some (avc_fold ep_finder ns st))"
proof (induction ns arbitrary: pre st)
  case Nil
  have "finder [] = None" by (simp add: finds_firstD [OF found])
  then show ?case by (simp add: avc_scan.simps [of finder ep_finder pre "length pre"])
next
  case (Cons n ns)
  have n: "clean_nal n" and ns: "list_all clean_nal ns" using Cons.prems by simp_all
  let ?pre = "pre @ [0, 0, 1]"
  let ?au = "?pre @ n @ to_annex_b ns" and ?k = "hd n AND 0x1f"
  have "first_match NAL_START_CODE ([0, 0, 1] @ n @ to_annex_b ns) = Some 0" by (simp add: NAL_START_CODE_def)
  then have m: "finder (drop (length pre) ?au) = Some 0" by (simp add: finds_firstD [OF found])
  obtain e where e: "avc_unit_end finder ?au (length ?pre) = Some (e, length ?pre + length n)"
    and b: "bslice (length ?pre) e ?au = n" using unit_end_clean [OF found n] by blast
  have h: "length pre + 0 + 3 = length ?pre" by simp
  have k: "nal_type (drop (length ?pre) ?au) = Some ?k"
    using clean_nalD(1) [OF n] by (cases n) (simp_all add: nal_type_def)
  have l: "\<not> length ?au \<le> length ?pre" "\<not> length ?au < length pre"
    using clean_nalD(1) [OF n] by (cases n; simp)+
  have IH: "avc_scan finder ep_finder ?au (length ?pre + length n) st' = Some (Some (avc_fold ep_finder ns st'))" for st'
    using Cons.IH [OF ns, of "?pre @ n"] by (simp only: append_assoc length_append add.assoc)
  have "avc_scan finder ep_finder ?au (length pre) st =
    (let st' = avc_collect ep_finder ?k n st in
     if avc_stop ?k st then Some (Some st') else avc_scan finder ep_finder ?au (length ?pre + length n) st')"
    unfolding avc_scan.simps [of finder ep_finder ?au "length pre"] m option.case Let_def h k e prod.case b if_not_P [OF l(1)] if_not_P [OF l(2)] ..
  then have "avc_scan finder ep_finder ?au (length pre) st = Some (Some (avc_fold ep_finder (n # ns) st))"
    unfolding Let_def IH avc_fold.simps by (cases "avc_stop ?k st") (simp_all only: if_True if_False)
  then show ?case by simp
qed

lemma config_of_units:
  assumes "finds_first NAL_START_CODE finder" and "list_all clean_nal (au_nals au)"
  shows "avc_scan finder ep_finder (au_to_annex_b au) 0 st = Some (Some (avc_fold ep_finder (au_nals au) st))"
  using scan_is_fold [OF assms, of ep_finder "[]"] by (simp add: au_to_annex_b_def)

text \<open>Parameter sets in front of a slice.\<close>

definition is_pps :: "bytes \<Rightarrow> bool" where
  "is_pps n \<longleftrightarrow> n \<noteq> [] \<and> hd n AND 0x1f = NAL_PPS"

lemma fold_pps:
  "\<forall>n \<in> set pps. is_pps n \<Longrightarrow>
   avc_fold ep_finder (pps @ ns) (csd, True, w, h) = avc_fold ep_finder ns (csd @ concat pps, True, w, h)"
proof (induction pps arbitrary: csd)
  case (Cons p pps)
  then have p: "hd p AND 0x1f = NAL_PPS" by (simp add: is_pps_def)
  have x: "NAL_PPS \<noteq> NAL_SPS" by (simp add: NAL_PPS_def NAL_SPS_def)
  show ?case using Cons.IH [of "csd @ p"] Cons.prems x by (simp add: p avc_stop_def avc_collect_def)
qed simp

lemma fold_slice:
  assumes "is_slice n"
  shows "avc_fold ep_finder (n # ns) (csd, True, w, h) = (csd, True, w, h)"
proof -
  obtain b bs where n: "n = b # bs" using assms by (cases n) (auto simp: is_slice_def nal_type_def)
  have "b AND 0x1f \<noteq> NAL_SPS" "b AND 0x1f \<noteq> NAL_PPS"
    using assms by (auto simp: n is_slice_def nal_type_def NAL_SPS_def NAL_PPS_def NAL_SLICE_NON_IDR_def NAL_SLICE_IDR_def)
  then show ?thesis by (simp add: n avc_stop_def avc_collect_def)
qed

lemma sps_unit_clean:
  assumes "hdr AND 0x1f = NAL_SPS" and "length (sps_nal hdr s vui) + 2 \<le> MAX_PENDING_NAL"
  shows "clean_nal (sps_nal hdr s vui)"
  using sps_nal_clean [OF assms] assms(2) by (simp add: clean_nal_def) (simp add: sps_nal_def)



definition full_hd :: sps where
  "full_hd = interlaced_1080 \<lparr> sp_height_units := 67, sp_frame_mbs_only := True, sp_crop := Some (0, 0, 0, 4) \<rparr>"

definition hd_key_frame :: access_unit where
  "hd_key_frame = \<lparr> au_nals = [sps_nal 0x67 full_hd [False], [0x68, 0xce], [0x65, 0x88]], au_keyframe = True \<rparr>"

lemma full_hd_bits: "sps_bits full_hd = byte_be 77 @ byte_be 0 @ byte_be 40 @
    concat (map enc_ue [0, 0, 0, 2, 1]) @ [False] @ enc_ue 119 @ enc_ue 67 @ [True, True, True] @ concat (map enc_ue [0, 0, 0, 4])"
  by (simp add: sps_bits_def full_hd_def interlaced_1080_def chroma_bits_def high_profile_def crop_bits_def)

lemma length_enc_ue: "length (enc_ue n) = 2 * ue_len n + 1"
  by (simp add: enc_ue_def)

lemma length_ep_insert_le: "length (ep_insert z bs) \<le> 2 * length bs"
  by (induction z bs rule: ep_insert.induct) auto

lemma full_hd_short: "length (sps_nal 0x67 full_hd [False]) + 2 \<le> MAX_PENDING_NAL"
proof -
  have "length (sps_bits full_hd @ [False] @ [True]) \<le> 200"
    by (simp add: full_hd_bits length_enc_ue byte_be_def ue_len.simps)
  moreover obtain k where "k < 8" "8 * length (pack_bits (sps_bits full_hd @ [False] @ [True])) = length (sps_bits full_hd @ [False] @ [True]) + k"
    using bits_of_pack [of "sps_bits full_hd @ [False] @ [True]"] length_bits_of [of "pack_bits (sps_bits full_hd @ [False] @ [True])"]
    by (metis length_append length_replicate)
  ultimately have "length (pack_bits (sps_bits full_hd @ [False] @ [True])) \<le> 30" by linarith
  moreover have "length (ep_insert 0 (pack_bits (sps_bits full_hd @ [False] @ [True]))) \<le>
      2 * length (pack_bits (sps_bits full_hd @ [False] @ [True]))" by (rule length_ep_insert_le)
  ultimately have "length (ep_insert 0 (pack_bits (sps_bits full_hd @ [False] @ [True]))) \<le> 60" by linarith
  then show ?thesis by (simp add: sps_nal_def MAX_PENDING_NAL_def)
qed

lemma full_hd_ok: "sps_stream_ok full_hd"
  by (simp add: sps_stream_ok_def sps_ok_def full_hd_def interlaced_1080_def ue_ok_def crop_ok_def crop_units_agree_def
      std_size_def std_crop_unit_def crop_of_def uncropped_below_def)


end
