(* ===== verification/Adts.thy ===== *)
theory Adts
  imports Search "HOL-Library.Monad_Syntax"
begin

text \<open>
  The ADTS splitter of \<open>stross-endpoint/src/codec/adts.rs\<close>: AAC frames are cut out of a byte
  stream by their sync word and the length in their header.  The search for a byte is that of
  the \<open>memchr\<close> crate; whether the splitter's loop ends depends on it, so the loop is a
  partial function and that it returns is a theorem.
\<close>

section \<open>Headers\<close>

definition ADTS_MIN_HEADER :: nat where
  "ADTS_MIN_HEADER = 7"

definition MAX_PENDING_ADTS :: nat where
  "MAX_PENDING_ADTS = 1048576"

definition is_adts_frame :: "bytes \<Rightarrow> bool" where
  "is_adts_frame buf \<longleftrightarrow> 2 \<le> length buf \<and> buf ! 0 = 0xFF \<and> buf ! 1 AND 0xF0 = 0xF0"

definition adts_frame_len :: "bytes \<Rightarrow> nat option" where
  "adts_frame_len buf =
     (if \<not> is_adts_frame buf \<or> length buf < ADTS_MIN_HEADER then None
      else
        let len = push_bit 11 (unat (buf ! 3 AND 3)) OR push_bit 3 (unat (buf ! 4)) OR unat (drop_bit 5 (buf ! 5) AND 7)
        in if len < ADTS_MIN_HEADER then None else Some len)"

text \<open>The length field has 13 bits.\<close>

lemma or_nat_less: "a < 2 ^ n \<Longrightarrow> b < 2 ^ n \<Longrightarrow> a OR b < (2 :: nat) ^ n"
  by (metis take_bit_nat_eq_self_iff take_bit_or)

lemma and_bounds: "unat (w AND 3 :: u8) < 4" "unat (w AND 7 :: u8) < 8"
proof -
  have "w AND 3 \<le> (3 :: u8)" "w AND 7 \<le> (7 :: u8)" by (rule word_and_le1)+
  then have "unat (w AND 3) \<le> unat (3 :: u8)" "unat (w AND 7) \<le> unat (7 :: u8)" by (simp_all only: word_le_nat_alt)
  then show "unat (w AND 3 :: u8) < 4" "unat (w AND 7 :: u8) < 8" by simp_all
qed

lemma adts_frame_len_range:
  assumes "adts_frame_len buf = Some len"
  shows "7 \<le> len \<and> len \<le> 8191 \<and> is_adts_frame buf \<and> 7 \<le> length buf"
proof -
  let ?a = "push_bit 11 (unat (buf ! 3 AND 3))" and ?b = "push_bit 3 (unat (buf ! 4))"
    and ?c = "unat (drop_bit 5 (buf ! 5) AND 7)"
  have l: "len = ?a OR ?b OR ?c" "7 \<le> len" "is_adts_frame buf" "7 \<le> length buf"
    using assms by (auto simp: adts_frame_len_def Let_def ADTS_MIN_HEADER_def split: if_splits)
  have "?a < 2 ^ 13" using and_bounds(1) [of "buf ! 3"] by (simp add: push_bit_eq_mult)
  moreover have "unat (buf ! 4) < 2 ^ LENGTH(8)" by (rule unsigned_less)
  then have "?b < 2 ^ 13" by (simp add: push_bit_eq_mult)
  moreover have "?c < 2 ^ 13" using and_bounds(2) [of "drop_bit 5 (buf ! 5)"] by simp
  ultimately have "len < 2 ^ 13" unfolding l(1) by (intro or_nat_less)
  then show ?thesis using l by simp
qed


section \<open>The splitter\<close>

function find_sync_from :: "(bytes \<Rightarrow> nat option) \<Rightarrow> bytes \<Rightarrow> nat \<Rightarrow> nat option" where
  "find_sync_from memchr buf offset =
     (if offset + 1 < length buf then
        (case memchr (drop offset buf) of
           None \<Rightarrow> None
         | Some rel \<Rightarrow>
             let p = offset + rel in
             if p + 1 < length buf then
               (if buf ! (p + 1) AND 0xF0 = 0xF0 then Some p else find_sync_from memchr buf (p + 1))
             else None)
      else None)"
  by pat_completeness auto
termination
  by (relation "measure (\<lambda>(memchr, buf, offset). length buf - offset)") auto

declare find_sync_from.simps [simp del]

definition find_sync :: "(bytes \<Rightarrow> nat option) \<Rightarrow> bytes \<Rightarrow> nat option" where
  "find_sync memchr buf = find_sync_from memchr buf 0"

record adts_splitter =
  ad_buf :: bytes

definition adts_new :: adts_splitter where
  "adts_new = \<lparr> ad_buf = [] \<rparr>"

text \<open>The loop of \<open>feed\<close>; the result is the frames and the final cursor.  A loop that does not
  end is \<open>None\<close>.\<close>

partial_function (option) adts_loop ::
  "(bytes \<Rightarrow> nat option) \<Rightarrow> bytes \<Rightarrow> nat \<Rightarrow> (bytes list \<times> nat) option" where
  "adts_loop memchr buf cursor =
     (if cursor < length buf then
        (if \<not> is_adts_frame (drop cursor buf) then
           (case find_sync memchr (drop cursor buf) of
              Some rel_pos \<Rightarrow> adts_loop memchr buf (cursor + rel_pos)
            | None \<Rightarrow> Some ([], if last buf = 0xFF then length buf - 1 else length buf))
         else
           (case adts_frame_len (drop cursor buf) of
              Some len \<Rightarrow>
                if len \<le> length buf - cursor then
                  do { (out, c) \<leftarrow> adts_loop memchr buf (cursor + len);
                       Some (bslice cursor (cursor + len) buf # out, c) }
                else Some ([], cursor)
            | None \<Rightarrow> adts_loop memchr buf (cursor + 1)))
      else Some ([], cursor))"

definition adts_feed ::
  "(bytes \<Rightarrow> nat option) \<Rightarrow> adts_splitter \<Rightarrow> bytes \<Rightarrow> (bytes list \<times> adts_splitter) option" where
  "adts_feed memchr sp data =
     (let buf = ad_buf sp @ data in
      do { (out, cursor) \<leftarrow> adts_loop memchr buf 0;
           if cursor = 0 \<and> MAX_PENDING_ADTS < length buf then Some (out, sp\<lparr>ad_buf := []\<rparr>)
           else Some (out, sp\<lparr>ad_buf := drop cursor buf\<rparr>) })"

function adts_finish_loop :: "bytes \<Rightarrow> nat \<Rightarrow> bytes list" where
  "adts_finish_loop buf cursor =
     (if cursor < length buf \<and> is_adts_frame (drop cursor buf) then
        (case adts_frame_len (drop cursor buf) of
           Some len \<Rightarrow> if len \<le> length buf - cursor then bslice cursor (cursor + len) buf # adts_finish_loop buf (cursor + len) else []
         | None \<Rightarrow> [])
      else [])"
  by pat_completeness auto
termination
  by (relation "measure (\<lambda>(buf, cursor). length buf - cursor)") (auto dest!: adts_frame_len_range)

declare adts_finish_loop.simps [simp del]

definition adts_finish :: "adts_splitter \<Rightarrow> bytes list \<times> adts_splitter" where
  "adts_finish sp = (adts_finish_loop (ad_buf sp) 0, sp\<lparr>ad_buf := []\<rparr>)"

fun adts_feeds ::
  "(bytes \<Rightarrow> nat option) \<Rightarrow> adts_splitter \<Rightarrow> bytes list \<Rightarrow> (bytes list \<times> adts_splitter) option" where
  "adts_feeds memchr sp [] = Some ([], sp)"
| "adts_feeds memchr sp (d # ds) =
     do { (out, sp) \<leftarrow> adts_feed memchr sp d;
          (out', sp) \<leftarrow> adts_feeds memchr sp ds;
          Some (out @ out', sp) }"


section \<open>The loop ends\<close>

text \<open>A sync word at the front is a frame, so a sync word found elsewhere is further on.\<close>

lemma first_match_byte:
  assumes "finds_first [x] memchr" and "memchr bs = Some i"
  shows "i < length bs \<and> bs ! i = x"
proof -
  have "first_match [x] bs = Some i" using assms by (simp add: finds_firstD)
  then have "i + 1 \<le> length bs" "prefix [x] (drop i bs)" using first_match_hit [of "[x]" bs i] by simp_all
  then show ?thesis by (cases "drop i bs") (auto dest: nth_via_drop)
qed

lemma find_sync_hit:
  assumes "find_sync_from memchr buf offset = Some p" and "finds_first [0xFF] memchr"
  shows "offset \<le> p \<and> p + 1 < length buf \<and> is_adts_frame (drop p buf)"
  using assms
proof (induction memchr buf offset rule: find_sync_from.induct)
  case (1 memchr buf offset)
  obtain rel where rel: "offset + 1 < length buf" "memchr (drop offset buf) = Some rel" "offset + rel + 1 < length buf"
    using "1.prems"(1) by (auto simp: find_sync_from.simps [of memchr buf offset] Let_def split: if_splits option.splits)
  have ff: "buf ! (offset + rel) = 0xFF" using first_match_byte [OF "1.prems"(2) rel(2)] rel(1) by simp
  show ?case
  proof (cases "buf ! (offset + rel + 1) AND 0xF0 = 0xF0")
    case True
    then have "p = offset + rel"
      using "1.prems"(1) rel by (simp add: find_sync_from.simps [of memchr buf offset])
    then show ?thesis using rel ff True by (simp add: is_adts_frame_def)
  next
    case False
    then have "find_sync_from memchr buf (offset + rel + 1) = Some p"
      using "1.prems"(1) rel by (simp add: find_sync_from.simps [of memchr buf offset])
    then have "offset + rel + 1 \<le> p \<and> p + 1 < length buf \<and> is_adts_frame (drop p buf)"
      using "1.IH" [OF rel(1) rel(2) refl] rel(3) False "1.prems"(2) by simp
    then show ?thesis by simp
  qed
qed

lemma find_sync_advances:
  assumes "finds_first [0xFF] memchr" and "\<not> is_adts_frame buf" and "find_sync memchr buf = Some p"
  shows "0 < p \<and> p + 1 < length buf \<and> is_adts_frame (drop p buf)"
  using find_sync_hit [OF assms(3) [unfolded find_sync_def] assms(1)] assms(2) by (cases p) auto

text \<open>What the loop hands out: whole frames, in the order of the bytes, none overlapping.\<close>

definition adts_whole :: "bytes \<Rightarrow> bool" where
  "adts_whole f \<longleftrightarrow> adts_frame_len f = Some (length f)"

lemma adts_whole_cut:
  assumes "adts_frame_len bs = Some len" and "len \<le> length bs"
  shows "adts_whole (take len bs)"
proof -
  have "7 \<le> len" using adts_frame_len_range [OF assms(1)] by simp
  then show ?thesis using assms by (auto simp: adts_whole_def adts_frame_len_def is_adts_frame_def Let_def ADTS_MIN_HEADER_def split: if_splits)
qed

definition adts_outcome :: "bytes \<Rightarrow> nat \<Rightarrow> (bytes list \<times> nat) option \<Rightarrow> bool" where
  "adts_outcome buf cursor r \<longleftrightarrow>
     (\<exists>out c. r = Some (out, c) \<and> c \<le> length buf \<and> length buf - c \<le> 8190 \<and>
        (\<forall>f \<in> set out. adts_whole f) \<and> subseq (concat out) (drop cursor buf))"

lemma adts_outcome_stop: "c \<le> length buf \<Longrightarrow> length buf - c \<le> 8190 \<Longrightarrow> adts_outcome buf cursor (Some ([], c))"
  by (simp add: adts_outcome_def)

lemma adts_outcome_later: "adts_outcome buf (cursor + k) r \<Longrightarrow> adts_outcome buf cursor r"
proof -
  assume "adts_outcome buf (cursor + k) r"
  moreover have "subseq (drop (cursor + k) buf) (drop cursor buf)"
    using suffix_imp_subseq [OF suffix_drop [of k "drop cursor buf"]] by (simp add: add.commute)
  ultimately show ?thesis unfolding adts_outcome_def by (blast intro: subseq_order.trans)
qed

lemma adts_loop_done: "\<not> cursor < length buf \<Longrightarrow> adts_loop memchr buf cursor = Some ([], cursor)"
  by (subst adts_loop.simps) simp

lemma adts_loop_lost:
  "cursor < length buf \<Longrightarrow> \<not> is_adts_frame (drop cursor buf) \<Longrightarrow> find_sync memchr (drop cursor buf) = None \<Longrightarrow>
   adts_loop memchr buf cursor = Some ([], if last buf = 0xFF then length buf - 1 else length buf)"
  by (subst adts_loop.simps) simp

lemma adts_loop_sync:
  "cursor < length buf \<Longrightarrow> \<not> is_adts_frame (drop cursor buf) \<Longrightarrow> find_sync memchr (drop cursor buf) = Some p \<Longrightarrow>
   adts_loop memchr buf cursor = adts_loop memchr buf (cursor + p)"
  by (subst adts_loop.simps) simp

lemma adts_loop_bogus:
  "cursor < length buf \<Longrightarrow> is_adts_frame (drop cursor buf) \<Longrightarrow> adts_frame_len (drop cursor buf) = None \<Longrightarrow>
   adts_loop memchr buf cursor = adts_loop memchr buf (cursor + 1)"
  by (subst adts_loop.simps) simp

lemma adts_loop_partial:
  "cursor < length buf \<Longrightarrow> adts_frame_len (drop cursor buf) = Some len \<Longrightarrow> \<not> len \<le> length buf - cursor \<Longrightarrow>
   adts_loop memchr buf cursor = Some ([], cursor)"
  using adts_frame_len_range [of "drop cursor buf" len] by (subst adts_loop.simps) simp

lemma adts_loop_frame:
  "cursor < length buf \<Longrightarrow> adts_frame_len (drop cursor buf) = Some len \<Longrightarrow> len \<le> length buf - cursor \<Longrightarrow>
   adts_loop memchr buf cursor =
     do { (out, c) \<leftarrow> adts_loop memchr buf (cursor + len); Some (bslice cursor (cursor + len) buf # out, c) }"
  using adts_frame_len_range [of "drop cursor buf" len] by (subst adts_loop.simps) simp

lemma adts_loop_returns:
  assumes found: "finds_first [0xFF] memchr"
  shows "cursor \<le> length buf \<Longrightarrow> adts_outcome buf cursor (adts_loop memchr buf cursor)"
proof (induction "length buf - cursor" arbitrary: cursor rule: less_induct)
  case less
  note IH = less.hyps
  show ?case
  proof (cases "cursor < length buf")
    case False
    then show ?thesis unfolding adts_loop_done [OF False] using less.prems by (simp add: adts_outcome_stop)
  next
    case lt: True
    let ?rest = "drop cursor buf"
    show ?thesis
    proof (cases "is_adts_frame ?rest")
      case False
      show ?thesis
      proof (cases "find_sync memchr ?rest")
        case None
        show ?thesis unfolding adts_loop_lost [OF lt False None] by (rule adts_outcome_stop) auto
      next
        case (Some p)
        have p: "0 < p" "p + 1 < length ?rest" using find_sync_advances [OF found False Some] by simp_all
        have "adts_outcome buf (cursor + p) (adts_loop memchr buf (cursor + p))"
          by (rule IH) (use p lt in auto)
        then show ?thesis unfolding adts_loop_sync [OF lt False Some] by (rule adts_outcome_later)
      qed
    next
      case True
      show ?thesis
      proof (cases "adts_frame_len ?rest")
        case None
        have "adts_outcome buf (cursor + 1) (adts_loop memchr buf (cursor + 1))"
          by (rule IH) (use lt in auto)
        then show ?thesis unfolding adts_loop_bogus [OF lt True None] by (rule adts_outcome_later)
      next
        case (Some len)
        note r = adts_frame_len_range [OF Some]
        show ?thesis
        proof (cases "len \<le> length buf - cursor")
          case False
          show ?thesis unfolding adts_loop_partial [OF lt Some False] by (rule adts_outcome_stop) (use False lt r in auto)
        next
          case fits: True
          have "adts_outcome buf (cursor + len) (adts_loop memchr buf (cursor + len))"
            by (rule IH) (use fits lt r in auto)
          then obtain out c where o: "adts_loop memchr buf (cursor + len) = Some (out, c)" "c \<le> length buf"
            "length buf - c \<le> 8190" "\<forall>f \<in> set out. adts_whole f" "subseq (concat out) (drop (cursor + len) buf)"
            unfolding adts_outcome_def by blast
          let ?f = "bslice cursor (cursor + len) buf"
          have f: "?f = take len ?rest" by (simp add: bslice_def)
          have "adts_whole ?f" unfolding f by (rule adts_whole_cut [OF Some]) (use fits in simp)
          moreover have "subseq (?f @ concat out) (?f @ drop (cursor + len) buf)"
            using o(5) by (rule list_emb_append_mono [OF subseq_order.refl])
          moreover have "?f @ drop (cursor + len) buf = ?rest"
            unfolding f by (metis append_take_drop_id drop_drop add.commute)
          moreover have "adts_loop memchr buf cursor = Some (?f # out, c)"
            unfolding adts_loop_frame [OF lt Some fits] o(1) by simp
          ultimately show ?thesis unfolding adts_outcome_def using o(2-4)
            by (intro exI conjI) (assumption | simp)+
        qed
      qed
    qed
  qed
qed

text \<open>So \<open>feed\<close> always returns, and keeps less than one frame: the limit on the buffer is never reached.\<close>

lemma adts_feed_outcome:
  assumes "finds_first [0xFF] memchr"
  shows "\<exists>out sp'. adts_feed memchr sp data = Some (out, sp') \<and> (\<forall>f \<in> set out. adts_whole f) \<and>
     subseq (concat out) (ad_buf sp @ data) \<and> (\<exists>c. sp' = sp\<lparr>ad_buf := drop c (ad_buf sp @ data)\<rparr>) \<and> length (ad_buf sp') \<le> 8190"
proof -
  let ?buf = "ad_buf sp @ data"
  obtain out c where o: "adts_loop memchr ?buf 0 = Some (out, c)" "c \<le> length ?buf" "length ?buf - c \<le> 8190"
    "\<forall>f \<in> set out. adts_whole f" "subseq (concat out) ?buf"
    using adts_loop_returns [OF assms, of 0 ?buf] unfolding adts_outcome_def by auto
  have n: "\<not> (c = 0 \<and> MAX_PENDING_ADTS < length ?buf)" using o(3) by (auto simp: MAX_PENDING_ADTS_def)
  have "adts_feed memchr sp data = Some (out, sp\<lparr>ad_buf := drop c ?buf\<rparr>)"
    unfolding adts_feed_def Let_def o(1) bind.simps prod.case if_not_P [OF n] ..
  then show ?thesis using o by (intro exI conjI) (assumption | simp | blast)+
qed

text \<open>C21. Given that the byte search finds the first occurrence, feeding the ADTS splitter always
  ends, in whatever state it is and whatever bytes arrive; what it hands out are whole frames, each of
  the length its header declares, in the order of the bytes received and without overlap.\<close>

theorem adts_feed_ends:
  assumes "finds_first [0xFF] memchr"
  shows "\<exists>out sp'. adts_feed memchr sp data = Some (out, sp') \<and> (\<forall>f \<in> set out. adts_whole f) \<and>
    subseq (concat out) (ad_buf sp @ data)"
  using adts_feed_outcome [OF assms, of sp data] by blast

definition junk_and_frame :: bytes where
  "junk_and_frame = [0xAA, 0xFF, 0xFF, 0xF1, 0x50, 0x00, 0x01, 0x5F, 0xFC, 1, 2, 3, 0xFF]"

theorem adts_feed_ends_witness:
  "\<exists>out sp'. adts_feed (first_match [0xFF]) \<lparr> ad_buf = take 2 junk_and_frame \<rparr> (drop 2 junk_and_frame) = Some (out, sp') \<and>
     (\<forall>f \<in> set out. adts_whole f) \<and> subseq (concat out) (ad_buf \<lparr> ad_buf = take 2 junk_and_frame \<rparr> @ drop 2 junk_and_frame)"
  by (rule adts_feed_ends [OF finds_first_itself])

text \<open>The feed without its guard on the size of the buffer.\<close>

definition adts_feed_unguarded ::
  "(bytes \<Rightarrow> nat option) \<Rightarrow> adts_splitter \<Rightarrow> bytes \<Rightarrow> (bytes list \<times> adts_splitter) option" where
  "adts_feed_unguarded memchr sp data =
     (let buf = ad_buf sp @ data in
      do { (out, cursor) \<leftarrow> adts_loop memchr buf 0; Some (out, sp\<lparr>ad_buf := drop cursor buf\<rparr>) })"

lemma adts_guard_dead:
  assumes "finds_first [0xFF] memchr"
  shows "adts_feed memchr sp data = adts_feed_unguarded memchr sp data"
proof -
  let ?buf = "ad_buf sp @ data"
  obtain out c where o: "adts_loop memchr ?buf 0 = Some (out, c)" "length ?buf - c \<le> 8190"
    using adts_loop_returns [OF assms, of 0 ?buf] unfolding adts_outcome_def by auto
  have n: "\<not> (c = 0 \<and> MAX_PENDING_ADTS < length ?buf)" using o(2) by (auto simp: MAX_PENDING_ADTS_def)
  show ?thesis
    unfolding adts_feed_def adts_feed_unguarded_def Let_def o(1) bind.simps prod.case if_not_P [OF n] ..
qed

lemma adts_feeds_bounded:
  assumes found: "finds_first [0xFF] memchr"
  shows "length (ad_buf sp) \<le> 8190 \<Longrightarrow>
    \<exists>out sp'. adts_feeds memchr sp ds = Some (out, sp') \<and> length (ad_buf sp') \<le> 8190 \<and> (\<forall>f \<in> set out. adts_whole f)"
proof (induction ds arbitrary: sp)
  case (Cons d ds)
  obtain out sp' where f: "adts_feed memchr sp d = Some (out, sp')" "length (ad_buf sp') \<le> 8190" "\<forall>f \<in> set out. adts_whole f"
    using adts_feed_outcome [OF found, of sp d] by blast
  obtain out' sp'' where r: "adts_feeds memchr sp' ds = Some (out', sp'')" "length (ad_buf sp'') \<le> 8190" "\<forall>f \<in> set out'. adts_whole f"
    using Cons.IH [OF f(2)] by blast
  show ?case using f(3) r(2,3) by (intro exI conjI) (simp add: f(1) r(1), auto)
qed simp

text \<open>C39. The splitter never keeps more than 8190 bytes between two reads, however large they are and
  whatever they hold; the guard on its buffer at one mebibyte can be removed without changing anything.\<close>

theorem adts_buffer_bounded:
  assumes "finds_first [0xFF] memchr"
  shows "(\<exists>out sp. adts_feeds memchr adts_new ds = Some (out, sp) \<and> length (ad_buf sp) \<le> 8190) \<and>
         (\<forall>sp data. adts_feed memchr sp data = adts_feed_unguarded memchr sp data)"
  using adts_feeds_bounded [OF assms, of adts_new ds] adts_guard_dead [OF assms] by (auto simp: adts_new_def)

theorem adts_buffer_bounded_witness:
  "(\<exists>out sp. adts_feeds (first_match [0xFF]) adts_new [junk_and_frame, junk_and_frame] = Some (out, sp) \<and> length (ad_buf sp) \<le> 8190) \<and>
   (\<forall>sp data. adts_feed (first_match [0xFF]) sp data = adts_feed_unguarded (first_match [0xFF]) sp data)"
  by (rule adts_buffer_bounded [OF finds_first_itself])


section \<open>Frames and the boundaries of reads\<close>

lemma adts_len_of_front:
  assumes "adts_whole f"
  shows "adts_frame_len (f @ bs) = Some (length f)"
proof -
  have "7 \<le> length f" using assms adts_frame_len_range [of f] by (simp add: adts_whole_def)
  then show ?thesis
    using assms by (auto simp: adts_whole_def adts_frame_len_def is_adts_frame_def nth_append Let_def ADTS_MIN_HEADER_def split: if_splits)
qed

text \<open>Whole frames in one read come out as they went in.\<close>

lemma adts_loop_frames:
  "\<forall>f \<in> set fs. adts_whole f \<Longrightarrow> adts_loop memchr (pre @ concat fs) (length pre) = Some (fs, length (pre @ concat fs))"
proof (induction fs arbitrary: pre)
  case Nil
  show ?case by (simp add: adts_loop_done)
next
  case (Cons f fs)
  let ?buf = "pre @ concat (f # fs)"
  have f: "adts_whole f" using Cons.prems by simp
  have l: "adts_frame_len (drop (length pre) ?buf) = Some (length f)" using adts_len_of_front [OF f] by simp
  have lt: "length pre < length ?buf" using adts_frame_len_range [OF l] by (cases f) auto
  have IH: "adts_loop memchr ?buf (length pre + length f) = Some (fs, length ?buf)"
    using Cons.IH [of "pre @ f"] Cons.prems by simp
  have "adts_loop memchr ?buf (length pre) = Some (bslice (length pre) (length pre + length f) ?buf # fs, length ?buf)"
    by (subst adts_loop_frame [OF lt l]) (simp_all only: IH bind.simps prod.case, simp)
  then show ?case by (simp add: bslice_def)
qed

lemma adts_whole_frames_come_back:
  assumes "\<forall>f \<in> set fs. adts_whole f" and "finds_first [0xFF] memchr"
  shows "adts_feed memchr adts_new (concat fs) = Some (fs, adts_new)"
  unfolding adts_guard_dead [OF assms(2)]
  using adts_loop_frames [OF assms(1), of memchr "[]"] by (simp add: adts_feed_unguarded_def adts_new_def)

text \<open>A frame whose header is cut by a read boundary is lost: with 2 to 6 bytes of it, the
  unknown length counts as a false sync word.\<close>

definition ten_bytes :: bytes where
  "ten_bytes = [0xFF, 0xF1, 0x50, 0x00, 0x01, 0x5F, 0xFC, 1, 2, 3]"

lemma ten_bytes_whole: "adts_whole ten_bytes"
  by (simp add: adts_whole_def adts_frame_len_def is_adts_frame_def ten_bytes_def ADTS_MIN_HEADER_def)

lemma cut_header_loses_frame:
  assumes "finds_first [0xFF] memchr"
  shows "adts_feeds memchr adts_new [take 3 ten_bytes, drop 3 ten_bytes] = Some ([], adts_new)"
proof -
  have a: "adts_feed memchr adts_new (take 3 ten_bytes) = Some ([], adts_new)"
    unfolding adts_guard_dead [OF assms]
    by (simp add: adts_feed_unguarded_def adts_new_def ten_bytes_def adts_loop.simps is_adts_frame_def adts_frame_len_def
        ADTS_MIN_HEADER_def find_sync_def find_sync_from.simps finds_firstD [OF assms])
  have b: "adts_feed memchr adts_new (drop 3 ten_bytes) = Some ([], adts_new)"
    unfolding adts_guard_dead [OF assms]
    by (simp add: adts_feed_unguarded_def adts_new_def ten_bytes_def adts_loop.simps is_adts_frame_def adts_frame_len_def
        ADTS_MIN_HEADER_def find_sync_def find_sync_from.simps finds_firstD [OF assms])
  show ?thesis by (simp add: a b)
qed

end
