(* ===== verification/File_Xfer.thy ===== *)
theory File_Xfer
  imports Transport
begin

text \<open>
  File transfer over the media plane (\<open>stross-kernel/src/file_xfer.rs\<close>): the pump that
  cuts a file into frames of the file track, and the receiver that writes them to a temporary
  file and renames it.  The operating system answers through parameters: the results of reads,
  writes and renames, the packets of the session, the counts of watchers.  The wire form
  of the metadata is JSON; its encoder and decoder are parameters.
\<close>

section \<open>File names\<close>

text \<open>\<open>Path::file_name\<close> on a Unix path: the last component, unless that is the parent, the
  current directory or the root.\<close>

fun path_split :: "string \<Rightarrow> string list" where
  "path_split [] = [[]]"
| "path_split (c # cs) =
     (if c = CHR ''/'' then [] # path_split cs
      else case path_split cs of [] \<Rightarrow> [[c]] | s # ss \<Rightarrow> (c # s) # ss)"

definition path_components :: "string \<Rightarrow> string list" where
  "path_components p =
     (case path_split p of
        [] \<Rightarrow> []
      | s # ss \<Rightarrow> (if s = [] then [] else [s]) @ filter (\<lambda>c. c \<noteq> [] \<and> c \<noteq> ''.'') ss)"

definition file_name :: "string \<Rightarrow> string option" where
  "file_name p =
     (let cs = path_components p in
      if cs = [] \<or> last cs = ''..'' \<or> last cs = ''.'' then None else Some (last cs))"

text \<open>A name that stays in its directory.\<close>

definition plain_name :: "string \<Rightarrow> bool" where
  "plain_name n \<longleftrightarrow> n \<noteq> [] \<and> n \<noteq> ''.'' \<and> n \<noteq> ''..'' \<and> CHR ''/'' \<notin> set n"

lemma path_split_no_slash: "s \<in> set (path_split p) \<Longrightarrow> CHR ''/'' \<notin> set s"
  by (induction p arbitrary: s rule: path_split.induct) (auto split: if_splits list.splits)

lemma file_name_plain: "file_name p = Some n \<Longrightarrow> plain_name n"
proof -
  assume a: "file_name p = Some n"
  then have c: "n \<in> set (path_components p)" "n \<noteq> ''.''" "n \<noteq> ''..''"
    by (auto simp: file_name_def Let_def split: if_splits)
  then have "n \<in> set (path_split p)" "n \<noteq> []"
    by (cases "path_split p"; auto simp: path_components_def split: if_splits)+
  then show ?thesis using c path_split_no_slash by (simp add: plain_name_def)
qed

lemma path_split_plain: "CHR ''/'' \<notin> set n \<Longrightarrow> path_split n = [n]"
  by (induction n) auto

lemma file_name_of_plain: "plain_name n \<Longrightarrow> file_name n = Some n"
  by (simp add: plain_name_def file_name_def path_components_def path_split_plain)



section \<open>The pump\<close>

record file_meta =
  fm_name :: string
  fm_size :: nat
  fm_sha256 :: "string option"

datatype xfer_error =
    NotAFile | ConnectFailed | NoWatcher | SendFailed | OpenFailed | ReadFailed | EndedEarly nat nat
  | MissingConfig | BadMeta | CreateDirFailed | CreateTmpFailed | NoTmpHandle | WriteFailed
  | TooLong nat nat | Incomplete nat nat | FlushFailed | RenameFailed | ClosedEarly nat | WatchFailed

definition FILE_CHUNK :: nat where
  "FILE_CHUNK = 65536"

text \<open>One \<open>read\<close> into the 64 KiB buffer: an error, or some bytes; none at the end of the file.\<close>

datatype file_read = ReadError | ReadBytes bytes

fun file_reads_ok :: "file_read list \<Rightarrow> bool" where
  "file_reads_ok [] = True"
| "file_reads_ok (ReadError # rs) = file_reads_ok rs"
| "file_reads_ok (ReadBytes bs # rs) = (length bs \<le> FILE_CHUNK \<and> file_reads_ok rs)"

definition file_frame :: "u8 \<Rightarrow> u32 \<Rightarrow> bytes \<Rightarrow> frame" where
  "file_frame flags pts payload = frame_new TRACK_FILE CODEC_FILE flags pts payload"

text \<open>The data loop: \<open>send_ok k\<close> tells whether the channel takes the \<open>k\<close>-th frame.  The frames
  taken so far are \<open>out\<close>.\<close>

fun push_loop ::
  "nat \<Rightarrow> (nat \<Rightarrow> bool) \<Rightarrow> file_read list \<Rightarrow> nat \<Rightarrow> u32 \<Rightarrow> frame list \<Rightarrow> (xfer_error + nat) \<times> frame list" where
  "push_loop fsize send_ok [] sent pts out =
     (if fsize = 0 then
        (if send_ok (length out) then (Inr sent, out @ [file_frame FLAG_END pts []]) else (Inl SendFailed, out))
      else (Inl (EndedEarly fsize sent), out))"
| "push_loop fsize send_ok (r # rs) sent pts out =
     (if fsize = 0 then
        (if send_ok (length out) then (Inr sent, out @ [file_frame FLAG_END pts []]) else (Inl SendFailed, out))
      else
        (case r of
           ReadError \<Rightarrow> (Inl ReadFailed, out)
         | ReadBytes bs \<Rightarrow>
             if bs = [] then (Inl (EndedEarly fsize sent), out)
             else
               let last_chunk = (sent + length bs = fsize);
                   fr = file_frame (if last_chunk then FLAG_END else 0) pts bs
               in if \<not> send_ok (length out) then (Inl SendFailed, out)
                  else if last_chunk then (Inr (sent + length bs), out @ [fr])
                  else push_loop fsize send_ok rs (sent + length bs) (pts + 1) (out @ [fr])))"

text \<open>The directory of the relay, and the polling for a watcher until the deadline: the list holds the
  answers that come in time, \<open>None\<close> for a failed probe.\<close>

definition watchers_of :: "(string \<times> nat) list \<Rightarrow> string \<Rightarrow> nat option" where
  "watchers_of streams stream_id = map_option snd (find (\<lambda>s. fst s = stream_id) streams)"

fun wait_for_watcher :: "(string \<times> nat) list option list \<Rightarrow> string \<Rightarrow> xfer_error + unit" where
  "wait_for_watcher [] stream_id = Inl NoWatcher"
| "wait_for_watcher (p # ps) stream_id =
     (if (case Option.bind p (\<lambda>l. watchers_of l stream_id) of None \<Rightarrow> 0 | Some n \<Rightarrow> n) > 0 then Inr ()
      else wait_for_watcher ps stream_id)"

record push_env =
  pe_meta :: "(bool \<times> nat) option"
  pe_path :: string
  pe_connect :: bool
  pe_polls :: "(string \<times> nat) list option list option"
  pe_stream :: string
  pe_open :: bool
  pe_reads :: "file_read list"
  pe_send_ok :: "nat \<Rightarrow> bool"

definition pushed_name :: "string \<Rightarrow> string" where
  "pushed_name p = (case file_name p of None \<Rightarrow> ''unnamed'' | Some n \<Rightarrow> n)"

definition push_file :: "(file_meta \<Rightarrow> bytes) \<Rightarrow> push_env \<Rightarrow> (xfer_error + nat) \<times> frame list" where
  "push_file meta_bytes pe =
     (case pe_meta pe of
        None \<Rightarrow> (Inl NotAFile, [])
      | Some (is_file, fsize) \<Rightarrow>
          if \<not> is_file then (Inl NotAFile, [])
          else if \<not> pe_connect pe then (Inl ConnectFailed, [])
          else
            (case (case pe_polls pe of None \<Rightarrow> Inr () | Some ps \<Rightarrow> wait_for_watcher ps (pe_stream pe)) of
               Inl e \<Rightarrow> (Inl e, [])
             | Inr _ \<Rightarrow>
                 if \<not> pe_send_ok pe 0 then (Inl SendFailed, [])
                 else
                   let meta = file_frame FLAG_CONFIG 0
                         (meta_bytes \<lparr> fm_name = pushed_name (pe_path pe), fm_size = fsize, fm_sha256 = None \<rparr>)
                   in if \<not> pe_open pe then (Inl OpenFailed, [meta])
                      else push_loop fsize (pe_send_ok pe) (pe_reads pe) 0 0 [meta]))"


section \<open>The receiver\<close>

type_synonym files = "string \<Rightarrow> bytes option"

text \<open>How the file system answers; \<open>io_write n\<close> is the write after \<open>n\<close> bytes.\<close>

record rx_io =
  io_create_dir :: bool
  io_create_tmp :: bool
  io_write :: "nat \<Rightarrow> bool"
  io_flush :: bool
  io_rename :: bool

datatype 'c session_recv = RecvPacket "'c session_packet" | RecvClosed | RecvFailed

record received_file =
  rf_name :: string
  rf_size :: nat

record file_rx =
  rx_meta :: "file_meta option"
  rx_tmp :: "string option"
  rx_bytes :: nat
  rx_files :: files

definition file_rx_new :: "files \<Rightarrow> file_rx" where
  "file_rx_new fs = \<lparr> rx_meta = None, rx_tmp = None, rx_bytes = 0, rx_files = fs \<rparr>"

definition rename_file :: "string \<Rightarrow> string \<Rightarrow> files \<Rightarrow> files" where
  "rename_file a b fs = (fs(a := None))(b := fs a)"

definition append_file :: "string \<Rightarrow> bytes \<Rightarrow> files \<Rightarrow> files" where
  "append_file a bs fs = fs(a := Some ((case fs a of None \<Rightarrow> [] | Some old \<Rightarrow> old) @ bs))"

text \<open>The first file frame: metadata, directory and temporary file.\<close>

definition rx_first ::
  "rx_io \<Rightarrow> string \<Rightarrow> (bytes \<Rightarrow> file_meta option) \<Rightarrow> frame \<Rightarrow> file_rx \<Rightarrow> (xfer_error + received_file) option \<times> file_rx" where
  "rx_first io tmp_name parse fr st =
     (if \<not> is_config (f_header fr) then (Some (Inl MissingConfig), st)
      else case parse (f_payload fr) of
        None \<Rightarrow> (Some (Inl BadMeta), st)
      | Some m \<Rightarrow>
          if \<not> io_create_dir io then (Some (Inl CreateDirFailed), st)
          else if \<not> io_create_tmp io then (Some (Inl CreateTmpFailed), st)
          else (None, st\<lparr>rx_meta := Some m, rx_tmp := Some tmp_name, rx_files := (rx_files st)(tmp_name := Some [])\<rparr>))"

definition rx_finish :: "rx_io \<Rightarrow> string \<Rightarrow> file_meta \<Rightarrow> file_rx \<Rightarrow> (xfer_error + received_file) option \<times> file_rx" where
  "rx_finish io tmp m st =
     (if rx_bytes st \<noteq> fm_size m then (Some (Inl (Incomplete (fm_size m) (rx_bytes st))), st)
      else if \<not> io_flush io then (Some (Inl FlushFailed), st)
      else
        let name = (case file_name (fm_name m) of None \<Rightarrow> ''received.bin'' | Some n \<Rightarrow> n) in
        if \<not> io_rename io then (Some (Inl RenameFailed), st)
        else (Some (Inr \<lparr> rf_name = name, rf_size = fm_size m \<rparr>), st\<lparr>rx_files := rename_file tmp name (rx_files st)\<rparr>))"

definition rx_data ::
  "rx_io \<Rightarrow> file_meta \<Rightarrow> frame \<Rightarrow> file_rx \<Rightarrow> (xfer_error + received_file) option \<times> file_rx" where
  "rx_data io m fr st =
     (case rx_tmp st of
        None \<Rightarrow> (Some (Inl NoTmpHandle), st)
      | Some tmp \<Rightarrow>
          if f_payload fr \<noteq> [] \<and> \<not> io_write io (rx_bytes st) then (Some (Inl WriteFailed), st)
          else
            let st' = (if f_payload fr = [] then st
                       else st\<lparr>rx_files := append_file tmp (f_payload fr) (rx_files st),
                               rx_bytes := rx_bytes st + length (f_payload fr)\<rparr>)
            in if fm_size m < rx_bytes st' then (Some (Inl (TooLong (fm_size m) (rx_bytes st'))), st')
               else if is_end (f_header fr) then rx_finish io tmp m st'
               else (None, st'))"

definition rx_frame where
  "rx_frame io tmp_name parse fr st =
     (case rx_meta st of None \<Rightarrow> rx_first io tmp_name parse fr st | Some m \<Rightarrow> rx_data io m fr st)"

text \<open>The receive loop over what the session delivers; without a result it still waits.\<close>

fun rx_loop ::
  "rx_io \<Rightarrow> string \<Rightarrow> (bytes \<Rightarrow> file_meta option) \<Rightarrow> 'c session_recv list \<Rightarrow> file_rx \<Rightarrow>
   (xfer_error + received_file) option \<times> file_rx" where
  "rx_loop io tmp_name parse [] st = (None, st)"
| "rx_loop io tmp_name parse (RecvClosed # rs) st = (Some (Inl (ClosedEarly (rx_bytes st))), st)"
| "rx_loop io tmp_name parse (RecvFailed # rs) st = (Some (Inl WatchFailed), st)"
| "rx_loop io tmp_name parse (RecvPacket (ControlPkt c) # rs) st = rx_loop io tmp_name parse rs st"
| "rx_loop io tmp_name parse (RecvPacket (MediaPkt fr) # rs) st =
     (if fh_track (f_header fr) = TRACK_FILE then
        (case rx_frame io tmp_name parse fr st of
           (None, st') \<Rightarrow> rx_loop io tmp_name parse rs st'
         | (Some r, st') \<Rightarrow> (Some r, st'))
      else rx_loop io tmp_name parse rs st)"

text \<open>After an error the temporary file is removed.\<close>

definition receive_file_session ::
  "rx_io \<Rightarrow> string \<Rightarrow> (bytes \<Rightarrow> file_meta option) \<Rightarrow> 'c session_recv list \<Rightarrow> files \<Rightarrow>
   (xfer_error + received_file) option \<times> files" where
  "receive_file_session io tmp_name parse rs fs =
     (case rx_loop io tmp_name parse rs (file_rx_new fs) of
        (Some (Inl e), st) \<Rightarrow>
          (Some (Inl e), case rx_tmp st of None \<Rightarrow> rx_files st | Some tmp \<Rightarrow> (rx_files st)(tmp := None))
      | (r, st) \<Rightarrow> (r, rx_files st))"


section \<open>What the receiver leaves behind\<close>

text \<open>The file frames of a session, in order; and what they carry behind the metadata.\<close>

fun file_frames :: "'c session_recv list \<Rightarrow> frame list" where
  "file_frames [] = []"
| "file_frames (RecvPacket (MediaPkt fr) # rs) =
     (if fh_track (f_header fr) = TRACK_FILE then fr # file_frames rs else file_frames rs)"
| "file_frames (r # rs) = file_frames rs"

definition rx_inv :: "string \<Rightarrow> files \<Rightarrow> bytes \<Rightarrow> file_rx \<Rightarrow> bool" where
  "rx_inv tmp_name fs got st \<longleftrightarrow>
     rx_tmp st = map_option (\<lambda>_. tmp_name) (rx_meta st) \<and> rx_bytes st = length got \<and>
     (case rx_meta st of None \<Rightarrow> got = [] \<and> rx_files st = fs | Some m \<Rightarrow> rx_files st = fs(tmp_name := Some got))"

text \<open>The results: on failure nothing but the temporary file was touched, on success the file holds the bytes received and
  as many as were announced, under a plain name.\<close>

definition rx_good :: "string \<Rightarrow> files \<Rightarrow> file_meta \<Rightarrow> bytes \<Rightarrow> xfer_error + received_file \<Rightarrow> file_rx \<Rightarrow> bool" where
  "rx_good tmp_name fs m got r st \<longleftrightarrow>
     (case r of
        Inl e \<Rightarrow> rx_tmp st = None \<and> rx_files st = fs \<or>
                 (\<exists>c. rx_tmp st = Some tmp_name \<and> rx_files st = fs(tmp_name := Some c))
      | Inr f \<Rightarrow> plain_name (rf_name f) \<and> rf_size f = length got \<and> rf_size f = fm_size m \<and>
                 rx_files st = (fs(tmp_name := None))(rf_name f := Some got))"

lemma received_name_plain: "plain_name (case file_name n of None \<Rightarrow> ''received.bin'' | Some n \<Rightarrow> n)"
  by (cases "file_name n") (auto simp: file_name_plain, simp add: plain_name_def)

lemma rx_finish_good:
  assumes "rx_tmp st = Some tmp" and "rx_bytes st = length got" and "rx_files st = fs(tmp := Some got)"
  shows "\<exists>r st'. rx_finish io tmp m st = (Some r, st') \<and> rx_good tmp fs m got r st'"
  using assms received_name_plain [of "fm_name m"]
  by (auto simp: rx_finish_def rx_good_def Let_def rename_file_def)

lemma rx_data_good:
  assumes inv: "rx_inv tmp fs got st" and m: "rx_meta st = Some m" and d: "rx_data io m fr st = (r, st')"
  shows "case r of None \<Rightarrow> rx_inv tmp fs (got @ f_payload fr) st' \<and> rx_meta st' = Some m
                 | Some x \<Rightarrow> rx_good tmp fs m (got @ f_payload fr) x st'"
proof -
  have i: "rx_tmp st = Some tmp" "rx_bytes st = length got" "rx_files st = fs(tmp := Some got)"
    using inv by (simp_all add: rx_inv_def m)
  show ?thesis
  proof (cases "f_payload fr \<noteq> [] \<and> \<not> io_write io (rx_bytes st)")
    case True
    then show ?thesis using d i by (auto simp: rx_data_def rx_good_def)
  next
    case False
    define st1 where "st1 = (if f_payload fr = [] then st
        else st\<lparr>rx_files := append_file tmp (f_payload fr) (rx_files st), rx_bytes := rx_bytes st + length (f_payload fr)\<rparr>)"
    have s: "rx_tmp st1 = Some tmp" "rx_bytes st1 = length (got @ f_payload fr)"
        "rx_files st1 = fs(tmp := Some (got @ f_payload fr))" "rx_meta st1 = Some m"
      by (auto simp: st1_def i m append_file_def)
    have e: "rx_data io m fr st =
      (if fm_size m < rx_bytes st1 then (Some (Inl (TooLong (fm_size m) (rx_bytes st1))), st1)
       else if is_end (f_header fr) then rx_finish io tmp m st1 else (None, st1))"
      unfolding rx_data_def i(1) option.case if_not_P [OF False] Let_def st1_def ..
    show ?thesis
      using d rx_finish_good [OF s(1-3), of io m] s unfolding e
      by (auto simp: rx_inv_def rx_good_def split: if_splits)
  qed
qed

lemma rx_good_stop:
  assumes "rx_inv tmp fs got st" and "rx_meta st = Some m"
  shows "rx_good tmp fs m got' (Inl e) st"
  using assms by (auto simp: rx_inv_def rx_good_def)

lemma rx_loop_data:
  "rx_inv tmp fs got st \<Longrightarrow> rx_meta st = Some m \<Longrightarrow> rx_loop io tmp parse rs st = (Some r, st') \<Longrightarrow>
   \<exists>data rest. file_frames rs = data @ rest \<and> rx_good tmp fs m (got @ concat (map f_payload data)) r st'"
proof (induction io tmp parse rs st arbitrary: got rule: rx_loop.induct)
  case (2 io tmp parse rs st)
  then show ?case using rx_good_stop [OF "2.prems"(1,2)] by (intro exI [of _ "[]"] exI [of _ "file_frames rs"]) auto
next
  case (3 io tmp parse rs st)
  then show ?case using rx_good_stop [OF "3.prems"(1,2)] by (intro exI [of _ "[]"] exI [of _ "file_frames rs"]) auto
next
  case (5 io tmp parse fr rs st)
  show ?case
  proof (cases "fh_track (f_header fr) = TRACK_FILE")
    case False
    then show ?thesis using 5 by auto
  next
    case True
    obtain q st1 where d: "rx_data io m fr st = (q, st1)" by (cases "rx_data io m fr st")
    have f: "rx_frame io tmp parse fr st = (q, st1)" using d by (simp add: rx_frame_def "5.prems"(2))
    note g = rx_data_good [OF "5.prems"(1,2) d]
    show ?thesis
    proof (cases q)
      case None
      have l: "rx_loop io tmp parse rs st1 = (Some r, st')" using "5.prems"(3) True f None by simp
      obtain data rest where "file_frames rs = data @ rest"
        "rx_good tmp fs m ((got @ f_payload fr) @ concat (map f_payload data)) r st'"
        using "5.IH"(1) [OF True f [symmetric] None, of "got @ f_payload fr"] g l None by auto
      then show ?thesis using True by (intro exI [of _ "fr # data"] exI [of _ rest]) simp
    next
      case (Some x)
      then have "x = r" "st1 = st'" using "5.prems"(3) True f by simp_all
      then show ?thesis using g Some True by (intro exI [of _ "[fr]"] exI [of _ "file_frames rs"]) simp
    qed
  qed
qed auto

lemma rx_loop_start:
  "rx_inv tmp fs [] st \<Longrightarrow> rx_meta st = None \<Longrightarrow> rx_loop io tmp parse rs st = (Some r, st') \<Longrightarrow>
   (\<exists>e. r = Inl e \<and> rx_tmp st' = None \<and> rx_files st' = fs) \<or>
   (\<exists>m first data rest. file_frames rs = first # data @ rest \<and> parse (f_payload first) = Some m \<and>
      rx_good tmp fs m (concat (map f_payload data)) r st')"
proof (induction io tmp parse rs st rule: rx_loop.induct)
  case (2 io tmp parse rs st)
  then show ?case by (auto simp: rx_inv_def)
next
  case (3 io tmp parse rs st)
  then show ?case by (auto simp: rx_inv_def)
next
  case (5 io tmp parse fr rs st)
  have i: "rx_tmp st = None" "rx_files st = fs" "rx_bytes st = 0" using "5.prems"(1,2) by (simp_all add: rx_inv_def)
  show ?case
  proof (cases "fh_track (f_header fr) = TRACK_FILE")
    case False
    then show ?thesis using 5 by auto
  next
    case True
    have fr: "rx_frame io tmp parse fr st = rx_first io tmp parse fr st" by (simp add: rx_frame_def "5.prems"(2))
    show ?thesis
    proof (cases "fst (rx_first io tmp parse fr st)")
      case (Some x)
      then have "(Some r, st') = rx_first io tmp parse fr st" using "5.prems"(3) True fr by (auto split: prod.splits)
      then have "\<exists>e. r = Inl e" "st' = st" using Some
        by (auto simp: rx_first_def split: if_splits option.splits)
      then show ?thesis using i by auto
    next
      case None
      then obtain m where m: "parse (f_payload fr) = Some m" and st1: "rx_first io tmp parse fr st =
          (None, st\<lparr>rx_meta := Some m, rx_tmp := Some tmp, rx_files := (rx_files st)(tmp := Some [])\<rparr>)"
        by (auto simp: rx_first_def split: if_splits option.splits)
      let ?st1 = "st\<lparr>rx_meta := Some m, rx_tmp := Some tmp, rx_files := (rx_files st)(tmp := Some [])\<rparr>"
      have "rx_inv tmp fs [] ?st1" "rx_meta ?st1 = Some m" using i by (simp_all add: rx_inv_def)
      moreover have "rx_loop io tmp parse rs ?st1 = (Some r, st')" using "5.prems"(3) True fr st1 by simp
      ultimately have "\<exists>data rest. file_frames rs = data @ rest \<and> rx_good tmp fs m ([] @ concat (map f_payload data)) r st'"
        by (rule rx_loop_data)
      then show ?thesis using True m by auto
    qed
  qed
qed auto

section \<open>From the pump to the receiver\<close>

text \<open>What the reads of the pump amount to.\<close>

fun read_bytes :: "file_read list \<Rightarrow> bytes" where
  "read_bytes [] = []"
| "read_bytes (ReadError # rs) = []"
| "read_bytes (ReadBytes bs # rs) = (if bs = [] then [] else bs @ read_bytes rs)"

text \<open>A run of data frames: only the last one carries the end mark.\<close>

definition data_run :: "frame list \<Rightarrow> bool" where
  "data_run ds \<longleftrightarrow> ds \<noteq> [] \<and> (\<forall>d \<in> set ds. fh_track (f_header d) = TRACK_FILE) \<and>
     (\<forall>d \<in> set (butlast ds). \<not> is_end (f_header d)) \<and> is_end (f_header (last ds))"

lemma file_frame_simps [simp]:
  "f_payload (file_frame fl pts bs) = bs" "fh_track (f_header (file_frame fl pts bs)) = TRACK_FILE"
  "is_end (f_header (file_frame fl pts bs)) = (fl AND FLAG_END \<noteq> 0)"
  "is_config (f_header (file_frame fl pts bs)) = (fl AND FLAG_CONFIG \<noteq> 0)"
  by (simp_all add: file_frame_def frame_new_def is_end_def is_config_def)

lemma flag_simps [simp]: "FLAG_END \<noteq> 0" "FLAG_CONFIG \<noteq> 0"
  by (simp_all add: FLAG_END_def FLAG_CONFIG_def)

lemma data_run_single: "data_run [file_frame FLAG_END pts bs]"
  by (simp add: data_run_def)

lemma data_run_Cons: "data_run ds \<Longrightarrow> data_run (file_frame 0 pts bs # ds)"
  by (auto simp: data_run_def)

lemma push_loop_frames:
  assumes "push_loop fsize send_ok rs sent pts out = (Inr n, out')" and "fsize = 0 \<Longrightarrow> sent = 0"
  shows "\<exists>ds. out' = out @ ds \<and> data_run ds \<and> n = fsize \<and> sent + length (concat (map f_payload ds)) = fsize \<and>
     (fsize \<noteq> 0 \<longrightarrow> (\<exists>more_bytes. read_bytes rs = concat (map f_payload ds) @ more_bytes))"
  using assms
proof (induction fsize send_ok rs sent pts out rule: push_loop.induct)
  case (1 fsize send_ok sent pts out)
  then show ?case using data_run_single [of pts "[]"] by (auto split: if_splits)
next
  case (2 fsize send_ok r rs sent pts out)
  show ?case
  proof (cases "fsize = 0")
    case True
    then show ?thesis using 2 data_run_single [of pts "[]"] by (auto split: if_splits)
  next
    case False
    then obtain bs where r: "r = ReadBytes bs" "bs \<noteq> []" and ok: "send_ok (length out)"
      using "2.prems"(1) by (cases r) (auto simp: Let_def split: if_splits)
    show ?thesis
    proof (cases "sent + length bs = fsize")
      case True
      then show ?thesis using "2.prems"(1) False r ok data_run_single [of pts bs] by auto
    next
      case more_left: False
      let ?fr = "file_frame 0 pts bs"
      have l: "push_loop fsize send_ok rs (sent + length bs) (pts + 1) (out @ [?fr]) = (Inr n, out')"
        using "2.prems"(1) False r ok more_left by simp
      obtain ds where "out' = (out @ [?fr]) @ ds" "data_run ds" "n = fsize"
        "sent + length bs + length (concat (map f_payload ds)) = fsize"
        "\<exists>more_bytes. read_bytes rs = concat (map f_payload ds) @ more_bytes"
        using "2.IH" [OF False r refl refl] l False ok more_left by auto
      then show ?thesis using r data_run_Cons [of ds pts bs] by (intro exI [of _ "?fr # ds"]) auto
    qed
  qed
qed

definition rx_io_ok :: "rx_io \<Rightarrow> bool" where
  "rx_io_ok io \<longleftrightarrow> io_create_dir io \<and> io_create_tmp io \<and> (\<forall>n. io_write io n) \<and> io_flush io \<and> io_rename io"

definition saved_name :: "file_meta \<Rightarrow> string" where
  "saved_name m = (case file_name (fm_name m) of None \<Rightarrow> ''received.bin'' | Some n \<Rightarrow> n)"

lemma rx_data_step:
  assumes ok: "rx_io_ok io" and inv: "rx_inv tmp fs got st" and m: "rx_meta st = Some m"
    and le: "length got + length (f_payload fr) \<le> fm_size m"
  shows "\<exists>st'. rx_inv tmp fs (got @ f_payload fr) st' \<and> rx_meta st' = Some m \<and>
     rx_data io m fr st = (if is_end (f_header fr) then rx_finish io tmp m st' else (None, st'))"
proof -
  have i: "rx_tmp st = Some tmp" "rx_bytes st = length got" "rx_files st = fs(tmp := Some got)"
    using inv by (simp_all add: rx_inv_def m)
  define st1 where "st1 = (if f_payload fr = [] then st
      else st\<lparr>rx_files := append_file tmp (f_payload fr) (rx_files st), rx_bytes := rx_bytes st + length (f_payload fr)\<rparr>)"
  have s: "rx_tmp st1 = Some tmp" "rx_bytes st1 = length (got @ f_payload fr)"
      "rx_files st1 = fs(tmp := Some (got @ f_payload fr))" "rx_meta st1 = Some m"
    by (auto simp: st1_def i m append_file_def)
  have w: "\<not> (f_payload fr \<noteq> [] \<and> \<not> io_write io (rx_bytes st))" using ok by (simp add: rx_io_ok_def)
  have b: "\<not> fm_size m < rx_bytes st1" using le s(2) by simp
  have "rx_data io m fr st = (if is_end (f_header fr) then rx_finish io tmp m st1 else (None, st1))"
    unfolding rx_data_def i(1) option.case if_not_P [OF w] Let_def st1_def [symmetric] if_not_P [OF b] ..
  then show ?thesis using s by (intro exI [of _ st1]) (simp add: rx_inv_def)
qed

lemma rx_finish_ok:
  assumes "rx_io_ok io" and "rx_inv tmp fs got st" and "rx_meta st = Some m" and "length got = fm_size m"
  shows "\<exists>st'. rx_finish io tmp m st = (Some (Inr \<lparr> rf_name = saved_name m, rf_size = fm_size m \<rparr>), st') \<and>
     rx_files st' = (fs(tmp := None))(saved_name m := Some got)"
  using assms by (auto simp: rx_finish_def rx_io_ok_def rx_inv_def rename_file_def saved_name_def Let_def)

lemma rx_loop_delivers:
  assumes ok: "rx_io_ok io"
  shows "rx_inv tmp fs got st \<Longrightarrow> rx_meta st = Some m \<Longrightarrow> file_frames (map RecvPacket ps) = ds @ rest \<Longrightarrow> data_run ds \<Longrightarrow>
    length (got @ concat (map f_payload ds)) = fm_size m \<Longrightarrow>
    \<exists>st'. rx_loop io tmp parse (map RecvPacket ps) st = (Some (Inr \<lparr> rf_name = saved_name m, rf_size = fm_size m \<rparr>), st') \<and>
      rx_files st' = (fs(tmp := None))(saved_name m := Some (got @ concat (map f_payload ds)))"
proof (induction ps arbitrary: got st ds)
  case Nil
  then show ?case by (simp add: data_run_def)
next
  case (Cons p ps)
  show ?case
  proof (cases p)
    case (ControlPkt c)
    then show ?thesis using Cons.IH [OF Cons.prems(1,2) _ Cons.prems(4,5)] Cons.prems(3) by simp
  next
    case (MediaPkt fr)
    show ?thesis
    proof (cases "fh_track (f_header fr) = TRACK_FILE")
      case False
      then show ?thesis using Cons.IH [OF Cons.prems(1,2) _ Cons.prems(4,5)] Cons.prems(3) MediaPkt by simp
    next
      case True
      obtain ds' where ds: "ds = fr # ds'" "file_frames (map RecvPacket ps) = ds' @ rest"
        using Cons.prems(3,4) MediaPkt True by (cases ds) (auto simp: data_run_def)
      have le: "length got + length (f_payload fr) \<le> fm_size m" using Cons.prems(5) ds by simp
      obtain st1 where st1: "rx_inv tmp fs (got @ f_payload fr) st1" "rx_meta st1 = Some m"
        "rx_data io m fr st = (if is_end (f_header fr) then rx_finish io tmp m st1 else (None, st1))"
        using rx_data_step [OF ok Cons.prems(1,2) le] by blast
      have f: "rx_frame io tmp parse fr st = rx_data io m fr st" by (simp add: rx_frame_def Cons.prems(2))
      show ?thesis
      proof (cases "ds' = []")
        case last: True
        then have e: "is_end (f_header fr)" using Cons.prems(4) ds by (simp add: data_run_def)
        have "length (got @ f_payload fr) = fm_size m" using Cons.prems(5) ds last by simp
        then obtain st' where "rx_finish io tmp m st1 = (Some (Inr \<lparr> rf_name = saved_name m, rf_size = fm_size m \<rparr>), st')"
          "rx_files st' = (fs(tmp := None))(saved_name m := Some (got @ f_payload fr))"
          using rx_finish_ok [OF ok st1(1,2)] by blast
        then show ?thesis using MediaPkt True ds last e by (auto simp: f st1(3) fun_eq_iff)
      next
        case more_left: False
        then have e: "\<not> is_end (f_header fr)" and run: "data_run ds'" using Cons.prems(4) ds by (auto simp: data_run_def)
        show ?thesis
          using Cons.IH [OF st1(1,2) ds(2) run] Cons.prems(5) MediaPkt True ds e by (simp add: f st1(3))
      qed
    qed
  qed
qed

lemma push_file_frames:
  assumes "push_file meta_bytes pe = (Inr n, out)"
  shows "\<exists>fsize ds. pe_meta pe = Some (True, fsize) \<and> n = fsize \<and> data_run ds \<and> length (concat (map f_payload ds)) = fsize \<and>
     out = file_frame FLAG_CONFIG 0 (meta_bytes \<lparr> fm_name = pushed_name (pe_path pe), fm_size = fsize, fm_sha256 = None \<rparr>) # ds \<and>
     (fsize \<noteq> 0 \<longrightarrow> (\<exists>more_bytes. read_bytes (pe_reads pe) = concat (map f_payload ds) @ more_bytes))"
proof -
  obtain fsize where m: "pe_meta pe = Some (True, fsize)"
    and l: "push_loop fsize (pe_send_ok pe) (pe_reads pe) 0 0
      [file_frame FLAG_CONFIG 0 (meta_bytes \<lparr> fm_name = pushed_name (pe_path pe), fm_size = fsize, fm_sha256 = None \<rparr>)] = (Inr n, out)"
    using assms by (auto simp: push_file_def Let_def split: option.splits if_splits sum.splits)
  show ?thesis using push_loop_frames [OF l] m by auto
qed

lemma rx_first_ok:
  assumes "rx_io_ok io" and "is_config (f_header fr)" and "parse (f_payload fr) = Some m"
  shows "\<exists>st'. rx_frame io tmp parse fr (file_rx_new fs) = (None, st') \<and> rx_inv tmp fs [] st' \<and> rx_meta st' = Some m"
  using assms by (simp add: rx_frame_def rx_first_def file_rx_new_def rx_io_ok_def rx_inv_def)

lemma rx_loop_from_start:
  assumes ok: "rx_io_ok io" and c: "is_config (f_header fr)" "parse (f_payload fr) = Some m"
  shows "file_frames (map RecvPacket ps) = fr # ds @ rest \<Longrightarrow> data_run ds \<Longrightarrow> length (concat (map f_payload ds)) = fm_size m \<Longrightarrow>
    \<exists>st'. rx_loop io tmp parse (map RecvPacket ps) (file_rx_new fs) = (Some (Inr \<lparr> rf_name = saved_name m, rf_size = fm_size m \<rparr>), st') \<and>
      rx_files st' = (fs(tmp := None))(saved_name m := Some (concat (map f_payload ds)))"
proof (induction ps)
  case (Cons p ps)
  show ?case
  proof (cases p)
    case (MediaPkt g)
    show ?thesis
    proof (cases "fh_track (f_header g) = TRACK_FILE")
      case True
      then have g: "g = fr" "file_frames (map RecvPacket ps) = ds @ rest" using Cons.prems(1) MediaPkt by simp_all
      obtain st1 where "rx_frame io tmp parse fr (file_rx_new fs) = (None, st1)" "rx_inv tmp fs [] st1" "rx_meta st1 = Some m"
        using rx_first_ok [where tmp = tmp and fs = fs and parse = parse, OF ok c] by blast
      then have l: "rx_loop io tmp parse (map RecvPacket (p # ps)) (file_rx_new fs) = rx_loop io tmp parse (map RecvPacket ps) st1"
          and i: "rx_inv tmp fs [] st1" "rx_meta st1 = Some m"
        using MediaPkt True g by simp_all
      show ?thesis
        unfolding l using rx_loop_delivers [OF ok i g(2) Cons.prems(2), of parse] Cons.prems(3)
        by (simp only: append_Nil simp_thms)
    qed (use Cons MediaPkt in simp)
  qed (use Cons in simp)
qed simp

text \<open>C20. A file pushed is received whole: when the pump reports success on a file that is not changed
  meanwhile, a receiver that gets its frames in order, among whatever other packets, and whose file
  system works, ends with a file of exactly the bytes read, under the base name, and the temporary file is gone.\<close>

theorem pushed_file_is_received:
  assumes "parse (meta_bytes \<lparr> fm_name = pushed_name (pe_path pe), fm_size = n, fm_sha256 = None \<rparr>) =
      Some \<lparr> fm_name = pushed_name (pe_path pe), fm_size = n, fm_sha256 = None \<rparr>"
    and "push_file meta_bytes pe = (Inr n, frames)"
    and "length (read_bytes (pe_reads pe)) = n"
    and "file_frames (map RecvPacket ps) = frames @ rest"
    and "rx_io_ok io"
  shows "receive_file_session io tmp parse (map RecvPacket ps) fs =
    (Some (Inr \<lparr> rf_name = saved_name \<lparr> fm_name = pushed_name (pe_path pe), fm_size = n, fm_sha256 = None \<rparr>, rf_size = n \<rparr>),
     (fs(tmp := None))(saved_name \<lparr> fm_name = pushed_name (pe_path pe), fm_size = n, fm_sha256 = None \<rparr> := Some (read_bytes (pe_reads pe))))"
proof -
  let ?m = "\<lparr> fm_name = pushed_name (pe_path pe), fm_size = n, fm_sha256 = None \<rparr>"
  obtain ds where ds: "data_run ds" "length (concat (map f_payload ds)) = n"
    "frames = file_frame FLAG_CONFIG 0 (meta_bytes ?m) # ds"
    "n \<noteq> 0 \<longrightarrow> (\<exists>more_bytes. read_bytes (pe_reads pe) = concat (map f_payload ds) @ more_bytes)"
    using push_file_frames [OF assms(2)] by auto
  have r: "read_bytes (pe_reads pe) = concat (map f_payload ds)"
    using ds(2,4) assms(3) by (cases "n = 0") auto
  have "\<exists>st'. rx_loop io tmp parse (map RecvPacket ps) (file_rx_new fs) = (Some (Inr \<lparr> rf_name = saved_name ?m, rf_size = fm_size ?m \<rparr>), st') \<and>
      rx_files st' = (fs(tmp := None))(saved_name ?m := Some (concat (map f_payload ds)))"
    by (rule rx_loop_from_start [OF assms(5), of "file_frame FLAG_CONFIG 0 (meta_bytes ?m)"])
      (use assms(1,4) ds in simp_all)
  then show ?thesis by (auto simp: receive_file_session_def r)
qed

text \<open>A small codec for the metadata, a file of six bytes read in two pieces, and a session
  with other packets between its frames.\<close>

definition tiny_meta_bytes :: "file_meta \<Rightarrow> bytes" where
  "tiny_meta_bytes m = word_of_nat (fm_size m) # map (\<lambda>c. word_of_nat (of_char c)) (fm_name m)"

fun tiny_meta_parse :: "bytes \<Rightarrow> file_meta option" where
  "tiny_meta_parse [] = None"
| "tiny_meta_parse (b # bs) = Some \<lparr> fm_name = map (\<lambda>b. char_of (unat b)) bs, fm_size = unat b, fm_sha256 = None \<rparr>"

lemma tiny_meta_roundtrip:
  "fm_size m < 256 \<Longrightarrow> fm_sha256 m = None \<Longrightarrow> tiny_meta_parse (tiny_meta_bytes m) = Some m"
proof -
  have "char_of (unat (word_of_nat (of_char c) :: u8)) = c" for c
    by (simp add: unsigned_of_nat take_bit_nat_eq_self)
  then show "fm_size m < 256 \<Longrightarrow> fm_sha256 m = None \<Longrightarrow> ?thesis"
    by (cases m) (simp add: tiny_meta_bytes_def unsigned_of_nat take_bit_nat_eq_self comp_def)
qed

definition notes_env :: push_env where
  "notes_env = \<lparr> pe_meta = Some (True, 6), pe_path = ''/home/u/notes.txt'', pe_connect = True,
     pe_polls = Some [None, Some [(''s1'', 0)], Some [(''s1'', 1)]], pe_stream = ''s1'', pe_open = True,
     pe_reads = [ReadBytes [1, 2, 3, 4], ReadBytes [5, 6]], pe_send_ok = (\<lambda>_. True) \<rparr>"

definition notes_meta :: file_meta where
  "notes_meta = \<lparr> fm_name = ''notes.txt'', fm_size = 6, fm_sha256 = None \<rparr>"

definition notes_frames :: "frame list" where
  "notes_frames = [file_frame FLAG_CONFIG 0 (tiny_meta_bytes notes_meta), file_frame 0 0 [1, 2, 3, 4], file_frame FLAG_END 1 [5, 6]]"

definition notes_packets :: "unit session_packet list" where
  "notes_packets = [ControlPkt ()] @ map MediaPkt (take 1 notes_frames) @ [MediaPkt (frame_new TRACK_AUDIO CODEC_AAC 0 0 [9])] @
     map MediaPkt (drop 1 notes_frames)"

definition good_io :: rx_io where
  "good_io = \<lparr> io_create_dir = True, io_create_tmp = True, io_write = (\<lambda>_. True), io_flush = True, io_rename = True \<rparr>"

lemma notes_name: "pushed_name (pe_path notes_env) = ''notes.txt''" "saved_name notes_meta = ''notes.txt''"
  by (simp_all add: notes_env_def notes_meta_def pushed_name_def saved_name_def file_name_def path_components_def)

lemma notes_pushed: "push_file tiny_meta_bytes notes_env = (Inr 6, notes_frames)"
  unfolding push_file_def notes_name(1) notes_frames_def notes_meta_def
  by (simp add: notes_env_def watchers_of_def)

lemma notes_sent: "file_frames (map RecvPacket notes_packets) = notes_frames @ []"
  by (simp add: notes_packets_def notes_frames_def) (simp add: frame_new_def TRACK_AUDIO_def TRACK_FILE_def)

theorem pushed_file_is_received_witness:
  "receive_file_session good_io ''.tmp'' tiny_meta_parse (map RecvPacket notes_packets) (\<lambda>_. None) =
   (Some (Inr \<lparr> rf_name = ''notes.txt'', rf_size = 6 \<rparr>),
    ((\<lambda>_. None)(''.tmp'' := None))(''notes.txt'' := Some [1, 2, 3, 4, 5, 6]))"
proof -
  have parse: "tiny_meta_parse (tiny_meta_bytes \<lparr> fm_name = pushed_name (pe_path notes_env), fm_size = 6, fm_sha256 = None \<rparr>) =
      Some \<lparr> fm_name = pushed_name (pe_path notes_env), fm_size = 6, fm_sha256 = None \<rparr>"
    by (rule tiny_meta_roundtrip) simp_all
  have len: "length (read_bytes (pe_reads notes_env)) = 6" by (simp add: notes_env_def)
  have io: "rx_io_ok good_io" by (simp add: rx_io_ok_def good_io_def)
  note r = pushed_file_is_received [where parse = tiny_meta_parse and meta_bytes = tiny_meta_bytes and pe = notes_env and
      n = 6 and frames = notes_frames and ps = notes_packets and rest = "[]", OF parse notes_pushed len notes_sent io,
      of "''.tmp''" "\<lambda>_. None"]
  show ?thesis using r unfolding notes_name(1) notes_meta_def [symmetric] notes_name(2) by (simp add: notes_env_def)
qed

text \<open>C19. However a reception ends, it leaves the directory in order: after an error every file is as
  before and the temporary file is gone; after success one file has been added under a plain name (no
  separator, no parent), which holds exactly the payloads received behind the metadata, as many
  bytes as the metadata announced.\<close>

theorem reception_all_or_nothing:
  assumes "receive_file_session io tmp parse rs fs = (Some r, fs')"
  shows "case r of
      Inl e \<Rightarrow> fs' = fs \<or> fs' = fs(tmp := None)
    | Inr f \<Rightarrow> plain_name (rf_name f) \<and>
        (\<exists>m first data rest. file_frames rs = first # data @ rest \<and> parse (f_payload first) = Some m \<and>
           rf_size f = fm_size m \<and> length (concat (map f_payload data)) = fm_size m \<and>
           fs' = (fs(tmp := None))(rf_name f := Some (concat (map f_payload data))))"
proof -
  obtain st' where l: "rx_loop io tmp parse rs (file_rx_new fs) = (Some r, st')"
    and fs': "fs' = (case r of Inl e \<Rightarrow> (case rx_tmp st' of None \<Rightarrow> rx_files st' | Some t \<Rightarrow> (rx_files st')(t := None))
                             | Inr f \<Rightarrow> rx_files st')"
    using assms by (auto simp: receive_file_session_def split: prod.splits option.splits sum.splits)
  have "rx_inv tmp fs [] (file_rx_new fs)" "rx_meta (file_rx_new fs) = None" by (simp_all add: rx_inv_def file_rx_new_def)
  from rx_loop_start [OF this l] show ?thesis
  proof (elim disjE exE conjE)
    fix m first data rest
    assume f: "file_frames rs = first # data @ rest" "parse (f_payload first) = Some m"
      and g: "rx_good tmp fs m (concat (map f_payload data)) r st'"
    show ?thesis
    proof (cases r)
      case (Inl e)
      then show ?thesis using g fs' by (auto simp: rx_good_def)
    next
      case (Inr rf)
      then have "plain_name (rf_name rf)" "rf_size rf = fm_size m" "length (concat (map f_payload data)) = fm_size m"
          "fs' = (fs(tmp := None))(rf_name rf := Some (concat (map f_payload data)))"
        using g fs' by (simp_all add: rx_good_def)
      then show ?thesis using f Inr by auto
    qed
  qed (use fs' in auto)
qed

definition cut_short :: "unit session_recv list" where
  "cut_short = map RecvPacket (take 4 notes_packets) @ [RecvClosed]"

lemma cut_short_fails:
  "receive_file_session good_io ''.tmp'' tiny_meta_parse cut_short (\<lambda>_. None) = (Some (Inl (ClosedEarly 4)), (\<lambda>_. None))"
proof -
  have a: "fh_track (f_header (frame_new TRACK_AUDIO CODEC_AAC 0 0 [9])) \<noteq> TRACK_FILE"
    by (simp add: frame_new_def TRACK_AUDIO_def TRACK_FILE_def)
  show ?thesis
    by (simp add: receive_file_session_def cut_short_def notes_packets_def notes_frames_def good_io_def file_rx_new_def
        rx_frame_def rx_first_def rx_data_def tiny_meta_bytes_def notes_meta_def append_file_def Let_def a fun_eq_iff)
qed

theorem reception_all_or_nothing_witness:
  "fst (receive_file_session good_io ''.tmp'' tiny_meta_parse cut_short (\<lambda>_. None)) = Some (Inl (ClosedEarly 4)) \<and>
   (snd (receive_file_session good_io ''.tmp'' tiny_meta_parse cut_short (\<lambda>_. None)) = (\<lambda>_. None) \<or>
    snd (receive_file_session good_io ''.tmp'' tiny_meta_parse cut_short (\<lambda>_. None)) = (\<lambda>_. None)(''.tmp'' := None))"
  using reception_all_or_nothing [OF cut_short_fails] by (simp add: cut_short_fails)

end
