(* ===== verification/Safe_Names.thy ===== *)
theory Safe_Names
  imports File_Xfer Rust_Text
begin

text \<open>
  File names from an untrusted peer: \<open>sanitize_file_name\<close> and \<open>resolve_unique_path\<close> of
  \<open>stross-kernel/src/channel/session.rs\<close>, for characters below 256.  Whatever the peer sends, the name is a plain
  one that does not start with a dot, and the name finally chosen is not in use.
\<close>

section \<open>Cleaning a name\<close>

definition is_control :: "char \<Rightarrow> bool" where
  "is_control c = (let n = (of_char c :: nat) in n < 32 \<or> 127 \<le> n \<and> n \<le> 159)"

definition is_whitespace :: "char \<Rightarrow> bool" where
  "is_whitespace c = (let n = (of_char c :: nat) in 9 \<le> n \<and> n \<le> 13 \<or> n = 32 \<or> n = 133 \<or> n = 160)"

definition trim_both :: "(char \<Rightarrow> bool) \<Rightarrow> string \<Rightarrow> string" where
  "trim_both P s = rev (dropWhile P (rev (dropWhile P s)))"

definition sanitize_file_name :: "nat \<Rightarrow> string \<Rightarrow> string" where
  "sanitize_file_name now raw =
     (let normalized = map (\<lambda>c. if c = CHR 0x5C then CHR ''/'' else c) raw;
          fname = (case file_name normalized of None \<Rightarrow> [] | Some s \<Rightarrow> s);
          sanitized = map (\<lambda>c. if c = CHR ''/'' \<or> c = CHR 0x5C \<or> is_control c then CHR ''_'' else c) fname;
          trimmed = trim_both ((=) CHR ''.'') (trim_both is_whitespace sanitized)
      in if trimmed = [] \<or> trimmed = ''..'' \<or> trimmed = ''.'' then ''file_'' @ show_nat now else trimmed)"

lemma trim_both_set: "set (trim_both P s) \<subseteq> set s"
  unfolding trim_both_def by (metis set_dropWhileD set_rev subsetI)

lemma trim_both_hd: "trim_both P s \<noteq> [] \<Longrightarrow> \<not> P (hd (trim_both P s))"
proof -
  assume ne: "trim_both P s \<noteq> []"
  let ?u = "dropWhile P s"
  have "rev ?u = takeWhile P (rev ?u) @ dropWhile P (rev ?u)" by simp
  then have u: "?u = trim_both P s @ rev (takeWhile P (rev ?u))" unfolding trim_both_def by (metis rev_append rev_rev_ident)
  then have "?u \<noteq> []" "hd ?u = hd (trim_both P s)" using ne by (metis append_is_Nil_conv, metis hd_append2)
  then show ?thesis using hd_dropWhile [of P s] by simp
qed

text \<open>A name safe to use in the download directory: plain, visible, without control characters.\<close>

definition safe_name :: "string \<Rightarrow> bool" where
  "safe_name n \<longleftrightarrow> plain_name n \<and> hd n \<noteq> CHR ''.'' \<and> CHR 0x5C \<notin> set n \<and> (\<forall>c \<in> set n. \<not> is_control c)"

lemma digit_safe: "is_digit c \<Longrightarrow> \<not> is_control c \<and> c \<noteq> CHR ''/'' \<and> c \<noteq> CHR 0x5C \<and> c \<noteq> CHR ''.''"
  by (auto simp: is_digit_def is_control_def Let_def)

lemma safe_fallback: "safe_name (''file_'' @ show_nat n)"
  using digit_safe show_nat_digits [of _ n]
  by (auto simp: safe_name_def plain_name_def) (auto simp: is_control_def)

lemma sanitize_safe: "safe_name (sanitize_file_name now raw)"
proof -
  define sanitized where "sanitized = map (\<lambda>c. if c = CHR ''/'' \<or> c = CHR 0x5C \<or> is_control c then CHR ''_'' else c)
    (case file_name (map (\<lambda>c. if c = CHR 0x5C then CHR ''/'' else c) raw) of None \<Rightarrow> [] | Some s \<Rightarrow> s)"
  define t where "t = trim_both ((=) CHR ''.'') (trim_both is_whitespace sanitized)"
  have s: "c \<noteq> CHR ''/'' \<and> c \<noteq> CHR 0x5C \<and> \<not> is_control c" if "c \<in> set sanitized" for c
    using that by (auto simp: sanitized_def is_control_def Let_def split: if_splits)
  have t: "set t \<subseteq> set sanitized" unfolding t_def using trim_both_set by blast
  have r: "sanitize_file_name now raw = (if t = [] \<or> t = ''..'' \<or> t = ''.'' then ''file_'' @ show_nat now else t)"
    by (simp add: sanitize_file_name_def Let_def t_def sanitized_def)
  show ?thesis
  proof (cases "t = [] \<or> t = ''..'' \<or> t = ''.''")
    case True
    show ?thesis unfolding r if_P [OF True] by (rule safe_fallback)
  next
    case False
    then have "hd t \<noteq> CHR ''.''" using trim_both_hd [of "(=) CHR ''.''" "trim_both is_whitespace sanitized"]
      by (auto simp: t_def)
    moreover have "\<forall>c \<in> set t. c \<noteq> CHR ''/'' \<and> c \<noteq> CHR 0x5C \<and> \<not> is_control c" using s t by blast
    ultimately show ?thesis using False unfolding r by (auto simp: safe_name_def plain_name_def)
  qed
qed

text \<open>Blanks are trimmed before dots, so a name of a dot, a blank and a dot becomes a blank.\<close>

lemma sanitize_blank: "sanitize_file_name now ''. .'' = '' ''"
  by (simp add: sanitize_file_name_def file_name_def path_components_def trim_both_def is_control_def is_whitespace_def)


section \<open>A name not in use\<close>

definition split_ext :: "string \<Rightarrow> string \<times> string option" where
  "split_ext n =
     (if n = ''..'' then (n, None)
      else case rsplit_once CHR ''.'' n of
        None \<Rightarrow> (n, None)
      | Some (b, e) \<Rightarrow> if b = [] then (n, None) else (b, Some e))"

definition numbered_name :: "string \<Rightarrow> string option \<Rightarrow> nat \<Rightarrow> string" where
  "numbered_name stem ext i =
     stem @ '' ('' @ show_nat i @ '')'' @ (case ext of None \<Rightarrow> [] | Some e \<Rightarrow> ''.'' @ e)"

partial_function (option) first_unused :: "(string \<Rightarrow> bool) \<Rightarrow> string \<Rightarrow> string option \<Rightarrow> nat \<Rightarrow> string option" where
  "first_unused exists stem ext i =
     (if exists (numbered_name stem ext i) then first_unused exists stem ext (i + 1)
      else Some (numbered_name stem ext i))"

definition resolve_unique_path :: "(string \<Rightarrow> bool) \<Rightarrow> nat \<Rightarrow> string \<Rightarrow> string option" where
  "resolve_unique_path exists now name =
     (let safe = sanitize_file_name now name in
      if safe \<noteq> [] \<and> hd safe = CHR ''/'' then Some (''file_'' @ show_nat now)
      else if \<not> exists safe then Some safe
      else let (stem, ext) = split_ext safe in first_unused exists stem ext 1)"

lemma numbered_name_inj: "numbered_name stem ext i = numbered_name stem ext j \<longleftrightarrow> i = j"
  by (auto simp: numbered_name_def show_nat_inj)

text \<open>The search ends when finitely many names are in use.\<close>

lemma first_unused_ends:
  assumes fin: "finite {i. exists (numbered_name stem ext i)}"
  shows "\<exists>j. first_unused exists stem ext i = Some (numbered_name stem ext j) \<and> \<not> exists (numbered_name stem ext j)"
proof (induction "card {j. i \<le> j \<and> exists (numbered_name stem ext j)}" arbitrary: i rule: less_induct)
  case less
  show ?case
  proof (cases "exists (numbered_name stem ext i)")
    case False
    then show ?thesis by (subst first_unused.simps) auto
  next
    case True
    have "{j. i + 1 \<le> j \<and> exists (numbered_name stem ext j)} \<subset> {j. i \<le> j \<and> exists (numbered_name stem ext j)}"
    proof (rule psubsetI)
      have "i \<in> {j. i \<le> j \<and> exists (numbered_name stem ext j)}" "i \<notin> {j. i + 1 \<le> j \<and> exists (numbered_name stem ext j)}"
        using True by simp_all
      then show "{j. i + 1 \<le> j \<and> exists (numbered_name stem ext j)} \<noteq> {j. i \<le> j \<and> exists (numbered_name stem ext j)}" by blast
    qed auto
    moreover have "finite {j. i \<le> j \<and> exists (numbered_name stem ext j)}" using fin by (rule rev_finite_subset) auto
    ultimately have "card {j. i + 1 \<le> j \<and> exists (numbered_name stem ext j)} < card {j. i \<le> j \<and> exists (numbered_name stem ext j)}"
      by (simp add: psubset_card_mono)
    then show ?thesis using less [of "i + 1"] True by (subst first_unused.simps) simp
  qed
qed

lemma finite_numbered:
  assumes "finite {n. exists n}"
  shows "finite {i. exists (numbered_name stem ext i)}"
proof (rule finite_imageD)
  show "finite (numbered_name stem ext ` {i. exists (numbered_name stem ext i)})"
    using assms by (rule rev_finite_subset) auto
  show "inj_on (numbered_name stem ext) {i. exists (numbered_name stem ext i)}"
    by (rule inj_onI) (simp add: numbered_name_inj)
qed

lemma rsplit_once_parts: "rsplit_once c s = Some (a, b) \<Longrightarrow> s = a @ [c] @ b"
proof -
  have so: "t = x @ [c] @ y" if sp: "split_once c t = Some (x, y)" for t x y
  proof -
    obtain d where d: "dropWhile (\<lambda>z. z \<noteq> c) t = d # y" "x = takeWhile (\<lambda>z. z \<noteq> c) t"
      using sp by (cases "dropWhile (\<lambda>z. z \<noteq> c) t") (auto simp: split_once_def)
    then have "d = c" using hd_dropWhile [of "\<lambda>z. z \<noteq> c" t] by simp
    then show ?thesis using d takeWhile_dropWhile_id [of "\<lambda>z. z \<noteq> c" t] by simp
  qed
  assume "rsplit_once c s = Some (a, b)"
  then have "rev s = rev b @ [c] @ rev a" using so by (auto simp: rsplit_once_def)
  then show ?thesis by (metis append_assoc rev.simps(1,2) rev_append rev_rev_ident append_Nil)
qed

lemma split_ext_safe:
  assumes "safe_name n" and "split_ext n = (stem, ext)"
  shows "stem \<noteq> [] \<and> hd stem \<noteq> CHR ''.'' \<and> set stem \<subseteq> set n \<and> (\<forall>e. ext = Some e \<longrightarrow> set e \<subseteq> set n)"
  using assms rsplit_once_parts [of "CHR ''.''" n]
  by (auto simp: split_ext_def safe_name_def plain_name_def split: if_splits option.splits)

lemma numbered_safe:
  assumes "safe_name n" and "split_ext n = (stem, ext)"
  shows "safe_name (numbered_name stem ext i)"
proof -
  note p = split_ext_safe [OF assms]
  define ok where "ok = (\<lambda>c. c \<noteq> CHR ''/'' \<and> c \<noteq> CHR 0x5C \<and> \<not> is_control c)"
  have c: "\<forall>c \<in> set n. ok c" using assms(1) by (auto simp: safe_name_def plain_name_def ok_def)
  have "\<forall>c \<in> set stem. ok c" "\<forall>e. ext = Some e \<longrightarrow> (\<forall>c \<in> set e. ok c)" using p c by auto
  moreover have "\<forall>c \<in> set (show_nat i). ok c" using digit_safe show_nat_digits [of _ i] by (auto simp: ok_def)
  moreover have "\<forall>c \<in> set '' ()''. ok c" "ok CHR ''.''" by (simp_all add: ok_def is_control_def)
  ultimately have "\<forall>c \<in> set (numbered_name stem ext i). ok c"
    by (cases ext) (simp_all add: numbered_name_def ball_Un)
  then have "\<forall>c \<in> set (numbered_name stem ext i). c \<noteq> CHR ''/'' \<and> c \<noteq> CHR 0x5C \<and> \<not> is_control c"
    by (simp add: ok_def)
  moreover have "numbered_name stem ext i \<noteq> []" "hd (numbered_name stem ext i) = hd stem" "3 < length (numbered_name stem ext i)"
    using p by (cases stem; simp add: numbered_name_def)+
  ultimately show ?thesis using p unfolding safe_name_def plain_name_def by fastforce
qed

lemma unique_path_safe:
  assumes "finite {n. exists n}"
  shows "\<exists>p. resolve_unique_path exists now name = Some p \<and> safe_name p \<and> \<not> exists p"
proof -
  let ?s = "sanitize_file_name now name"
  have safe: "safe_name ?s" by (rule sanitize_safe)
  then have h: "\<not> (?s \<noteq> [] \<and> hd ?s = CHR ''/'')" by (cases ?s) (auto simp: safe_name_def plain_name_def)
  show ?thesis
  proof (cases "exists ?s")
    case False
    then show ?thesis using safe h by (auto simp: resolve_unique_path_def Let_def)
  next
    case True
    obtain stem ext where se: "split_ext ?s = (stem, ext)" by (cases "split_ext ?s")
    obtain j where "first_unused exists stem ext 1 = Some (numbered_name stem ext j)" "\<not> exists (numbered_name stem ext j)"
      using first_unused_ends [OF finite_numbered [OF assms]] by blast
    then show ?thesis using h True se numbered_safe [OF safe se] by (auto simp: resolve_unique_path_def Let_def)
  qed
qed

end
