(* ===== verification/Channel.thy ===== *)
theory Channel
  imports Safe_Names
begin

text \<open>
  The node channel (\<open>stross-kernel/src/channel/session.rs\<close>): text and files in both directions
  over one reliable session.  A session is a record; its methods, the handlers of its receive loop and
  the iterations of its push tasks are steps on it.  The results of the operating system and of the transport
  are arguments of each step.  Atomics and locks are plain state: a step runs between two awaits of the source.
\<close>

section \<open>Messages, events, state\<close>

definition FILE_CHUNK_SIZE :: nat where
  "FILE_CHUNK_SIZE = 65536"

datatype channel_msg =
    ChText u64 string nat
  | ChOffer u32 string nat "string option" "string option"
  | ChDecision u32 bool "string option"
  | ChProgress u32 nat nat
  | ChCancel u32 "string option"
  | ChAck u32 "string option"
  | ChPing
  | ChPong

datatype fail_reason =
    PeerRefused | CannotOpen | CannotRead | CannotSend | NoAck | CancelledHere | PeerCancelled string | CannotRename

datatype channel_event =
    EvConnected string string
  | EvDisconnected string
  | EvMessage u64 string nat bool string
  | EvOffer u32 string nat string
  | EvProgress u32 nat nat bool
  | EvCompleted u32 string "string option" bool
  | EvFailed u32 fail_reason

record inbound_transfer =
  ib_name :: string
  ib_size :: nat
  ib_transferred :: nat
  ib_tmp :: string

text \<open>The senders of the two one-shot channels, present or used up; the flag of cancellation is that of the task.\<close>

record outbound_transfer =
  ob_decision :: bool
  ob_ack :: bool

datatype push_phase = AwaitDecision | Pushing nat | AwaitAck

text \<open>A push task: the file it reads from, where it stands, and what has reached it.\<close>

record push_task =
  tk_name :: string
  tk_size :: nat
  tk_open :: bool
  tk_reads :: "file_read list"
  tk_phase :: push_phase
  tk_answer :: "bool option"
  tk_acked :: bool
  tk_cancelled :: bool

record channel =
  ch_peer :: string
  ch_peer_name :: string
  ch_auto :: bool
  ch_next_msg :: u64
  ch_next_transfer :: u32
  ch_in :: "(u32 \<times> inbound_transfer) list"
  ch_out :: "(u32 \<times> outbound_transfer) list"
  ch_tasks :: "(u32 \<times> push_task) list"
  ch_closed :: bool
  ch_files :: files
  ch_sent :: "channel_msg session_packet list"
  ch_events :: "channel_event list"

record chan_env =
  ce_now :: nat
  ce_send :: bool
  ce_create :: bool
  ce_write :: bool
  ce_rename :: bool

definition channel_new :: "string \<Rightarrow> string \<Rightarrow> bool \<Rightarrow> files \<Rightarrow> channel" where
  "channel_new peer name auto_accept fs =
     \<lparr> ch_peer = peer, ch_peer_name = name, ch_auto = auto_accept, ch_next_msg = 1, ch_next_transfer = 1,
       ch_in = [], ch_out = [], ch_tasks = [], ch_closed = False, ch_files = fs, ch_sent = [],
       ch_events = [EvConnected peer name] \<rparr>"

definition ch_alive :: "channel \<Rightarrow> bool" where
  "ch_alive ch \<longleftrightarrow> \<not> ch_closed ch"

definition ch_emit :: "channel_event \<Rightarrow> channel \<Rightarrow> channel" where
  "ch_emit ev ch = ch\<lparr>ch_events := ch_events ch @ [ev]\<rparr>"

text \<open>A packet handed to the transport; a failed send leaves nothing behind.\<close>

definition ch_send :: "chan_env \<Rightarrow> channel_msg session_packet \<Rightarrow> channel \<Rightarrow> channel" where
  "ch_send env p ch = (if ce_send env then ch\<lparr>ch_sent := ch_sent ch @ [p]\<rparr> else ch)"

definition remove_tmp :: "string \<Rightarrow> channel \<Rightarrow> channel" where
  "remove_tmp tmp ch = ch\<lparr>ch_files := (ch_files ch)(tmp := None)\<rparr>"

definition on_task :: "u32 \<Rightarrow> (push_task \<Rightarrow> push_task) \<Rightarrow> channel \<Rightarrow> channel" where
  "on_task tid f ch =
     (case map_of (ch_tasks ch) tid of None \<Rightarrow> ch
      | Some tk \<Rightarrow> ch\<lparr>ch_tasks := AList.update tid (f tk) (ch_tasks ch)\<rparr>)"


section \<open>Sending\<close>

datatype chan_error = ChanClosed | ChanNotAFile | ChanSendFailed

definition send_text :: "chan_env \<Rightarrow> string \<Rightarrow> channel \<Rightarrow> (chan_error + u64) \<times> channel" where
  "send_text env txt ch =
     (if ch_closed ch then (Inl ChanClosed, ch)
      else
        let msg_id = ch_next_msg ch;
            ch = ch\<lparr>ch_next_msg := msg_id + 1\<rparr>
        in if \<not> ce_send env then (Inl ChanSendFailed, ch)
           else (Inr msg_id, ch_emit (EvMessage msg_id txt (ce_now env) True (ch_peer ch))
                   (ch_send env (ControlPkt (ChText msg_id txt (ce_now env))) ch)))"

text \<open>The file as the task will find it: kind and size, whether it opens, its reads.\<close>

record local_file =
  lf_meta :: "(bool \<times> nat) option"
  lf_path :: string
  lf_open :: bool
  lf_reads :: "file_read list"

definition send_file :: "chan_env \<Rightarrow> local_file \<Rightarrow> channel \<Rightarrow> (chan_error + u32) \<times> channel" where
  "send_file env lf ch =
     (if ch_closed ch then (Inl ChanClosed, ch)
      else case lf_meta lf of
        None \<Rightarrow> (Inl ChanNotAFile, ch)
      | Some (is_file, fsize) \<Rightarrow>
          if \<not> is_file then (Inl ChanNotAFile, ch)
          else
            let name = pushed_name (lf_path lf);
                tid = ch_next_transfer ch;
                ch1 = ch\<lparr>ch_next_transfer := tid + 1,
                         ch_out := AList.update tid \<lparr> ob_decision = True, ob_ack = True \<rparr> (ch_out ch)\<rparr>
            in if \<not> ce_send env then (Inl ChanSendFailed, ch1)
               else
                 let ch2 = ch_emit (EvOffer tid name fsize (ch_peer ch1))
                             (ch_send env (ControlPkt (ChOffer tid name fsize None None)) ch1);
                     tk = \<lparr> tk_name = name, tk_size = fsize, tk_open = lf_open lf, tk_reads = lf_reads lf,
                            tk_phase = AwaitDecision, tk_answer = None, tk_acked = False, tk_cancelled = False \<rparr>
                 in (Inr tid, ch2\<lparr>ch_tasks := AList.update tid tk (ch_tasks ch2)\<rparr>))"

definition end_task :: "u32 \<Rightarrow> channel \<Rightarrow> channel" where
  "end_task tid ch = ch\<lparr>ch_tasks := AList.delete tid (ch_tasks ch)\<rparr>"

text \<open>What a one-shot receiver sees: the value sent, an error once the sender is gone, nothing before.\<close>

definition decision_of :: "u32 \<Rightarrow> push_task \<Rightarrow> channel \<Rightarrow> bool option" where
  "decision_of tid tk ch =
     (case tk_answer tk of Some b \<Rightarrow> Some b
      | None \<Rightarrow> (case map_of (ch_out ch) tid of
                   Some ob \<Rightarrow> if ob_decision ob then None else Some False
                 | None \<Rightarrow> Some False))"

definition ack_of :: "u32 \<Rightarrow> push_task \<Rightarrow> channel \<Rightarrow> bool option" where
  "ack_of tid tk ch =
     (if tk_acked tk then Some True
      else case map_of (ch_out ch) tid of
        Some ob \<Rightarrow> if ob_ack ob then None else Some False
      | None \<Rightarrow> Some False)"

definition chunk_frame :: "u32 \<Rightarrow> nat \<Rightarrow> u8 \<Rightarrow> bytes \<Rightarrow> frame" where
  "chunk_frame tid offset flags bs =
     frame_new TRACK_CHANNEL CODEC_CHANNEL flags tid
       (chunk_encode \<lparr> ck_transfer_id = tid, ck_offset = word_of_nat offset,
                       ck_chunk_len = u32_of_nat (length bs), ck_flags = flags \<rparr> @ bs)"

text \<open>One read and one chunk of the push loop.\<close>

definition push_chunk :: "chan_env \<Rightarrow> u32 \<Rightarrow> push_task \<Rightarrow> nat \<Rightarrow> channel \<Rightarrow> channel" where
  "push_chunk env tid tk offset ch =
     (case (case tk_reads tk of [] \<Rightarrow> ReadBytes [] | r # _ \<Rightarrow> r) of
        ReadError \<Rightarrow> end_task tid (ch_emit (EvFailed tid CannotRead) ch)
      | ReadBytes bs \<Rightarrow>
          let n = length bs;
              is_eof = (n = 0 \<or> tk_size tk \<le> offset + n \<or> tk_size tk = 0);
              flags = (if is_eof then CHUNK_FLAG_EOF else 0)
          in if \<not> ce_send env then end_task tid (ch_emit (EvFailed tid CannotSend) ch)
             else
               ch_emit (EvProgress tid (offset + n) (tk_size tk) True)
                 (on_task tid (\<lambda>tk. tk\<lparr>tk_reads := tl (tk_reads tk), tk_phase := (if is_eof then AwaitAck else Pushing (offset + n))\<rparr>)
                   (ch_send env (MediaPkt (chunk_frame tid offset flags bs)) ch)))"

definition task_step :: "chan_env \<Rightarrow> u32 \<Rightarrow> channel \<Rightarrow> channel" where
  "task_step env tid ch =
     (case map_of (ch_tasks ch) tid of
        None \<Rightarrow> ch
      | Some tk \<Rightarrow>
          (case tk_phase tk of
             AwaitDecision \<Rightarrow>
               (case decision_of tid tk ch of
                  None \<Rightarrow> ch
                | Some False \<Rightarrow> end_task tid (ch_emit (EvFailed tid PeerRefused) ch)
                | Some True \<Rightarrow>
                    if \<not> tk_open tk then end_task tid (ch_emit (EvFailed tid CannotOpen) ch)
                    else on_task tid (\<lambda>tk. tk\<lparr>tk_phase := Pushing 0\<rparr>) ch)
           | Pushing offset \<Rightarrow> if tk_cancelled tk then end_task tid ch else push_chunk env tid tk offset ch
           | AwaitAck \<Rightarrow>
               (case ack_of tid tk ch of
                  None \<Rightarrow> ch
                | Some True \<Rightarrow> end_task tid (ch_emit (EvCompleted tid (tk_name tk) None True) ch)
                | Some False \<Rightarrow> end_task tid (ch_emit (EvFailed tid NoAck) ch))))"


section \<open>Cancelling and closing\<close>

definition drop_out :: "u32 \<Rightarrow> channel \<Rightarrow> channel" where
  "drop_out tid ch =
     (case map_of (ch_out ch) tid of None \<Rightarrow> ch
      | Some _ \<Rightarrow> on_task tid (\<lambda>tk. tk\<lparr>tk_cancelled := True\<rparr>) (ch\<lparr>ch_out := AList.delete tid (ch_out ch)\<rparr>))"

definition drop_in :: "u32 \<Rightarrow> channel \<Rightarrow> channel" where
  "drop_in tid ch =
     (case map_of (ch_in ch) tid of None \<Rightarrow> ch
      | Some t \<Rightarrow> remove_tmp (ib_tmp t) (ch\<lparr>ch_in := AList.delete tid (ch_in ch)\<rparr>))"

definition cancel_transfer :: "chan_env \<Rightarrow> u32 \<Rightarrow> channel \<Rightarrow> channel" where
  "cancel_transfer env tid ch =
     (if \<not> has_key (ch_out ch) tid \<and> \<not> has_key (ch_in ch) tid then ch
      else ch_emit (EvFailed tid CancelledHere)
             (ch_send env (ControlPkt (ChCancel tid (Some ''cancelled by the user''))) (drop_in tid (drop_out tid ch))))"

definition close_channel :: "channel \<Rightarrow> channel" where
  "close_channel ch =
     (if ch_closed ch then ch
      else
        let ch1 = ch\<lparr>ch_closed := True\<rparr>;
            ch2 = (fold (\<lambda>(_, t). remove_tmp (ib_tmp t)) (ch_in ch1) ch1)\<lparr>ch_in := []\<rparr>;
            ch3 = (fold (\<lambda>(tid, _). on_task tid (\<lambda>tk. tk\<lparr>tk_cancelled := True\<rparr>)) (ch_out ch2) ch2)\<lparr>ch_out := []\<rparr>
        in ch_emit (EvDisconnected (ch_peer ch3)) ch3)"


section \<open>Receiving\<close>

definition tmp_name :: "u32 \<Rightarrow> nat \<Rightarrow> string" where
  "tmp_name tid now = ''.tmp-recv-'' @ show_word tid @ ''-'' @ show_nat now"

definition accept_inbound :: "chan_env \<Rightarrow> u32 \<Rightarrow> string \<Rightarrow> nat \<Rightarrow> channel \<Rightarrow> channel" where
  "accept_inbound env tid name fsize ch =
     (if \<not> ce_create env then ch
      else
        let tmp = tmp_name tid (ce_now env);
            t = \<lparr> ib_name = sanitize_file_name (ce_now env) name, ib_size = fsize, ib_transferred = 0, ib_tmp = tmp \<rparr>
        in ch_send env (ControlPkt (ChDecision tid True None))
             (ch\<lparr>ch_files := (ch_files ch)(tmp := Some []), ch_in := AList.update tid t (ch_in ch)\<rparr>))"

fun handle_control_msg :: "chan_env \<Rightarrow> channel_msg \<Rightarrow> channel \<Rightarrow> channel" where
  "handle_control_msg env (ChText msg_id txt timestamp) ch = ch_emit (EvMessage msg_id txt timestamp False (ch_peer ch)) ch"
| "handle_control_msg env (ChOffer tid name fsize mime sha) ch =
     (let ch = ch_emit (EvOffer tid name fsize (ch_peer ch)) ch
      in if ch_auto ch then accept_inbound env tid name fsize ch else ch)"
| "handle_control_msg env (ChDecision tid accept reason) ch =
     (case map_of (ch_out ch) tid of
        None \<Rightarrow> ch
      | Some t \<Rightarrow>
          let ch1 = (if ob_decision t then on_task tid (\<lambda>tk. tk\<lparr>tk_answer := Some accept\<rparr>) ch else ch)
          in if accept then ch1\<lparr>ch_out := AList.update tid (t\<lparr>ob_decision := False\<rparr>) (ch_out ch1)\<rparr>
             else ch1\<lparr>ch_out := AList.delete tid (ch_out ch1)\<rparr>)"
| "handle_control_msg env (ChProgress tid transferred total_size) ch = ch_emit (EvProgress tid transferred total_size False) ch"
| "handle_control_msg env (ChCancel tid reason) ch =
     ch_emit (EvFailed tid (PeerCancelled (case reason of None \<Rightarrow> ''cancelled by the peer'' | Some r \<Rightarrow> r)))
       (drop_out tid (drop_in tid ch))"
| "handle_control_msg env (ChAck tid save_path) ch =
     (case map_of (ch_out ch) tid of
        None \<Rightarrow> ch
      | Some t \<Rightarrow>
          let ch1 = ch\<lparr>ch_out := AList.delete tid (ch_out ch)\<rparr>
          in if ob_ack t then on_task tid (\<lambda>tk. tk\<lparr>tk_acked := True\<rparr>) ch1 else ch1)"
| "handle_control_msg env ChPing ch = ch_send env (ControlPkt ChPong) ch"
| "handle_control_msg env ChPong ch = ch"

text \<open>The end of an inbound transfer: the temporary file gets a name of its own.  \<open>None\<close>: the search for it does not end.\<close>

definition finish_inbound :: "chan_env \<Rightarrow> u32 \<Rightarrow> inbound_transfer \<Rightarrow> channel \<Rightarrow> channel option" where
  "finish_inbound env tid t ch =
     (case resolve_unique_path (\<lambda>n. ch_files ch n \<noteq> None) (ce_now env) (ib_name t) of
        None \<Rightarrow> None
      | Some final_name \<Rightarrow>
          Some (if \<not> ce_rename env then ch_emit (EvFailed tid CannotRename) (remove_tmp (ib_tmp t) ch)
                else
                  ch_emit (EvCompleted tid (ib_name t) (Some final_name) False)
                    (ch_send env (ControlPkt (ChAck tid (Some final_name)))
                      (ch\<lparr>ch_files := rename_file (ib_tmp t) final_name (ch_files ch)\<rparr>))))"

definition OVERRUN_TOLERANCE :: nat where
  "OVERRUN_TOLERANCE = 1048576"

definition handle_media_frame :: "chan_env \<Rightarrow> frame \<Rightarrow> channel \<Rightarrow> channel option" where
  "handle_media_frame env fr ch =
     (case chunk_decode (f_payload fr) of
        None \<Rightarrow> Some ch
      | Some header \<Rightarrow>
          let chunk_len = unat (ck_chunk_len header); tid = ck_transfer_id header in
          if length (f_payload fr) < CHANNEL_CHUNK_HEADER_LEN + chunk_len then Some ch
          else
            let chunk_data = bslice CHANNEL_CHUNK_HEADER_LEN (CHANNEL_CHUNK_HEADER_LEN + chunk_len) (f_payload fr) in
            (case map_of (ch_in ch) tid of
               None \<Rightarrow> Some ch
             | Some t \<Rightarrow>
                 if sat_add64 (ib_size t) OVERRUN_TOLERANCE < ib_transferred t + length chunk_data
                 then Some (cancel_transfer env tid (drop_in tid ch))
                 else if chunk_data \<noteq> [] \<and> \<not> ce_write env then Some ch
                 else
                   let t1 = t\<lparr>ib_transferred := ib_transferred t + length chunk_data\<rparr>;
                       ch1 = (if chunk_data = [] then ch
                              else ch\<lparr>ch_files := append_file (ib_tmp t) chunk_data (ch_files ch),
                                      ch_in := AList.update tid t1 (ch_in ch)\<rparr>);
                       ch2 = ch_emit (EvProgress tid (ib_transferred t1) (ib_size t1) False) ch1
                   in if chunk_is_eof header
                      then finish_inbound env tid t1 (ch2\<lparr>ch_in := AList.delete tid (ch_in ch2)\<rparr>)
                      else Some ch2))"

text \<open>What the receive loop gets from the transport.\<close>

datatype chan_recv = ChanPacket "channel_msg session_packet" | ChanOtherPacket | ChanEnd

fun recv_step :: "chan_env \<Rightarrow> chan_recv \<Rightarrow> channel \<Rightarrow> channel option" where
  "recv_step env (ChanPacket (ControlPkt msg)) ch = Some (handle_control_msg env msg ch)"
| "recv_step env (ChanPacket (MediaPkt fr)) ch =
     (if fh_track (f_header fr) = TRACK_CHANNEL then handle_media_frame env fr ch else Some ch)"
| "recv_step env ChanOtherPacket ch = Some ch"
| "recv_step env ChanEnd ch = Some (close_channel ch)"

end
