(* ===== verification/Channel_Safety.thy ===== *)
theory Channel_Safety
  imports Channel
begin

text \<open>
  What a channel can do to the download directory.  The transitions of a session collect its methods, the iterations
  of its push tasks and the handlers of its receive loop, for every answer of the system and everything a peer may
  send; the files are followed along any sequence of them.
\<close>

section \<open>Transitions\<close>

inductive chan_step :: "channel \<Rightarrow> channel \<Rightarrow> bool" where
  step_text: "chan_step ch (snd (send_text env txt ch))"
| step_file: "chan_step ch (snd (send_file env lf ch))"
| step_push: "chan_step ch (task_step env tid ch)"
| step_cancel: "chan_step ch (cancel_transfer env tid ch)"
| step_close: "chan_step ch (close_channel ch)"
| step_recv: "recv_step env r ch = Some ch' \<Longrightarrow> chan_step ch ch'"

text \<open>The parts of the state an operation leaves alone.\<close>

lemma ch_emit_simps [simp]:
  "ch_files (ch_emit ev ch) = ch_files ch" "ch_in (ch_emit ev ch) = ch_in ch" "ch_out (ch_emit ev ch) = ch_out ch"
  "ch_tasks (ch_emit ev ch) = ch_tasks ch" "ch_closed (ch_emit ev ch) = ch_closed ch" "ch_sent (ch_emit ev ch) = ch_sent ch"
  "ch_auto (ch_emit ev ch) = ch_auto ch" "ch_events (ch_emit ev ch) = ch_events ch @ [ev]"
  "ch_next_transfer (ch_emit ev ch) = ch_next_transfer ch" "ch_peer (ch_emit ev ch) = ch_peer ch"
  by (simp_all add: ch_emit_def)

lemma ch_send_simps [simp]:
  "ch_files (ch_send env p ch) = ch_files ch" "ch_in (ch_send env p ch) = ch_in ch" "ch_out (ch_send env p ch) = ch_out ch"
  "ch_tasks (ch_send env p ch) = ch_tasks ch" "ch_closed (ch_send env p ch) = ch_closed ch"
  "ch_events (ch_send env p ch) = ch_events ch" "ch_auto (ch_send env p ch) = ch_auto ch"
  "ch_sent (ch_send env p ch) = (if ce_send env then ch_sent ch @ [p] else ch_sent ch)"
  "ch_next_transfer (ch_send env p ch) = ch_next_transfer ch" "ch_peer (ch_send env p ch) = ch_peer ch"
  by (simp_all add: ch_send_def)

lemma on_task_simps [simp]:
  "ch_files (on_task tid f ch) = ch_files ch" "ch_in (on_task tid f ch) = ch_in ch" "ch_out (on_task tid f ch) = ch_out ch"
  "ch_closed (on_task tid f ch) = ch_closed ch" "ch_events (on_task tid f ch) = ch_events ch"
  "ch_sent (on_task tid f ch) = ch_sent ch" "ch_auto (on_task tid f ch) = ch_auto ch"
  "ch_next_transfer (on_task tid f ch) = ch_next_transfer ch" "ch_peer (on_task tid f ch) = ch_peer ch"
  by (simp_all add: on_task_def split: option.splits)

lemma end_task_simps [simp]:
  "ch_files (end_task tid ch) = ch_files ch" "ch_in (end_task tid ch) = ch_in ch" "ch_out (end_task tid ch) = ch_out ch"
  "ch_closed (end_task tid ch) = ch_closed ch" "ch_events (end_task tid ch) = ch_events ch"
  "ch_sent (end_task tid ch) = ch_sent ch" "ch_auto (end_task tid ch) = ch_auto ch"
  "ch_tasks (end_task tid ch) = AList.delete tid (ch_tasks ch)"
  by (simp_all add: end_task_def)

lemma drop_out_simps [simp]:
  "ch_files (drop_out tid ch) = ch_files ch" "ch_in (drop_out tid ch) = ch_in ch" "ch_closed (drop_out tid ch) = ch_closed ch"
  "ch_sent (drop_out tid ch) = ch_sent ch" "ch_events (drop_out tid ch) = ch_events ch"
  by (simp_all add: drop_out_def split: option.splits)

lemma push_files [simp]: "ch_files (task_step env tid ch) = ch_files ch" "ch_in (task_step env tid ch) = ch_in ch"
  by (auto simp: task_step_def push_chunk_def Let_def split: option.splits push_phase.splits list.splits file_read.splits bool.splits)

lemma send_text_files [simp]: "ch_files (snd (send_text env txt ch)) = ch_files ch" "ch_in (snd (send_text env txt ch)) = ch_in ch"
  by (simp_all add: send_text_def Let_def)

lemma send_file_files [simp]: "ch_files (snd (send_file env lf ch)) = ch_files ch" "ch_in (snd (send_file env lf ch)) = ch_in ch"
  by (auto simp: send_file_def Let_def split: option.splits prod.splits)


text \<open>A chunk of an accepted transfer that stays within the tolerance.\<close>

definition store_chunk :: "u32 \<Rightarrow> inbound_transfer \<Rightarrow> bytes \<Rightarrow> channel \<Rightarrow> channel" where
  "store_chunk tid t bs ch =
     ch_emit (EvProgress tid (ib_transferred t + length bs) (ib_size t) False)
       (if bs = [] then ch
        else ch\<lparr>ch_files := append_file (ib_tmp t) bs (ch_files ch),
                ch_in := AList.update tid (t\<lparr>ib_transferred := ib_transferred t + length bs\<rparr>) (ch_in ch)\<rparr>)"

lemma chunk_frame_payload:
  "f_payload (chunk_frame tid off fl bs) =
   chunk_encode \<lparr> ck_transfer_id = tid, ck_offset = word_of_nat off, ck_chunk_len = u32_of_nat (length bs), ck_flags = fl \<rparr> @ bs"
  by (simp add: chunk_frame_def frame_new_def)

lemma media_chunk:
  assumes t: "map_of (ch_in ch) tid = Some t" and l: "length bs < 2 ^ 32" and w: "ce_write env"
    and sz: "ib_transferred t + length bs \<le> sat_add64 (ib_size t) OVERRUN_TOLERANCE"
  shows "handle_media_frame env (chunk_frame tid off fl bs) ch =
    (if fl AND CHUNK_FLAG_EOF \<noteq> 0
     then finish_inbound env tid (t\<lparr>ib_transferred := ib_transferred t + length bs\<rparr>)
            ((store_chunk tid t bs ch)\<lparr>ch_in := AList.delete tid (ch_in (store_chunk tid t bs ch))\<rparr>)
     else Some (store_chunk tid t bs ch))"
proof -
  let ?h = "\<lparr> ck_transfer_id = tid, ck_offset = word_of_nat off, ck_chunk_len = u32_of_nat (length bs), ck_flags = fl \<rparr>"
  have u: "unat (u32_of_nat (length bs)) = length bs" using l by (rule unat_len)
  have n: "\<not> (sat_add64 (ib_size t) OVERRUN_TOLERANCE < ib_transferred t + length bs)" using sz by simp
  have d: "bslice CHANNEL_CHUNK_HEADER_LEN (CHANNEL_CHUNK_HEADER_LEN + length bs) (chunk_encode ?h @ bs) = bs"
    by (simp add: bslice_def)
  show ?thesis
    unfolding handle_media_frame_def chunk_frame_payload chunk_decode_encode Let_def option.case chunk_header.simps u d t
    by (simp add: n w store_chunk_def chunk_is_eof_def)
qed

lemma finish_renames:
  assumes "resolve_unique_path (\<lambda>n. ch_files ch n \<noteq> None) (ce_now env) (ib_name t) = Some p" and "ce_rename env"
  shows "finish_inbound env tid t ch =
    Some (ch_emit (EvCompleted tid (ib_name t) (Some p) False)
      (ch_send env (ControlPkt (ChAck tid (Some p))) (ch\<lparr>ch_files := rename_file (ib_tmp t) p (ch_files ch)\<rparr>)))"
  using assms by (simp add: finish_inbound_def)

section \<open>The files\<close>

definition TMP_PREFIX :: string where
  "TMP_PREFIX = ''.tmp-recv-''"

definition is_tmp :: "string \<Rightarrow> bool" where
  "is_tmp n \<longleftrightarrow> take (length TMP_PREFIX) n = TMP_PREFIX"

lemma tmp_name_is_tmp: "is_tmp (tmp_name tid now)"
  by (simp add: is_tmp_def tmp_name_def TMP_PREFIX_def)

lemma safe_not_tmp: "safe_name n \<Longrightarrow> \<not> is_tmp n"
  by (cases n) (auto simp: safe_name_def is_tmp_def TMP_PREFIX_def)

text \<open>The directory against the one at the start: what was there is there unchanged, what is new has a safe name.\<close>

definition files_kept :: "files \<Rightarrow> files \<Rightarrow> bool" where
  "files_kept fs g \<longleftrightarrow> finite (dom g) \<and> (\<forall>n. \<not> is_tmp n \<longrightarrow> fs n \<noteq> None \<longrightarrow> g n = fs n) \<and>
     (\<forall>n. g n \<noteq> None \<longrightarrow> fs n \<noteq> None \<or> safe_name n \<or> is_tmp n)"

definition tmps_ok :: "(u32 \<times> inbound_transfer) list \<Rightarrow> bool" where
  "tmps_ok ts \<longleftrightarrow> (\<forall>p \<in> set ts. is_tmp (ib_tmp (snd p)))"

definition chan_inv :: "files \<Rightarrow> channel \<Rightarrow> bool" where
  "chan_inv fs ch \<longleftrightarrow> files_kept fs (ch_files ch) \<and> tmps_ok (ch_in ch)"

lemma files_kept_tmp: "files_kept fs g \<Longrightarrow> is_tmp n \<Longrightarrow> files_kept fs (g(n := x))"
  by (auto simp: files_kept_def)

lemma files_kept_rename:
  assumes k: "files_kept fs g" and t: "is_tmp a" and s: "safe_name b" "g b = None"
  shows "files_kept fs (rename_file a b g)"
proof -
  have b: "\<not> is_tmp b" using s safe_not_tmp by blast
  then have "fs b = None" using s k by (metis files_kept_def)
  note b = b this
  have f: "finite (dom (g(a := None)))" using files_kept_tmp [OF k t] unfolding files_kept_def by blast
  then have "finite (dom ((g(a := None))(b := g a)))" by (cases "g a") (simp_all add: dom_fun_upd)
  then show ?thesis using k t b s unfolding files_kept_def rename_file_def by auto
qed

lemma chan_inv_cong: "ch_files ch' = ch_files ch \<Longrightarrow> ch_in ch' = ch_in ch \<Longrightarrow> chan_inv fs ch \<Longrightarrow> chan_inv fs ch'"
  by (simp add: chan_inv_def)

lemma inv_remove_tmp: "chan_inv fs ch \<Longrightarrow> is_tmp n \<Longrightarrow> chan_inv fs (remove_tmp n ch)"
  by (simp add: chan_inv_def remove_tmp_def files_kept_tmp)

lemma tmps_delete: "tmps_ok ts \<Longrightarrow> tmps_ok (AList.delete k ts)"
  by (auto simp: tmps_ok_def AList.delete_eq)

lemma tmps_update: "tmps_ok ts \<Longrightarrow> is_tmp (ib_tmp t) \<Longrightarrow> tmps_ok (AList.update k t ts)"
  by (induction ts) (auto simp: tmps_ok_def)

lemma tmps_Nil: "tmps_ok []"
  by (simp add: tmps_ok_def)

lemma in_tmp: "chan_inv fs ch \<Longrightarrow> map_of (ch_in ch) tid = Some t \<Longrightarrow> is_tmp (ib_tmp t)"
  by (auto simp: chan_inv_def tmps_ok_def dest!: map_of_SomeD)

lemma inv_delete_in: "chan_inv fs ch \<Longrightarrow> chan_inv fs (ch\<lparr>ch_in := AList.delete tid (ch_in ch)\<rparr>)"
  by (simp add: chan_inv_def tmps_delete)

lemma inv_drop_in: "chan_inv fs ch \<Longrightarrow> chan_inv fs (drop_in tid ch)"
  by (auto simp: drop_in_def in_tmp inv_delete_in inv_remove_tmp split: option.splits)

lemma inv_drop_out: "chan_inv fs ch \<Longrightarrow> chan_inv fs (drop_out tid ch)"
  by (rule chan_inv_cong) simp_all

lemma inv_emit: "chan_inv fs ch \<Longrightarrow> chan_inv fs (ch_emit ev ch)"
  by (rule chan_inv_cong) simp_all

lemma inv_send: "chan_inv fs ch \<Longrightarrow> chan_inv fs (ch_send env p ch)"
  by (rule chan_inv_cong) simp_all

lemma inv_cancel: "chan_inv fs ch \<Longrightarrow> chan_inv fs (cancel_transfer env tid ch)"
  by (simp add: cancel_transfer_def inv_emit inv_send inv_drop_in inv_drop_out)

lemma inv_accept: "chan_inv fs ch \<Longrightarrow> chan_inv fs (accept_inbound env tid name fsize ch)"
proof -
  assume i: "chan_inv fs ch"
  let ?tmp = "tmp_name tid (ce_now env)"
  let ?t = "\<lparr> ib_name = sanitize_file_name (ce_now env) name, ib_size = fsize, ib_transferred = 0, ib_tmp = ?tmp \<rparr>"
  have "chan_inv fs (ch\<lparr>ch_files := (ch_files ch)(?tmp := Some []), ch_in := AList.update tid ?t (ch_in ch)\<rparr>)"
    using i by (simp add: chan_inv_def files_kept_tmp tmp_name_is_tmp tmps_update)
  then show ?thesis using i by (simp add: accept_inbound_def Let_def inv_send)
qed

lemma inv_fold_remove:
  "tmps_ok ts \<Longrightarrow> chan_inv fs ch \<Longrightarrow>
   chan_inv fs (fold (\<lambda>(_, t). remove_tmp (ib_tmp t)) ts ch)"
  by (induction ts arbitrary: ch) (auto simp: inv_remove_tmp tmps_ok_def)

lemma fold_on_task: "ch_files (fold (\<lambda>(tid, _). on_task tid f) ts ch) = ch_files ch \<and> ch_in (fold (\<lambda>(tid, _). on_task tid f) ts ch) = ch_in ch"
  by (induction ts arbitrary: ch) (auto split: prod.splits)

lemma inv_close: "chan_inv fs ch \<Longrightarrow> chan_inv fs (close_channel ch)"
proof -
  assume i: "chan_inv fs ch"
  let ?c1 = "ch\<lparr>ch_closed := True\<rparr>"
  let ?c2 = "(fold (\<lambda>(_, t). remove_tmp (ib_tmp t)) (ch_in ?c1) ?c1)\<lparr>ch_in := []\<rparr>"
  have "chan_inv fs ?c1" using i by (rule chan_inv_cong [rotated 2]) simp_all
  then have "chan_inv fs (fold (\<lambda>(_, t). remove_tmp (ib_tmp t)) (ch_in ?c1) ?c1)"
    using i by (intro inv_fold_remove) (simp_all add: chan_inv_def)
  then have "chan_inv fs ?c2" by (simp add: chan_inv_def tmps_Nil)
  then show ?thesis using i fold_on_task [of "\<lambda>tk. tk\<lparr>tk_cancelled := True\<rparr>" "ch_out ?c2" ?c2]
    by (auto simp: close_channel_def Let_def chan_inv_def)
qed

lemma inv_control: "chan_inv fs ch \<Longrightarrow> chan_inv fs (handle_control_msg env m ch)"
proof (cases m)
  case (ChDecision tid accept reason)
  moreover assume "chan_inv fs ch"
  ultimately show ?thesis by (auto simp: Let_def chan_inv_def split: option.splits)
next
  case (ChAck tid save_path)
  moreover assume "chan_inv fs ch"
  ultimately show ?thesis by (auto simp: Let_def chan_inv_def split: option.splits)
qed (simp_all add: Let_def inv_emit inv_send inv_drop_in inv_drop_out inv_accept)

lemma inv_finish:
  assumes i: "chan_inv fs ch" and t: "is_tmp (ib_tmp t)"
  shows "\<exists>ch'. finish_inbound env tid t ch = Some ch' \<and> chan_inv fs ch'"
proof -
  have "finite {n. ch_files ch n \<noteq> None}" using i by (simp add: chan_inv_def files_kept_def dom_def)
  then obtain p where p: "resolve_unique_path (\<lambda>n. ch_files ch n \<noteq> None) (ce_now env) (ib_name t) = Some p"
      "safe_name p" "ch_files ch p = None"
    using unique_path_safe [of "\<lambda>n. ch_files ch n \<noteq> None" "ce_now env" "ib_name t"] by auto
  have "chan_inv fs (ch\<lparr>ch_files := rename_file (ib_tmp t) p (ch_files ch)\<rparr>)"
    using i t p files_kept_rename by (simp add: chan_inv_def)
  then show ?thesis using i t p by (simp add: finish_inbound_def inv_emit inv_send inv_remove_tmp)
qed

lemma some_if:
  "(c \<Longrightarrow> \<exists>x. a = Some x \<and> P x) \<Longrightarrow> (\<not> c \<Longrightarrow> \<exists>x. b = Some x \<and> P x) \<Longrightarrow>
   \<exists>x. (if c then a else b) = Some x \<and> P x"
  by simp

lemma inv_media:
  assumes i: "chan_inv fs ch"
  shows "\<exists>ch'. handle_media_frame env fr ch = Some ch' \<and> chan_inv fs ch'"
proof -
  have stored: "chan_inv fs (ch_emit ev (if bs = [] then ch else
      ch\<lparr>ch_files := append_file (ib_tmp t) bs (ch_files ch), ch_in := AList.update tid (t\<lparr>ib_transferred := n\<rparr>) (ch_in ch)\<rparr>))"
    if "map_of (ch_in ch) tid = Some t" for ev bs t tid n
    using i in_tmp [OF i that]
    by (simp add: chan_inv_def files_kept_tmp append_file_def tmps_update)
  show ?thesis
  proof (cases "chunk_decode (f_payload fr)")
    case (Some h)
    show ?thesis
    proof (cases "map_of (ch_in ch) (ck_transfer_id h)")
      case None
      then show ?thesis using i Some by (simp add: handle_media_frame_def Let_def)
    next
      case t: (Some t)
      note tmp = in_tmp [OF i t]
      show ?thesis
        unfolding handle_media_frame_def Some t Let_def option.case inbound_transfer.simps
        by (intro some_if; (rule inv_finish | rule exI, rule conjI, rule refl)?)
          (intro i tmp inv_cancel inv_drop_in inv_delete_in stored [OF t] | simp add: tmp)+
    qed
  qed (use i in \<open>simp add: handle_media_frame_def\<close>)
qed

lemma inv_recv: "chan_inv fs ch \<Longrightarrow> \<exists>ch'. recv_step env r ch = Some ch' \<and> chan_inv fs ch'"
  using inv_media inv_control inv_close by (cases "(env, r, ch)" rule: recv_step.cases) auto

lemma inv_step: "chan_step ch ch' \<Longrightarrow> chan_inv fs ch \<Longrightarrow> chan_inv fs ch'"
proof (induction rule: chan_step.induct)
  case (step_recv env r ch ch')
  then show ?case using inv_recv [of fs ch env r] by auto
qed (auto intro: inv_cancel inv_close chan_inv_cong [rotated 2])

lemma inv_steps: "chan_step\<^sup>*\<^sup>* ch ch' \<Longrightarrow> chan_inv fs ch \<Longrightarrow> chan_inv fs ch'"
  by (induction rule: rtranclp_induct) (auto intro: inv_step)

lemma inv_new: "finite (dom fs) \<Longrightarrow> chan_inv fs (channel_new peer name auto_accept fs)"
  by (simp add: chan_inv_def channel_new_def files_kept_def tmps_Nil)

text \<open>C4. Whatever a peer sends and however the system answers, a channel never changes or removes a file of the
  download directory other than its own temporary ones; a file it adds has a safe name: no path, not hidden, no
  control characters.  The receive loop never hangs on a packet, not even in the search for an unused name.\<close>

theorem channel_keeps_files:
  assumes "finite (dom fs)" and "chan_step\<^sup>*\<^sup>* (channel_new peer name auto_accept fs) ch"
  shows "(\<forall>n. \<not> is_tmp n \<longrightarrow> fs n \<noteq> None \<longrightarrow> ch_files ch n = fs n) \<and>
    (\<forall>n. ch_files ch n \<noteq> None \<longrightarrow> fs n = None \<longrightarrow> \<not> is_tmp n \<longrightarrow> safe_name n) \<and>
    (\<forall>env r. recv_step env r ch \<noteq> None)"
proof -
  have i: "chan_inv fs ch" using inv_steps [OF assms(2) inv_new [OF assms(1)]] .
  then have "\<forall>env r. recv_step env r ch \<noteq> None" using inv_recv by fastforce
  then show ?thesis using i by (auto simp: chan_inv_def files_kept_def)
qed

text \<open>A peer pushes \<open>../a\<close> into a directory that has a file \<open>a\<close>.\<close>

definition good_env :: chan_env where
  "good_env = \<lparr> ce_now = 5, ce_send = True, ce_create = True, ce_write = True, ce_rename = True \<rparr>"

definition before_push :: channel where
  "before_push = channel_new ''p'' ''P'' True [''a'' \<mapsto> [1]]"

definition offered :: channel where
  "offered = handle_control_msg good_env (ChOffer 1 ''../a'' 1 None None) before_push"

definition offered_t :: inbound_transfer where
  "offered_t = \<lparr> ib_name = ''a'', ib_size = 1, ib_transferred = 0, ib_tmp = ''.tmp-recv-1-5'' \<rparr>"

lemma offered_t_simps [simp]:
  "ib_name offered_t = ''a''" "ib_size offered_t = 1" "ib_transferred offered_t = 0" "ib_tmp offered_t = ''.tmp-recv-1-5''"
  by (simp_all add: offered_t_def)

lemma offered_a: "map_of (ch_in offered) 1 = Some offered_t"
  by code_simp

lemma tmp_1: "tmp_name 1 5 = ''.tmp-recv-1-5''"
  by code_simp

lemma offered_files: "ch_files offered = [''a'' \<mapsto> [1], ''.tmp-recv-1-5'' \<mapsto> []]"
  unfolding offered_def before_push_def
  by (simp add: accept_inbound_def good_env_def channel_new_def ch_emit_def Let_def tmp_1)

lemma name_parts: "sanitize_file_name 5 ''a'' = ''a''" "split_ext ''a'' = (''a'', None)" "numbered_name ''a'' None 1 = ''a (1)''"
  by code_simp+

lemma a_resolved:
  assumes "fs ''a'' \<noteq> None" and "fs ''a (1)'' = None"
  shows "resolve_unique_path (\<lambda>n. fs n \<noteq> None) 5 ''a'' = Some ''a (1)''"
  using assms by (simp add: resolve_unique_path_def name_parts) (subst first_unused.simps, simp add: name_parts [simplified])

lemma pushed_handled:
  "\<exists>ch. recv_step good_env (ChanPacket (MediaPkt (chunk_frame 1 0 CHUNK_FLAG_EOF [7]))) offered = Some ch \<and>
     ch_files ch ''a'' = Some [1] \<and> ch_files ch ''a (1)'' = Some [7]"
proof -
  let ?t = offered_t
  let ?c = "store_chunk 1 ?t [7] offered"
  have f: "ch_files ?c = [''a'' \<mapsto> [1], ''.tmp-recv-1-5'' \<mapsto> [7]]"
    by (simp add: store_chunk_def offered_files append_file_def)
  have r: "resolve_unique_path (\<lambda>n. ch_files ?c n \<noteq> None) 5 ''a'' = Some ''a (1)''"
    by (rule a_resolved) (simp_all add: f)
  have "recv_step good_env (ChanPacket (MediaPkt (chunk_frame 1 0 CHUNK_FLAG_EOF [7]))) offered
      = handle_media_frame good_env (chunk_frame 1 0 CHUNK_FLAG_EOF [7]) offered"
    by (simp add: chunk_frame_def frame_new_def)
  also have "\<dots> = finish_inbound good_env 1 (?t\<lparr>ib_transferred := 1\<rparr>) (?c\<lparr>ch_in := AList.delete 1 (ch_in ?c)\<rparr>)"
    by (subst media_chunk [OF offered_a]) (simp_all add: good_env_def sat_add64_def OVERRUN_TOLERANCE_def u64_max_def CHUNK_FLAG_EOF_def)
  also have "\<dots> = Some (ch_emit (EvCompleted 1 (ib_name (?t\<lparr>ib_transferred := 1\<rparr>)) (Some ''a (1)'') False)
      (ch_send good_env (ControlPkt (ChAck 1 (Some ''a (1)'')))
        (?c\<lparr>ch_in := AList.delete 1 (ch_in ?c), ch_files := rename_file (ib_tmp (?t\<lparr>ib_transferred := 1\<rparr>)) ''a (1)'' (ch_files ?c)\<rparr>)))"
    by (subst finish_renames [of _ _ _ "''a (1)''"]) (use r in \<open>simp_all add: good_env_def\<close>)
  finally show ?thesis by (simp add: f rename_file_def)
qed

theorem channel_keeps_files_witness:
  "\<exists>ch. chan_step\<^sup>*\<^sup>* before_push ch \<and> ch_files ch ''a'' = Some [1] \<and> ch_files ch ''a (1)'' = Some [7] \<and> safe_name ''a (1)''"
proof -
  obtain ch where ch: "recv_step good_env (ChanPacket (MediaPkt (chunk_frame 1 0 CHUNK_FLAG_EOF [7]))) offered = Some ch"
      "ch_files ch ''a (1)'' = Some [7]"
    using pushed_handled by blast
  have "recv_step good_env (ChanPacket (ControlPkt (ChOffer 1 ''../a'' 1 None None))) before_push = Some offered"
    by (simp add: offered_def)
  then have steps: "chan_step\<^sup>*\<^sup>* before_push ch" using ch(1) step_recv by (meson converse_rtranclp_into_rtranclp r_into_rtranclp)
  show ?thesis
    using channel_keeps_files [of "[''a'' \<mapsto> [1]]" "''p''" "''P''" True ch] steps ch(2)
    by (auto simp: before_push_def is_tmp_def TMP_PREFIX_def)
qed

end
