(* ===== verification/Channel_Transfer.thy ===== *)
theory Channel_Transfer
  imports Channel_Safety
begin

text \<open>
  Two channels at the two ends of one session: a file offered by one of them, from the offer to the
  confirmation, and the ways a transfer ends without one.
\<close>

section \<open>One side at a time\<close>

text \<open>What a side has sent between two of its states, and handing that to the other side.\<close>

definition sent_since :: "channel \<Rightarrow> channel \<Rightarrow> channel_msg session_packet list" where
  "sent_since before after = drop (length (ch_sent before)) (ch_sent after)"

fun hand_over :: "chan_env \<Rightarrow> channel_msg session_packet list \<Rightarrow> channel \<Rightarrow> channel option" where
  "hand_over env [] ch = Some ch"
| "hand_over env (p # ps) ch = Option.bind (recv_step env (ChanPacket p) ch) (hand_over env ps)"

text \<open>The frames of a file, given the blocks it is read in.\<close>

fun chunk_frames :: "u32 \<Rightarrow> nat \<Rightarrow> bytes list \<Rightarrow> frame list" where
  "chunk_frames tid off [] = [chunk_frame tid off CHUNK_FLAG_EOF []]"
| "chunk_frames tid off [c] = [chunk_frame tid off CHUNK_FLAG_EOF c]"
| "chunk_frames tid off (c # d # cs) = chunk_frame tid off 0 c # chunk_frames tid (off + length c) (d # cs)"

definition env_ok :: "chan_env \<Rightarrow> bool" where
  "env_ok env \<longleftrightarrow> ce_send env \<and> ce_create env \<and> ce_write env \<and> ce_rename env"

lemma length_chunk_frames: "length (chunk_frames tid off cs) = max 1 (length cs)"
  by (induction tid off cs rule: chunk_frames.induct) auto

lemma on_task_lookup [simp]:
  "map_of (ch_tasks (on_task tid f ch)) tid = map_option f (map_of (ch_tasks ch) tid)"
  by (simp add: on_task_def update_conv' split: option.splits)

lemma chunk_frame_track [simp]: "fh_track (f_header (chunk_frame tid off fl bs)) = TRACK_CHANNEL"
  by (simp add: chunk_frame_def frame_new_def)

lemma push_one:
  assumes t: "map_of (ch_tasks ch) tid = Some tk" "tk_phase tk = Pushing off" "\<not> tk_cancelled tk" and s: "ce_send env"
    and r: "(case tk_reads tk of [] \<Rightarrow> ReadBytes [] | r # _ \<Rightarrow> r) = ReadBytes bs"
    and e: "eof \<longleftrightarrow> length bs = 0 \<or> tk_size tk \<le> off + length bs \<or> tk_size tk = 0"
  shows "map_of (ch_tasks (task_step env tid ch)) tid =
      Some (tk\<lparr>tk_reads := tl (tk_reads tk), tk_phase := (if eof then AwaitAck else Pushing (off + length bs))\<rparr>)"
    "ch_sent (task_step env tid ch) = ch_sent ch @ [MediaPkt (chunk_frame tid off (if eof then CHUNK_FLAG_EOF else 0) bs)]"
    "ch_out (task_step env tid ch) = ch_out ch"
  using t s r e by (auto simp: task_step_def push_chunk_def Let_def)

lemma push_all:
  assumes "map_of (ch_tasks ch) tid = Some tk" and "tk_phase tk = Pushing off" and "\<not> tk_cancelled tk" and s: "ce_send env"
    and "tk_reads tk = map ReadBytes cs" and "\<forall>c \<in> set cs. c \<noteq> []" and "tk_size tk = off + length (concat cs)"
  shows "map_of (ch_tasks ((task_step env tid ^^ length (chunk_frames tid off cs)) ch)) tid =
      Some (tk\<lparr>tk_reads := [], tk_phase := AwaitAck\<rparr>) \<and>
    ch_sent ((task_step env tid ^^ length (chunk_frames tid off cs)) ch) = ch_sent ch @ map MediaPkt (chunk_frames tid off cs) \<and>
    ch_out ((task_step env tid ^^ length (chunk_frames tid off cs)) ch) = ch_out ch"
  using assms
proof (induction tid off cs arbitrary: ch tk rule: chunk_frames.induct)
  case (1 tid off)
  then show ?case using push_one [OF "1.prems"(1-4), of "[]" True] by simp
next
  case (2 tid off c)
  then show ?case using push_one [OF "2.prems"(1-4), of c True] by simp
next
  case (3 tid off c d cs)
  define ch1 where "ch1 = task_step env tid ch"
  define tk1 where "tk1 = tk\<lparr>tk_reads := map ReadBytes (d # cs), tk_phase := Pushing (off + length c)\<rparr>"
  have n: "\<not> (length c = 0 \<or> tk_size tk \<le> off + length c \<or> tk_size tk = 0)" using "3.prems"(6,7) by auto
  have one: "map_of (ch_tasks ch1) tid = Some tk1" "ch_sent ch1 = ch_sent ch @ [MediaPkt (chunk_frame tid off 0 c)]"
      "ch_out ch1 = ch_out ch"
    using push_one [OF "3.prems"(1-4), of c False] "3.prems"(5) n by (simp_all add: ch1_def tk1_def)
  have st: "(task_step env tid ^^ length (chunk_frames tid off (c # d # cs))) ch
      = (task_step env tid ^^ length (chunk_frames tid (off + length c) (d # cs))) ch1"
    by (simp add: ch1_def funpow_swap1)
  have "map_of (ch_tasks ((task_step env tid ^^ length (chunk_frames tid (off + length c) (d # cs))) ch1)) tid =
      Some (tk1\<lparr>tk_reads := [], tk_phase := AwaitAck\<rparr>) \<and>
    ch_sent ((task_step env tid ^^ length (chunk_frames tid (off + length c) (d # cs))) ch1)
      = ch_sent ch1 @ map MediaPkt (chunk_frames tid (off + length c) (d # cs)) \<and>
    ch_out ((task_step env tid ^^ length (chunk_frames tid (off + length c) (d # cs))) ch1) = ch_out ch1"
    using "3.prems" by (intro "3.IH" one(1)) (simp_all add: tk1_def)
  then show ?case unfolding st using one by (simp add: tk1_def)
qed

section \<open>The receiving side\<close>

lemma store_chunk_in:
  "map_of (ch_in (store_chunk tid t bs ch)) tid =
     (if bs = [] then map_of (ch_in ch) tid else Some (t\<lparr>ib_transferred := ib_transferred t + length bs\<rparr>))"
  "ch_files (store_chunk tid t bs ch) = (if bs = [] then ch_files ch else append_file (ib_tmp t) bs (ch_files ch))"
  "ch_sent (store_chunk tid t bs ch) = ch_sent ch"
  by (simp_all add: store_chunk_def update_conv')

definition received :: "u32 \<Rightarrow> inbound_transfer \<Rightarrow> bytes \<Rightarrow> channel \<Rightarrow> channel \<Rightarrow> string \<Rightarrow> bool" where
  "received tid t content ch ch' p \<longleftrightarrow> safe_name p \<and> ch_files ch p = None \<and>
     ch_files ch' = (ch_files ch)(ib_tmp t := None, p \<mapsto> content) \<and>
     ch_sent ch' = ch_sent ch @ [ControlPkt (ChAck tid (Some p))] \<and>
     last (ch_events ch') = EvCompleted tid (ib_name t) (Some p) False"

lemma finish_received:
  assumes "finite (dom (ch_files ch))" and "env_ok env" and f: "ch_files ch (ib_tmp t) = Some content" and tmp: "is_tmp (ib_tmp t)"
  shows "\<exists>ch' p. finish_inbound env tid t ch = Some ch' \<and> received tid t content ch ch' p"
proof -
  have "finite {n. ch_files ch n \<noteq> None}" using assms(1) by (simp add: dom_def)
  then obtain p where p: "resolve_unique_path (\<lambda>n. ch_files ch n \<noteq> None) (ce_now env) (ib_name t) = Some p"
      "safe_name p" "ch_files ch p = None"
    using unique_path_safe [of "\<lambda>n. ch_files ch n \<noteq> None" "ce_now env" "ib_name t"] by auto
  show ?thesis
    by (intro exI conjI) (rule finish_renames [OF p(1)], use assms p in \<open>simp_all add: env_ok_def received_def rename_file_def\<close>)
qed

lemma within_tolerance: "a + b \<le> n \<Longrightarrow> n \<le> u64_max \<Longrightarrow> a + b \<le> sat_add64 n OVERRUN_TOLERANCE"
  by (simp add: sat_add64_def)

lemma eof_flag: "CHUNK_FLAG_EOF AND CHUNK_FLAG_EOF \<noteq> 0"
  by (simp add: CHUNK_FLAG_EOF_def)

lemma take_last:
  assumes t: "map_of (ch_in ch) tid = Some t" and e: "env_ok env" and fin: "finite (dom (ch_files ch))" and l: "length bs < 2 ^ 32"
    and sz: "ib_transferred t + length bs \<le> ib_size t" "ib_size t \<le> u64_max"
    and f: "ch_files ch (ib_tmp t) = Some old" and tmp: "is_tmp (ib_tmp t)"
  shows "\<exists>ch' p. recv_step env (ChanPacket (MediaPkt (chunk_frame tid off CHUNK_FLAG_EOF bs))) ch = Some ch' \<and>
    received tid t (old @ bs) ch ch' p"
proof -
  define c where "c = (store_chunk tid t bs ch)\<lparr>ch_in := AList.delete tid (ch_in (store_chunk tid t bs ch))\<rparr>"
  define t1 where "t1 = t\<lparr>ib_transferred := ib_transferred t + length bs\<rparr>"
  have t1: "ib_tmp t1 = ib_tmp t" "ib_name t1 = ib_name t" by (simp_all add: t1_def)
  have cf: "ch_files c = (ch_files ch)(ib_tmp t := Some (old @ bs))" "ch_sent c = ch_sent ch"
    using f by (auto simp: c_def store_chunk_in append_file_def fun_eq_iff)
  have "ce_write env" using e by (simp add: env_ok_def)
  then have r: "recv_step env (ChanPacket (MediaPkt (chunk_frame tid off CHUNK_FLAG_EOF bs))) ch = finish_inbound env tid t1 c"
    using media_chunk [OF t l _ within_tolerance [of _ _ "ib_size t"]] sz eof_flag by (simp add: c_def t1_def)
  obtain ch' p where p: "finish_inbound env tid t1 c = Some ch'" "received tid t1 (old @ bs) c ch' p"
    using finish_received [of c env t1 "old @ bs" tid] fin e tmp by (auto simp: cf t1)
  have "\<not> is_tmp p" using p(2) safe_not_tmp by (simp add: received_def)
  then have "p \<noteq> ib_tmp t" using tmp by blast
  then have "received tid t (old @ bs) ch ch' p" using p(2) by (auto simp: received_def cf t1)
  then show ?thesis using r p(1) by (intro exI conjI) auto
qed

lemma take_chunks:
  assumes "map_of (ch_in ch) tid = Some t" and "env_ok env" and "finite (dom (ch_files ch))"
    and "\<forall>c \<in> set cs. c \<noteq> [] \<and> length c < 2 ^ 32" and "ib_transferred t = off"
    and "ib_size t = off + length (concat cs)" and "ib_size t \<le> u64_max"
    and "ch_files ch (ib_tmp t) = Some old" and "is_tmp (ib_tmp t)"
  shows "\<exists>ch' p. hand_over env (map MediaPkt (chunk_frames tid off cs)) ch = Some ch' \<and> received tid t (old @ concat cs) ch ch' p"
  using assms
proof (induction tid off cs arbitrary: ch t old rule: chunk_frames.induct)
  case (1 tid off)
  then show ?case using take_last [OF "1.prems"(1-3), of "[]" old off] by auto
next
  case (2 tid off c)
  then show ?case using take_last [OF "2.prems"(1-3), of c old off] by auto
next
  case (3 tid off c d cs)
  define ch1 where "ch1 = store_chunk tid t c ch"
  define t1 where "t1 = t\<lparr>ib_transferred := off + length c\<rparr>"
  have c: "c \<noteq> []" "length c < 2 ^ 32" using "3.prems"(4) by auto
  have "ce_write env" using "3.prems"(2) by (simp add: env_ok_def)
  then have r: "recv_step env (ChanPacket (MediaPkt (chunk_frame tid off 0 c))) ch = Some ch1"
    using media_chunk [OF "3.prems"(1) c(2) _ within_tolerance [of _ _ "ib_size t"]] "3.prems"(5-7) by (simp add: ch1_def)
  have f1: "ch_files ch1 = (ch_files ch)(ib_tmp t := Some (old @ c))" and s1: "ch_sent ch1 = ch_sent ch"
    using "3.prems"(8) c by (simp_all add: ch1_def store_chunk_in append_file_def)
  have i1: "map_of (ch_in ch1) tid = Some t1" using c "3.prems"(5) by (simp add: ch1_def store_chunk_in t1_def)
  have t1: "ib_tmp t1 = ib_tmp t" "ib_name t1 = ib_name t" "ib_size t1 = ib_size t" by (simp_all add: t1_def)
  have fin: "finite (dom (ch_files ch1))" using "3.prems"(3) unfolding f1 dom_fun_upd by simp
  have sz: "ib_transferred t1 = off + length c" "ib_size t1 = off + length c + length (concat (d # cs))" "ib_size t1 \<le> u64_max"
      "ch_files ch1 (ib_tmp t1) = Some (old @ c)" "is_tmp (ib_tmp t1)" "\<forall>x \<in> set (d # cs). x \<noteq> [] \<and> length x < 2 ^ 32"
    using "3.prems" by (simp_all add: t1 f1 t1_def)
  obtain ch' p where p: "hand_over env (map MediaPkt (chunk_frames tid (off + length c) (d # cs))) ch1 = Some ch'"
      "received tid t1 ((old @ c) @ concat (d # cs)) ch1 ch' p"
    using "3.IH" [OF i1 "3.prems"(2) fin sz(6,1,2,3,4,5)] by blast
  have "p \<noteq> ib_tmp t" using p(2) safe_not_tmp "3.prems"(9) by (auto simp: received_def)
  then have "received tid t (old @ concat (c # d # cs)) ch ch' p" using p(2) by (auto simp: received_def f1 s1 t1)
  then show ?case using r p(1) by auto
qed

section \<open>From offer to confirmation\<close>

lemma offer_sent:
  assumes "ch_alive A" and "env_ok env" and "lf_meta lf = Some (True, n)" and "tid = ch_next_transfer A"
  shows "\<exists>A1 tk. send_file env lf A = (Inr tid, A1) \<and>
    ch_sent A1 = ch_sent A @ [ControlPkt (ChOffer tid (pushed_name (lf_path lf)) n None None)] \<and>
    map_of (ch_out A1) tid = Some \<lparr> ob_decision = True, ob_ack = True \<rparr> \<and> map_of (ch_tasks A1) tid = Some tk \<and>
    tk = \<lparr> tk_name = pushed_name (lf_path lf), tk_size = n, tk_open = lf_open lf, tk_reads = lf_reads lf,
           tk_phase = AwaitDecision, tk_answer = None, tk_acked = False, tk_cancelled = False \<rparr>"
  using assms by (simp add: send_file_def ch_alive_def env_ok_def Let_def update_conv')

lemma offer_accepted:
  assumes "ch_auto B" and "env_ok env"
  shows "\<exists>B1 t. recv_step env (ChanPacket (ControlPkt (ChOffer tid name n mime sha))) B = Some B1 \<and>
    map_of (ch_in B1) tid = Some t \<and> ib_name t = sanitize_file_name (ce_now env) name \<and> ib_size t = n \<and> ib_transferred t = 0 \<and>
    is_tmp (ib_tmp t) \<and> ch_files B1 = (ch_files B)(ib_tmp t \<mapsto> []) \<and>
    ch_sent B1 = ch_sent B @ [ControlPkt (ChDecision tid True None)]"
  using assms by (simp add: accept_inbound_def env_ok_def Let_def update_conv' tmp_name_is_tmp)

lemma decision_taken:
  assumes "map_of (ch_out A) tid = Some \<lparr> ob_decision = True, ob_ack = True \<rparr>" and "map_of (ch_tasks A) tid = Some tk"
    and "tk_phase tk = AwaitDecision" and "tk_open tk"
    and A1: "A1 = handle_control_msg env (ChDecision tid True reason) A"
  shows "recv_step env (ChanPacket (ControlPkt (ChDecision tid True reason))) A = Some A1"
    and "map_of (ch_tasks (task_step env tid A1)) tid = Some (tk\<lparr>tk_answer := Some True, tk_phase := Pushing 0\<rparr>)"
    and "map_of (ch_out (task_step env tid A1)) tid = Some \<lparr> ob_decision = False, ob_ack = True \<rparr>"
    and "ch_sent (task_step env tid A1) = ch_sent A" and "ch_sent A1 = ch_sent A"
  using assms by (simp_all add: A1 Let_def task_step_def decision_of_def update_conv')

lemma ack_taken:
  assumes "map_of (ch_out A) tid = Some ob" and "ob_ack ob" and "map_of (ch_tasks A) tid = Some tk" and "tk_phase tk = AwaitAck"
    and A1: "A1 = handle_control_msg env (ChAck tid p) A"
  shows "recv_step env (ChanPacket (ControlPkt (ChAck tid p))) A = Some A1"
    and "last (ch_events (task_step env tid A1)) = EvCompleted tid (tk_name tk) None True"
  using assms by (simp_all add: A1 Let_def task_step_def ack_of_def)

text \<open>The whole transfer, one direction after the other.\<close>

lemma transfer_runs:
  assumes a: "ch_alive A" "env_ok envA" and b: "ch_auto B" "env_ok envB" "finite (dom (ch_files B))"
    and f: "lf_meta lf = Some (True, length (concat blocks))" "lf_open lf" "lf_reads lf = map ReadBytes blocks"
    and c: "\<forall>c \<in> set blocks. c \<noteq> [] \<and> length c \<le> FILE_CHUNK_SIZE" and n: "length (concat blocks) \<le> u64_max"
    and tid: "tid = ch_next_transfer A"
  shows "\<exists>A1 B1 A2 A3 B2 A4 p t. send_file envA lf A = (Inr tid, A1) \<and>
    hand_over envB (sent_since A A1) B = Some B1 \<and> hand_over envA (sent_since B B1) A1 = Some A2 \<and>
    (task_step envA tid ^^ Suc (max 1 (length blocks))) A2 = A3 \<and>
    hand_over envB (sent_since A2 A3) B1 = Some B2 \<and> hand_over envA (sent_since B1 B2) A3 = Some A4 \<and>
    last (ch_events (task_step envA tid A4)) = EvCompleted tid (pushed_name (lf_path lf)) None True \<and>
    received tid t (concat blocks) B1 B2 p \<and> is_tmp (ib_tmp t) \<and> ch_files B1 = (ch_files B)(ib_tmp t \<mapsto> []) \<and>
    ib_name t = sanitize_file_name (ce_now envB) (pushed_name (lf_path lf))"
proof -
  obtain A1 tk where A1: "send_file envA lf A = (Inr tid, A1)"
      "ch_sent A1 = ch_sent A @ [ControlPkt (ChOffer tid (pushed_name (lf_path lf)) (length (concat blocks)) None None)]"
      "map_of (ch_out A1) tid = Some \<lparr> ob_decision = True, ob_ack = True \<rparr>" "map_of (ch_tasks A1) tid = Some tk"
    and tk: "tk = \<lparr> tk_name = pushed_name (lf_path lf), tk_size = length (concat blocks), tk_open = lf_open lf, tk_reads = lf_reads lf,
           tk_phase = AwaitDecision, tk_answer = None, tk_acked = False, tk_cancelled = False \<rparr>"
    using offer_sent [OF a f(1) tid] by blast
  obtain B1 t where B1: "recv_step envB (ChanPacket (ControlPkt (ChOffer tid (pushed_name (lf_path lf)) (length (concat blocks)) None None))) B = Some B1"
      "map_of (ch_in B1) tid = Some t" "ib_name t = sanitize_file_name (ce_now envB) (pushed_name (lf_path lf))"
      "ib_size t = length (concat blocks)" "ib_transferred t = 0" "is_tmp (ib_tmp t)" "ch_files B1 = (ch_files B)(ib_tmp t \<mapsto> [])"
      "ch_sent B1 = ch_sent B @ [ControlPkt (ChDecision tid True None)]"
    using offer_accepted [OF b(1,2)] by blast
  define A2 where "A2 = handle_control_msg envA (ChDecision tid True None) A1"
  have tko: "tk_phase tk = AwaitDecision" "tk_open tk" using f(2) by (simp_all add: tk)
  note A2 = decision_taken [OF A1(3,4) tko A2_def]
  define cs where "cs = chunk_frames tid 0 blocks"
  define A3 where "A3 = (task_step envA tid ^^ length cs) (task_step envA tid A2)"
  have A3: "map_of (ch_tasks A3) tid = Some (tk\<lparr>tk_answer := Some True, tk_phase := AwaitAck, tk_reads := []\<rparr>)"
      "ch_sent A3 = ch_sent A2 @ map MediaPkt cs" "map_of (ch_out A3) tid = Some \<lparr> ob_decision = False, ob_ack = True \<rparr>"
    using push_all [OF A2(2) _ _ _ _ _, of 0 envA blocks] A2(3-5) a(2) f(3) c tk
    by (simp_all add: A3_def cs_def env_ok_def)
  have fin: "finite (dom (ch_files B1))" using b(3) unfolding B1(7) dom_fun_upd by simp
  have l: "\<forall>c \<in> set blocks. c \<noteq> [] \<and> length c < 2 ^ 32" using c by (auto simp: FILE_CHUNK_SIZE_def)
  obtain B2 p where B2: "hand_over envB (map MediaPkt cs) B1 = Some B2" "received tid t (concat blocks) B1 B2 p"
    using take_chunks [OF B1(2) b(2) fin l B1(5), of "[]"] B1(4,6,7) n by (auto simp: cs_def)
  define A4 where "A4 = handle_control_msg envA (ChAck tid (Some p)) A3"
  have A4: "recv_step envA (ChanPacket (ControlPkt (ChAck tid (Some p)))) A3 = Some A4"
      "last (ch_events (task_step envA tid A4)) = EvCompleted tid (pushed_name (lf_path lf)) None True"
    using ack_taken [OF A3(3) _ A3(1) _ A4_def] by (simp_all add: tk)
  have A2A3: "(task_step envA tid ^^ Suc (max 1 (length blocks))) A2 = A3" "sent_since A2 A3 = map MediaPkt cs"
    using A3(2) by (simp_all add: A3_def cs_def length_chunk_frames funpow_swap1 sent_since_def)
  have h: "hand_over envB (sent_since A A1) B = Some B1" "hand_over envA (sent_since B B1) A1 = Some A2"
      "hand_over envB (sent_since A2 A3) B1 = Some B2" "hand_over envA (sent_since B1 B2) A3 = Some A4"
    using A1(2) B1(1,8) A2(1) B2 A4(1) unfolding A2A3(2) by (simp_all add: sent_since_def received_def)
  show ?thesis using A1(1) h A2A3(1) A4(2) B2(2) B1(3,6,7) by blast
qed

text \<open>C18. A file that one channel sends to another that accepts files by itself arrives: the offer is answered by a
  consent, the pushed blocks are written, and the file is there with all its bytes under a safe name that was not in
  use, with nothing else of the directory changed; both ends report the completion.\<close>

theorem channel_file_arrives:
  assumes "ch_alive A" and "env_ok envA" and "ch_auto B" and "env_ok envB" and "finite (dom (ch_files B))"
    and "lf_meta lf = Some (True, length (concat blocks))" and "lf_open lf" and "lf_reads lf = map ReadBytes blocks"
    and "\<forall>c \<in> set blocks. c \<noteq> [] \<and> length c \<le> FILE_CHUNK_SIZE" and "length (concat blocks) \<le> u64_max"
    and "tid = ch_next_transfer A"
  shows "\<exists>A1 B1 A2 A3 B2 A4 p. send_file envA lf A = (Inr tid, A1) \<and>
    hand_over envB (sent_since A A1) B = Some B1 \<and> hand_over envA (sent_since B B1) A1 = Some A2 \<and>
    (task_step envA tid ^^ Suc (max 1 (length blocks))) A2 = A3 \<and>
    hand_over envB (sent_since A2 A3) B1 = Some B2 \<and> hand_over envA (sent_since B1 B2) A3 = Some A4 \<and>
    safe_name p \<and> ch_files B p = None \<and> ch_files B2 p = Some (concat blocks) \<and>
    (\<forall>n. n \<noteq> p \<and> \<not> is_tmp n \<longrightarrow> ch_files B2 n = ch_files B n) \<and>
    last (ch_events B2) = EvCompleted tid (sanitize_file_name (ce_now envB) (pushed_name (lf_path lf))) (Some p) False \<and>
    last (ch_events (task_step envA tid A4)) = EvCompleted tid (pushed_name (lf_path lf)) None True"
proof -
  obtain A1 B1 A2 A3 B2 A4 p t where r: "send_file envA lf A = (Inr tid, A1)"
      "hand_over envB (sent_since A A1) B = Some B1" "hand_over envA (sent_since B B1) A1 = Some A2"
      "(task_step envA tid ^^ Suc (max 1 (length blocks))) A2 = A3"
      "hand_over envB (sent_since A2 A3) B1 = Some B2" "hand_over envA (sent_since B1 B2) A3 = Some A4"
      "last (ch_events (task_step envA tid A4)) = EvCompleted tid (pushed_name (lf_path lf)) None True"
    and p: "received tid t (concat blocks) B1 B2 p" "is_tmp (ib_tmp t)" "ch_files B1 = (ch_files B)(ib_tmp t \<mapsto> [])"
      "ib_name t = sanitize_file_name (ce_now envB) (pushed_name (lf_path lf))"
    using transfer_runs [OF assms] by blast
  have "p \<noteq> ib_tmp t" using p(1,2) safe_not_tmp by (auto simp: received_def)
  then have "safe_name p \<and> ch_files B p = None \<and> ch_files B2 p = Some (concat blocks) \<and>
      (\<forall>n. n \<noteq> p \<and> \<not> is_tmp n \<longrightarrow> ch_files B2 n = ch_files B n) \<and>
      last (ch_events B2) = EvCompleted tid (sanitize_file_name (ce_now envB) (pushed_name (lf_path lf))) (Some p) False"
    using p by (auto simp: received_def)
  then show ?thesis using r by blast
qed

definition sender :: channel where
  "sender = channel_new ''b'' ''B'' False Map.empty"

definition two_blocks :: local_file where
  "two_blocks = \<lparr> lf_meta = Some (True, 3), lf_path = ''/home/me/a'', lf_open = True, lf_reads = [ReadBytes [1, 2], ReadBytes [3]] \<rparr>"

theorem channel_file_arrives_witness:
  "\<exists>A1 B1 p. send_file good_env two_blocks sender = (Inr 1, A1) \<and> hand_over good_env (sent_since sender A1) before_push = Some B1 \<and>
    safe_name p \<and> p \<noteq> ''a''"
proof -
  have "ch_alive sender" "env_ok good_env" "ch_auto before_push" "finite (dom (ch_files before_push))" "1 = ch_next_transfer sender"
    by (simp_all add: sender_def before_push_def channel_new_def ch_alive_def env_ok_def good_env_def)
  moreover have "lf_meta two_blocks = Some (True, length (concat [[1, 2], [3 :: u8]]))" "lf_open two_blocks"
      "lf_reads two_blocks = map ReadBytes [[1, 2], [3]]"
      "\<forall>c \<in> set [[1, 2], [3 :: u8]]. c \<noteq> [] \<and> length c \<le> FILE_CHUNK_SIZE" "length (concat [[1, 2], [3 :: u8]]) \<le> u64_max"
    by (simp_all add: two_blocks_def FILE_CHUNK_SIZE_def u64_max_def)
  ultimately obtain A1 B1 p where "send_file good_env two_blocks sender = (Inr 1, A1)"
      "hand_over good_env (sent_since sender A1) before_push = Some B1" "safe_name p" "ch_files before_push p = None"
    using channel_file_arrives [of sender good_env before_push good_env two_blocks "[[1, 2], [3]]" 1] by blast
  then show ?thesis by (intro exI conjI) (auto simp: before_push_def channel_new_def)
qed


section \<open>How a transfer ends otherwise\<close>

text \<open>A peer that sends more than it announced: the transfer is forgotten before it is cancelled, so neither the peer
  nor the user hears of the abort; and an own upload with the same number is cancelled in its place.\<close>

lemma overrun_is_silent:
  assumes "map_of (ch_in ch) tid = Some t" and l: "length bs < 2 ^ 32"
    and "sat_add64 (ib_size t) OVERRUN_TOLERANCE < ib_transferred t + length bs"
  shows "handle_media_frame env (chunk_frame tid off fl bs) ch =
      Some (if has_key (ch_out ch) tid then cancel_transfer env tid (drop_in tid ch) else drop_in tid ch)"
    and "ch_sent (drop_in tid ch) = ch_sent ch" and "ch_events (drop_in tid ch) = ch_events ch"
proof -
  have u: "unat (u32_of_nat (length bs)) = length bs" using l by (rule unat_len)
  have d: "bslice CHANNEL_CHUNK_HEADER_LEN (CHANNEL_CHUNK_HEADER_LEN + length bs) (chunk_encode h @ bs) = bs" for h
    by (simp add: bslice_def)
  have o: "ch_out (drop_in tid ch) = ch_out ch" "\<not> has_key (ch_in (drop_in tid ch)) tid"
    using assms(1) by (simp_all add: drop_in_def remove_tmp_def has_key_def delete_conv')
  show "handle_media_frame env (chunk_frame tid off fl bs) ch =
      Some (if has_key (ch_out ch) tid then cancel_transfer env tid (drop_in tid ch) else drop_in tid ch)"
    unfolding handle_media_frame_def chunk_frame_payload chunk_decode_encode Let_def option.case chunk_header.simps u d assms(1)
    using assms(3) o by (simp add: cancel_transfer_def)
  show "ch_sent (drop_in tid ch) = ch_sent ch" "ch_events (drop_in tid ch) = ch_events ch"
    by (simp_all add: drop_in_def remove_tmp_def split: option.splits)
qed

text \<open>An offer that is not accepted gets no answer at all.\<close>

lemma offer_without_answer:
  assumes "\<not> ch_auto ch \<or> \<not> ce_create env"
  shows "handle_control_msg env (ChOffer tid name n mime sha) ch = ch_emit (EvOffer tid name n (ch_peer ch)) ch"
  using assms by (auto simp: Let_def accept_inbound_def)

text \<open>The end mark alone completes a transfer: a file cut short is renamed and confirmed.\<close>

lemma short_file_confirmed:
  assumes "map_of (ch_in ch) tid = Some t" and "env_ok env" and "finite (dom (ch_files ch))"
    and "ib_transferred t = 0" and "ib_size t \<le> u64_max" and "ch_files ch (ib_tmp t) = Some []" and "is_tmp (ib_tmp t)"
  shows "\<exists>ch' p. recv_step env (ChanPacket (MediaPkt (chunk_frame tid off CHUNK_FLAG_EOF []))) ch = Some ch' \<and>
    received tid t [] ch ch' p"
  using take_last [OF assms(1-3), of "[]" "[]" off] assms(4-7) by simp

text \<open>Cancelling an upload that waits for its decision is reported twice, the second time as a refusal of the peer.\<close>

lemma cancelled_twice:
  assumes "map_of (ch_out ch) tid = Some ob" and "map_of (ch_tasks ch) tid = Some tk" and "tk_phase tk = AwaitDecision"
    and "tk_answer tk = None" and "map_of (ch_in ch) tid = None"
  shows "ch_events (task_step env tid (cancel_transfer env tid ch)) =
    ch_events ch @ [EvFailed tid CancelledHere, EvFailed tid PeerRefused]"
proof -
  let ?c = "cancel_transfer env tid ch"
  have d: "drop_in tid (drop_out tid ch) = drop_out tid ch" using assms(5) by (simp add: drop_in_def)
  have "map_of (ch_tasks ?c) tid = Some (tk\<lparr>tk_cancelled := True\<rparr>)" "map_of (ch_out ?c) tid = None"
      "ch_events ?c = ch_events ch @ [EvFailed tid CancelledHere]"
    using assms by (simp_all add: cancel_transfer_def has_key_def d) (simp_all add: drop_out_def delete_conv' ch_emit_def ch_send_def)
  then show ?thesis using assms by (simp add: task_step_def decision_of_def)
qed

text \<open>A second offer under the same number leaves the first temporary file behind, even after the channel closes.\<close>

lemma reoffer_leaves_file:
  "ch_files (close_channel (handle_control_msg (good_env\<lparr>ce_now := 6\<rparr>) (ChOffer 1 ''a'' 1 None None) offered)) ''.tmp-recv-1-5'' = Some []"
  by code_simp

text \<open>Both ends number their own transfers from one, and a cancellation names no direction: a peer that cancels one of
  its uploads cancels our upload of the same number as well.\<close>

lemma cancel_hits_both:
  assumes "map_of (ch_out ch) tid = Some ob" and "map_of (ch_tasks ch) tid = Some tk"
  shows "map_of (ch_out (handle_control_msg env (ChCancel tid reason) ch)) tid = None"
    and "map_of (ch_tasks (handle_control_msg env (ChCancel tid reason) ch)) tid = Some (tk\<lparr>tk_cancelled := True\<rparr>)"
proof -
  have "ch_out (drop_in tid ch) = ch_out ch" "ch_tasks (drop_in tid ch) = ch_tasks ch"
    by (simp_all add: drop_in_def remove_tmp_def split: option.splits)
  then show "map_of (ch_out (handle_control_msg env (ChCancel tid reason) ch)) tid = None"
      "map_of (ch_tasks (handle_control_msg env (ChCancel tid reason) ch)) tid = Some (tk\<lparr>tk_cancelled := True\<rparr>)"
    using assms by (simp_all add: drop_out_def delete_conv')
qed

end
