(* ===== verification/Channel_Manager.thy ===== *)
theory Channel_Manager
  imports Channel_Transfer
begin

text \<open>
  The manager of all channels (\<open>stross-kernel/src/channel/manager.rs\<close>): one registered session per peer, the
  shared stream of events, and the address a channel is dialled at.  Sessions are handles into the list of all
  channels ever created, as other tasks keep references to a session after it has been replaced.  Each channel has
  its own view of the download directory.
\<close>

section \<open>State and operations\<close>

record manager =
  cm_sessions :: "(string \<times> nat) list"
  cm_chans :: "channel list"
  cm_events :: "channel_event list"
  cm_out_dir :: string
  cm_auto :: bool

definition manager_new :: "string \<Rightarrow> bool \<Rightarrow> manager" where
  "manager_new out_dir auto_accept =
     \<lparr> cm_sessions = [], cm_chans = [], cm_events = [], cm_out_dir = out_dir, cm_auto = auto_accept \<rparr>"

text \<open>An operation on one channel; what it emits joins the shared stream.\<close>

definition put_chan :: "nat \<Rightarrow> channel \<Rightarrow> manager \<Rightarrow> manager" where
  "put_chan h ch' m =
     m\<lparr>cm_chans := (cm_chans m)[h := ch'],
       cm_events := cm_events m @ drop (length (ch_events (cm_chans m ! h))) (ch_events ch')\<rparr>"

definition register_session :: "(string \<Rightarrow> files) \<Rightarrow> string \<Rightarrow> string \<Rightarrow> manager \<Rightarrow> nat \<times> manager" where
  "register_session disk peer_id peer_name m =
     (let ch = channel_new peer_id peer_name (cm_auto m) (disk (cm_out_dir m));
          h = length (cm_chans m);
          m1 = m\<lparr>cm_chans := cm_chans m @ [ch], cm_events := cm_events m @ ch_events ch\<rparr>;
          m2 = m1\<lparr>cm_sessions := AList.update peer_id h (cm_sessions m1)\<rparr>
      in (h, case map_of (cm_sessions m) peer_id of
               None \<Rightarrow> m2
             | Some old \<Rightarrow> put_chan old (close_channel (cm_chans m2 ! old)) m2))"

definition ws_base :: "string \<Rightarrow> string" where
  "ws_base base =
     (case strip_prefix ''http://'' base of
        Some rest \<Rightarrow> ''ws://'' @ rest
      | None \<Rightarrow>
          (case strip_prefix ''https://'' base of
             Some rest \<Rightarrow> ''wss://'' @ rest
           | None \<Rightarrow>
               if strip_prefix ''ws://'' base = None \<and> strip_prefix ''wss://'' base = None
               then ''ws://'' @ base else base))"

definition unreserved :: "char \<Rightarrow> bool" where
  "unreserved c \<longleftrightarrow> (let n = (of_char c :: nat) in 97 \<le> n \<and> n \<le> 122 \<or> 65 \<le> n \<and> n \<le> 90 \<or> 48 \<le> n \<and> n \<le> 57) \<or>
     c \<in> {CHR ''-'', CHR ''_'', CHR ''.'', CHR ''~''}"

definition upper_hex :: "nat \<Rightarrow> char" where
  "upper_hex n = (if n < 10 then char_of (48 + n) else char_of (55 + n))"

definition percent_encode :: "string \<Rightarrow> string" where
  "percent_encode s = concat (map (\<lambda>c. if unreserved c then [c]
     else [CHR ''%'', upper_hex (of_char c div 16), upper_hex (of_char c mod 16)]) s)"

definition channel_url :: "string \<Rightarrow> string \<Rightarrow> string \<Rightarrow> string" where
  "channel_url base self_id self_name =
     ws_base base @ ''/ws/channel?peer_id='' @ self_id @ ''&peer_name='' @ percent_encode self_name"

text \<open>Dialling: the transport connects to the address, or fails.\<close>

definition connect_channel ::
  "(string \<Rightarrow> files) \<Rightarrow> (string \<Rightarrow> bool) \<Rightarrow> string \<Rightarrow> string \<Rightarrow> string \<Rightarrow> string \<Rightarrow> string \<Rightarrow> manager \<Rightarrow> nat option \<times> manager" where
  "connect_channel disk connects base self_id self_name peer_id peer_name m =
     (if connects (channel_url base self_id self_name)
      then (let (h, m') = register_session disk peer_id peer_name m in (Some h, m')) else (None, m))"

definition get_session :: "string \<Rightarrow> manager \<Rightarrow> nat option \<times> manager" where
  "get_session peer_id m =
     (case map_of (cm_sessions m) peer_id of
        None \<Rightarrow> (None, m)
      | Some h \<Rightarrow> if ch_alive (cm_chans m ! h) then (Some h, m)
                  else (None, m\<lparr>cm_sessions := AList.delete peer_id (cm_sessions m)\<rparr>))"

record channel_status =
  cs_peer_id :: string
  cs_peer_name :: string
  cs_connected :: bool
  cs_active_transfers :: nat

definition list_statuses :: "manager \<Rightarrow> channel_status list \<times> manager" where
  "list_statuses m =
     (let live = filter (\<lambda>(_, h). ch_alive (cm_chans m ! h)) (cm_sessions m) in
      (map (\<lambda>(p, h). \<lparr> cs_peer_id = p, cs_peer_name = ch_peer_name (cm_chans m ! h),
                       cs_connected = ch_alive (cm_chans m ! h), cs_active_transfers = 0 \<rparr>) live,
       m\<lparr>cm_sessions := live\<rparr>))"

definition mgr_send_text :: "chan_env \<Rightarrow> string \<Rightarrow> string \<Rightarrow> manager \<Rightarrow> (chan_error + u64) option \<times> manager" where
  "mgr_send_text env peer_id txt m =
     (case get_session peer_id m of
        (None, m) \<Rightarrow> (None, m)
      | (Some h, m) \<Rightarrow> let (r, ch) = send_text env txt (cm_chans m ! h) in (Some r, put_chan h ch m))"

definition mgr_send_file :: "chan_env \<Rightarrow> string \<Rightarrow> local_file \<Rightarrow> manager \<Rightarrow> (chan_error + u32) option \<times> manager" where
  "mgr_send_file env peer_id lf m =
     (case get_session peer_id m of
        (None, m) \<Rightarrow> (None, m)
      | (Some h, m) \<Rightarrow> let (r, ch) = send_file env lf (cm_chans m ! h) in (Some r, put_chan h ch m))"

definition mgr_cancel :: "chan_env \<Rightarrow> string \<Rightarrow> u32 \<Rightarrow> manager \<Rightarrow> bool \<times> manager" where
  "mgr_cancel env peer_id tid m =
     (case get_session peer_id m of
        (None, m) \<Rightarrow> (False, m)
      | (Some h, m) \<Rightarrow> (True, put_chan h (cancel_transfer env tid (cm_chans m ! h)) m))"

definition close_session :: "string \<Rightarrow> manager \<Rightarrow> manager" where
  "close_session peer_id m =
     (case map_of (cm_sessions m) peer_id of
        None \<Rightarrow> m
      | Some h \<Rightarrow> put_chan h (close_channel (cm_chans m ! h)) (m\<lparr>cm_sessions := AList.delete peer_id (cm_sessions m)\<rparr>))"

definition set_out_dir :: "string \<Rightarrow> manager \<Rightarrow> manager" where
  "set_out_dir d m = m\<lparr>cm_out_dir := d\<rparr>"


section \<open>The address\<close>

text \<open>Percent decoding, as RFC 3986 defines it.\<close>

definition hex_value :: "char \<Rightarrow> nat option" where
  "hex_value c = (let n = (of_char c :: nat) in
     if 48 \<le> n \<and> n \<le> 57 then Some (n - 48) else if 65 \<le> n \<and> n \<le> 70 then Some (n - 55)
     else if 97 \<le> n \<and> n \<le> 102 then Some (n - 87) else None)"

fun percent_decode :: "string \<Rightarrow> string option" where
  "percent_decode [] = Some []"
| "percent_decode (c # cs) =
     (if c = CHR ''%'' then
        (case cs of
           a # b # rest \<Rightarrow>
             (case (hex_value a, hex_value b) of
                (Some x, Some y) \<Rightarrow> map_option (\<lambda>r. char_of (16 * x + y) # r) (percent_decode rest)
              | _ \<Rightarrow> None)
         | _ \<Rightarrow> None)
      else map_option (\<lambda>r. c # r) (percent_decode cs))"

lemma hex_value_upper: "n < 16 \<Longrightarrow> hex_value (upper_hex n) = Some n"
  by (auto simp: hex_value_def upper_hex_def Let_def)

lemma percent_encode_Cons: "percent_encode (c # cs) = (if unreserved c then [c]
     else [CHR ''%'', upper_hex (of_char c div 16), upper_hex (of_char c mod 16)]) @ percent_encode cs"
  by (simp add: percent_encode_def)

lemma unreserved_not_percent: "\<not> unreserved CHR ''%''"
  by (simp add: unreserved_def)

lemma of_char_div: "(of_char c :: nat) div 16 < 16"
  using nat_of_char_less_256 [of c] by (simp add: less_mult_imp_div_less)

lemma percent_roundtrip: "percent_decode (percent_encode s) = Some s"
proof (induction s)
  case (Cons c cs)
  show ?case
  proof (cases "unreserved c")
    case True
    then show ?thesis using Cons unreserved_not_percent by (auto simp: percent_encode_Cons)
  next
    case False
    have "char_of (16 * (of_char c div 16) + of_char c mod 16 :: nat) = c" by simp
    then show ?thesis using Cons False of_char_div [of c] by (simp add: percent_encode_Cons hex_value_upper)
  qed
qed (simp add: percent_encode_def)

lemma upper_hex_unreserved: "n < 16 \<Longrightarrow> unreserved (upper_hex n)"
  by (auto simp: unreserved_def upper_hex_def Let_def)

lemma percent_encoded_chars: "c \<in> set (percent_encode s) \<Longrightarrow> unreserved c \<or> c = CHR ''%''"
  by (auto simp: percent_encode_def of_char_div upper_hex_unreserved split: if_splits)


section \<open>One live channel per peer\<close>

text \<open>Everything that happens to the manager and, meanwhile, to the channels it has created.\<close>

inductive mgr_step :: "manager \<Rightarrow> manager \<Rightarrow> bool" where
  mgr_connect: "mgr_step m (snd (connect_channel disk connects base self_id self_name peer_id peer_name m))"
| mgr_register: "mgr_step m (snd (register_session disk peer_id peer_name m))"
| mgr_get: "mgr_step m (snd (get_session peer_id m))"
| mgr_list: "mgr_step m (snd (list_statuses m))"
| mgr_text: "mgr_step m (snd (mgr_send_text env peer_id txt m))"
| mgr_file: "mgr_step m (snd (mgr_send_file env peer_id lf m))"
| mgr_stop: "mgr_step m (snd (mgr_cancel env peer_id tid m))"
| mgr_close: "mgr_step m (close_session peer_id m)"
| mgr_dir: "mgr_step m (set_out_dir d m)"
| mgr_chan: "h < length (cm_chans m) \<Longrightarrow> chan_step (cm_chans m ! h) ch' \<Longrightarrow> mgr_step m (put_chan h ch' m)"

text \<open>A channel keeps its peer, and once closed stays closed.\<close>

definition chan_kept :: "channel \<Rightarrow> channel \<Rightarrow> bool" where
  "chan_kept ch ch' \<longleftrightarrow> ch_peer ch' = ch_peer ch \<and> (ch_alive ch' \<longrightarrow> ch_alive ch)"

lemma chan_keptI: "ch_peer ch' = ch_peer ch \<Longrightarrow> ch_closed ch' = ch_closed ch \<Longrightarrow> chan_kept ch ch'"
  by (simp add: chan_kept_def ch_alive_def)

lemma end_task_peer [simp]: "ch_peer (end_task tid ch) = ch_peer ch"
  by (simp add: end_task_def)

lemma drop_peer [simp]:
  "ch_peer (drop_in tid ch) = ch_peer ch" "ch_closed (drop_in tid ch) = ch_closed ch"
  "ch_peer (drop_out tid ch) = ch_peer ch" "ch_peer (remove_tmp n ch) = ch_peer ch" "ch_closed (remove_tmp n ch) = ch_closed ch"
  by (simp_all add: drop_in_def drop_out_def remove_tmp_def split: option.splits)

lemma cancel_peer [simp]: "ch_peer (cancel_transfer env tid ch) = ch_peer ch" "ch_closed (cancel_transfer env tid ch) = ch_closed ch"
  by (simp_all add: cancel_transfer_def)

lemma accept_peer [simp]: "ch_peer (accept_inbound env tid n s ch) = ch_peer ch" "ch_closed (accept_inbound env tid n s ch) = ch_closed ch"
  by (simp_all add: accept_inbound_def Let_def)

lemma control_peer [simp]: "ch_peer (handle_control_msg env msg ch) = ch_peer ch" "ch_closed (handle_control_msg env msg ch) = ch_closed ch"
  by (cases msg; simp add: Let_def split: option.splits)+

lemma finish_peer: "finish_inbound env tid t ch = Some ch' \<Longrightarrow> ch_peer ch' = ch_peer ch \<and> ch_closed ch' = ch_closed ch"
  by (auto simp: finish_inbound_def split: option.splits if_splits)

lemma finish_peer':
  "finish_inbound env tid t ch1 = Some ch' \<Longrightarrow> ch_peer ch1 = ch_peer ch \<Longrightarrow> ch_closed ch1 = ch_closed ch \<Longrightarrow>
   ch_peer ch' = ch_peer ch \<and> ch_closed ch' = ch_closed ch"
  using finish_peer by auto

lemma some_ifE: "(if c then a else b) = Some x \<Longrightarrow> (c \<Longrightarrow> a = Some x \<Longrightarrow> Q) \<Longrightarrow> (\<not> c \<Longrightarrow> b = Some x \<Longrightarrow> Q) \<Longrightarrow> Q"
  by (cases c) auto

lemma media_peer: "handle_media_frame env fr ch = Some ch' \<Longrightarrow> ch_peer ch' = ch_peer ch \<and> ch_closed ch' = ch_closed ch"
  unfolding handle_media_frame_def Let_def
  by (split option.splits; (elim some_ifE)?; (split option.splits)?; (elim some_ifE)?; (erule finish_peer')?; clarsimp)

lemma push_peer [simp]: "ch_peer (task_step env tid ch) = ch_peer ch" "ch_closed (task_step env tid ch) = ch_closed ch"
  by (auto simp: task_step_def push_chunk_def Let_def split: option.splits push_phase.splits list.splits file_read.splits bool.splits)

lemma send_peer [simp]:
  "ch_peer (snd (send_text env txt ch)) = ch_peer ch" "ch_closed (snd (send_text env txt ch)) = ch_closed ch"
  "ch_peer (snd (send_file env lf ch)) = ch_peer ch" "ch_closed (snd (send_file env lf ch)) = ch_closed ch"
  by (auto simp: send_text_def send_file_def Let_def split: option.splits prod.splits)

lemma fold_remove_peer:
  "ch_peer (fold (\<lambda>(_, t). remove_tmp (ib_tmp t)) ts ch) = ch_peer ch"
  "ch_closed (fold (\<lambda>(_, t). remove_tmp (ib_tmp t)) ts ch) = ch_closed ch"
  by (induction ts arbitrary: ch) (simp_all add: case_prod_unfold)

lemma fold_on_task_peer:
  "ch_peer (fold (\<lambda>(tid, _). on_task tid f) ts ch) = ch_peer ch"
  "ch_closed (fold (\<lambda>(tid, _). on_task tid f) ts ch) = ch_closed ch"
  by (induction ts arbitrary: ch) (simp_all add: case_prod_unfold)

lemma close_kept: "ch_peer (close_channel ch) = ch_peer ch \<and> \<not> ch_alive (close_channel ch)"
  by (auto simp: close_channel_def ch_alive_def Let_def fold_remove_peer fold_on_task_peer)

lemma step_kept: "chan_step ch ch' \<Longrightarrow> chan_kept ch ch'"
proof (induction rule: chan_step.induct)
  case (step_close ch)
  then show ?case using close_kept by (simp add: chan_kept_def)
next
  case (step_recv env r ch ch')
  show ?case
  proof (cases "r = ChanEnd")
    case True
    then show ?thesis using step_recv close_kept [of ch] by (auto simp: chan_kept_def)
  next
    case False
    then have "ch_peer ch' = ch_peer ch \<and> ch_closed ch' = ch_closed ch"
      using step_recv by (cases "(env, r, ch)" rule: recv_step.cases) (auto dest: media_peer split: if_splits)
    then show ?thesis by (simp add: chan_keptI)
  qed
qed (simp_all add: chan_keptI)

text \<open>The sessions belong to their peers, and every live channel is among them.\<close>

definition linked :: "(string \<Rightarrow> nat option) \<Rightarrow> channel list \<Rightarrow> bool" where
  "linked f cs \<longleftrightarrow> (\<forall>p h. f p = Some h \<longrightarrow> h < length cs \<and> ch_peer (cs ! h) = p) \<and>
     (\<forall>h < length cs. ch_alive (cs ! h) \<longrightarrow> f (ch_peer (cs ! h)) = Some h)"

definition mgr_inv :: "manager \<Rightarrow> bool" where
  "mgr_inv m \<longleftrightarrow> distinct (map fst (cm_sessions m)) \<and> linked (map_of (cm_sessions m)) (cm_chans m)"

lemma linked_put: "linked f cs \<Longrightarrow> h < length cs \<Longrightarrow> chan_kept (cs ! h) c \<Longrightarrow> linked f (cs[h := c])"
  by (auto simp: linked_def chan_kept_def nth_list_update)

lemma linked_drop: "linked f cs \<Longrightarrow> \<forall>h. f p = Some h \<longrightarrow> \<not> ch_alive (cs ! h) \<Longrightarrow> linked (f(p := None)) cs"
  by (auto simp: linked_def)

lemma linked_add:
  assumes "linked f cs" and "\<forall>h. f (ch_peer c) = Some h \<longrightarrow> \<not> ch_alive (cs ! h)"
  shows "linked (f(ch_peer c \<mapsto> length cs)) (cs @ [c])"
proof -
  have "ch_alive (cs ! h) \<longrightarrow> ch_peer (cs ! h) \<noteq> ch_peer c" if "h < length cs" for h
    using assms that unfolding linked_def by metis
  then show ?thesis using assms(1) unfolding linked_def by (auto simp: nth_append less_Suc_eq)
qed

lemma put_chan_simps [simp]:
  "cm_sessions (put_chan h ch m) = cm_sessions m" "cm_chans (put_chan h ch m) = (cm_chans m)[h := ch]"
  by (simp_all add: put_chan_def)

lemma inv_put: "mgr_inv m \<Longrightarrow> h < length (cm_chans m) \<Longrightarrow> chan_kept (cm_chans m ! h) ch' \<Longrightarrow> mgr_inv (put_chan h ch' m)"
  by (simp add: mgr_inv_def linked_put)

lemma close_keeps: "chan_kept ch (close_channel ch)"
  using close_kept [of ch] by (simp add: chan_kept_def)

lemma inv_register:
  assumes i: "mgr_inv m"
  shows "mgr_inv (snd (register_session disk peer_id peer_name m))"
proof -
  define ch where "ch = channel_new peer_id peer_name (cm_auto m) (disk (cm_out_dir m))"
  have p: "ch_peer ch = peer_id" by (simp add: ch_def channel_new_def)
  have l: "linked (map_of (cm_sessions m)) (cm_chans m)" using i by (simp add: mgr_inv_def)
  define m' where "m' = snd (register_session disk peer_id peer_name m)"
  have s: "cm_sessions m' = AList.update peer_id (length (cm_chans m)) (cm_sessions m)"
    by (simp add: m'_def register_session_def Let_def split: option.splits)
  have "linked ((map_of (cm_sessions m))(peer_id \<mapsto> length (cm_chans m))) (cm_chans m')"
  proof (cases "map_of (cm_sessions m) peer_id")
    case None
    then have "cm_chans m' = cm_chans m @ [ch]" by (simp add: m'_def register_session_def Let_def ch_def)
    then show ?thesis using linked_add [OF l, of ch] None p by simp
  next
    case (Some old)
    then have o: "old < length (cm_chans m)" using l by (auto simp: linked_def)
    have c: "cm_chans m' = (cm_chans m)[old := close_channel (cm_chans m ! old)] @ [ch]"
      using Some o by (simp add: m'_def register_session_def Let_def ch_def nth_append list_update_append1)
    show ?thesis
      using linked_add [OF linked_put [OF l o close_keeps], of ch] Some o p close_kept [of "cm_chans m ! old"]
      by (simp add: c)
  qed
  then show ?thesis using i s by (simp add: mgr_inv_def m'_def [symmetric] update_conv' distinct_update)
qed

lemma inv_get: "mgr_inv m \<Longrightarrow> get_session p m = (r, m') \<Longrightarrow>
  mgr_inv m' \<and> cm_chans m' = cm_chans m \<and> (\<forall>h. r = Some h \<longrightarrow> h < length (cm_chans m))"
  by (auto simp: get_session_def mgr_inv_def delete_conv' distinct_delete linked_drop split: option.splits if_splits)
     (auto simp: linked_def)

lemma linked_live: "linked f cs \<Longrightarrow> linked (\<lambda>p. case f p of None \<Rightarrow> None | Some h \<Rightarrow> if ch_alive (cs ! h) then Some h else None) cs"
  by (auto simp: linked_def split: option.splits if_splits)

lemma map_of_live:
  "distinct (map fst xs) \<Longrightarrow>
   map_of (filter (\<lambda>(_, h). P h) xs) = (\<lambda>p. case map_of xs p of None \<Rightarrow> None | Some h \<Rightarrow> if P h then Some h else None)"
proof (rule ext)
  fix p assume "distinct (map fst xs)"
  then show "map_of (filter (\<lambda>(_, h). P h) xs) p = (case map_of xs p of None \<Rightarrow> None | Some h \<Rightarrow> if P h then Some h else None)"
  proof (induction xs)
    case (Cons x xs)
    have "map_of xs (fst x) = None" using Cons.prems by (simp add: map_of_eq_None_iff)
    then show ?case using Cons by (cases x) auto
  qed simp
qed

lemma inv_list: "mgr_inv m \<Longrightarrow> mgr_inv (snd (list_statuses m))"
  using linked_live [of "map_of (cm_sessions m)" "cm_chans m"]
  by (simp add: mgr_inv_def list_statuses_def Let_def map_of_live distinct_map_filter)

lemma inv_close_session: "mgr_inv m \<Longrightarrow> mgr_inv (close_session p m)"
proof -
  assume i: "mgr_inv m"
  show ?thesis
  proof (cases "map_of (cm_sessions m) p")
    case (Some h)
    then have h: "h < length (cm_chans m)" using i by (auto simp: mgr_inv_def linked_def)
    have "linked (map_of (cm_sessions m)) ((cm_chans m)[h := close_channel (cm_chans m ! h)])"
      using i h close_keeps by (simp add: mgr_inv_def linked_put)
    then have "linked ((map_of (cm_sessions m))(p := None)) ((cm_chans m)[h := close_channel (cm_chans m ! h)])"
      using Some h close_kept [of "cm_chans m ! h"] by (intro linked_drop) auto
    then show ?thesis using i Some by (simp add: close_session_def mgr_inv_def delete_conv' distinct_delete)
  qed (use i in \<open>simp add: close_session_def\<close>)
qed

lemma inv_with_session:
  assumes i: "mgr_inv m" and g: "get_session p m = (Some h, m1)" and k: "chan_kept (cm_chans m1 ! h) ch"
  shows "mgr_inv (put_chan h ch m1)"
  using inv_get [OF i g] k by (simp add: inv_put)

lemma inv_mgr_step: "mgr_step m m' \<Longrightarrow> mgr_inv m \<Longrightarrow> mgr_inv m'"
proof (induction rule: mgr_step.induct)
  case (mgr_connect m disk connects base self_id self_name peer_id peer_name)
  obtain h m1 where r: "register_session disk peer_id peer_name m = (h, m1)" by fastforce
  show ?case using inv_register [OF mgr_connect, of disk peer_id peer_name] mgr_connect r by (simp add: connect_channel_def)
next
  case (mgr_get m peer_id)
  then show ?case using inv_get by (metis prod.collapse)
next
  case (mgr_text m env peer_id s)
  obtain r m1 where g: "get_session peer_id m = (r, m1)" by fastforce
  show ?case
  proof (cases r)
    case None
    then show ?thesis using inv_get [OF mgr_text g] g by (simp add: mgr_send_text_def)
  next
    case (Some h)
    show ?thesis using inv_with_session [OF mgr_text g [unfolded Some] step_kept [OF step_text]] g Some
      by (simp add: mgr_send_text_def case_prod_unfold Let_def)
  qed
next
  case (mgr_file m env peer_id lf)
  obtain r m1 where g: "get_session peer_id m = (r, m1)" by fastforce
  show ?case
  proof (cases r)
    case None
    then show ?thesis using inv_get [OF mgr_file g] g by (simp add: mgr_send_file_def)
  next
    case (Some h)
    show ?thesis using inv_with_session [OF mgr_file g [unfolded Some] step_kept [OF step_file]] g Some
      by (simp add: mgr_send_file_def case_prod_unfold Let_def)
  qed
next
  case (mgr_stop m env peer_id tid)
  obtain r m1 where g: "get_session peer_id m = (r, m1)" by fastforce
  show ?case
  proof (cases r)
    case None
    then show ?thesis using inv_get [OF mgr_stop g] g by (simp add: mgr_cancel_def)
  next
    case (Some h)
    show ?thesis using inv_with_session [OF mgr_stop g [unfolded Some] step_kept [OF step_cancel]] g Some
      by (simp add: mgr_cancel_def)
  qed
next
  case (mgr_dir m d)
  then show ?case by (simp add: set_out_dir_def mgr_inv_def)
qed (auto intro: inv_register inv_list inv_close_session inv_put step_kept)

lemma inv_mgr_steps: "mgr_step\<^sup>*\<^sup>* m m' \<Longrightarrow> mgr_inv m \<Longrightarrow> mgr_inv m'"
  by (induction rule: rtranclp_induct) (auto intro: inv_mgr_step)

lemma inv_manager_new: "mgr_inv (manager_new d a)"
  by (simp add: mgr_inv_def linked_def manager_new_def)

lemma listed_live:
  assumes i: "mgr_inv m"
  shows "set (map fst (filter (\<lambda>(_, h). ch_alive (cm_chans m ! h)) (cm_sessions m))) = ch_peer ` {ch \<in> set (cm_chans m). ch_alive ch}"
proof (intro set_eqI iffI)
  fix p assume "p \<in> set (map fst (filter (\<lambda>(_, h). ch_alive (cm_chans m ! h)) (cm_sessions m)))"
  then obtain h where h: "(p, h) \<in> set (cm_sessions m)" "ch_alive (cm_chans m ! h)" by auto
  then have "map_of (cm_sessions m) p = Some h" using i by (simp add: mgr_inv_def)
  then have "h < length (cm_chans m)" "ch_peer (cm_chans m ! h) = p" using i by (auto simp: mgr_inv_def linked_def)
  then show "p \<in> ch_peer ` {ch \<in> set (cm_chans m). ch_alive ch}" using h(2) by force
next
  fix p assume "p \<in> ch_peer ` {ch \<in> set (cm_chans m). ch_alive ch}"
  then obtain h where h: "h < length (cm_chans m)" "ch_alive (cm_chans m ! h)" "p = ch_peer (cm_chans m ! h)"
    by (auto simp: in_set_conv_nth)
  then have "map_of (cm_sessions m) p = Some h" using i by (auto simp: mgr_inv_def linked_def)
  then have "(p, h) \<in> set (cm_sessions m)" by (rule map_of_SomeD)
  then show "p \<in> set (map fst (filter (\<lambda>(_, h). ch_alive (cm_chans m ! h)) (cm_sessions m)))" using h(2) by force
qed



text \<open>Replacing a live session announces the new connection first and the end of the old one after it, both under the
  same peer, so whoever follows the events ends with a peer that is gone.\<close>

lemma replacement_ends_disconnected:
  assumes "mgr_inv m" and "map_of (cm_sessions m) p = Some old" and "ch_alive (cm_chans m ! old)"
  shows "cm_events (snd (register_session disk p name m)) = cm_events m @ [EvConnected p name, EvDisconnected p]"
proof -
  have o: "old < length (cm_chans m)" "ch_peer (cm_chans m ! old) = p" using assms(1,2) by (auto simp: mgr_inv_def linked_def)
  have f: "ch_events (fold (\<lambda>(_, t). remove_tmp (ib_tmp t)) ts ch) = ch_events ch" for ts ch
    by (induction ts arbitrary: ch) (simp_all add: case_prod_unfold remove_tmp_def)
  have g: "ch_events (fold (\<lambda>(tid, _). on_task tid f) ts ch) = ch_events ch" for ts :: "(u32 \<times> outbound_transfer) list" and ch f
    by (induction ts arbitrary: ch) (simp_all add: case_prod_unfold)
  have "ch_events (close_channel ch) = ch_events ch @ [EvDisconnected (ch_peer ch)]" if "ch_alive ch" for ch
    using that by (simp add: close_channel_def ch_alive_def Let_def f g fold_remove_peer fold_on_task_peer)
  then show ?thesis using assms o
    by (simp add: register_session_def Let_def put_chan_def nth_append channel_new_def)
qed

text \<open>The name in the address of a channel is encoded without loss: decoding it gives the name back, whatever its
  characters, and nothing in it can end the parameter or start another one.\<close>

lemma channel_url_name:
  "\<exists>e. channel_url base self_id self_name = ws_base base @ ''/ws/channel?peer_id='' @ self_id @ ''&peer_name='' @ e \<and>
     percent_decode e = Some self_name \<and> list_all (\<lambda>c. unreserved c \<or> c = CHR ''%'') e"
  using percent_roundtrip percent_encoded_chars by (auto simp: channel_url_def list_all_iff)

end
