(* ===== verification/Scale.thy ===== *)
theory Scale
  imports Prelude "HOL-Library.Monad_Syntax"
begin

text \<open>
  Bilinear scaling of RGBA pictures in 12-bit fixed point (\<open>stross-endpoint/src/convert/rgba.rs\<close>).  \<open>usize\<close>
  is a natural number; the products of \<open>u32\<close> values wrap.  An index out of range is the outer \<open>None\<close>; the
  source's own \<open>None\<close> is the inner one.
\<close>

section \<open>Sampling positions\<close>

definition FP_ONE :: nat where
  "FP_ONE = 4096"

definition u32_mul :: "nat \<Rightarrow> nat \<Rightarrow> nat" where
  "u32_mul a b = a * b mod 4294967296"

lemma u32_mul_exact: "a * b < 4294967296 \<Longrightarrow> u32_mul a b = a * b"
  by (simp add: u32_mul_def)

text \<open>The two neighbours of an output coordinate and the weight of the second, for a scale factor
  and the size of the source.\<close>

record sample_pos =
  sa_lo :: nat
  sa_hi :: nat
  sa_frac :: nat

definition scale_factor :: "nat \<Rightarrow> nat \<Rightarrow> nat" where
  "scale_factor src dst = src * FP_ONE div dst"

definition sample_at :: "nat \<Rightarrow> nat \<Rightarrow> nat \<Rightarrow> sample_pos" where
  "sample_at scale limit i =
     (let s = sat_add64 (i * scale) (scale div 2) - FP_ONE div 2;
          lo = min (s div FP_ONE) (limit - 1)
      in \<lparr> sa_lo = lo, sa_hi = min (lo + 1) (limit - 1), sa_frac = s mod FP_ONE \<rparr>)"

definition lerp :: "nat \<Rightarrow> nat \<Rightarrow> nat \<Rightarrow> nat" where
  "lerp a b frac = (a * (FP_ONE - frac) + b * frac + 2048) div FP_ONE"

lemma sample_at_range:
  assumes "0 < limit"
  shows "sa_lo (sample_at scale limit i) < limit" "sa_hi (sample_at scale limit i) < limit"
    "sa_frac (sample_at scale limit i) < FP_ONE"
    "sa_lo (sample_at scale limit i) \<le> sa_hi (sample_at scale limit i)"
  using assms by (simp_all add: sample_at_def Let_def FP_ONE_def min_less_iff_disj)

text \<open>An interpolated value lies between the two it is made of: no overflow, no extrapolation.\<close>

lemma lerp_between:
  assumes "frac \<le> FP_ONE" and "lo \<le> a" "lo \<le> b" and "a \<le> hi" "b \<le> hi"
  shows "lo \<le> lerp a b frac \<and> lerp a b frac \<le> hi"
proof -
  let ?s = "a * (FP_ONE - frac) + b * frac"
  have w: "x * (FP_ONE - frac) + x * frac = x * FP_ONE" for x
    using assms(1) by (simp flip: add_mult_distrib2)
  have "lo * FP_ONE \<le> ?s" "?s \<le> hi * FP_ONE"
    using assms(2-5) w [of lo] w [of hi]
    by (metis add_mono mult_le_mono1)+
  then have "lo * 4096 \<le> ?s + 2048" "?s + 2048 < (hi + 1) * 4096" by (simp_all add: FP_ONE_def)
  then have "lo \<le> (?s + 2048) div 4096" "(?s + 2048) div 4096 < hi + 1"
    by (simp_all only: less_eq_div_iff_mult_less_eq div_less_iff_less_mult zero_less_numeral)
  then show ?thesis by (simp add: lerp_def FP_ONE_def)
qed


section \<open>Scaling into a buffer\<close>

definition at :: "'a list \<Rightarrow> nat \<Rightarrow> 'a option" where
  "at xs i = (if i < length xs then Some (xs ! i) else None)"

lemma at_in: "i < length xs \<Longrightarrow> at xs i = Some (xs ! i)"
  by (simp add: at_def)

text \<open>A row of the source, and one channel of one output pixel.\<close>

definition row_of :: "bytes \<Rightarrow> nat \<Rightarrow> nat \<Rightarrow> bytes option" where
  "row_of src stride y = (if y * stride + stride \<le> length src then Some (bslice (y * stride) (y * stride + stride) src) else None)"

definition rgba_channel :: "bytes \<Rightarrow> bytes \<Rightarrow> sample_pos \<Rightarrow> nat \<Rightarrow> nat \<Rightarrow> u8 option" where
  "rgba_channel row0 row1 sx fy c =
     do { a \<leftarrow> at row0 (sa_lo sx * 4 + c); b \<leftarrow> at row0 (sa_hi sx * 4 + c);
          d \<leftarrow> at row1 (sa_lo sx * 4 + c); e \<leftarrow> at row1 (sa_hi sx * 4 + c);
          let top = lerp (unat a) (unat b) (sa_frac sx); bot = lerp (unat d) (unat e) (sa_frac sx) in
          Some (word_of_nat (lerp top bot fy)) }"

text \<open>A loop that produces one part per index, and stops at the first failure.\<close>

fun collect :: "(nat \<Rightarrow> 'a list option) \<Rightarrow> nat list \<Rightarrow> 'a list option" where
  "collect f [] = Some []"
| "collect f (i # is) = do { xs \<leftarrow> f i; ys \<leftarrow> collect f is; Some (xs @ ys) }"

definition rgba_row :: "bytes \<Rightarrow> nat \<Rightarrow> nat \<Rightarrow> nat \<Rightarrow> nat \<Rightarrow> nat \<Rightarrow> nat \<Rightarrow> bytes option" where
  "rgba_row src w h scale_x scale_y tw oy =
     (let sy = sample_at scale_y h oy in
      do { row0 \<leftarrow> row_of src (w * 4) (sa_lo sy);
           row1 \<leftarrow> row_of src (w * 4) (sa_hi sy);
           collect (\<lambda>ox. collect (\<lambda>c. map_option (\<lambda>b. [b]) (rgba_channel row0 row1 (sample_at scale_x w ox) (sa_frac sy) c)) [0..<4])
             [0..<tw] })"

text \<open>The pixels written to the front of \<open>out\<close>; the bytes behind them stay.  A zero size divides by
  zero or underflows.\<close>

definition rgba_scaled_into :: "bytes \<Rightarrow> nat \<Rightarrow> nat \<Rightarrow> bytes \<Rightarrow> nat \<Rightarrow> nat \<Rightarrow> bytes option option" where
  "rgba_scaled_into src w h out tw th =
     (let needed = tw * th * 4 in
      if length src < w * h * 4 \<or> length out < needed then Some None
      else if tw = 0 \<or> th = 0 \<or> w = 0 \<or> h = 0 then None
      else map_option (\<lambda>px. Some (px @ drop needed out))
        (collect (rgba_row src w h (scale_factor w tw) (scale_factor h th) tw) [0..<th]))"

definition rgba_scaled :: "bytes \<Rightarrow> nat \<Rightarrow> nat \<Rightarrow> nat \<Rightarrow> (nat \<times> nat \<times> bytes) option option" where
  "rgba_scaled src w h max_w =
     (if w = 0 \<or> h = 0 then Some None
      else
        let tw = min w (max max_w 1);
            th = max (u32_mul h tw div w) 1;
            needed = u32_mul (u32_mul tw th) 4
        in
        if length src < u32_mul (u32_mul w h) 4 then Some None
        else if tw = w \<and> th = h then
          (if needed \<le> length src then Some (Some (tw, th, take needed src)) else None)
        else
          do { r \<leftarrow> rgba_scaled_into src w h (replicate needed 0) tw th;
               Some (map_option (\<lambda>out. (tw, th, out)) r) })"


section \<open>The result\<close>

text \<open>Every part of a loop is as long as expected and its bytes have the property; so has the whole.\<close>

definition part_ok :: "nat \<Rightarrow> ('a \<Rightarrow> bool) \<Rightarrow> 'a list option \<Rightarrow> bool" where
  "part_ok n P r \<longleftrightarrow> (\<exists>xs. r = Some xs \<and> length xs = n \<and> (\<forall>x \<in> set xs. P x))"

lemma collect_ok: "(\<And>i. i \<in> set is \<Longrightarrow> part_ok n P (f i)) \<Longrightarrow> part_ok (n * length is) P (collect f is)"
proof (induction "is")
  case (Cons i "is")
  obtain xs ys where "f i = Some xs" "length xs = n" "\<forall>x \<in> set xs. P x"
    "collect f is = Some ys" "length ys = n * length is" "\<forall>y \<in> set ys. P y"
    using Cons.IH Cons.prems unfolding part_ok_def by (metis list.set_intros)
  then show ?case by (auto simp: part_ok_def)
qed (simp add: part_ok_def)

definition byte_between :: "nat \<Rightarrow> nat \<Rightarrow> u8 \<Rightarrow> bool" where
  "byte_between lo hi b \<longleftrightarrow> lo \<le> unat b \<and> unat b \<le> hi"

lemma rgba_channel_ok:
  assumes "length row0 = w * 4" "length row1 = w * 4" and "0 < w" and "fy < FP_ONE" and "c < 4"
    and "\<forall>b \<in> set row0 \<union> set row1. byte_between lo hi b" and "hi \<le> 255"
  shows "part_ok 1 (byte_between lo hi) (map_option (\<lambda>b. [b]) (rgba_channel row0 row1 (sample_at sc w ox) fy c))"
proof -
  let ?s = "sample_at sc w ox"
  have i: "sa_lo ?s * 4 + c < w * 4" "sa_hi ?s * 4 + c < w * 4"
    using sample_at_range(1,2) [OF assms(3), of sc ox] assms(5) by linarith+
  have f: "sa_frac ?s \<le> FP_ONE" "fy \<le> FP_ONE" using sample_at_range(3) [OF assms(3), of sc ox] assms(4) by simp_all
  have b: "lo \<le> unat (r ! k) \<and> unat (r ! k) \<le> hi" if "r = row0 \<or> r = row1" "k < w * 4" for r k
    using that assms(1,2,6) by (auto simp: byte_between_def)
  let ?t = "\<lambda>r. lerp (unat (r ! (sa_lo ?s * 4 + c))) (unat (r ! (sa_hi ?s * 4 + c))) (sa_frac ?s)"
  have t: "lo \<le> ?t r \<and> ?t r \<le> hi" if "r = row0 \<or> r = row1" for r
    by (rule lerp_between [OF f(1)]) (use b [OF that] i in simp_all)
  have v: "lo \<le> lerp (?t row0) (?t row1) fy \<and> lerp (?t row0) (?t row1) fy \<le> hi"
    by (rule lerp_between [OF f(2)]) (use t in simp_all)
  then have "unat (word_of_nat (lerp (?t row0) (?t row1) fy) :: u8) = lerp (?t row0) (?t row1) fy"
    using assms(7) by (simp add: unsigned_of_nat take_bit_nat_eq_self)
  then show ?thesis using v i assms(1,2) by (simp add: rgba_channel_def at_in part_ok_def byte_between_def)
qed

lemma rgba_row_ok:
  assumes "w * h * 4 \<le> length src" and "0 < w" "0 < h" and "\<forall>b \<in> set src. byte_between lo hi b" and "hi \<le> 255"
  shows "part_ok (4 * tw) (byte_between lo hi) (rgba_row src w h sx sy tw oy)"
proof -
  let ?s = "sample_at sy h oy"
  have r: "\<exists>row. row_of src (w * 4) y = Some row \<and> length row = w * 4 \<and> (\<forall>b \<in> set row. byte_between lo hi b)" if "y < h" for y
  proof -
    have "y * (w * 4) + w * 4 \<le> w * h * 4"
      using mult_le_mono1 [of "Suc y" h "w * 4"] that by (simp add: algebra_simps)
    then have "y * (w * 4) + w * 4 \<le> length src" using assms(1) by linarith
    then show ?thesis using assms(4)
      by (auto simp: row_of_def length_bslice bslice_def dest!: in_set_takeD in_set_dropD)
  qed
  obtain row0 row1 where rows: "row_of src (w * 4) (sa_lo ?s) = Some row0" "row_of src (w * 4) (sa_hi ?s) = Some row1"
    "length row0 = w * 4" "length row1 = w * 4" "\<forall>b \<in> set row0 \<union> set row1. byte_between lo hi b"
    using r [OF sample_at_range(1) [OF assms(3)]] r [OF sample_at_range(2) [OF assms(3)]] by blast
  have f: "sa_frac ?s < FP_ONE" by (rule sample_at_range(3) [OF assms(3)])
  have px: "part_ok (1 * length [0..<4]) (byte_between lo hi)
      (collect (\<lambda>c. map_option (\<lambda>b. [b]) (rgba_channel row0 row1 (sample_at sx w ox) (sa_frac ?s) c)) [0..<4])" for ox
    by (rule collect_ok) (rule rgba_channel_ok [OF rows(3,4) assms(2) f _ rows(5) assms(5)], simp)
  have "part_ok (4 * length [0..<tw]) (byte_between lo hi)
      (collect (\<lambda>ox. collect (\<lambda>c. map_option (\<lambda>b. [b]) (rgba_channel row0 row1 (sample_at sx w ox) (sa_frac ?s) c)) [0..<4]) [0..<tw])"
    by (rule collect_ok) (use px in simp)
  then show ?thesis by (simp add: rgba_row_def rows(1,2))
qed

lemma rgba_scaled_into_ok:
  assumes "w * h * 4 \<le> length src" and "tw * th * 4 \<le> length out" and "0 < w" "0 < h" "0 < tw" "0 < th"
    and "\<forall>b \<in> set src. byte_between lo hi b" and "hi \<le> 255"
  shows "\<exists>px. rgba_scaled_into src w h out tw th = Some (Some (px @ drop (tw * th * 4) out)) \<and>
    length px = tw * th * 4 \<and> (\<forall>b \<in> set px. byte_between lo hi b)"
proof -
  have "part_ok (4 * tw * length [0..<th]) (byte_between lo hi) (collect (rgba_row src w h (scale_factor w tw) (scale_factor h th) tw) [0..<th])"
    by (rule collect_ok) (rule rgba_row_ok [OF assms(1,3,4,7,8)])
  then obtain px where "collect (rgba_row src w h (scale_factor w tw) (scale_factor h th) tw) [0..<th] = Some px"
    "length px = 4 * tw * th" "\<forall>b \<in> set px. byte_between lo hi b" unfolding part_ok_def by auto
  then show ?thesis using assms by (simp add: rgba_scaled_into_def Let_def ac_simps)
qed

lemma bytes_between: "\<forall>b \<in> set (bs :: bytes). byte_between 0 255 b"
proof -
  have "unat b \<le> 255" for b :: u8
  proof -
    have "unat b < 2 ^ LENGTH(8)" by (rule unsigned_less)
    then show ?thesis by simp
  qed
  then show ?thesis by (simp add: byte_between_def)
qed

lemma rgba_scaled_into_total:
  assumes "0 < w" "0 < h" "0 < tw" "0 < th"
  shows "\<exists>r. rgba_scaled_into src w h out tw th = Some r \<and> (\<forall>out'. r = Some out' \<longrightarrow> length out' = length out) \<and>
    (r = None \<longleftrightarrow> length src < w * h * 4 \<or> length out < tw * th * 4)"
proof (cases "length src < w * h * 4 \<or> length out < tw * th * 4")
  case True
  then show ?thesis by (auto simp: rgba_scaled_into_def)
next
  case False
  then have l: "w * h * 4 \<le> length src" "tw * th * 4 \<le> length out" by simp_all
  have "(255 :: nat) \<le> 255" by simp
  from rgba_scaled_into_ok [OF l assms bytes_between this] obtain px where
    "rgba_scaled_into src w h out tw th = Some (Some (px @ drop (tw * th * 4) out))" "length px = tw * th * 4" by blast
  then show ?thesis using l False by auto
qed

end
