(* ===== verification/Resolution.thy ===== *)
theory Resolution
  imports Scale Rust_Text "HOL-Library.Log_Nat"
begin

text \<open>
  Resolution planning and the frame buffer in front of the encoder
  (\<open>stross-endpoint/src/pipeline/resolution.rs\<close>).  Widths and heights are natural numbers below \<open>2 ^ 32\<close>;
  the \<open>f64\<close> arithmetic of the plan is that of IEEE 754 on positive normal numbers: exact rationals,
  rounded to 53 bits, ties to even.
\<close>

section \<open>Binary64 on positive rationals\<close>

definition pow2 :: "int \<Rightarrow> rat" where
  "pow2 e = (if 0 \<le> e then 2 ^ nat e else 1 / 2 ^ nat (- e))"

definition half_even :: "rat \<Rightarrow> int" where
  "half_even x =
     (let f = \<lfloor>x\<rfloor>; r = x - of_int f in
      if r < 1 / 2 then f else if 1 / 2 < r then f + 1 else if even f then f else f + 1)"

definition rat_exponent :: "rat \<Rightarrow> int" where
  "rat_exponent x =
     (let (n, d) = quotient_of x; g = int (floorlog 2 (nat n)) - int (floorlog 2 (nat d))
      in if pow2 g \<le> x then g else g - 1)"

definition f64_round :: "rat \<Rightarrow> rat" where
  "f64_round x =
     (if x \<le> 0 then 0 else let e = rat_exponent x - 52 in of_int (half_even (x / pow2 e)) * pow2 e)"

definition f64_div :: "rat \<Rightarrow> rat \<Rightarrow> rat" where
  "f64_div a b = f64_round (a / b)"

definition f64_mul :: "rat \<Rightarrow> rat \<Rightarrow> rat" where
  "f64_mul a b = f64_round (a * b)"

text \<open>\<open>x.round() as u32\<close>: half away from zero, then saturating.\<close>

definition round_to_u32 :: "rat \<Rightarrow> nat" where
  "round_to_u32 x = nat (min \<lfloor>x + 1 / 2\<rfloor> 4294967295)"


section \<open>The plan\<close>

definition make_even :: "nat \<Rightarrow> nat" where
  "make_even v = max (v - v mod 2) 2"

record resolution_plan =
  rp_src_width :: nat
  rp_src_height :: nat
  rp_target_width :: nat
  rp_target_height :: nat

definition plan_scale :: "nat \<Rightarrow> nat \<Rightarrow> nat \<Rightarrow> nat \<Rightarrow> rat" where
  "plan_scale sw sh mw mh = min (f64_div (of_nat mw) (of_nat sw)) (f64_div (of_nat mh) (of_nat sh))"

definition resolution_fit :: "nat \<Rightarrow> nat \<Rightarrow> nat \<Rightarrow> nat \<Rightarrow> resolution_plan" where
  "resolution_fit src_w src_h max_w max_h =
     (let sw = make_even src_w; sh = make_even src_h; mw = make_even max_w; mh = make_even max_h in
      if sw \<le> mw \<and> sh \<le> mh
      then \<lparr> rp_src_width = sw, rp_src_height = sh, rp_target_width = sw, rp_target_height = sh \<rparr>
      else
        let scale = plan_scale sw sh mw mh;
            tw = make_even (round_to_u32 (f64_mul (of_nat sw) scale));
            th = make_even (round_to_u32 (f64_mul (of_nat sh) scale))
        in \<lparr> rp_src_width = sw, rp_src_height = sh,
             rp_target_width = (if mw < tw then make_even mw else tw),
             rp_target_height = (if mh < th then make_even mh else th) \<rparr>)"

definition ffmpeg_vf_scale :: "resolution_plan \<Rightarrow> string" where
  "ffmpeg_vf_scale p =
     (if rp_src_width p = rp_target_width p \<and> rp_src_height p = rp_target_height p then ''format=yuv420p''
      else ''scale='' @ show_nat (rp_target_width p) @ '':'' @ show_nat (rp_target_height p) @
           '':flags=fast_bilinear,format=yuv420p'')"

definition even_size :: "nat \<Rightarrow> bool" where
  "even_size v \<longleftrightarrow> even v \<and> 2 \<le> v"

lemma make_even_size [simp, intro]: "even_size (make_even v)"
  by (auto simp: make_even_def even_size_def max_def)

lemma make_even_fixed: "even_size v \<Longrightarrow> make_even v = v"
  by (auto simp: make_even_def even_size_def)

lemma make_even_le: "2 \<le> v \<Longrightarrow> make_even v \<le> v"
  by (auto simp: make_even_def)

text \<open>The plan is well-formed whatever the rounding does: even sizes, within the limits.\<close>

lemma plan_wellformed:
  assumes "p = resolution_fit src_w src_h max_w max_h"
  shows "even_size (rp_src_width p)" "even_size (rp_src_height p)" "even_size (rp_target_width p)"
    "even_size (rp_target_height p)" "rp_target_width p \<le> make_even max_w" "rp_target_height p \<le> make_even max_h"
  using make_even_fixed [OF make_even_size] by (auto simp: assms resolution_fit_def Let_def)

lemma plan_without_scaling:
  "make_even src_w \<le> make_even max_w \<Longrightarrow> make_even src_h \<le> make_even max_h \<Longrightarrow>
   ffmpeg_vf_scale (resolution_fit src_w src_h max_w max_h) = ''format=yuv420p''"
  by (simp add: resolution_fit_def Let_def ffmpeg_vf_scale_def)


section \<open>The frame buffer\<close>

record resolution_buffer =
  db_width :: nat
  db_height :: nat
  db_native :: bytes
  db_scaled :: bytes

definition buffer_new :: "nat \<Rightarrow> nat \<Rightarrow> resolution_buffer" where
  "buffer_new w h =
     (let ew = make_even w; eh = make_even h
      in \<lparr> db_width = ew, db_height = eh, db_native = replicate (ew * eh * 4) 0, db_scaled = [] \<rparr>)"

definition expected_size :: "resolution_buffer \<Rightarrow> nat \<times> nat" where
  "expected_size db = (db_width db, db_height db)"

definition current_buffer :: "resolution_buffer \<Rightarrow> bytes" where
  "current_buffer db = db_native db"

text \<open>\<open>buf[dst..dst + n].copy_from_slice(&data[src..src + n])\<close>; out of range it panics.\<close>

definition copy_slice :: "nat \<Rightarrow> nat \<Rightarrow> nat \<Rightarrow> bytes \<Rightarrow> bytes \<Rightarrow> bytes option" where
  "copy_slice dst src n data buf =
     (if dst + n \<le> length buf \<and> src + n \<le> length data
      then Some (take dst buf @ bslice src (src + n) data @ drop (dst + n) buf) else None)"

text \<open>Row by row, with the stride taken out; rows that do not fit are left as they are.\<close>

fun copy_rows :: "nat list \<Rightarrow> nat \<Rightarrow> nat \<Rightarrow> nat \<Rightarrow> bytes \<Rightarrow> bytes \<Rightarrow> bytes option" where
  "copy_rows [] stride row_len total_len data buf = Some buf"
| "copy_rows (y # ys) stride row_len total_len data buf =
     (if y * stride + row_len \<le> length data \<and> y * row_len + row_len \<le> total_len
      then do { buf \<leftarrow> copy_slice (y * row_len) (y * stride) row_len data buf; copy_rows ys stride row_len total_len data buf }
      else copy_rows ys stride row_len total_len data buf)"

definition compact_frame :: "nat \<Rightarrow> nat \<Rightarrow> nat \<Rightarrow> nat \<Rightarrow> bytes \<Rightarrow> bytes \<Rightarrow> bytes option" where
  "compact_frame height stride row_len total_len data buf =
     (if stride = row_len then copy_slice 0 0 total_len data buf else copy_rows [0..<height] stride row_len total_len data buf)"

definition ingest_frame ::
  "nat \<Rightarrow> nat \<Rightarrow> nat \<Rightarrow> bytes \<Rightarrow> resolution_buffer \<Rightarrow> (bool \<times> resolution_buffer) option" where
  "ingest_frame width height stride data db =
     (if width = 0 \<or> height = 0 then Some (False, db)
      else
        let ew = db_width db; eh = db_height db; row_len = ew * 4; total_len = ew * eh * 4 in
        if width = ew \<and> height = eh then
          (if length data < total_len then Some (False, db)
           else map_option (\<lambda>buf. (True, db\<lparr>db_native := buf\<rparr>)) (compact_frame eh stride row_len total_len data (db_native db)))
        else
          let incoming_row = width * 4; incoming_len = width * height * 4;
              scaled = db_scaled db @ replicate (incoming_len - length (db_scaled db)) 0;
              db = db\<lparr>db_scaled := scaled\<rparr>
          in
            if stride = incoming_row \<and> length data < incoming_len then Some (False, db)
            else
              do { scaled \<leftarrow> compact_frame height stride incoming_row incoming_len data scaled;
                   let db = db\<lparr>db_scaled := scaled\<rparr>;
                   r \<leftarrow> rgba_scaled_into (take incoming_len scaled) width height (db_native db) ew eh;
                   Some (case r of None \<Rightarrow> (False, db) | Some out \<Rightarrow> (True, db\<lparr>db_native := out\<rparr>)) })"


section \<open>The buffer keeps its type\<close>

text \<open>Even sizes, and exactly one frame of them in the buffer.\<close>

definition buffer_ok :: "resolution_buffer \<Rightarrow> bool" where
  "buffer_ok db \<longleftrightarrow> even_size (db_width db) \<and> even_size (db_height db) \<and>
     length (db_native db) = db_width db * db_height db * 4"

lemma buffer_ok_new: "buffer_ok (buffer_new w h)"
  by (simp add: buffer_ok_def buffer_new_def Let_def)

lemma copy_slice_length: "copy_slice dst src n data buf = Some buf' \<Longrightarrow> length buf' = length buf"
  by (auto simp: copy_slice_def length_bslice split: if_splits)

lemma copy_rows_total: "total_len \<le> length buf \<Longrightarrow> \<exists>buf'. copy_rows ys stride row_len total_len data buf = Some buf' \<and> length buf' = length buf"
proof (induction ys arbitrary: buf)
  case (Cons y ys)
  show ?case
  proof (cases "y * stride + row_len \<le> length data \<and> y * row_len + row_len \<le> total_len")
    case True
    then obtain buf1 where b: "copy_slice (y * row_len) (y * stride) row_len data buf = Some buf1"
      using Cons.prems by (auto simp: copy_slice_def)
    then show ?thesis using Cons.IH [of buf1] Cons.prems True copy_slice_length [OF b] by simp
  next
    case False
    show ?thesis unfolding copy_rows.simps if_not_P [OF False] by (rule Cons.IH [OF Cons.prems])
  qed
qed simp

lemma compact_total:
  assumes "total_len \<le> length buf" and "stride = row_len \<Longrightarrow> total_len \<le> length data"
  shows "\<exists>buf'. compact_frame height stride row_len total_len data buf = Some buf' \<and> length buf' = length buf"
proof (cases "stride = row_len")
  case True
  then obtain buf' where "copy_slice 0 0 total_len data buf = Some buf'" using assms by (simp add: copy_slice_def)
  then show ?thesis using True copy_slice_length by (auto simp: compact_frame_def)
next
  case False
  then show ?thesis using copy_rows_total [OF assms(1)] by (simp add: compact_frame_def)
qed

lemma ingest_ok:
  assumes "buffer_ok db"
  shows "\<exists>ok db'. ingest_frame width height stride data db = Some (ok, db') \<and> buffer_ok db' \<and> expected_size db' = expected_size db"
proof -
  have p: "0 < db_width db" "0 < db_height db" and len: "length (db_native db) = db_width db * db_height db * 4"
    using assms by (auto simp: buffer_ok_def even_size_def)
  consider "width = 0 \<or> height = 0" | "width = db_width db" "height = db_height db" "width \<noteq> 0" "height \<noteq> 0"
    | "width \<noteq> 0" "height \<noteq> 0" "\<not> (width = db_width db \<and> height = db_height db)" by blast
  then show ?thesis
  proof cases
    case 1
    then show ?thesis using assms by (auto simp: ingest_frame_def)
  next
    case 2
    show ?thesis
    proof (cases "length data < db_width db * db_height db * 4")
      case True
      then show ?thesis using assms 2 by (auto simp: ingest_frame_def Let_def)
    next
      case False
      obtain buf where "compact_frame (db_height db) stride (db_width db * 4) (db_width db * db_height db * 4) data (db_native db) = Some buf"
        "length buf = length (db_native db)"
        using compact_total [of "db_width db * db_height db * 4" "db_native db" stride "db_width db * 4" data "db_height db"] False len by auto
      then show ?thesis using assms 2 False by (auto simp: ingest_frame_def Let_def buffer_ok_def expected_size_def)
    qed
  next
    case 3
    have n1: "\<not> (width = 0 \<or> height = 0)" using 3(1,2) by simp
    have wh: "0 < width" "0 < height" using 3(1,2) by simp_all
    let ?n = "width * height * 4"
    define sc where "sc = db_scaled db @ replicate (?n - length (db_scaled db)) 0"
    have sl: "?n \<le> length sc" by (simp add: sc_def)
    show ?thesis
    proof (cases "stride = width * 4 \<and> length data < ?n")
      case True
      then show ?thesis using assms 3 by (auto simp: ingest_frame_def Let_def buffer_ok_def expected_size_def)
    next
      case False
      obtain sc' where sc': "compact_frame height stride (width * 4) ?n data sc = Some sc'" "length sc' = length sc"
        using compact_total [OF sl, of stride "width * 4" data height] False by auto
      obtain r where r: "rgba_scaled_into (take ?n sc') width height (db_native db) (db_width db) (db_height db) = Some r"
        "\<forall>out'. r = Some out' \<longrightarrow> length out' = length (db_native db)"
        using rgba_scaled_into_total [OF wh p] by blast
      have "ingest_frame width height stride data db =
        Some (case r of None \<Rightarrow> (False, db\<lparr>db_scaled := sc'\<rparr>) | Some out \<Rightarrow> (True, db\<lparr>db_scaled := sc', db_native := out\<rparr>))"
        unfolding ingest_frame_def if_not_P [OF n1] Let_def if_not_P [OF 3(3)] if_not_P [OF False] sc_def [symmetric]
        by (cases r) (simp_all add: sc'(1) r(1))
      then show ?thesis using assms r(2) by (cases r) (auto simp: buffer_ok_def expected_size_def)
    qed
  qed
qed

text \<open>Frames of an unpadded row length and the expected size go in as they are.\<close>

lemma ingest_verbatim:
  assumes "buffer_ok db" and "length data = db_width db * db_height db * 4"
  shows "ingest_frame (db_width db) (db_height db) (db_width db * 4) data db = Some (True, db\<lparr>db_native := data\<rparr>)"
  using assms by (auto simp: ingest_frame_def Let_def buffer_ok_def even_size_def compact_frame_def copy_slice_def bslice_def)

text \<open>Padded rows are checked against the unpadded size: a frame cut short is accepted, and its last
  rows are those of the frame before.\<close>

lemma short_padded_frame_accepted:
  "ingest_frame 2 2 12 (replicate 16 7) (buffer_new 2 2) =
   Some (True, (buffer_new 2 2)\<lparr>db_native := replicate 8 7 @ replicate 8 0\<rparr>)"
  by (simp add: ingest_frame_def buffer_new_def make_even_def compact_frame_def copy_slice_def bslice_def numeral_eq_Suc)

record video_frame =
  vf_width :: nat
  vf_height :: nat
  vf_stride :: nat
  vf_data :: bytes

fun ingest_all :: "video_frame list \<Rightarrow> resolution_buffer \<Rightarrow> resolution_buffer option" where
  "ingest_all [] db = Some db"
| "ingest_all (f # fs) db =
     do { (_, db) \<leftarrow> ingest_frame (vf_width f) (vf_height f) (vf_stride f) (vf_data f) db; ingest_all fs db }"

lemma ingest_all_ok:
  "buffer_ok db \<Longrightarrow> \<exists>db'. ingest_all fs db = Some db' \<and> buffer_ok db' \<and> expected_size db' = expected_size db"
proof (induction fs arbitrary: db)
  case (Cons f fs)
  obtain ok db1 where i: "ingest_frame (vf_width f) (vf_height f) (vf_stride f) (vf_data f) db = Some (ok, db1)"
    "buffer_ok db1" "expected_size db1 = expected_size db"
    using ingest_ok [OF Cons.prems] by blast
  then show ?case using Cons.IH [OF i(2)] by simp
qed simp


end
