(* ===== verification/Yuv.thy ===== *)
theory Yuv
  imports Scale "HOL-Library.Signed_Division"
begin

text \<open>
  YUV pictures (\<open>stross-endpoint/src/convert/yuv.rs\<close>): decoder output to RGBA with scaling, and captured BGRA
  to planar YUV.  \<open>usize\<close> is a natural number, \<open>i32\<close> an integer (the values stay far within it); as for RGBA, an index out of range
  is the outer \<open>None\<close>.
\<close>

section \<open>From YUV to RGBA\<close>

datatype yuv420_layout = Planar | SemiPlanar

definition clamp_u8 :: "int \<Rightarrow> u8" where
  "clamp_u8 v = (if v < 0 then 0 else if v > 255 then 255 else word_of_int v)"

definition rgba_of_yuv :: "nat \<Rightarrow> u8 \<Rightarrow> u8 \<Rightarrow> bytes" where
  "rgba_of_yuv y_val u v =
     (let c = int y_val - 16; d = uint u - 128; e = uint v - 128 in
      [clamp_u8 ((298 * c + 409 * e + 128) div 256), clamp_u8 ((298 * c - 100 * d - 208 * e + 128) div 256),
       clamp_u8 ((298 * c + 516 * d + 128) div 256), 255])"

text \<open>The chroma of a column of blocks in a chroma row.\<close>

definition chroma_at :: "yuv420_layout \<Rightarrow> bytes \<Rightarrow> nat \<Rightarrow> nat \<Rightarrow> nat \<Rightarrow> (u8 \<times> u8) option" where
  "chroma_at layout buf uv_row uv_size ux =
     (case layout of
        SemiPlanar \<Rightarrow> do { u \<leftarrow> at buf (uv_row + ux * 2); v \<leftarrow> at buf (uv_row + ux * 2 + 1); Some (u, v) }
      | Planar \<Rightarrow> do { u \<leftarrow> at buf (uv_row + ux); v \<leftarrow> at buf (uv_row + ux + uv_size); Some (u, v) })"

definition yuv_pixel :: "yuv420_layout \<Rightarrow> bytes \<Rightarrow> nat \<Rightarrow> nat \<Rightarrow> nat \<Rightarrow> nat \<Rightarrow> nat \<Rightarrow> sample_pos \<Rightarrow> bytes option" where
  "yuv_pixel layout buf row0 row1 uv_row uv_size fy sx =
     do { a \<leftarrow> at buf (row0 + sa_lo sx); b \<leftarrow> at buf (row0 + sa_hi sx);
          d \<leftarrow> at buf (row1 + sa_lo sx); e \<leftarrow> at buf (row1 + sa_hi sx);
          let top = lerp (unat a) (unat b) (sa_frac sx); bot = lerp (unat d) (unat e) (sa_frac sx) in
          do { (u, v) \<leftarrow> chroma_at layout buf uv_row uv_size (sa_lo sx div 2);
               Some (rgba_of_yuv (lerp top bot fy) u v) } }"

definition yuv420_to_rgba_scaled ::
  "bytes \<Rightarrow> nat \<Rightarrow> nat \<Rightarrow> yuv420_layout \<Rightarrow> nat \<Rightarrow> nat \<Rightarrow> nat \<Rightarrow> (nat \<times> nat \<times> bytes) option option" where
  "yuv420_to_rgba_scaled buf w h layout stride_y slice_h max_w =
     (if w = 0 \<or> h = 0 \<or> stride_y = 0 \<or> slice_h = 0 then Some None
      else
        let tw = min w (max max_w 1);
            th = max (u32_mul h tw div w) 1;
            y_plane = slice_h * stride_y;
            uv_stride = (case layout of SemiPlanar \<Rightarrow> stride_y | Planar \<Rightarrow> stride_y div 2);
            uv_height = slice_h div 2
        in if uv_stride = 0 \<or> uv_height = 0 then Some None
        else
          let uv_size = uv_stride * uv_height;
              needed = (case layout of SemiPlanar \<Rightarrow> y_plane + uv_size | Planar \<Rightarrow> y_plane + uv_size * 2)
          in if length buf < needed then Some None
          else
            map_option (\<lambda>px. Some (tw, th, px))
              (collect (\<lambda>oy.
                 let sy = sample_at (scale_factor h th) h oy in
                 collect (\<lambda>ox.
                   yuv_pixel layout buf (sa_lo sy * stride_y) (sa_hi sy * stride_y) (y_plane + (sa_lo sy div 2) * uv_stride) uv_size
                     (sa_frac sy) (sample_at (scale_factor w tw) w ox)) [0..<tw]) [0..<th]))"

text \<open>The picture a buffer holds: luma per pixel, chroma per block of two by two; the padding does not matter.\<close>

record picture =
  pc_y :: "nat \<Rightarrow> nat \<Rightarrow> u8"
  pc_u :: "nat \<Rightarrow> nat \<Rightarrow> u8"
  pc_v :: "nat \<Rightarrow> nat \<Rightarrow> u8"

definition holds_picture :: "picture \<Rightarrow> yuv420_layout \<Rightarrow> nat \<Rightarrow> nat \<Rightarrow> nat \<Rightarrow> nat \<Rightarrow> bytes \<Rightarrow> bool" where
  "holds_picture pc layout w h stride rows buf \<longleftrightarrow>
     (\<forall>y < h. \<forall>x < w. buf ! (y * stride + x) = pc_y pc x y) \<and>
     (\<forall>y < (h + 1) div 2. \<forall>x < (w + 1) div 2.
        (case layout of
           SemiPlanar \<Rightarrow> length buf \<ge> rows * stride + stride * (rows div 2) \<and>
             buf ! (rows * stride + y * stride + x * 2) = pc_u pc x y \<and>
             buf ! (rows * stride + y * stride + x * 2 + 1) = pc_v pc x y
         | Planar \<Rightarrow> length buf \<ge> rows * stride + stride div 2 * (rows div 2) * 2 \<and>
             buf ! (rows * stride + y * (stride div 2) + x) = pc_u pc x y \<and>
             buf ! (rows * stride + y * (stride div 2) + x + stride div 2 * (rows div 2)) = pc_v pc x y))"

text \<open>What the picture looks like at another size.\<close>

definition render_pixel :: "picture \<Rightarrow> sample_pos \<Rightarrow> sample_pos \<Rightarrow> bytes" where
  "render_pixel pc sx sy =
     (let top = lerp (unat (pc_y pc (sa_lo sx) (sa_lo sy))) (unat (pc_y pc (sa_hi sx) (sa_lo sy))) (sa_frac sx);
          bot = lerp (unat (pc_y pc (sa_lo sx) (sa_hi sy))) (unat (pc_y pc (sa_hi sx) (sa_hi sy))) (sa_frac sx)
      in rgba_of_yuv (lerp top bot (sa_frac sy)) (pc_u pc (sa_lo sx div 2) (sa_lo sy div 2)) (pc_v pc (sa_lo sx div 2) (sa_lo sy div 2)))"

definition render :: "picture \<Rightarrow> nat \<Rightarrow> nat \<Rightarrow> nat \<Rightarrow> nat \<Rightarrow> bytes" where
  "render pc w h tw th =
     concat (map (\<lambda>oy. concat (map (\<lambda>ox.
       render_pixel pc (sample_at (scale_factor w tw) w ox) (sample_at (scale_factor h th) h oy)) [0..<tw])) [0..<th])"

lemma collect_map: "(\<And>i. i \<in> set is \<Longrightarrow> f i = Some (g i)) \<Longrightarrow> collect f is = Some (concat (map g is))"
  by (induction "is") auto

lemma cell_in: "y < n \<Longrightarrow> x < s \<Longrightarrow> y * s + x < n * (s :: nat)"
proof -
  assume "y < n" "x < s"
  then have "y * s + x < y * s + s" "y * s + s \<le> n * s" using mult_le_mono1 [of "Suc y" n s] by simp_all
  then show ?thesis by linarith
qed

text \<open>Halves of a coordinate against the halves of a stride that holds the coordinates rounded up to even.\<close>

lemma half_lt: "(x :: nat) < w \<Longrightarrow> x div 2 < (w + 1) div 2"
  by linarith

lemma round_up_even: "(w :: nat) + w mod 2 = 2 * ((w + 1) div 2)"
  by presburger

lemma half_stride:
  assumes "w + w mod 2 \<le> s" and "x < (w :: nat)"
  shows "x div 2 < s div 2" "x div 2 * 2 + 1 < s"
  using assms(1) half_lt [OF assms(2)] unfolding round_up_even by linarith+

lemma chroma_found:
  assumes p: "holds_picture pc layout w h stride rows buf" and s: "w + w mod 2 \<le> stride" "h + h mod 2 \<le> rows"
    and x: "x < w" and y: "y < h"
  shows "chroma_at layout buf (rows * stride + (y div 2) * (case layout of SemiPlanar \<Rightarrow> stride | Planar \<Rightarrow> stride div 2))
      ((case layout of SemiPlanar \<Rightarrow> stride | Planar \<Rightarrow> stride div 2) * (rows div 2)) (x div 2) =
    Some (pc_u pc (x div 2) (y div 2), pc_v pc (x div 2) (y div 2))"
proof -
  have yb: "y div 2 < rows div 2" "y div 2 < (h + 1) div 2" using half_stride(1) [OF s(2) y] half_lt [OF y] .
  have xb: "x div 2 < (w + 1) div 2" "x div 2 < stride div 2" "x div 2 * 2 + 1 < stride" using half_stride [OF s(1) x] half_lt [OF x] by simp_all
  note h = p [unfolded holds_picture_def, THEN conjunct2, rule_format, OF yb(2) xb(1)]
  show ?thesis
  proof (cases layout)
    case Planar
    have i: "y div 2 * (stride div 2) + x div 2 < rows div 2 * (stride div 2)" by (rule cell_in [OF yb(1) xb(2)])
    then show ?thesis using Planar h by (simp add: chroma_at_def at_def ac_simps)
  next
    case SemiPlanar
    have i: "y div 2 * stride + (x div 2 * 2 + 1) < rows div 2 * stride" by (rule cell_in [OF yb(1) xb(3)])
    then show ?thesis using SemiPlanar h by (simp add: chroma_at_def at_def ac_simps)
  qed
qed

lemma luma_found:
  assumes p: "holds_picture pc layout w h stride rows buf" and l: "rows * stride \<le> length buf"
    and s: "w \<le> stride" "h \<le> rows" and x: "x < w" and y: "y < h"
  shows "at buf (y * stride + x) = Some (pc_y pc x y)"
proof -
  have "y * stride + x < rows * stride" using s x y by (intro cell_in) simp_all
  then have "y * stride + x < length buf" using l by linarith
  then show ?thesis using p x y by (simp add: at_def holds_picture_def)
qed

lemma yuv_renders:
  assumes p: "holds_picture pc layout w h stride rows buf" and s: "w + w mod 2 \<le> stride" "h + h mod 2 \<le> rows"
    and wh: "0 < w" "0 < h"
  shows "yuv420_to_rgba_scaled buf w h layout stride rows max_w =
    (let tw = min w (max max_w 1); th = max (u32_mul h tw div w) 1 in Some (Some (tw, th, render pc w h tw th)))"
proof -
  define tw where "tw = min w (max max_w 1)"
  define th where "th = max (u32_mul h tw div w) 1"
  define us where "us = (case layout of SemiPlanar \<Rightarrow> stride | Planar \<Rightarrow> stride div 2)"
  have pos: "1 < stride" "1 < rows" using half_stride(2) [OF s(1) wh(1)] half_stride(2) [OF s(2) wh(2)] by simp_all
  have us0: "us \<noteq> 0" "rows div 2 \<noteq> 0" using pos by (simp_all add: us_def split: yuv420_layout.split)
  have c0: "0 < (h + 1) div 2" "0 < (w + 1) div 2" using half_lt [OF wh(2)] half_lt [OF wh(1)] by simp_all
  have len: "(case layout of SemiPlanar \<Rightarrow> rows * stride + us * (rows div 2) | Planar \<Rightarrow> rows * stride + us * (rows div 2) * 2) \<le> length buf"
    using p [unfolded holds_picture_def, THEN conjunct2, rule_format, OF c0] by (simp add: us_def split: yuv420_layout.splits)
  then have l: "rows * stride \<le> length buf" by (simp split: yuv420_layout.splits)
  have pix: "yuv_pixel layout buf (sa_lo sy * stride) (sa_hi sy * stride) (rows * stride + (sa_lo sy div 2) * us) (us * (rows div 2))
      (sa_frac sy) sx = Some (render_pixel pc sx sy)"
    if "sx = sample_at a w ox" "sy = sample_at b h oy" for sx sy a b ox oy
  proof -
    have x: "sa_lo sx < w" "sa_hi sx < w" and y: "sa_lo sy < h" "sa_hi sy < h"
      using sample_at_range(1,2) wh that by simp_all
    have sl: "w \<le> stride" "h \<le> rows" using s by simp_all
    note f = luma_found [OF p l sl]
    show ?thesis
      using f [OF x(1) y(1)] f [OF x(2) y(1)] f [OF x(1) y(2)] f [OF x(2) y(2)] chroma_found [OF p s x(1) y(1)]
      by (simp add: yuv_pixel_def render_pixel_def us_def Let_def)
  qed
  have "yuv420_to_rgba_scaled buf w h layout stride rows max_w =
      map_option (\<lambda>px. Some (tw, th, px)) (collect (\<lambda>oy.
        let sy = sample_at (scale_factor h th) h oy in
        collect (\<lambda>ox. yuv_pixel layout buf (sa_lo sy * stride) (sa_hi sy * stride) (rows * stride + (sa_lo sy div 2) * us) (us * (rows div 2))
          (sa_frac sy) (sample_at (scale_factor w tw) w ox)) [0..<tw]) [0..<th])"
    using wh pos us0 len unfolding yuv420_to_rgba_scaled_def Let_def tw_def [symmetric] th_def [symmetric] us_def [symmetric]
    by simp
  also have "\<dots> = Some (Some (tw, th, render pc w h tw th))"
    unfolding render_def Let_def by (subst collect_map; (subst collect_map)?) (auto simp: pix)
  finally show ?thesis by (simp add: tw_def th_def Let_def)
qed

lemma length_rgba [simp]: "length (rgba_of_yuv y u v) = 4"
  by (simp add: rgba_of_yuv_def Let_def)

lemma length_render: "length (render pc w h tw th) = tw * th * 4"
proof -
  have "length (concat (map f is)) = n * length is" if "\<And>i. length (f i) = n" for f :: "nat \<Rightarrow> bytes" and "is" n
    using that by (induction "is") simp_all
  from this [of _ "tw * 4"] this [of _ 4] show ?thesis
    by (simp add: render_def render_pixel_def Let_def ac_simps)
qed


definition small_picture :: picture where
  "small_picture = \<lparr> pc_y = \<lambda>x y. 80, pc_u = \<lambda>x y. 90, pc_v = \<lambda>x y. 240 \<rparr>"


text \<open>The sizes are not checked against each other: with an odd height and no padding the last row of pixels has no
  row of chroma, and reading it is out of range.\<close>

lemma collect_None: "i \<in> set is \<Longrightarrow> f i = None \<Longrightarrow> collect f is = None"
proof (induction "is")
  case (Cons j "is")
  then show ?case by (cases "f j") auto
qed simp

lemma sample_unscaled:
  assumes "i < limit" and "limit * 4096 \<le> u64_max"
  shows "sa_lo (sample_at (scale_factor limit limit) limit i) = i"
proof -
  have "scale_factor limit limit = 4096" using assms(1) by (simp add: scale_factor_def FP_ONE_def)
  moreover have "i * 4096 + 2048 \<le> u64_max" using assms by linarith
  ultimately show ?thesis using assms(1) by (simp add: sample_at_def Let_def sat_add64_exact FP_ONE_def)
qed

lemma odd_height_panics:
  assumes "h mod 2 = 1" "1 < h" "0 < w" "w \<le> max_w" "1 < stride" and "h * w < 4294967296" and "h * 4096 \<le> u64_max"
    and "length buf = h * stride + stride * (h div 2)"
  shows "yuv420_to_rgba_scaled buf w h SemiPlanar stride h max_w = None"
proof -
  have tw: "min w (max max_w 1) = w" and th: "max (u32_mul h w div w) 1 = h"
    using assms(2-4,6) by (simp_all add: u32_mul_exact)
  let ?sy = "sample_at (scale_factor h h) h (h - 1)"
  have lo: "sa_lo ?sy = h - 1" using assms(2,7) by (intro sample_unscaled) simp_all
  have half: "(h - 1) div 2 = h div 2" using assms(1) by presburger
  have "chroma_at SemiPlanar buf (h * stride + (sa_lo ?sy div 2) * stride) us ux = None" for us ux
    unfolding lo half using assms(8) by (simp add: chroma_at_def at_def mult.commute [of stride])
  then have p: "yuv_pixel SemiPlanar buf r0 r1 (h * stride + (sa_lo ?sy div 2) * stride) us fy sx = None" for r0 r1 us fy sx
    by (auto simp: yuv_pixel_def Let_def Option.bind_eq_None_conv)
  show ?thesis
    unfolding yuv420_to_rgba_scaled_def Let_def tw th yuv420_layout.case
    using assms by simp (rule collect_None [of "h - 1"], simp, rule collect_None [of 0], simp, rule p)
qed

section \<open>From BGRA to YUV\<close>

definition trunc_div :: "int \<Rightarrow> int \<Rightarrow> int" where
  "trunc_div a b = a sdiv b"

definition luma :: "u8 \<Rightarrow> u8 \<Rightarrow> u8 \<Rightarrow> u8" where
  "luma b g r = clamp_u8 ((77 * uint r + 150 * uint g + 29 * uint b) div 256)"

definition chroma :: "int \<Rightarrow> int \<Rightarrow> int \<Rightarrow> u8 \<times> u8" where
  "chroma b_sum g_sum r_sum =
     (clamp_u8 (trunc_div (-43 * r_sum - 85 * g_sum + 128 * b_sum) (4 * 256) + 128),
      clamp_u8 (trunc_div (128 * r_sum - 107 * g_sum - 21 * b_sum) (4 * 256) + 128))"

definition range_of :: "'a list \<Rightarrow> nat \<Rightarrow> nat \<Rightarrow> 'a list option" where
  "range_of xs a b = (if a \<le> b \<and> b \<le> length xs then Some (bslice a b xs) else None)"

text \<open>Writing a row into a plane.\<close>

definition put_row :: "nat \<Rightarrow> 'a list \<Rightarrow> 'a list \<Rightarrow> 'a list option" where
  "put_row a row xs = (if a + length row \<le> length xs then Some (take a xs @ row @ drop (a + length row) xs) else None)"

definition luma_px :: "bytes \<Rightarrow> nat \<Rightarrow> bytes option" where
  "luma_px row i = do { b \<leftarrow> at row (i * 4); g \<leftarrow> at row (i * 4 + 1); r \<leftarrow> at row (i * 4 + 2); Some [luma b g r] }"

definition quad_sum :: "bytes \<Rightarrow> bytes \<Rightarrow> nat \<Rightarrow> nat \<Rightarrow> int option" where
  "quad_sum row row2 i c =
     do { a \<leftarrow> at row (i * 4 + c); b \<leftarrow> at row (i * 4 + 4 + c); d \<leftarrow> at row2 (i * 4 + c); e \<leftarrow> at row2 (i * 4 + 4 + c);
          Some (uint a + uint b + uint d + uint e) }"

text \<open>The chroma of block \<open>k\<close> of a pair of rows; \<open>half\<close> is the length of the chroma rows.\<close>

definition chroma_px :: "nat \<Rightarrow> bytes \<Rightarrow> bytes \<Rightarrow> nat \<Rightarrow> (u8 \<times> u8) list option" where
  "chroma_px half row row2 k =
     do { b \<leftarrow> quad_sum row row2 (2 * k) 0; g \<leftarrow> quad_sum row row2 (2 * k) 1; r \<leftarrow> quad_sum row row2 (2 * k) 2;
          if k < half then Some [chroma b g r] else None }"

record planes =
  pl_y :: bytes
  pl_u :: bytes
  pl_v :: bytes

definition bgra_row :: "bytes \<Rightarrow> nat \<Rightarrow> nat \<Rightarrow> nat \<Rightarrow> nat \<Rightarrow> planes \<Rightarrow> planes option" where
  "bgra_row bgra stride w h j pl =
     do { row \<leftarrow> range_of bgra (j * stride) (j * stride + w * 4);
          ys \<leftarrow> collect (luma_px row) [0..<w];
          y' \<leftarrow> put_row (j * w) ys (pl_y pl);
          if j mod 2 = 0 \<and> j + 1 < h then
            do { row2 \<leftarrow> range_of bgra ((j + 1) * stride) ((j + 1) * stride + w * 4);
                 uvs \<leftarrow> collect (chroma_px (w div 2) row row2) [0..<(w + 1) div 2];
                 u' \<leftarrow> put_row (j div 2 * (w div 2)) (map fst uvs) (pl_u pl);
                 v' \<leftarrow> put_row (j div 2 * (w div 2)) (map snd uvs) (pl_v pl);
                 Some \<lparr> pl_y = y', pl_u = u', pl_v = v' \<rparr> }
          else Some (pl\<lparr>pl_y := y'\<rparr>) }"

fun bgra_rows :: "bytes \<Rightarrow> nat \<Rightarrow> nat \<Rightarrow> nat \<Rightarrow> nat list \<Rightarrow> planes \<Rightarrow> planes option" where
  "bgra_rows bgra stride w h [] pl = Some pl"
| "bgra_rows bgra stride w h (j # js) pl = do { pl' \<leftarrow> bgra_row bgra stride w h j pl; bgra_rows bgra stride w h js pl' }"

text \<open>\<open>Inl\<close> is the error of the source, with the number of bytes needed.\<close>

definition bgra_to_yuv420p :: "bytes \<Rightarrow> nat \<Rightarrow> nat \<Rightarrow> nat \<Rightarrow> bytes \<Rightarrow> (nat + bytes) option" where
  "bgra_to_yuv420p bgra stride w h out =
     (let y_size = w * h; uv_size = w * h div 4 in
      if length out < y_size + uv_size * 2 then Some (Inl (y_size + uv_size * 2))
      else if length bgra < stride * h then Some (Inl (stride * h))
      else
        let u0 = bslice y_size (y_size + uv_size) out; v0 = drop (y_size + uv_size) out in
        map_option (\<lambda>pl. Inr (pl_y pl @ pl_u pl @ pl_v pl))
          (bgra_rows bgra stride w h [0..<h] \<lparr> pl_y = take y_size out, pl_u = u0, pl_v = v0 \<rparr>))"

definition bgra_scaled_channel :: "bytes \<Rightarrow> nat \<Rightarrow> nat \<Rightarrow> sample_pos \<Rightarrow> nat \<Rightarrow> nat \<Rightarrow> bytes option" where
  "bgra_scaled_channel bgra r0 r1 sx fy c =
     do { a \<leftarrow> at bgra (r0 + sa_lo sx * 4 + c); b \<leftarrow> at bgra (r0 + sa_hi sx * 4 + c);
          d \<leftarrow> at bgra (r1 + sa_lo sx * 4 + c); e \<leftarrow> at bgra (r1 + sa_hi sx * 4 + c);
          let top = lerp (unat a) (unat b) (sa_frac sx); bot = lerp (unat d) (unat e) (sa_frac sx) in
          Some [word_of_nat (lerp top bot fy)] }"

definition bgra_to_yuv420p_scaled :: "bytes \<Rightarrow> nat \<Rightarrow> nat \<Rightarrow> nat \<Rightarrow> nat \<Rightarrow> nat \<Rightarrow> bytes \<Rightarrow> (nat + bytes) option" where
  "bgra_to_yuv420p_scaled bgra src_stride src_w src_h dst_w dst_h out =
     (if src_w = 0 \<or> src_h = 0 \<or> dst_w = 0 \<or> dst_h = 0 then Some (Inl 0)
      else
        do { scaled \<leftarrow> collect (\<lambda>j.
               let sy = sample_at (scale_factor src_h dst_h) src_h j in
               collect (\<lambda>i. collect (bgra_scaled_channel bgra (sa_lo sy * src_stride) (sa_hi sy * src_stride)
                   (sample_at (scale_factor src_w dst_w) src_w i) (sa_frac sy)) [0..<4]) [0..<dst_w]) [0..<dst_h];
             bgra_to_yuv420p scaled (dst_w * 4) dst_w dst_h out })"

text \<open>The planes of a picture of even size.\<close>

definition px_at :: "bytes \<Rightarrow> nat \<Rightarrow> nat \<Rightarrow> nat \<Rightarrow> nat \<Rightarrow> u8" where
  "px_at bgra stride j i c = bgra ! (j * stride + (i * 4 + c))"

definition luma_row :: "bytes \<Rightarrow> nat \<Rightarrow> nat \<Rightarrow> nat \<Rightarrow> bytes" where
  "luma_row bgra stride w j = map (\<lambda>i. luma (px_at bgra stride j i 0) (px_at bgra stride j i 1) (px_at bgra stride j i 2)) [0..<w]"

definition block_sum :: "bytes \<Rightarrow> nat \<Rightarrow> nat \<Rightarrow> nat \<Rightarrow> nat \<Rightarrow> int" where
  "block_sum bgra stride k l c =
     uint (px_at bgra stride (2 * l) (2 * k) c) + uint (px_at bgra stride (2 * l) (2 * k + 1) c) +
     uint (px_at bgra stride (2 * l + 1) (2 * k) c) + uint (px_at bgra stride (2 * l + 1) (2 * k + 1) c)"

definition chroma_row :: "bytes \<Rightarrow> nat \<Rightarrow> nat \<Rightarrow> nat \<Rightarrow> (u8 \<times> u8) list" where
  "chroma_row bgra stride half l =
     map (\<lambda>k. chroma (block_sum bgra stride k l 0) (block_sum bgra stride k l 1) (block_sum bgra stride k l 2)) [0..<half]"

lemma range_row:
  assumes "w * 4 \<le> stride" "stride * h \<le> length bgra" "j < h"
  shows "\<exists>row. range_of bgra (j * stride) (j * stride + w * 4) = Some row \<and>
    (\<forall>i < w. \<forall>c < 4. at row (i * 4 + c) = Some (px_at bgra stride j i c))"
proof -
  have "j * stride + stride \<le> h * stride" using mult_le_mono1 [of "Suc j" h stride] assms(3) by simp
  then have l: "j * stride + w * 4 \<le> length bgra" using assms(1,2) by (simp add: mult.commute)
  have "at (bslice (j * stride) (j * stride + w * 4) bgra) (i * 4 + c) = Some (px_at bgra stride j i c)" if "i < w" "c < 4" for i c
    using l that by (simp add: at_def bslice_def px_at_def)
  then show ?thesis using l by (auto simp: range_of_def)
qed

lemma collect_single: "(\<And>i. i \<in> set is \<Longrightarrow> f i = Some [g i]) \<Longrightarrow> collect f is = Some (map g is)"
  by (induction "is") auto

lemma bgra_row_planes:
  assumes s: "w * 4 \<le> stride" "stride * h \<le> length bgra" and j: "j < h" and e: "w mod 2 = 0" "h mod 2 = 0"
    and y: "j * w + w \<le> length (pl_y pl)" and u: "j div 2 * (w div 2) + w div 2 \<le> length (pl_u pl)" "j div 2 * (w div 2) + w div 2 \<le> length (pl_v pl)"
  shows "bgra_row bgra stride w h j pl = Some (
    let y' = take (j * w) (pl_y pl) @ luma_row bgra stride w j @ drop (j * w + w) (pl_y pl); o' = j div 2 * (w div 2);
        uvs = chroma_row bgra stride (w div 2) (j div 2)
    in if j mod 2 = 0 then
         \<lparr> pl_y = y', pl_u = take o' (pl_u pl) @ map fst uvs @ drop (o' + w div 2) (pl_u pl),
           pl_v = take o' (pl_v pl) @ map snd uvs @ drop (o' + w div 2) (pl_v pl) \<rparr>
       else pl\<lparr>pl_y := y'\<rparr>)"
proof -
  obtain row where row: "range_of bgra (j * stride) (j * stride + w * 4) = Some row"
      "\<forall>i < w. \<forall>c < 4. at row (i * 4 + c) = Some (px_at bgra stride j i c)"
    using range_row [OF s j] by blast
  have ys: "collect (luma_px row) [0..<w] = Some (luma_row bgra stride w j)"
    unfolding luma_row_def
  proof (rule collect_single)
    fix i assume "i \<in> set [0..<w]"
    then show "luma_px row i = Some [luma (px_at bgra stride j i 0) (px_at bgra stride j i 1) (px_at bgra stride j i 2)]"
      using row(2) [rule_format, of i 0] row(2) [rule_format, of i 1] row(2) [rule_format, of i 2] by (simp add: luma_px_def)
  qed
  have ly: "length (luma_row bgra stride w j) = w" by (simp add: luma_row_def)
  show ?thesis
  proof (cases "j mod 2 = 0")
    case False
    then show ?thesis using row(1) ys ly y by (simp add: bgra_row_def put_row_def Let_def)
  next
    case True
    then have j2: "j + 1 < h" "2 * (j div 2) = j" using j e(2) by presburger+
    obtain row2 where row2: "range_of bgra ((j + 1) * stride) ((j + 1) * stride + w * 4) = Some row2"
        "\<forall>i < w. \<forall>c < 4. at row2 (i * 4 + c) = Some (px_at bgra stride (j + 1) i c)"
      using range_row [OF s j2(1)] by blast
    have w2: "(w + 1) div 2 = w div 2" using e(1) by presburger
    have q: "quad_sum row row2 (2 * k) c = Some (block_sum bgra stride k (j div 2) c)" if "k < w div 2" "c < 4" for k c
    proof -
      have "2 * k < w" "2 * k + 1 < w" using that(1) by linarith+
      then show ?thesis
        using row(2) [rule_format, of "2 * k" c] row(2) [rule_format, of "2 * k + 1" c]
          row2(2) [rule_format, of "2 * k" c] row2(2) [rule_format, of "2 * k + 1" c] that(2)
        by (simp add: quad_sum_def block_sum_def j2(2) algebra_simps)
    qed
    have uv: "collect (chroma_px (w div 2) row row2) [0..<(w + 1) div 2] = Some (chroma_row bgra stride (w div 2) (j div 2))"
      unfolding w2 chroma_row_def by (rule collect_single) (simp add: chroma_px_def q)
    have lu: "length (chroma_row bgra stride (w div 2) (j div 2)) = w div 2" by (simp add: chroma_row_def)
    show ?thesis using True j2(1) row(1) ys ly y row2(1) uv lu u
      by (simp add: bgra_row_def put_row_def Let_def del: upt_Suc)
  qed
qed

lemma bgra_rows_append:
  "bgra_rows bgra stride w h (xs @ ys) pl = do { pl' \<leftarrow> bgra_rows bgra stride w h xs pl; bgra_rows bgra stride w h ys pl' }"
proof (induction xs arbitrary: pl)
  case (Cons j js)
  then show ?case by (cases "bgra_row bgra stride w h j pl") simp_all
qed simp

text \<open>Rows of a plane written one after the other.\<close>

definition filled :: "(nat \<Rightarrow> 'a list) \<Rightarrow> nat \<Rightarrow> nat \<Rightarrow> 'a list \<Rightarrow> 'a list" where
  "filled f len n xs = concat (map f [0..<n]) @ drop (n * len) xs"

lemma length_rows: "(\<And>i. length (f i) = len) \<Longrightarrow> length (concat (map f [0..<n])) = n * len"
  by (induction n) simp_all

lemma length_filled: "(\<And>i. length (f i) = len) \<Longrightarrow> n * len \<le> length xs \<Longrightarrow> length (filled f len n xs) = length xs"
  by (simp add: filled_def length_rows)

lemma filled_Suc:
  assumes "\<And>i. length (f i) = len" and "Suc n * len \<le> length xs"
  shows "take (n * len) (filled f len n xs) @ f n @ drop (n * len + len) (filled f len n xs) = filled f len (Suc n) xs"
  using assms(2) length_rows [of f len n, OF assms(1)] by (simp add: filled_def add.commute)

definition planes_after :: "bytes \<Rightarrow> nat \<Rightarrow> nat \<Rightarrow> nat \<Rightarrow> planes \<Rightarrow> planes" where
  "planes_after bgra stride w n pl =
     \<lparr> pl_y = filled (luma_row bgra stride w) w n (pl_y pl),
       pl_u = filled (\<lambda>l. map fst (chroma_row bgra stride (w div 2) l)) (w div 2) ((n + 1) div 2) (pl_u pl),
       pl_v = filled (\<lambda>l. map snd (chroma_row bgra stride (w div 2) l)) (w div 2) ((n + 1) div 2) (pl_v pl) \<rparr>"

lemma bgra_rows_planes:
  assumes s: "w * 4 \<le> stride" "stride * h \<le> length bgra" and e: "w mod 2 = 0" "h mod 2 = 0"
    and l: "length (pl_y pl) = h * w" "h div 2 * (w div 2) \<le> length (pl_u pl)" "h div 2 * (w div 2) \<le> length (pl_v pl)"
    and n: "n \<le> h"
  shows "bgra_rows bgra stride w h [0..<n] pl = Some (planes_after bgra stride w n pl)"
  using n
proof (induction n)
  case 0
  then show ?case by (simp add: planes_after_def filled_def)
next
  case (Suc n)
  define k where "k = (n + 1) div 2"
  have cl: "length (map fst (chroma_row bgra stride (w div 2) i)) = w div 2" "length (map snd (chroma_row bgra stride (w div 2) i)) = w div 2" for i
    by (simp_all add: chroma_row_def)
  have ll: "length (luma_row bgra stride w i) = w" for i by (simp add: luma_row_def)
  have yb: "Suc n * w \<le> h * w" using Suc.prems by (rule mult_le_mono1)
  have "n div 2 + 1 \<le> h div 2" "k \<le> h div 2" using Suc.prems e(2) unfolding k_def by presburger+
  then have ub: "Suc (n div 2) * (w div 2) \<le> h div 2 * (w div 2)" "k * (w div 2) \<le> h div 2 * (w div 2)"
    by (simp_all only: Suc_eq_plus1 mult_le_mono1)
  define p where "p = planes_after bgra stride w n pl"
  have p: "pl_y p = filled (luma_row bgra stride w) w n (pl_y pl)"
      "pl_u p = filled (\<lambda>l. map fst (chroma_row bgra stride (w div 2) l)) (w div 2) k (pl_u pl)"
      "pl_v p = filled (\<lambda>l. map snd (chroma_row bgra stride (w div 2) l)) (w div 2) k (pl_v pl)"
    by (simp_all add: p_def planes_after_def k_def)
  have nn: "n * w \<le> length (pl_y pl)" "k * (w div 2) \<le> length (pl_u pl)" "k * (w div 2) \<le> length (pl_v pl)"
    using mult_le_mono1 [of n h w] Suc.prems l(1) order_trans [OF ub(2) l(2)] order_trans [OF ub(2) l(3)] by simp_all
  have lens: "length (pl_y p) = h * w" "length (pl_u p) = length (pl_u pl)" "length (pl_v p) = length (pl_v pl)"
    using length_filled [of "luma_row bgra stride w" w n "pl_y pl", OF ll nn(1)]
      length_filled [of "\<lambda>l. map fst (chroma_row bgra stride (w div 2) l)" "w div 2" k "pl_u pl", OF cl(1) nn(2)]
      length_filled [of "\<lambda>l. map snd (chroma_row bgra stride (w div 2) l)" "w div 2" k "pl_v pl", OF cl(2) nn(3)] l(1)
    unfolding p by simp_all
  have "n < h" using Suc.prems by simp
  from bgra_row_planes [OF s this e, of p] have r: "bgra_row bgra stride w h n p = Some (
      let y' = take (n * w) (pl_y p) @ luma_row bgra stride w n @ drop (n * w + w) (pl_y p); o' = n div 2 * (w div 2);
          uvs = chroma_row bgra stride (w div 2) (n div 2)
      in if n mod 2 = 0 then
           \<lparr> pl_y = y', pl_u = take o' (pl_u p) @ map fst uvs @ drop (o' + w div 2) (pl_u p),
             pl_v = take o' (pl_v p) @ map snd uvs @ drop (o' + w div 2) (pl_v p) \<rparr>
         else p\<lparr>pl_y := y'\<rparr>)"
    using yb ub l lens by simp
  have y': "take (n * w) (pl_y p) @ luma_row bgra stride w n @ drop (n * w + w) (pl_y p) = filled (luma_row bgra stride w) w (Suc n) (pl_y pl)"
    unfolding p by (rule filled_Suc) (use ll yb l in simp_all)
  have "bgra_row bgra stride w h n p = Some (planes_after bgra stride w (Suc n) pl)"
  proof (cases "n mod 2 = 0")
    case True
    then have k: "k = n div 2" "(Suc n + 1) div 2 = Suc (n div 2)" unfolding k_def by presburger+
    have "take (n div 2 * (w div 2)) (pl_u p) @ map fst (chroma_row bgra stride (w div 2) (n div 2)) @ drop (n div 2 * (w div 2) + w div 2) (pl_u p)
        = filled (\<lambda>l. map fst (chroma_row bgra stride (w div 2) l)) (w div 2) (Suc (n div 2)) (pl_u pl)"
      unfolding p k(1) by (rule filled_Suc) (use cl ub l in simp_all)
    moreover have "take (n div 2 * (w div 2)) (pl_v p) @ map snd (chroma_row bgra stride (w div 2) (n div 2)) @ drop (n div 2 * (w div 2) + w div 2) (pl_v p)
        = filled (\<lambda>l. map snd (chroma_row bgra stride (w div 2) l)) (w div 2) (Suc (n div 2)) (pl_v pl)"
      unfolding p k(1) by (rule filled_Suc) (use cl ub l in simp_all)
    ultimately show ?thesis using True y' k(2) unfolding r by (simp add: Let_def planes_after_def)
  next
    case False
    then have "(Suc n + 1) div 2 = k" unfolding k_def by presburger
    then show ?thesis using False y' p unfolding r by (simp add: Let_def planes_after_def)
  qed
  then show ?case using Suc by (simp add: bgra_rows_append p_def)
qed

lemma filled_all: "(\<And>i. length (f i) = len) \<Longrightarrow> n * len = length xs \<Longrightarrow> filled f len n xs = concat (map f [0..<n])"
  by (simp add: filled_def)

text \<open>A captured picture of even size becomes three planes: the luma of every pixel, the averages of every block of
  two by two, whatever the stride of the rows; the conversion never leaves its buffers, and what lies behind the planes
  in the output stays.\<close>

theorem bgra_planes:
  assumes s: "w * 4 \<le> stride" "stride * h \<le> length bgra" and e: "w mod 2 = 0" "h mod 2 = 0"
    and o: "w * h + w * h div 4 * 2 \<le> length out"
  shows "bgra_to_yuv420p bgra stride w h out = Some (Inr (
    concat (map (luma_row bgra stride w) [0..<h]) @
    concat (map (\<lambda>l. map fst (chroma_row bgra stride (w div 2) l)) [0..<h div 2]) @
    concat (map (\<lambda>l. map snd (chroma_row bgra stride (w div 2) l)) [0..<h div 2]) @
    drop (w * h + w * h div 4 * 2) out))"
proof -
  obtain a b where ab: "w = 2 * a" "h = 2 * b" using e by (meson mod_0_imp_dvd dvdE)
  have q: "w * h div 4 = h div 2 * (w div 2)" by (simp add: ab)
  have h2: "Suc h div 2 = h div 2" by (simp add: ab)
  define u0 where "u0 = bslice (w * h) (w * h + w * h div 4) out"
  define v0 where "v0 = drop (w * h + w * h div 4) out"
  have l: "length (take (w * h) out) = h * w" "length u0 = h div 2 * (w div 2)" "h div 2 * (w div 2) \<le> length v0"
    using o unfolding u0_def v0_def q [symmetric] length_take length_drop length_bslice [OF le_trans [OF _ o]]
    by (simp_all add: bslice_def mult.commute [of w])
  have cl: "length (map fst (chroma_row bgra stride (w div 2) i)) = w div 2" "length (map snd (chroma_row bgra stride (w div 2) i)) = w div 2" for i
    by (simp_all add: chroma_row_def)
  have ll: "length (luma_row bgra stride w i) = w" for i by (simp add: luma_row_def)
  have "bgra_rows bgra stride w h [0..<h] \<lparr> pl_y = take (w * h) out, pl_u = u0, pl_v = v0 \<rparr>
      = Some (planes_after bgra stride w h \<lparr> pl_y = take (w * h) out, pl_u = u0, pl_v = v0 \<rparr>)"
    using bgra_rows_planes [OF s e, of "\<lparr> pl_y = take (w * h) out, pl_u = u0, pl_v = v0 \<rparr>" h] l by simp
  moreover have "filled (luma_row bgra stride w) w h (take (w * h) out) = concat (map (luma_row bgra stride w) [0..<h])"
    using l(1) ll by (intro filled_all) simp_all
  moreover have "filled (\<lambda>l. map fst (chroma_row bgra stride (w div 2) l)) (w div 2) (h div 2) u0
      = concat (map (\<lambda>l. map fst (chroma_row bgra stride (w div 2) l)) [0..<h div 2])"
    using l(2) cl by (intro filled_all) simp_all
  moreover have "drop (h div 2 * (w div 2)) v0 = drop (w * h + w * h div 4 * 2) out"
    using q by (simp add: v0_def algebra_simps mult_2)
  ultimately show ?thesis
    using s o unfolding bgra_to_yuv420p_def Let_def u0_def [symmetric] v0_def [symmetric]
    by (simp add: planes_after_def h2 filled_def mult.commute [of stride])
qed

text \<open>An odd width reads behind the end of the row as soon as there are two rows.\<close>

lemma odd_width_panics:
  assumes "w mod 2 = 1" and "1 < h"
  shows "bgra_row bgra stride w h 0 pl = None"
proof (cases "range_of bgra stride (stride + w * 4)")
  case None
  then show ?thesis using assms(2) by (auto simp: bgra_row_def Option.bind_eq_None_conv)
next
  case row2: (Some row2)
  have k: "2 * (w div 2) = w - 1" "0 < w" "w div 2 < (w + 1) div 2" using assms(1) by presburger+
  have "quad_sum row row2 (w - 1) c = None" if "length row = w * 4" for row c
  proof -
    have "at row ((w - 1) * 4 + 4 + c) = None" using that k(2) by (cases w) (simp_all add: at_def)
    then show ?thesis by (auto simp: quad_sum_def Option.bind_eq_None_conv)
  qed
  then have "chroma_px (w div 2) row row2 (w div 2) = None" if "length row = w * 4" for row
    using that k(1) by (simp add: chroma_px_def)
  then have c: "collect (chroma_px (w div 2) row row2) [0..<(w + 1) div 2] = None" if "length row = w * 4" for row
    using that k(3) by (intro collect_None [of "w div 2"]) simp_all
  show ?thesis
  proof (cases "range_of bgra 0 (w * 4)")
    case (Some row)
    then have "length row = w * 4" by (auto simp: range_of_def length_bslice split: if_splits)
    then show ?thesis using Some row2 c [of row] assms(2) by (auto simp: bgra_row_def Option.bind_eq_None_conv)
  qed (simp add: bgra_row_def)
qed

text \<open>A gray pixel is written over the full range and read back over the limited one: dark grays become black.\<close>

lemma gray_changes: "luma 16 16 16 = 16" "rgba_of_yuv 16 128 128 = [0, 0, 0, 255]" "luma 200 200 200 = 200" "rgba_of_yuv 200 128 128 = [214, 214, 214, 255]"
  by code_simp+

theorem bgra_planes_witness:
  "\<exists>px. bgra_to_yuv420p (concat (replicate 4 [0, 0, 255, 255])) 8 2 2 [1, 2, 3, 4, 5, 6, 7] = Some (Inr px) \<and>
     take 4 px = [76, 76, 76, 76] \<and> drop 6 px = [7]"
proof -
  let ?red = "concat (replicate 4 [0, 0, 255, 255]) :: bytes"
  have "take 4 (concat (map (luma_row ?red 8 2) [0..<2])) = [76, 76, 76, 76]" "length (concat (map (luma_row ?red 8 2) [0..<2])) = 4"
      "length (concat (map (\<lambda>l. map fst (chroma_row ?red 8 1 l)) [0..<1])) = 1"
      "length (concat (map (\<lambda>l. map snd (chroma_row ?red 8 1 l)) [0..<1])) = 1" "8 * 2 \<le> length ?red"
    by code_simp+
  then show ?thesis using bgra_planes [of 2 8 2 ?red "[1, 2, 3, 4, 5, 6, 7]"] by simp
qed

text \<open>Scaled to an even size, a captured picture always converts.\<close>

lemma bgra_scaled_converts:
  assumes s: "src_w * 4 \<le> src_stride" "src_stride * src_h \<le> length bgra" and p: "0 < src_w" "0 < src_h" "0 < dst_w" "0 < dst_h"
    and e: "dst_w mod 2 = 0" "dst_h mod 2 = 0" and o: "dst_w * dst_h + dst_w * dst_h div 4 * 2 \<le> length out"
  shows "\<exists>px. bgra_to_yuv420p_scaled bgra src_stride src_w src_h dst_w dst_h out = Some (Inr px)"
proof -
  have ch: "part_ok 1 (\<lambda>_. True) (bgra_scaled_channel bgra (sa_lo sy * src_stride) (sa_hi sy * src_stride) sx fy c)"
    if "sx = sample_at a src_w i" "sy = sample_at b src_h j" "c < 4" for sx sy a b i j fy c
  proof -
    have x: "sa_lo sx * 4 + c < src_stride" "sa_hi sx * 4 + c < src_stride"
      using sample_at_range(1,2) [OF p(1)] that s(1) by (metis (no_types) add_less_le_mono cell_in le_trans mult.commute order_less_le_trans)+
    have y: "sa_lo sy < src_h" "sa_hi sy < src_h" using sample_at_range(1,2) [OF p(2)] that by simp_all
    have i: "r * src_stride + (k * 4 + c) < length bgra" if "r < src_h" "k * 4 + c < src_stride" for r k
      using cell_in [OF that] s(2) by (simp add: mult.commute)
    show ?thesis using i [OF y(1) x(1)] i [OF y(1) x(2)] i [OF y(2) x(1)] i [OF y(2) x(2)]
      by (simp add: bgra_scaled_channel_def at_in part_ok_def Let_def add.assoc)
  qed
  define row where "row = (\<lambda>j. let sy = sample_at (scale_factor src_h dst_h) src_h j in
     collect (\<lambda>i. collect (bgra_scaled_channel bgra (sa_lo sy * src_stride) (sa_hi sy * src_stride)
       (sample_at (scale_factor src_w dst_w) src_w i) (sa_frac sy)) [0..<4]) [0..<dst_w])"
  have "part_ok (1 * length [0..<4]) (\<lambda>_. True) (collect (bgra_scaled_channel bgra (sa_lo sy * src_stride) (sa_hi sy * src_stride)
      (sample_at a src_w i) fy) [0..<4])" if "sy = sample_at b src_h j" for sy a b i j fy
    by (rule collect_ok) (rule ch [OF refl that], simp)
  then have "part_ok (4 * length [0..<dst_w]) (\<lambda>_. True) (row j)" for j
    unfolding row_def Let_def by (intro collect_ok) simp
  then have "part_ok (4 * dst_w * length [0..<dst_h]) (\<lambda>_. True) (collect row [0..<dst_h])"
    by (intro collect_ok) simp
  then obtain scaled where sc: "collect row [0..<dst_h] = Some scaled" "length scaled = 4 * dst_w * dst_h"
    by (auto simp: part_ok_def)
  have "dst_w * 4 * dst_h \<le> length scaled" using sc(2) by simp
  from bgra_planes [OF le_refl this e o] sc(1) show ?thesis
    using p unfolding bgra_to_yuv420p_scaled_def row_def [symmetric] by simp
qed

end
