(* ===== verification/Ip_Addr.thy ===== *)
theory Ip_Addr
  imports Ids
begin

text \<open>
  IP addresses as the sources use them (\<open>std::net::IpAddr\<close>): the four octets of an IPv4 address, the eight segments of
  an IPv6 address, their text, and the tests the selection of addresses makes.
\<close>

datatype ip_addr = V4 u8 u8 u8 u8 | V6 "u16 list"

definition v6_loopback :: "u16 list" where
  "v6_loopback = [0, 0, 0, 0, 0, 0, 0, 1]"

fun ip_loopback :: "ip_addr \<Rightarrow> bool" where
  "ip_loopback (V4 a b c d) = (a = 127)"
| "ip_loopback (V6 segs) = (segs = v6_loopback)"

fun is_v4 :: "ip_addr \<Rightarrow> bool" where
  "is_v4 (V4 a b c d) = True"
| "is_v4 (V6 segs) = False"

fun is_unspecified :: "ip_addr \<Rightarrow> bool" where
  "is_unspecified (V4 a b c d) = (a = 0 \<and> b = 0 \<and> c = 0 \<and> d = 0)"
| "is_unspecified (V6 segs) = (segs = replicate 8 0)"

text \<open>\<open>169.254/16\<close>, and \<open>fe80::/10\<close> as both users of the test write it.\<close>

fun is_link_local :: "ip_addr \<Rightarrow> bool" where
  "is_link_local (V4 a b c d) = (a = 169 \<and> b = 254)"
| "is_link_local (V6 segs) = (segs ! 0 AND 0xffc0 = 0xfe80)"

definition ip_wf :: "ip_addr \<Rightarrow> bool" where
  "ip_wf ip = (case ip of V4 a b c d \<Rightarrow> True | V6 segs \<Rightarrow> length segs = 8)"


section \<open>Text\<close>

fun show_hex :: "nat \<Rightarrow> string" where
  "show_hex n = (if n < 16 then [hex_char n] else show_hex (n div 16) @ [hex_char (n mod 16)])"

declare show_hex.simps [simp del]

fun join_segs :: "u16 list \<Rightarrow> string" where
  "join_segs [] = []"
| "join_segs [s] = show_hex (unat s)"
| "join_segs (s # t # ss) = show_hex (unat s) @ CHR '':'' # join_segs (t # ss)"

text \<open>The first longest run of zero segments, as \<open>(start, length)\<close>.\<close>

fun zero_span :: "nat \<Rightarrow> nat \<times> nat \<Rightarrow> nat \<times> nat \<Rightarrow> u16 list \<Rightarrow> nat \<times> nat" where
  "zero_span i cur longest [] = longest"
| "zero_span i cur longest (s # ss) =
     (if s = 0
      then let cur' = (if snd cur = 0 then i else fst cur, snd cur + 1)
           in zero_span (i + 1) cur' (if snd cur' > snd longest then cur' else longest) ss
      else zero_span (i + 1) (0, 0) longest ss)"

definition show_v4 :: "u8 \<Rightarrow> u8 \<Rightarrow> u8 \<Rightarrow> u8 \<Rightarrow> string" where
  "show_v4 a b c d = show_word a @ ''.'' @ show_word b @ ''.'' @ show_word c @ ''.'' @ show_word d"

definition show_v6 :: "u16 list \<Rightarrow> string" where
  "show_v6 segs =
     (if take 6 segs = [0, 0, 0, 0, 0, 0xffff]
      then ''::ffff:'' @ show_v4 (ucast (drop_bit 8 (segs ! 6))) (ucast (segs ! 6))
                                 (ucast (drop_bit 8 (segs ! 7))) (ucast (segs ! 7))
      else let (start, len) = zero_span 0 (0, 0) (0, 0) segs
           in if len > 1 then join_segs (take start segs) @ ''::'' @ join_segs (drop (start + len) segs)
              else join_segs segs)"

fun show_ip :: "ip_addr \<Rightarrow> string" where
  "show_ip (V4 a b c d) = show_v4 a b c d"
| "show_ip (V6 segs) = show_v6 segs"

lemma join_segs_colon: "2 \<le> length segs \<Longrightarrow> CHR '':'' \<in> set (join_segs segs)"
  by (induction segs rule: join_segs.induct) auto

lemma show_v6_colon: "length segs = 8 \<Longrightarrow> CHR '':'' \<in> set (show_v6 segs)"
  by (cases "zero_span 0 (0, 0) (0, 0) segs") (auto simp: show_v6_def join_segs_colon)

lemma show_v4_chars: "c \<in> set (show_v4 a b d e) \<Longrightarrow> is_digit c \<or> c = CHR ''.''"
  by (auto simp: show_v4_def show_word_def dest: show_nat_digits)

text \<open>The code recognises IPv6 by the colon of the text.\<close>

lemma show_ip_colon: "ip_wf ip \<Longrightarrow> CHR '':'' \<in> set (show_ip ip) \<longleftrightarrow> \<not> is_v4 ip"
  by (cases ip) (auto simp: ip_wf_def show_v6_colon is_digit_def dest!: show_v4_chars)

lemma show_loopback: "show_ip (V6 v6_loopback) = ''::1''" "show_ip (V4 127 0 0 1) = ''127.0.0.1''"
  by code_simp+

lemma show_v4_inj: "show_v4 a b c d = show_v4 a' b' c' d' \<longleftrightarrow> a = a' \<and> b = b' \<and> c = c' \<and> d = d'"
proof -
  have n: "CHR ''.'' \<notin> set (show_word (w :: u8))" for w
    using show_nat_digits [of "CHR ''.''" "unat w"] by (auto simp: show_word_def is_digit_def)
  then show ?thesis by (auto simp: show_v4_def sep_inj [OF n n] show_word_inj)
qed

end
