(* ===== verification/Relay_Url.thy ===== *)
theory Relay_Url
  imports Ip_Addr
begin

text \<open>
  The addresses of relays (\<open>stross-transport/src/relay_url.rs\<close>, \<open>net.rs\<close>): parsing, the addresses derived
  for pushing and watching, and which addresses of this host are advertised.  The list of the host's addresses and the
  parser of IP addresses are parameters.
\<close>

section \<open>Addresses of the host\<close>

definition local_ips :: "(string \<times> ip_addr) list option \<Rightarrow> ip_addr list" where
  "local_ips interfaces = (case interfaces of None \<Rightarrow> [] | Some ifs \<Rightarrow> filter (\<lambda>ip. \<not> ip_loopback ip) (map snd ifs))"

definition local_ip :: "(string \<times> ip_addr) list option \<Rightarrow> ip_addr option" where
  "local_ip interfaces = (case local_ips interfaces of [] \<Rightarrow> None | ip # _ \<Rightarrow> Some ip)"

fun is_fake_or_link_local :: "ip_addr \<Rightarrow> bool" where
  "is_fake_or_link_local (V4 a b c d) = (a = 198 \<and> b = 18 \<or> a = 169 \<and> b = 254)"
| "is_fake_or_link_local (V6 segs) = False"

definition advertise_ip :: "(string \<times> ip_addr) list option \<Rightarrow> string" where
  "advertise_ip interfaces =
     (case filter (\<lambda>ip. is_v4 ip \<and> \<not> is_fake_or_link_local ip) (local_ips interfaces) of
        [] \<Rightarrow> ''127.0.0.1''
      | ip # _ \<Rightarrow> show_ip ip)"


section \<open>Relay addresses\<close>

record relay_url =
  ru_transport :: transport_id
  ru_host :: string
  ru_port :: u16
  ru_path :: "string option"

definition url_ws :: "string \<Rightarrow> u16 \<Rightarrow> string option \<Rightarrow> relay_url" where
  "url_ws host port path = \<lparr> ru_transport = Ws, ru_host = host, ru_port = port, ru_path = path \<rparr>"

definition url_srt :: "string \<Rightarrow> u16 \<Rightarrow> relay_url" where
  "url_srt host port = \<lparr> ru_transport = Srt, ru_host = host, ru_port = port, ru_path = None \<rparr>"

definition url_quic :: "string \<Rightarrow> u16 \<Rightarrow> relay_url" where
  "url_quic host port = \<lparr> ru_transport = Quic, ru_host = host, ru_port = port, ru_path = None \<rparr>"

definition split_host_port :: "string \<Rightarrow> (string \<times> u16) option" where
  "split_host_port hp =
     (case strip_prefix ''['' hp of
        Some rest \<Rightarrow>
          (case split_once CHR '']'' rest of
             None \<Rightarrow> None
           | Some (host, after) \<Rightarrow>
               (case strip_prefix '':'' after of
                  None \<Rightarrow> None
                | Some p \<Rightarrow> map_option (\<lambda>port. (host, port)) (parse_u16 p)))
      | None \<Rightarrow>
          (case rsplit_once CHR '':'' hp of
             None \<Rightarrow> None
           | Some (host, p) \<Rightarrow> map_option (\<lambda>port. (host, port)) (parse_u16 p)))"

definition url_scheme :: "string \<Rightarrow> (transport_id \<times> string) option" where
  "url_scheme s =
     (case strip_prefix ''ws://'' s of Some r \<Rightarrow> Some (Ws, r)
      | None \<Rightarrow> (case strip_prefix ''wss://'' s of Some r \<Rightarrow> Some (Ws, r)
      | None \<Rightarrow> (case strip_prefix ''srt://'' s of Some r \<Rightarrow> Some (Srt, r)
      | None \<Rightarrow> (case strip_prefix ''quic://'' s of Some r \<Rightarrow> Some (Quic, r)
      | None \<Rightarrow> None))))"

definition url_parse :: "string \<Rightarrow> relay_url option" where
  "url_parse s =
     (case url_scheme s of
        None \<Rightarrow> None
      | Some (t, rest) \<Rightarrow>
          let (host_port, path) =
            (case split_once CHR ''/'' rest of
               Some (hp, p) \<Rightarrow> (hp, if p = [] then None else Some (''/'' @ p))
             | None \<Rightarrow> (rest, None))
          in (case split_host_port host_port of
                None \<Rightarrow> None
              | Some (host, port) \<Rightarrow> Some \<lparr> ru_transport = t, ru_host = host, ru_port = port, ru_path = path \<rparr>))"

definition is_ws :: "relay_url \<Rightarrow> bool" where
  "is_ws u \<longleftrightarrow> ru_transport u = Ws"

definition lower_char :: "char \<Rightarrow> char" where
  "lower_char c = (let n = (of_char c :: nat) in if 65 \<le> n \<and> n \<le> 90 then char_of (n + 32) else c)"

definition is_loopback :: "(string \<Rightarrow> ip_addr option) \<Rightarrow> relay_url \<Rightarrow> bool" where
  "is_loopback parse_ip u \<longleftrightarrow>
     map lower_char (ru_host u) = ''localhost'' \<or>
     (case parse_ip (ru_host u) of None \<Rightarrow> False | Some ip \<Rightarrow> ip_loopback ip)"

definition fmt_host :: "relay_url \<Rightarrow> string" where
  "fmt_host u = (if CHR '':'' \<in> set (ru_host u) then ''['' @ ru_host u @ '']'' else ru_host u)"

definition host_port :: "relay_url \<Rightarrow> string" where
  "host_port u = fmt_host u @ '':'' @ show_word (ru_port u)"

text \<open>\<open>None\<close> is the arm the source calls unreachable.\<close>

definition push_url :: "relay_url \<Rightarrow> string option" where
  "push_url u =
     (case ru_transport u of
        Ws \<Rightarrow> Some (''ws://'' @ host_port u @ (case ru_path u of Some p \<Rightarrow> p | None \<Rightarrow> ''/ws/push''))
      | Srt \<Rightarrow> Some (''srt://'' @ host_port u)
      | Quic \<Rightarrow> Some (''quic://'' @ host_port u)
      | _ \<Rightarrow> None)"

definition watch_url :: "string \<Rightarrow> relay_url \<Rightarrow> string option" where
  "watch_url stream u =
     (if ru_transport u = Ws then Some (''ws://'' @ host_port u @ ''/ws/watch?stream='' @ stream) else push_url u)"

definition base_http :: "relay_url \<Rightarrow> string" where
  "base_http u = ''http://'' @ host_port u @ ''/''"

definition url_http :: "string \<Rightarrow> u16 \<Rightarrow> string" where
  "url_http host port = base_http (url_ws host port None)"

definition http_entries :: "(string \<times> ip_addr) list option \<Rightarrow> u16 \<Rightarrow> string list" where
  "http_entries interfaces port =
     (let urls = map (\<lambda>ip. url_http (show_ip ip) port)
                   (filter (\<lambda>ip. \<not> is_v4 ip \<or> \<not> is_fake_or_link_local ip) (local_ips interfaces))
      in if urls = [] then [url_http ''127.0.0.1'' port] else urls)"


section \<open>Round trip\<close>

text \<open>An address as the constructors are used: a host without delimiters, a path only for WebSocket.\<close>

definition host_ok :: "string \<Rightarrow> bool" where
  "host_ok h \<longleftrightarrow> list_all (\<lambda>c. c \<notin> {CHR ''/'', CHR ''['', CHR '']''}) h"

definition url_ok :: "relay_url \<Rightarrow> bool" where
  "url_ok u \<longleftrightarrow> host_ok (ru_host u) \<and>
     (case ru_transport u of
        Ws \<Rightarrow> (case ru_path u of None \<Rightarrow> True | Some p \<Rightarrow> take 1 p = ''/'' \<and> 1 < length p)
      | Srt \<Rightarrow> ru_path u = None
      | Quic \<Rightarrow> ru_path u = None
      | _ \<Rightarrow> False)"

text \<open>The address with the path that \<open>push_url\<close> fills in.\<close>

definition with_push_path :: "relay_url \<Rightarrow> relay_url" where
  "with_push_path u = (if ru_transport u = Ws \<and> ru_path u = None then u\<lparr>ru_path := Some ''/ws/push''\<rparr> else u)"

lemma port_chars: "c \<in> set (show_word (p :: u16)) \<Longrightarrow> c \<noteq> CHR ''/'' \<and> c \<noteq> CHR '':'' \<and> c \<noteq> CHR '']''"
  using show_word_digits [of c p] by (auto simp: is_digit_def)

lemma split_host_port_of:
  assumes "host_ok (ru_host u)"
  shows "split_host_port (host_port u) = Some (ru_host u, ru_port u)"
proof (cases "CHR '':'' \<in> set (ru_host u)")
  case True
  have "CHR '']'' \<notin> set (ru_host u)" using assms by (auto simp: host_ok_def list_all_iff)
  then have "split_once CHR '']'' (ru_host u @ CHR '']'' # '':'' @ show_word (ru_port u)) = Some (ru_host u, '':'' @ show_word (ru_port u))"
    by (rule split_once_append)
  then show ?thesis using True strip_prefix_append [of "'':''"] strip_prefix_append [of "''[''"]
    by (simp add: split_host_port_def host_port_def fmt_host_def)
next
  case False
  have "strip_prefix ''['' (ru_host u @ '':'' @ show_word (ru_port u)) = None"
    using assms by (cases "ru_host u") (auto simp: strip_prefix_def host_ok_def)
  moreover have "rsplit_once CHR '':'' (ru_host u @ CHR '':'' # show_word (ru_port u)) = Some (ru_host u, show_word (ru_port u))"
    using port_chars by (intro rsplit_once_append) blast
  ultimately show ?thesis using False by (simp add: split_host_port_def host_port_def fmt_host_def)
qed

lemma host_port_no_slash: "host_ok (ru_host u) \<Longrightarrow> CHR ''/'' \<notin> set (host_port u)"
  using port_chars by (auto simp: host_port_def fmt_host_def host_ok_def list_all_iff)

lemma url_parse_parts:
  assumes "host_ok (ru_host u)" and s: "url_scheme s = Some (t, host_port u @ path)" and p: "path = [] \<or> take 1 path = ''/''"
  shows "url_parse s = Some (u\<lparr>ru_transport := t, ru_path := (if length path \<le> 1 then None else Some path)\<rparr>)"
proof -
  have "(case split_once CHR ''/'' (host_port u @ path) of
      Some (hp, q) \<Rightarrow> (hp, if q = [] then None else Some (''/'' @ q)) | None \<Rightarrow> (host_port u @ path, None))
    = (host_port u, if length path \<le> 1 then None else Some path)"
  proof (cases path)
    case Nil
    then show ?thesis using split_once_none [OF host_port_no_slash [OF assms(1)]] by simp
  next
    case (Cons c q)
    then have "c = CHR ''/''" using p by simp
    then show ?thesis using Cons split_once_append [OF host_port_no_slash [OF assms(1)], of q] by auto
  qed
  then show ?thesis using split_host_port_of [OF assms(1)] s by (simp add: url_parse_def)
qed

lemma url_scheme_simps [simp]:
  "url_scheme (''ws://'' @ r) = Some (Ws, r)" "url_scheme (''srt://'' @ r) = Some (Srt, r)" "url_scheme (''quic://'' @ r) = Some (Quic, r)"
  "url_scheme (''wss://'' @ r) = Some (Ws, r)"
  by (simp_all add: url_scheme_def strip_prefix_def)

text \<open>An address written for dialling is read back as the same address: transport, host (an IPv6 address with
  its brackets), port and path, the push path filled in where there was none; and the address for watching leads to the
  same host and port.\<close>

theorem relay_url_roundtrip:
  assumes "url_ok u"
  shows "\<exists>s w. push_url u = Some s \<and> url_parse s = Some (with_push_path u) \<and> watch_url sid u = Some w \<and>
    (\<exists>v. url_parse w = Some v \<and> ru_transport v = ru_transport u \<and> ru_host v = ru_host u \<and> ru_port v = ru_port u)"
proof -
  have h: "host_ok (ru_host u)" using assms by (simp add: url_ok_def)
  have cases: "ru_transport u = Ws \<or> ru_transport u \<in> {Srt, Quic} \<and> ru_path u = None"
    using assms by (auto simp: url_ok_def split: transport_id.splits)
  show ?thesis
  proof (cases "ru_transport u = Ws")
    case True
    define p where "p = (case ru_path u of Some p \<Rightarrow> p | None \<Rightarrow> ''/ws/push'')"
    have p: "take 1 p = ''/''" "1 < length p" using assms True by (auto simp: p_def url_ok_def split: option.splits)
    have push: "push_url u = Some (''ws://'' @ host_port u @ p)" using True by (simp add: push_url_def p_def)
    have w: "watch_url sid u = Some (''ws://'' @ host_port u @ (''/ws/watch?stream='' @ sid))" using True by (simp add: watch_url_def)
    have "url_parse (''ws://'' @ host_port u @ p) = Some (u\<lparr>ru_transport := Ws, ru_path := Some p\<rparr>)"
      using url_parse_parts [OF h url_scheme_simps(1), of p] p by simp
    moreover have "u\<lparr>ru_transport := Ws, ru_path := Some p\<rparr> = with_push_path u"
      using True by (auto simp: with_push_path_def p_def split: option.splits)
    moreover have "url_parse (''ws://'' @ host_port u @ (''/ws/watch?stream='' @ sid))
        = Some (u\<lparr>ru_transport := Ws, ru_path := Some (''/ws/watch?stream='' @ sid)\<rparr>)"
      using url_parse_parts [OF h url_scheme_simps(1), of "''/ws/watch?stream='' @ sid"] by simp
    ultimately have "\<exists>v. url_parse (''ws://'' @ host_port u @ (''/ws/watch?stream='' @ sid)) = Some v \<and> ru_transport v = Ws \<and>
        ru_host v = ru_host u \<and> ru_port v = ru_port u" "url_parse (''ws://'' @ host_port u @ p) = Some (with_push_path u)"
      by auto
    then show ?thesis using push w True by auto
  next
    case False
    then have t: "ru_transport u \<in> {Srt, Quic}" "ru_path u = None" using cases by simp_all
    then obtain s where s: "push_url u = Some s" "url_scheme s = Some (ru_transport u, host_port u @ [])"
      by (auto simp: push_url_def url_scheme_def strip_prefix_def)
    have "url_parse s = Some (u\<lparr>ru_transport := ru_transport u, ru_path := None\<rparr>)"
      using url_parse_parts [OF h s(2)] by simp
    then have "url_parse s = Some u" using t(2) by simp
    then show ?thesis using s False by (simp add: watch_url_def with_push_path_def)
  qed
qed

definition v6_url :: relay_url where
  "v6_url = url_ws ''fe80::1'' 9 None"

theorem relay_url_roundtrip_witness:
  "push_url v6_url = Some ''ws://[fe80::1]:9/ws/push'' \<and> url_parse ''ws://[fe80::1]:9/ws/push'' = Some (with_push_path v6_url)"
proof -
  have "url_ok v6_url" by (simp add: url_ok_def v6_url_def url_ws_def host_ok_def)
  from relay_url_roundtrip [OF this, of "''s''"] have "\<exists>s. push_url v6_url = Some s \<and> url_parse s = Some (with_push_path v6_url)" by blast
  moreover have "show_word (9 :: u16) = ''9''" by code_simp
  then have "push_url v6_url = Some ''ws://[fe80::1]:9/ws/push''"
    by (simp add: push_url_def v6_url_def url_ws_def host_port_def fmt_host_def)
  ultimately show ?thesis by simp
qed

text \<open>A secure address loses its security: what is parsed from \<open>wss\<close> is dialled as \<open>ws\<close>.\<close>

lemma wss_is_downgraded:
  assumes "host_ok (ru_host u)"
  shows "Option.bind (url_parse (''wss://'' @ host_port u @ ''/x'')) push_url = Some (''ws://'' @ host_port u @ ''/x'')"
  using url_parse_parts [OF assms url_scheme_simps(4), of "''/x''"] by (simp add: push_url_def host_port_def fmt_host_def)

text \<open>The advertised address is never a loopback, fake or link-local one unless there is no other; the second half of
  the fake range, which the text of the source includes, is not recognised.\<close>

lemma advertised_usable:
  "advertise_ip ifs = ''127.0.0.1'' \<or>
   (\<exists>ip \<in> set (local_ips ifs). advertise_ip ifs = show_ip ip \<and> is_v4 ip \<and> \<not> ip_loopback ip \<and> \<not> is_fake_or_link_local ip)"
proof (cases "filter (\<lambda>ip. is_v4 ip \<and> \<not> is_fake_or_link_local ip) (local_ips ifs)")
  case (Cons ip rest)
  then have "ip \<in> set (local_ips ifs)" "is_v4 ip" "\<not> is_fake_or_link_local ip" by (auto dest: filter_eq_ConsD)
  then show ?thesis using Cons by (auto simp: advertise_ip_def local_ips_def split: option.splits)
qed (simp add: advertise_ip_def)

lemma second_fake_half_advertised: "advertise_ip (Some [(''tun'', V4 198 19 0 1)]) = ''198.19.0.1''"
  by code_simp

end
