(* ===== verification/Quic.thy ===== *)
theory Quic
  imports Relay
begin

text \<open>
  The multiplexed QUIC transport (\<open>stross-transport/src/quic.rs\<close>): messages with a length in front of them on a
  byte stream, and the client's side of a connection that many media sessions share.  The QUIC library is outside the
  sources: a received stream is the bytes it will carry and how it ends, opening a stream and writing succeed or
  not as an argument says.
\<close>

section \<open>Messages on a stream\<close>

definition LEN_BYTES :: nat where
  "LEN_BYTES = 4"

definition MAX_MSG_LEN :: nat where
  "MAX_MSG_LEN = 67108864"

text \<open>What a stream will carry, and whether it ends properly.\<close>

record rx_stream =
  rs_data :: bytes
  rs_clean :: bool

definition read_exact :: "nat \<Rightarrow> rx_stream \<Rightarrow> bytes option \<times> rx_stream" where
  "read_exact n s =
     (if n \<le> length (rs_data s) then (Some (take n (rs_data s)), s\<lparr>rs_data := drop n (rs_data s)\<rparr>)
      else (None, s\<lparr>rs_data := []\<rparr>))"

definition read_msg :: "rx_stream \<Rightarrow> (transport_error + bytes option) \<times> rx_stream" where
  "read_msg s =
     (case read_exact LEN_BYTES s of
        (None, s1) \<Rightarrow> (if rs_clean s1 then Inr None else Inl IoError, s1)
      | (Some len_buf, s1) \<Rightarrow>
          let len = unat (of_le len_buf :: u32) in
          if len > MAX_MSG_LEN then (Inl ProtocolError, s1)
          else if len = 0 then (Inr (Some []), s1)
          else (case read_exact len s1 of
                  (None, s2) \<Rightarrow> (if rs_clean s2 then Inr None else Inl IoError, s2)
                | (Some buf, s2) \<Rightarrow> (Inr (Some buf), s2)))"

text \<open>The writes of one message.\<close>

definition write_msg :: "bytes \<Rightarrow> transport_error + bytes list" where
  "write_msg payload =
     (if 2 ^ 32 \<le> length payload then Inl ProtocolError
      else if length payload \<le> 512 then Inr [le_bytes 4 (u32_of_nat (length payload)) @ payload]
      else Inr [le_bytes 4 (u32_of_nat (length payload)), payload])"

definition write_media_msg :: "frame_header2 \<Rightarrow> bytes \<Rightarrow> transport_error + bytes list" where
  "write_media_msg header payload =
     (if 2 ^ 32 \<le> HEADER2_LEN + length payload then Inl ProtocolError
      else Inr [le_bytes 4 (u32_of_nat (HEADER2_LEN + length payload)) @ header2_encode header, payload])"

definition write_media_frame :: "frame \<Rightarrow> transport_error + bytes list" where
  "write_media_frame f =
     write_media_msg \<lparr> h2_track = fh_track (f_header f), h2_flags = fh_flags (f_header f), h2_pts_ms = fh_pts_ms (f_header f),
                       h2_seq = fh_seq (f_header f), h2_len = u32_of_nat (length (f_payload f)) \<rparr> (f_payload f)"

lemma read_exact_length: "read_exact n s = (r, s') \<Longrightarrow> length (rs_data s') \<le> length (rs_data s)"
  by (auto simp: read_exact_def split: if_splits)

lemma read_msg_shrinks: "read_msg s = (Inr (Some b), s') \<Longrightarrow> length (rs_data s') < length (rs_data s)"
  by (auto simp: read_msg_def Let_def read_exact_def LEN_BYTES_def split: if_splits)

text \<open>The next message that is not empty; the empty ones are ready signals.\<close>

function recv_bytes :: "rx_stream \<Rightarrow> (transport_error + bytes option) \<times> rx_stream" where
  "recv_bytes s =
     (case read_msg s of
        (Inr (Some b), s') \<Rightarrow> if b = [] then recv_bytes s' else (Inr (Some b), s')
      | r \<Rightarrow> r)"
  by pat_completeness auto
termination by (relation "measure (\<lambda>s. length (rs_data s))") (auto dest: read_msg_shrinks [OF sym])

declare recv_bytes.simps [simp del]

definition frame_of_msg :: "(transport_error + bytes option) \<times> rx_stream \<Rightarrow> (transport_error + frame option) \<times> rx_stream" where
  "frame_of_msg r =
     (case r of
        (Inl e, s) \<Rightarrow> (Inl e, s)
      | (Inr None, s) \<Rightarrow> (Inr None, s)
      | (Inr (Some b), s) \<Rightarrow> (case to_frame_owned b of Inl e \<Rightarrow> Inl ProtocolError | Inr f \<Rightarrow> Inr (Some f), s))"

definition read_media_frame :: "rx_stream \<Rightarrow> (transport_error + frame option) \<times> rx_stream" where
  "read_media_frame s = frame_of_msg (recv_bytes s)"

definition recv_control :: "(bytes \<Rightarrow> 'c option) \<Rightarrow> rx_stream \<Rightarrow> (transport_error + 'c option) \<times> rx_stream" where
  "recv_control from_text s =
     (case recv_bytes s of
        (Inl e, s') \<Rightarrow> (Inl e, s')
      | (Inr None, s') \<Rightarrow> (Inr None, s')
      | (Inr (Some b), s') \<Rightarrow> (case from_text b of None \<Rightarrow> Inl ProtocolError | Some m \<Rightarrow> Inr (Some m), s'))"


subsection \<open>Writing and reading\<close>

lemma read_written:
  assumes "length payload \<le> MAX_MSG_LEN"
  shows "read_msg \<lparr> rs_data = le_bytes 4 (u32_of_nat (length payload)) @ payload @ rest, rs_clean = c \<rparr>
    = (Inr (Some payload), \<lparr> rs_data = rest, rs_clean = c \<rparr>)"
proof -
  have "unat (u32_of_nat (length payload)) = length payload" using assms by (intro unat_len) (simp add: MAX_MSG_LEN_def)
  moreover have "of_le (le_bytes 4 (u32_of_nat (length payload))) = u32_of_nat (length payload)" by (rule of_le_le_bytes) simp
  ultimately show ?thesis using assms by (simp add: read_msg_def read_exact_def LEN_BYTES_def)
qed

lemma recv_written:
  assumes "length payload \<le> MAX_MSG_LEN" and "payload \<noteq> []"
  shows "recv_bytes \<lparr> rs_data = le_bytes 4 (u32_of_nat (length payload)) @ payload @ rest, rs_clean = c \<rparr>
    = (Inr (Some payload), \<lparr> rs_data = rest, rs_clean = c \<rparr>)"
  using assms by (subst recv_bytes.simps) (simp add: read_written)

lemma recv_ready: "recv_bytes \<lparr> rs_data = le_bytes 4 (0 :: u32) @ rest, rs_clean = c \<rparr> = recv_bytes \<lparr> rs_data = rest, rs_clean = c \<rparr>"
  using read_written [of "[]" rest c] by (subst recv_bytes.simps) (simp add: MAX_MSG_LEN_def)

text \<open>What one side writes: ready signals and frames.\<close>

datatype wire_item = ReadySignal | FrameItem frame

fun item_bytes :: "wire_item \<Rightarrow> bytes" where
  "item_bytes ReadySignal = le_bytes 4 (0 :: u32)"
| "item_bytes (FrameItem f) = (case write_media_frame f of Inl e \<Rightarrow> [] | Inr ws \<Rightarrow> concat ws)"

fun item_frames :: "wire_item list \<Rightarrow> frame list" where
  "item_frames [] = []"
| "item_frames (ReadySignal # is) = item_frames is"
| "item_frames (FrameItem f # is) = f # item_frames is"

fun read_frames :: "nat \<Rightarrow> rx_stream \<Rightarrow> (transport_error + frame option) list" where
  "read_frames 0 s = []"
| "read_frames (Suc n) s = (let (r, s') = read_media_frame s in r # read_frames n s')"

lemma written_frame:
  assumes "HEADER2_LEN + length (f_payload f) \<le> MAX_MSG_LEN"
  shows "read_media_frame \<lparr> rs_data = item_bytes (FrameItem f) @ rest, rs_clean = c \<rparr>
    = (Inr (Some (compact_view f)), \<lparr> rs_data = rest, rs_clean = c \<rparr>)"
proof -
  define msg where "msg = frame2_to_bytes_owned (f2_header (from_frame f)) (f_payload f)"
  have l: "length msg = HEADER2_LEN + length (f_payload f)" by (simp add: msg_def frame2_to_bytes_owned_def)
  have small: "HEADER2_LEN + length (f_payload f) < 2 ^ 32" using assms by (simp add: MAX_MSG_LEN_def)
  have b: "item_bytes (FrameItem f) @ rest = le_bytes 4 (u32_of_nat (length msg)) @ msg @ rest"
    using small by (simp add: write_media_frame_def write_media_msg_def l) (simp add: msg_def frame2_to_bytes_owned_def from_frame_def)
  have ne: "msg \<noteq> []" using l by (auto simp: HEADER2_LEN_def)
  have "to_frame_owned msg = Inr (compact_view f)"
    unfolding msg_def using compact_roundtrip [of f] small by simp
  then show ?thesis unfolding read_media_frame_def b using recv_written [OF _ ne, of rest c] assms l by (simp add: frame_of_msg_def)
qed

lemma read_ready: "read_media_frame \<lparr> rs_data = item_bytes ReadySignal @ rest, rs_clean = c \<rparr> = read_media_frame \<lparr> rs_data = rest, rs_clean = c \<rparr>"
  by (simp add: read_media_frame_def recv_ready)

lemma read_end: "read_media_frame \<lparr> rs_data = [], rs_clean = True \<rparr> = (Inr None, \<lparr> rs_data = [], rs_clean = True \<rparr>)"
  by (subst read_media_frame_def, subst recv_bytes.simps) (simp add: read_msg_def read_exact_def LEN_BYTES_def frame_of_msg_def)

text \<open>C13. A media stream delivers what was written to it: the frames come out one per read, in order, with the contents
  the compact header keeps, whatever ready signals stand between them, and after the last one the end of the stream.\<close>

theorem quic_stream_delivers:
  assumes "list_all (\<lambda>f. HEADER2_LEN + length (f_payload f) \<le> MAX_MSG_LEN) (item_frames items)"
  shows "read_frames (length (item_frames items) + 1) \<lparr> rs_data = concat (map item_bytes items), rs_clean = True \<rparr>
    = map (\<lambda>f. Inr (Some (compact_view f))) (item_frames items) @ [Inr None]"
  using assms
proof (induction items rule: item_frames.induct)
  case 1
  then show ?case by (simp add: read_end)
next
  case (2 "is")
  have "read_frames (Suc n) \<lparr> rs_data = item_bytes ReadySignal @ rest, rs_clean = True \<rparr>
      = read_frames (Suc n) \<lparr> rs_data = rest, rs_clean = True \<rparr>" for n rest
    by (simp only: read_frames.simps read_ready)
  then show ?case using 2 by (simp del: read_frames.simps item_bytes.simps)
next
  case (3 f "is")
  have "read_frames (Suc n) \<lparr> rs_data = item_bytes (FrameItem f) @ rest, rs_clean = True \<rparr>
      = Inr (Some (compact_view f)) # read_frames n \<lparr> rs_data = rest, rs_clean = True \<rparr>" for n rest
    using "3.prems" by (simp add: written_frame del: item_bytes.simps)
  then show ?case using 3 by (simp del: read_frames.simps item_bytes.simps)
qed


definition two_items :: "wire_item list" where
  "two_items = [ReadySignal, FrameItem sample_frame, FrameItem sample_frame]"

theorem quic_stream_delivers_witness:
  "read_frames 3 \<lparr> rs_data = concat (map item_bytes two_items), rs_clean = True \<rparr>
   = [Inr (Some (compact_view sample_frame)), Inr (Some (compact_view sample_frame)), Inr None]"
proof -
  have "list_all (\<lambda>f. HEADER2_LEN + length (f_payload f) \<le> MAX_MSG_LEN) (item_frames two_items)"
    by (simp add: two_items_def sample_frame_def frame_with_seq_def MAX_MSG_LEN_def HEADER2_LEN_def)
  from quic_stream_delivers [OF this] show ?thesis by (simp add: two_items_def numeral_eq_Suc)
qed

section \<open>Many sessions on one connection\<close>

datatype link_event = EvOpened | EvLinkError string | EvClosed

text \<open>The control messages of the client's side of a link.\<close>

datatype link_msg = OpenStreamMsg open_request | OpenedMsg stream_id | CloseMsg stream_id | LinkErrorMsg string | OtherLinkMsg

text \<open>A media session: its events, and the stream once it is registered.\<close>

record media_session =
  ms_events :: "link_event list"
  ms_stream :: "nat option"
  ms_rx :: rx_stream
  ms_tx :: "bytes list"
  ms_finished :: bool
  ms_semantic :: "stream_id option"
  ms_role :: "stream_role option"
  ms_registered :: bool
  ms_opened :: bool

text \<open>A connection: its sessions by handle, the routing tables, and what was written on the control stream.  A bidirectional
  stream the client opens has the next multiple of four; the control stream is the first.\<close>

record client_link =
  cl_media :: "media_session list"
  cl_sessions :: "(nat \<times> nat) list"
  cl_semantic :: "(stream_id \<times> nat) list"
  cl_next :: nat
  cl_control :: "link_msg list"

record link_env =
  le_open :: bool
  le_write :: bool
  le_incoming :: rx_stream

definition client_link_new :: client_link where
  "client_link_new = \<lparr> cl_media = [], cl_sessions = [], cl_semantic = [], cl_next = 4, cl_control = [] \<rparr>"

definition session_new :: media_session where
  "session_new = \<lparr> ms_events = [], ms_stream = None, ms_rx = \<lparr> rs_data = [], rs_clean = True \<rparr>, ms_tx = [], ms_finished = False,
     ms_semantic = None, ms_role = None, ms_registered = False, ms_opened = False \<rparr>"

definition open_media :: "client_link \<Rightarrow> nat \<times> client_link" where
  "open_media l = (length (cl_media l), l\<lparr>cl_media := cl_media l @ [session_new]\<rparr>)"

definition on_media :: "nat \<Rightarrow> (media_session \<Rightarrow> media_session) \<Rightarrow> client_link \<Rightarrow> client_link" where
  "on_media h f l = l\<lparr>cl_media := (cl_media l)[h := f (cl_media l ! h)]\<rparr>"

definition send_control :: "link_env \<Rightarrow> link_msg \<Rightarrow> client_link \<Rightarrow> (transport_error + unit) \<times> client_link" where
  "send_control env msg l = (if le_write env then (Inr (), l\<lparr>cl_control := cl_control l @ [msg]\<rparr>) else (Inl IoError, l))"

text \<open>Registering a session: its stream is opened, entered in the tables, and announced.\<close>

definition register :: "link_env \<Rightarrow> open_request \<Rightarrow> nat \<Rightarrow> client_link \<Rightarrow> (transport_error + unit) \<times> client_link" where
  "register env req h l =
     (if ms_registered (cl_media l ! h) then (Inr (), l)
      else
        let l1 = on_media h (\<lambda>s. s\<lparr>ms_registered := True\<rparr>) l in
        if \<not> le_open env then (Inl IoError, l1)
        else
          let qid = cl_next l1; l2 = l1\<lparr>cl_next := qid + 4\<rparr> in
          if \<not> le_write env then (Inl IoError, l2)
          else
            let l3 = on_media h (\<lambda>s. s\<lparr>ms_stream := Some qid, ms_tx := [le_bytes 4 (0 :: u32)], ms_rx := le_incoming env,
                                       ms_semantic := Some (or_stream req), ms_role := Some (or_role req)\<rparr>) l2;
                l4 = l3\<lparr>cl_sessions := AList.update qid h (cl_sessions l3), cl_semantic := AList.update (or_stream req) qid (cl_semantic l3)\<rparr>
            in send_control env (OpenStreamMsg req) l4)"

definition finish_media :: "link_env \<Rightarrow> nat \<Rightarrow> client_link \<Rightarrow> client_link" where
  "finish_media env h l =
     (let l1 = (case ms_semantic (cl_media l ! h) of None \<Rightarrow> l | Some sid \<Rightarrow> snd (send_control env (CloseMsg sid) l))
      in if ms_stream (cl_media l1 ! h) = None then l1 else on_media h (\<lambda>s. s\<lparr>ms_finished := True\<rparr>) l1)"

fun media_send :: "link_env \<Rightarrow> relay_msg session_packet \<Rightarrow> nat \<Rightarrow> client_link \<Rightarrow> (transport_error + unit) \<times> client_link" where
  "media_send env (ControlPkt (Hello sid title video audio token)) h l =
     register env \<lparr> or_stream = sid, or_role = PushRole, or_title = Some title, or_video = video, or_audio = audio, or_token = token \<rparr> h l"
| "media_send env (ControlPkt (Watch sid)) h l =
     register env \<lparr> or_stream = sid, or_role = WatchRole, or_title = None, or_video = None, or_audio = None, or_token = None \<rparr> h l"
| "media_send env (ControlPkt Bye) h l = (Inr (), finish_media env h l)"
| "media_send env (ControlPkt _) h l = (Inr (), l)"
| "media_send env (MediaPkt f) h l =
     (let s = cl_media l ! h in
      if \<not> ms_registered s \<or> ms_stream s = None then (Inl ProtocolError, l)
      else case write_media_frame f of
        Inl e \<Rightarrow> (Inl e, l)
      | Inr ws \<Rightarrow> if le_write env then (Inr (), on_media h (\<lambda>s. s\<lparr>ms_tx := ms_tx s @ ws\<rparr>) l) else (Inl IoError, l))"

type_synonym media_result = "transport_error + relay_msg session_packet option"

definition on_event :: "link_event \<Rightarrow> nat \<Rightarrow> client_link \<Rightarrow> media_result \<times> client_link" where
  "on_event ev h l =
     (case ev of
        EvOpened \<Rightarrow>
          let s = cl_media l ! h;
              role = (case ms_role s of None \<Rightarrow> PushRole | Some r \<Rightarrow> r);
              sid = (case ms_semantic s of None \<Rightarrow> [] | Some i \<Rightarrow> i)
          in (Inr (Some (ControlPkt (case role of PushRole \<Rightarrow> Welcome sid | WatchRole \<Rightarrow> Ready sid))),
              on_media h (\<lambda>s. s\<lparr>ms_opened := True\<rparr>) l)
      | EvLinkError m \<Rightarrow> (Inl ProtocolError, l)
      | EvClosed \<Rightarrow> (Inr None, l))"

definition recv_media :: "nat \<Rightarrow> client_link \<Rightarrow> media_result \<times> client_link" where
  "recv_media h l =
     (let s = cl_media l ! h in
      if ms_stream s = None then (Inl ProtocolError, l)
      else (case frame_of_msg (recv_bytes (ms_rx s)) of
              (Inl e, rx) \<Rightarrow> (Inl e, on_media h (\<lambda>s. s\<lparr>ms_rx := rx\<rparr>) l)
            | (Inr None, rx) \<Rightarrow> (Inr None, on_media h (\<lambda>s. s\<lparr>ms_rx := rx\<rparr>) l)
            | (Inr (Some f), rx) \<Rightarrow> (Inr (Some (MediaPkt f)), on_media h (\<lambda>s. s\<lparr>ms_rx := rx\<rparr>) l)))"

text \<open>Receiving: events first; media only once the stream is confirmed.  \<open>None\<close>: it waits.\<close>

definition media_recv :: "nat \<Rightarrow> client_link \<Rightarrow> media_result option \<times> client_link" where
  "media_recv h l =
     (case ms_events (cl_media l ! h) of
        ev # evs \<Rightarrow> (let (r, l') = on_event ev h (on_media h (\<lambda>s. s\<lparr>ms_events := evs\<rparr>) l) in (Some r, l'))
      | [] \<Rightarrow> if ms_opened (cl_media l ! h) then (let (r, l') = recv_media h l in (Some r, l')) else (None, l))"

text \<open>The control loop: events go to the session of the named stream, an error to every session.\<close>

definition deliver :: "link_event \<Rightarrow> nat \<Rightarrow> client_link \<Rightarrow> client_link" where
  "deliver ev h l = on_media h (\<lambda>s. s\<lparr>ms_events := ms_events s @ [ev]\<rparr>) l"

definition route :: "link_event \<Rightarrow> stream_id \<Rightarrow> client_link \<Rightarrow> client_link" where
  "route ev sid l =
     (case Option.bind (map_of (cl_semantic l) sid) (map_of (cl_sessions l)) of
        None \<Rightarrow> l | Some h \<Rightarrow> deliver ev h l)"

fun control_step :: "link_msg \<Rightarrow> client_link \<Rightarrow> client_link" where
  "control_step (OpenedMsg sid) l = route EvOpened sid l"
| "control_step (CloseMsg sid) l = route EvClosed sid l"
| "control_step (LinkErrorMsg m) l = fold (\<lambda>(_, h). deliver (EvLinkError m) h) (cl_sessions l) l"
| "control_step _ l = l"


subsection \<open>The gate\<close>

text \<open>Whatever the sessions of a connection and the relay do, in any order; the results of the receives are collected.\<close>

datatype link_op = OpNew | OpSend link_env "relay_msg session_packet" nat | OpRecv nat | OpClose link_env nat | OpControl link_msg

type_synonym link_run = "(nat \<times> media_result) list \<times> client_link"

fun link_step :: "link_op \<Rightarrow> link_run \<Rightarrow> link_run" where
  "link_step OpNew (outs, l) = (outs, snd (open_media l))"
| "link_step (OpSend env p h) (outs, l) = (outs, if h < length (cl_media l) then snd (media_send env p h l) else l)"
| "link_step (OpRecv h) (outs, l) =
     (if h < length (cl_media l) then
        (case media_recv h l of (None, l') \<Rightarrow> (outs, l') | (Some r, l') \<Rightarrow> (outs @ [(h, r)], l'))
      else (outs, l))"
| "link_step (OpClose env h) (outs, l) = (outs, if h < length (cl_media l) then finish_media env h l else l)"
| "link_step (OpControl msg) (outs, l) = (outs, control_step msg l)"

definition link_run :: "link_op list \<Rightarrow> link_run" where
  "link_run ops = fold link_step ops ([], client_link_new)"

fun is_confirmation :: "media_result \<Rightarrow> bool" where
  "is_confirmation (Inr (Some (ControlPkt (Welcome sid)))) = True"
| "is_confirmation (Inr (Some (ControlPkt (Ready sid)))) = True"
| "is_confirmation _ = False"

fun is_media :: "media_result \<Rightarrow> bool" where
  "is_media (Inr (Some (MediaPkt f))) = True"
| "is_media _ = False"

definition confirmed :: "nat \<Rightarrow> (nat \<times> media_result) list \<Rightarrow> bool" where
  "confirmed h outs \<longleftrightarrow> list_ex (\<lambda>(k, r). k = h \<and> is_confirmation r) outs"

text \<open>The sessions whose gate is open.\<close>

definition opened_of :: "client_link \<Rightarrow> bool list" where
  "opened_of l = map ms_opened (cl_media l)"

lemma opened_on_media: "(\<And>s. ms_opened (f s) = ms_opened s) \<Longrightarrow> opened_of (on_media h f l) = opened_of l"
  by (cases "h < length (cl_media l)")
    (simp_all add: opened_of_def on_media_def map_update list_update_same_conv list_update_beyond)

lemma opened_record [simp]:
  "opened_of (l\<lparr>cl_sessions := a\<rparr>) = opened_of l" "opened_of (l\<lparr>cl_semantic := b\<rparr>) = opened_of l"
  "opened_of (l\<lparr>cl_next := n\<rparr>) = opened_of l" "opened_of (l\<lparr>cl_control := c\<rparr>) = opened_of l"
  by (simp_all add: opened_of_def)

lemma opened_control_send [simp]: "opened_of (snd (send_control env msg l)) = opened_of l"
  by (simp add: send_control_def)

lemma opened_register [simp]: "opened_of (snd (register env req h l)) = opened_of l"
  by (simp add: register_def Let_def opened_on_media)

lemma opened_finish [simp]: "opened_of (finish_media env h l) = opened_of l"
  by (simp add: finish_media_def Let_def opened_on_media split: option.splits)

lemma opened_send [simp]: "opened_of (snd (media_send env p h l)) = opened_of l"
  by (cases "(env, p, h, l)" rule: media_send.cases) (simp_all add: Let_def opened_on_media split: sum.splits)

lemma opened_deliver [simp]: "opened_of (deliver ev h l) = opened_of l"
  by (simp add: deliver_def opened_on_media)

lemma opened_control [simp]: "opened_of (control_step msg l) = opened_of l"
proof -
  have "opened_of (fold (\<lambda>(_, h). deliver ev h) ss l) = opened_of l" for ev and ss :: "(nat \<times> nat) list" and l
    by (induction ss arbitrary: l) (simp_all add: case_prod_unfold)
  then show ?thesis by (cases msg) (simp_all add: route_def split: option.splits)
qed

lemma opened_recv_media: "recv_media h l = (r, l') \<Longrightarrow> opened_of l' = opened_of l \<and> \<not> is_confirmation r"
  by (auto simp: recv_media_def Let_def opened_on_media split: if_splits sum.splits option.splits prod.splits)

text \<open>The gate opens only with the packet that confirms the stream.\<close>

lemma media_recv_gate:
  assumes "media_recv h l = (r, l')" and "h < length (cl_media l)"
  shows "opened_of l' = opened_of l \<or> opened_of l' = (opened_of l)[h := True] \<and> (\<exists>x. r = Some x \<and> is_confirmation x)"
    and "r = Some x \<Longrightarrow> is_media x \<Longrightarrow> opened_of l ! h"
proof -
  have on: "opened_of (on_media h (\<lambda>s. s\<lparr>ms_opened := True\<rparr>) l) = (opened_of l)[h := True]" for l
    by (cases "h < length (cl_media l)") (simp_all add: opened_of_def on_media_def map_update list_update_beyond)
  have ev: "opened_of l2 = opened_of l1 \<or> opened_of l2 = (opened_of l1)[h := True] \<and> is_confirmation y" "\<not> is_media y"
    if "on_event ev h l1 = (y, l2)" for ev l1 l2 y
    using that on by (auto simp: on_event_def Let_def split: link_event.splits stream_role.splits)
  have both: "(opened_of l' = opened_of l \<or> opened_of l' = (opened_of l)[h := True] \<and> (\<exists>x. r = Some x \<and> is_confirmation x)) \<and>
      (\<forall>x. r = Some x \<longrightarrow> is_media x \<longrightarrow> opened_of l ! h)"
  proof (cases "ms_events (cl_media l ! h)")
    case Nil
    show ?thesis
    proof (cases "ms_opened (cl_media l ! h)")
      case True
      then have "opened_of l ! h" using assms(2) by (simp add: opened_of_def)
      then show ?thesis using assms(1) Nil True opened_recv_media [of h l] by (auto simp: media_recv_def split: prod.splits)
    next
      case False
      then show ?thesis using assms(1) Nil by (simp add: media_recv_def)
    qed
  next
    case (Cons e es)
    obtain y l2 where e: "on_event e h (on_media h (\<lambda>s. s\<lparr>ms_events := es\<rparr>) l) = (y, l2)" by fastforce
    then have "r = Some y" "l' = l2" using assms(1) Cons by (simp_all add: media_recv_def)
    then show ?thesis using ev [OF e] by (simp add: opened_on_media)
  qed
  then show "opened_of l' = opened_of l \<or> opened_of l' = (opened_of l)[h := True] \<and> (\<exists>x. r = Some x \<and> is_confirmation x)"
    and "r = Some x \<Longrightarrow> is_media x \<Longrightarrow> opened_of l ! h" by blast+
qed

definition gate_inv :: "link_run \<Rightarrow> bool" where
  "gate_inv s \<longleftrightarrow> (\<forall>i < length (fst s). is_media (snd (fst s ! i)) \<longrightarrow> confirmed (fst (fst s ! i)) (take i (fst s))) \<and>
     (\<forall>h < length (opened_of (snd s)). opened_of (snd s) ! h \<longrightarrow> confirmed h (fst s))"

lemma confirmed_append [simp]: "confirmed h (xs @ ys) \<longleftrightarrow> confirmed h xs \<or> confirmed h ys"
  by (simp add: confirmed_def)

lemma gate_inv_same: "gate_inv (outs, l) \<Longrightarrow> opened_of l' = opened_of l \<Longrightarrow> gate_inv (outs, l')"
  by (simp add: gate_inv_def)

lemma gate_inv_step: "gate_inv (outs, l) \<Longrightarrow> gate_inv (link_step op (outs, l))"
proof (cases op)
  assume i: "gate_inv (outs, l)"
  case OpNew
  then show ?thesis using i
    by (auto simp: gate_inv_def open_media_def opened_of_def session_new_def nth_append split: if_splits)
next
  assume 3: "gate_inv (outs, l)"
  case (OpRecv h)
  obtain r l' where r: "media_recv h l = (r, l')" by fastforce
  show ?thesis
  proof (cases "h < length (cl_media l)")
    case True
    note g = media_recv_gate [OF r True]
    have len: "h < length (opened_of l)" using True by (simp add: opened_of_def)
    show ?thesis
    proof (cases r)
      case None
      then show ?thesis using 3 g(1) r True OpRecv by (auto simp: gate_inv_def)
    next
      case (Some x)
      have "gate_inv (outs @ [(h, x)], l')"
        unfolding gate_inv_def fst_conv snd_conv
      proof (intro conjI allI impI)
        fix i assume i: "i < length (outs @ [(h, x)])" "is_media (snd ((outs @ [(h, x)]) ! i))"
        show "confirmed (fst ((outs @ [(h, x)]) ! i)) (take i (outs @ [(h, x)]))"
        proof (cases "i < length outs")
          case True
          then show ?thesis using 3 i by (simp add: gate_inv_def nth_append)
        next
          case False
          then have "i = length outs" using i(1) by simp
          then show ?thesis using 3 i(2) g(2) [OF Some] len by (simp add: gate_inv_def)
        qed
      next
        fix k assume k: "k < length (opened_of l')" "opened_of l' ! k"
        then show "confirmed k (outs @ [(h, x)])"
          using 3 g(1) Some len by (auto simp: gate_inv_def confirmed_def nth_list_update split: if_splits)
      qed
      then show ?thesis using Some r True OpRecv by simp
    qed
  qed (use 3 OpRecv in simp)
qed (auto intro: gate_inv_same)

lemma gate_inv_run: "gate_inv (link_run ops)"
proof -
  have "gate_inv (fold link_step ops s)" if "gate_inv s" for s
    using that
  proof (induction ops arbitrary: s)
    case (Cons op ops)
    then show ?case using gate_inv_step by (cases s) simp
  qed simp
  moreover have "gate_inv ([], client_link_new)" by (simp add: gate_inv_def client_link_new_def opened_of_def)
  ultimately show ?thesis by (simp add: link_run_def)
qed

text \<open>A media session hands out no frame before it has handed out the relay's confirmation of its stream, in any
  order of sends, receives, closings and messages of the relay on the shared connection: frames that arrive earlier
  wait.\<close>

theorem quic_media_after_confirmation:
  assumes "link_run ops = (outs, l)" and "i < length outs" and "outs ! i = (h, r)" and "is_media r"
  shows "\<exists>j < i. \<exists>c. outs ! j = (h, c) \<and> is_confirmation c"
proof -
  have "confirmed h (take i outs)" using gate_inv_run [of ops] assms by (auto simp: gate_inv_def)
  then obtain j where "j < i" "fst (outs ! j) = h" "is_confirmation (snd (outs ! j))"
    using assms(2) by (auto simp: confirmed_def list_ex_length case_prod_unfold)
  then show ?thesis by (metis prod.collapse)
qed

definition ok_env :: "rx_stream \<Rightarrow> link_env" where
  "ok_env rx = \<lparr> le_open = True, le_write = True, le_incoming = rx \<rparr>"

definition one_frame :: rx_stream where
  "one_frame = \<lparr> rs_data = item_bytes ReadySignal @ item_bytes (FrameItem sample_frame), rs_clean = True \<rparr>"

definition watch_run :: "link_op list" where
  "watch_run = [OpNew, OpSend (ok_env one_frame) (ControlPkt (Watch ''a'')) 0, OpRecv 0, OpControl (OpenedMsg ''a''), OpRecv 0, OpRecv 0]"

lemma one_frame_read: "frame_of_msg (recv_bytes one_frame) = (Inr (Some (compact_view sample_frame)), \<lparr> rs_data = [], rs_clean = True \<rparr>)"
proof -
  have "HEADER2_LEN + length (f_payload sample_frame) \<le> MAX_MSG_LEN"
    by (simp add: sample_frame_def frame_with_seq_def MAX_MSG_LEN_def HEADER2_LEN_def)
  from written_frame [OF this, of "[]" True] show ?thesis
    using read_ready [of "item_bytes (FrameItem sample_frame)" True] by (simp add: one_frame_def read_media_frame_def)
qed

lemma watch_run_outs: "fst (link_run watch_run) = [(0, Inr (Some (ControlPkt (Ready ''a'')))), (0, Inr (Some (MediaPkt (compact_view sample_frame))))]"
  by (simp add: link_run_def watch_run_def client_link_new_def open_media_def session_new_def register_def ok_env_def on_media_def send_control_def
      media_recv_def route_def deliver_def on_event_def recv_media_def one_frame_read Let_def)

theorem quic_media_after_confirmation_witness:
  "\<exists>outs l j c. link_run watch_run = (outs, l) \<and> is_media (snd (outs ! 1)) \<and> j < 1 \<and> outs ! j = (0, c) \<and> is_confirmation c"
proof -
  obtain outs l where r: "link_run watch_run = (outs, l)" by fastforce
  then have "1 < length outs" "outs ! 1 = (0, snd (outs ! 1))" "is_media (snd (outs ! 1))" using watch_run_outs by simp_all
  from quic_media_after_confirmation [OF r this] this show ?thesis using r by blast
qed

definition empty_stream :: rx_stream where
  "empty_stream = \<lparr> rs_data = [], rs_clean = True \<rparr>"

text \<open>A relay that refuses one stream of the connection breaks all the others: the error is given to every session, and
  one that is already open fails on it.\<close>

lemma refusal_breaks_open_sessions:
  "fst (link_run [OpNew, OpNew, OpSend (ok_env empty_stream) (ControlPkt (Watch ''a'')) 0, OpControl (OpenedMsg ''a''), OpRecv 0,
      OpSend (ok_env empty_stream) (ControlPkt (Watch ''b'')) 1, OpControl (LinkErrorMsg ''no stream b''), OpRecv 0])
   = [(0, Inr (Some (ControlPkt (Ready ''a'')))), (0, Inl ProtocolError)]"
  by code_simp

text \<open>Two sessions of one connection for the same stream: the second takes the confirmation of the first, which
  waits for good.\<close>

lemma same_stream_misrouted:
  "fst (link_run [OpNew, OpNew, OpSend (ok_env empty_stream) (ControlPkt (Watch ''a'')) 0, OpSend (ok_env empty_stream) (ControlPkt (Watch ''a'')) 1,
      OpControl (OpenedMsg ''a''), OpControl (OpenedMsg ''a''), OpRecv 0, OpRecv 1, OpRecv 1, OpRecv 0])
   = [(1, Inr (Some (ControlPkt (Ready ''a'')))), (1, Inr (Some (ControlPkt (Ready ''a''))))]"
  by code_simp

text \<open>A session whose stream could not be opened counts as registered: a second attempt does nothing and succeeds, and
  every frame is refused.\<close>

lemma failed_open_not_retried:
  assumes "h < length (cl_media l)" and "\<not> ms_registered (cl_media l ! h)" and "ms_stream (cl_media l ! h) = None" and "\<not> le_open env"
    and l1: "l1 = snd (register env req h l)"
  shows "fst (register env req h l) = Inl IoError" and "register env' req' h l1 = (Inr (), l1)"
    and "media_send env' (MediaPkt f) h l1 = (Inl ProtocolError, l1)"
  using assms by (simp_all add: l1 register_def on_media_def)

end
