(* ===== verification/Txt_Record.thy ===== *)
theory Txt_Record
  imports Rust_Text
begin

text \<open>
  TXT records of the mDNS library (\<open>mdns/src/service_info.rs\<close>): the properties of a service, the check of
  \<open>ServiceInfo::new\<close>, and the wire form, one length byte before each \<open>key=value\<close>.  A Rust \<open>String\<close> is the list of its
  UTF-8 bytes.  \<open>str::to_lowercase\<close> (the Unicode tables) is the parameter \<open>lower\<close>.
\<close>

section \<open>UTF-8\<close>

definition is_cont :: "char \<Rightarrow> bool" where
  "is_cont c \<longleftrightarrow> 128 \<le> (of_char c :: nat) \<and> (of_char c :: nat) < 192"

definition in_range :: "nat \<Rightarrow> nat \<Rightarrow> char \<Rightarrow> bool" where
  "in_range lo hi c \<longleftrightarrow> lo \<le> (of_char c :: nat) \<and> (of_char c :: nat) \<le> hi"

text \<open>The length of the well-formed character a text begins with (what \<open>str::from_utf8\<close> accepts).\<close>

definition conts :: "nat \<Rightarrow> string \<Rightarrow> bool" where
  "conts k s \<longleftrightarrow> k \<le> length s \<and> list_all is_cont (take k s)"

fun utf8_head :: "string \<Rightarrow> nat option" where
  "utf8_head [] = None"
| "utf8_head (a # r) =
     (if in_range 0 0x7F a then Some 1
      else if in_range 0xC2 0xDF a then if conts 1 r then Some 2 else None
      else if in_range 0xE0 0xEF a
        then if conts 2 r \<and> (of_char a = (0xE0 :: nat) \<longrightarrow> in_range 0xA0 0xBF (hd r))
                \<and> (of_char a = (0xED :: nat) \<longrightarrow> in_range 0x80 0x9F (hd r)) then Some 3 else None
      else if in_range 0xF0 0xF4 a \<and> conts 3 r \<and> (of_char a = (0xF0 :: nat) \<longrightarrow> in_range 0x90 0xBF (hd r))
                \<and> (of_char a = (0xF4 :: nat) \<longrightarrow> in_range 0x80 0x8F (hd r)) then Some 4
      else None)"

function utf8_valid :: "string \<Rightarrow> bool" where
  "utf8_valid s = (s = [] \<or> (case utf8_head s of None \<Rightarrow> False | Some n \<Rightarrow> utf8_valid (drop n s)))"
  by pat_completeness auto
termination
proof (relation "measure length")
  fix s n assume "utf8_head s = Some n"
  then show "(drop n s, s) \<in> measure length" by (cases s) (auto split: if_splits)
qed simp

declare utf8_valid.simps [simp del]

lemma utf8_nil [simp]: "utf8_valid []"
  by (simp add: utf8_valid.simps)

definition ascii :: "string \<Rightarrow> bool" where
  "ascii s \<longleftrightarrow> list_all (in_range 0 127) s"

lemma ascii_utf8: "ascii s \<Longrightarrow> utf8_valid s"
  by (induction s) (simp, subst utf8_valid.simps, simp add: ascii_def)

text \<open>A non-empty text is one character, a lead byte with its continuation bytes, and the text after it.\<close>

lemma utf8_head_split:
  assumes "utf8_head s = Some n"
  obtains a cs t where "s = a # cs @ t" "\<not> is_cont a" "list_all is_cont cs" "n = Suc (length cs)"
    "\<And>u. utf8_head (a # cs @ u) = Some n"
proof -
  obtain a r where s: "s = a # r" using assms by (cases s) auto
  have n: "0 < n" "\<not> is_cont a" "conts (n - 1) r"
    using assms by (auto simp: s is_cont_def in_range_def conts_def split: if_splits)
  let ?cs = "take (n - 1) r"
  have l: "length ?cs = n - 1" using n(3) by (simp add: conts_def)
  have "conts k (?cs @ u) \<longleftrightarrow> conts k r" if "k = n - 1" for k u
    using n(3) l that by (simp add: conts_def)
  moreover have "hd (?cs @ u) = hd r" if "1 < n" for u
    using l that by (cases r) (auto simp: take_Cons split: nat.split)
  ultimately have "utf8_head (a # ?cs @ u) = Some n" for u
    using assms by (auto simp: s split: if_splits)
  then show thesis using that [of a ?cs "drop (n - 1) r"] n l by (simp add: s conts_def)
qed

lemma utf8_char:
  assumes "utf8_valid s" "s \<noteq> []"
  obtains a cs t where "s = a # cs @ t" "\<not> is_cont a" "list_all is_cont cs" "utf8_valid t"
    "\<And>u. utf8_valid u \<Longrightarrow> utf8_valid (a # cs @ u)"
proof -
  obtain n where h: "utf8_head s = Some n" and v: "utf8_valid (drop n s)"
    using assms by (subst (asm) utf8_valid.simps) (auto split: option.splits)
  obtain a cs t where s: "s = a # cs @ t" "\<not> is_cont a" "list_all is_cont cs" "n = Suc (length cs)"
    and u: "\<And>u. utf8_head (a # cs @ u) = Some n" using h by (rule utf8_head_split) blast
  have "utf8_valid (a # cs @ w)" if "utf8_valid w" for w
    using that u [of w] s(4) by (subst utf8_valid.simps) simp
  then show thesis using that s v by simp
qed

lemma utf8_lead: "utf8_valid (a # s) \<Longrightarrow> \<not> is_cont a"
  by (rule utf8_char [of "a # s"]) auto


section \<open>Properties\<close>

record txt_property =
  tp_key :: string
  tp_val :: "string option"

definition text_prop :: "string \<times> string \<Rightarrow> txt_property" where
  "text_prop kv = \<lparr>tp_key = fst kv, tp_val = Some (snd kv)\<rparr>"

text \<open>The value as text, empty when there is none or when it is not UTF-8.\<close>

definition val_str :: "txt_property \<Rightarrow> string" where
  "val_str p = (case tp_val p of None \<Rightarrow> [] | Some v \<Rightarrow> if utf8_valid v then v else [])"

definition get_prop :: "(string \<Rightarrow> string) \<Rightarrow> string \<Rightarrow> txt_property list \<Rightarrow> txt_property option" where
  "get_prop lower key ps = List.find (\<lambda>p. lower (tp_key p) = lower key) ps"

definition get_property_val :: "(string \<Rightarrow> string) \<Rightarrow> string \<Rightarrow> txt_property list \<Rightarrow> string option option" where
  "get_property_val lower key ps = map_option tp_val (get_prop lower key ps)"

definition get_property_val_str :: "(string \<Rightarrow> string) \<Rightarrow> string \<Rightarrow> txt_property list \<Rightarrow> string option" where
  "get_property_val_str lower key ps = map_option val_str (get_prop lower key ps)"

text \<open>A map in the order of its iteration; a slice keeps the first property of each key.\<close>

definition props_of_map :: "(string \<times> string) list \<Rightarrow> txt_property list" where
  "props_of_map m = map text_prop m"

fun first_keys :: "(string \<Rightarrow> string) \<Rightarrow> string list \<Rightarrow> txt_property list \<Rightarrow> txt_property list" where
  "first_keys lower seen [] = []"
| "first_keys lower seen (p # ps) =
     (if lower (tp_key p) \<in> set seen then first_keys lower seen ps
      else p # first_keys lower (lower (tp_key p) # seen) ps)"

definition props_of_slice :: "(string \<Rightarrow> string) \<Rightarrow> (string \<times> string) list \<Rightarrow> txt_property list" where
  "props_of_slice lower kvs = first_keys lower [] (map text_prop kvs)"

definition into_property_map :: "txt_property list \<Rightarrow> (string \<times> string) list" where
  "into_property_map ps =
     fold (\<lambda>(k, v) m. AList.update k v m)
       (List.map_filter (\<lambda>p. case tp_val p of None \<Rightarrow> Some (tp_key p, [])
                             | Some v \<Rightarrow> if utf8_valid v then Some (tp_key p, v) else None) ps) []"


section \<open>Registration and wire form\<close>

datatype txt_error = KeyNotAscii | KeyContainsEq | PropTooLong nat

definition prop_len :: "txt_property \<Rightarrow> nat" where
  "prop_len p = length (tp_key p) + (case tp_val p of None \<Rightarrow> 0 | Some v \<Rightarrow> length v + 1)"

definition check_prop :: "txt_property \<Rightarrow> txt_error option" where
  "check_prop p =
     (if \<not> ascii (tp_key p) then Some KeyNotAscii
      else if CHR ''='' \<in> set (tp_key p) then Some KeyContainsEq
      else if prop_len p > 255 then Some (PropTooLong (prop_len p))
      else None)"

fun check_props :: "txt_property list \<Rightarrow> txt_error option" where
  "check_props [] = None"
| "check_props (p # ps) = (case check_prop p of Some e \<Rightarrow> Some e | None \<Rightarrow> check_props ps)"

text \<open>The bytes of a property; a longer one is cut at 255 bytes (release builds).\<close>

definition prop_bytes :: "txt_property \<Rightarrow> string" where
  "prop_bytes p = take 255 (tp_key p @ (case tp_val p of None \<Rightarrow> [] | Some v \<Rightarrow> CHR ''='' # v))"

definition encode_txt :: "txt_property list \<Rightarrow> string" where
  "encode_txt ps =
     (let bytes = concat (map (\<lambda>p. char_of (length (prop_bytes p)) # prop_bytes p) ps)
      in if bytes = [] then [char_of (0 :: nat)] else bytes)"

definition split_kv :: "string \<Rightarrow> string \<times> string option" where
  "split_kv kv = (case split_once CHR ''='' kv of None \<Rightarrow> (kv, None) | Some (k, v) \<Rightarrow> (k, Some v))"

text \<open>The loop over the record, on the bytes that are left; it stops at a zero length or at one that is out of range.\<close>

fun decode_txt :: "string \<Rightarrow> txt_property list" where
  "decode_txt [] = []"
| "decode_txt (c # s) =
     (let len = of_char c in
      if len = 0 \<or> len > length s then []
      else let (k, v) = split_kv (take len s); rest = decode_txt (drop len s)
           in if utf8_valid k then \<lparr>tp_key = k, tp_val = v\<rparr> # rest else rest)"

definition decode_txt_unique :: "(string \<Rightarrow> string) \<Rightarrow> string \<Rightarrow> txt_property list" where
  "decode_txt_unique lower txt = first_keys lower [] (decode_txt txt)"


section \<open>What is sent is what is read\<close>

lemma check_prop_None:
  "check_prop p = None \<longleftrightarrow> ascii (tp_key p) \<and> CHR ''='' \<notin> set (tp_key p) \<and> prop_len p \<le> 255"
  by (auto simp: check_prop_def)

lemma check_props_None: "check_props ps = None \<longleftrightarrow> (\<forall>p \<in> set ps. check_prop p = None)"
  by (induction ps) (auto split: option.splits)

lemma prop_bytes_fit:
  "prop_len p \<le> 255 \<Longrightarrow> prop_bytes p = tp_key p @ (case tp_val p of None \<Rightarrow> [] | Some v \<Rightarrow> CHR ''='' # v)"
  by (auto simp: prop_bytes_def prop_len_def split: option.splits)

lemma length_prop_bytes: "prop_len p \<le> 255 \<Longrightarrow> length (prop_bytes p) = prop_len p"
  by (simp add: prop_bytes_fit) (simp add: prop_len_def split: option.splits)

lemma split_kv_prop:
  assumes "check_prop p = None"
  shows "split_kv (prop_bytes p) = (tp_key p, tp_val p)"
  using assms
  by (auto simp: check_prop_None prop_bytes_fit split_kv_def split_once_append split_once_none split: option.splits)

lemma decode_entry:
  assumes ok: "check_prop p = None" and ne: "0 < prop_len p"
  shows "decode_txt (char_of (length (prop_bytes p)) # prop_bytes p @ rest) = p # decode_txt rest"
proof -
  have fit: "prop_len p \<le> 255" and a: "ascii (tp_key p)" using ok by (simp_all add: check_prop_None)
  have "(of_char (char_of (length (prop_bytes p)) :: char) :: nat) = length (prop_bytes p)"
    using fit by (simp add: length_prop_bytes take_bit_eq_mod)
  then show ?thesis
    using ne fit by (simp add: length_prop_bytes split_kv_prop [OF ok] ascii_utf8 [OF a])
qed

lemma decode_entries:
  assumes "\<forall>p \<in> set ps. check_prop p = None \<and> 0 < prop_len p"
  shows "decode_txt (concat (map (\<lambda>p. char_of (length (prop_bytes p)) # prop_bytes p) ps)) = ps"
  using assms
proof (induction ps)
  case (Cons p ps)
  then show ?case by (simp add: decode_entry del: decode_txt.simps)
qed simp

lemma decode_encode_txt:
  assumes "check_props ps = None" and "\<forall>p \<in> set ps. 0 < prop_len p"
  shows "decode_txt (encode_txt ps) = ps"
proof (cases "ps = []")
  case True
  then show ?thesis by (simp add: encode_txt_def)
next
  case False
  then have "concat (map (\<lambda>p. char_of (length (prop_bytes p)) # prop_bytes p) ps) \<noteq> []" by (cases ps) auto
  then have "encode_txt ps = concat (map (\<lambda>p. char_of (length (prop_bytes p)) # prop_bytes p) ps)"
    by (simp only: encode_txt_def Let_def if_False)
  then show ?thesis using decode_entries [of ps] assms by (simp add: check_props_None)
qed

lemma first_keys_distinct:
  "distinct (map (lower \<circ> tp_key) ps) \<Longrightarrow> set seen \<inter> set (map (lower \<circ> tp_key) ps) = {} \<Longrightarrow> first_keys lower seen ps = ps"
  by (induction ps arbitrary: seen) auto

lemma text_prop_simps [simp]:
  "tp_key (text_prop kv) = fst kv" "tp_val (text_prop kv) = Some (snd kv)"
  "prop_len (text_prop kv) = length (fst kv) + length (snd kv) + 1"
  by (simp_all add: text_prop_def prop_len_def)

end
