(* ===== verification/Discovery_Info.thy ===== *)
theory Discovery_Info
  imports Endpoints Txt_Record "HOL-Library.Multiset" "HOL-Library.Sublist"
begin

text \<open>
  The description a device broadcasts (\<open>stross-proto/src/message/discovery.rs\<close>): its strict and its lenient
  encoding as TXT entries, and the decoding.  The JSON text of the description and of an endpoint summary, and their
  parsers, are parameters (\<open>serde_json\<close>); what the theorems need of them is that the parser reads back what was written.
\<close>

datatype role_id = RoleSender | RoleViewer | RoleRelay | RoleController

record discovery_info =
  di_v :: u8
  di_name :: string
  di_roles :: "role_id list"
  di_media :: "media_kind list"
  di_transports :: "transport_id list"
  di_codecs :: "codec_id list"
  di_endpoints :: "endpoint_summary list"

datatype discovery_error = BaseTooLarge nat | EndpointTooLarge nat

type_synonym txt_entries = "(string \<times> string) list"

definition TXT_KEY_DISCOVERY :: string where
  "TXT_KEY_DISCOVERY = ''stross''"

definition TXT_MAX_BYTES :: nat where
  "TXT_MAX_BYTES = 255"

definition DISCOVERY_INFO_VERSION :: u8 where
  "DISCOVERY_INFO_VERSION = 3"

definition relay_default :: "string \<Rightarrow> media_kind list \<Rightarrow> discovery_info" where
  "relay_default name media =
     \<lparr>di_v = DISCOVERY_INFO_VERSION, di_name = name, di_roles = [RoleRelay, RoleSender, RoleViewer], di_media = media,
      di_transports = [Ws, WebRtc, Srt, Quic], di_codecs = [H264, Aac], di_endpoints = []\<rparr>"

definition with_endpoints :: "discovery_info \<Rightarrow> endpoint_summary list \<Rightarrow> discovery_info" where
  "with_endpoints i eps = i\<lparr>di_endpoints := eps\<rparr>"

definition base_info :: "discovery_info \<Rightarrow> discovery_info" where
  "base_info i = i\<lparr>di_endpoints := []\<rparr>"

definition ep_key :: "nat \<Rightarrow> string" where
  "ep_key n = ''ep.'' @ show_nat n"


section \<open>Strict encoding\<close>

fun to_txt_eps :: "(endpoint_summary \<Rightarrow> string) \<Rightarrow> nat \<Rightarrow> endpoint_summary list \<Rightarrow> txt_entries
    \<Rightarrow> discovery_error + txt_entries" where
  "to_txt_eps enc_ep i [] out = Inr out"
| "to_txt_eps enc_ep i (e # es) out =
     (let j = enc_ep e in
      if length j > TXT_MAX_BYTES then Inl (EndpointTooLarge (length j))
      else to_txt_eps enc_ep (i + 1) es (out @ [(ep_key i, j)]))"

definition to_txt :: "(discovery_info \<Rightarrow> string) \<Rightarrow> (endpoint_summary \<Rightarrow> string) \<Rightarrow> discovery_info
    \<Rightarrow> discovery_error + txt_entries" where
  "to_txt enc enc_ep i =
     (let j = enc (base_info i) in
      if length j > TXT_MAX_BYTES then Inl (BaseTooLarge (length j))
      else to_txt_eps enc_ep 0 (di_endpoints i) [(TXT_KEY_DISCOVERY, j)])"


section \<open>Lenient encoding\<close>

text \<open>\<open>String::pop\<close>: the last character goes, with its continuation bytes.\<close>

definition pop_char :: "string \<Rightarrow> string option" where
  "pop_char s = (if s = [] then None else Some (rev (tl (dropWhile is_cont (rev s)))))"

lemma pop_char_prefix: "pop_char s = Some t \<Longrightarrow> strict_prefix t s"
proof -
  assume "pop_char s = Some t"
  then have s: "s \<noteq> []" and t: "t = rev (tl (dropWhile is_cont (rev s)))" by (auto simp: pop_char_def split: if_splits)
  have "suffix (tl (dropWhile is_cont (rev s))) (rev s)"
    by (meson suffix_dropWhile suffix_order.trans suffix_tl)
  then have p: "prefix t s" by (simp add: t suffix_to_prefix)
  have "length (dropWhile is_cont (rev s)) \<le> length s" by (metis length_dropWhile_le length_rev)
  then have "length t < length s" using s by (cases s) (simp_all add: t)
  then show ?thesis using p by (auto simp: strict_prefix_def)
qed

text \<open>Only whole characters go.\<close>

lemma pop_char_last: "\<not> is_cont a \<Longrightarrow> list_all is_cont cs \<Longrightarrow> pop_char (xs @ a # cs) = Some xs"
proof -
  assume "\<not> is_cont a" "list_all is_cont cs"
  then have "dropWhile is_cont (rev cs @ a # rev xs) = a # rev xs"
    by (subst dropWhile_append2) (auto simp: list_all_iff)
  then show ?thesis by (simp add: pop_char_def)
qed

lemma pop_char_utf8: "utf8_valid s \<Longrightarrow> pop_char s = Some t \<Longrightarrow> utf8_valid t"
proof (induction s arbitrary: t rule: length_induct)
  case (1 s)
  have "s \<noteq> []" using 1(3) by (auto simp: pop_char_def)
  then obtain a cs r where s: "s = a # cs @ r" "\<not> is_cont a" "list_all is_cont cs" "utf8_valid r"
    and v: "\<And>u. utf8_valid u \<Longrightarrow> utf8_valid (a # cs @ u)" by (rule utf8_char [OF 1(2)]) blast
  show ?case
  proof (cases "r = []")
    case True
    then show ?thesis using pop_char_last [of a cs "[]"] s 1(3) by simp
  next
    case False
    then obtain b u where r: "r = b # u" "\<not> is_cont b" using s(4) utf8_lead by (cases r) (auto)
    have "dropWhile is_cont (rev r @ rev xs) = dropWhile is_cont (rev r) @ rev xs" for xs
      using r by (intro dropWhile_append1 [of b]) auto
    moreover have "dropWhile is_cont (rev r) \<noteq> []" using r by (auto simp: dropWhile_eq_Nil_conv)
    ultimately have "pop_char (xs @ r) = Some (xs @ rev (tl (dropWhile is_cont (rev r))))" for xs
      using False by (simp add: pop_char_def)
    from this [of "a # cs"] this [of "[]"] obtain r' where r': "pop_char r = Some r'" "t = a # cs @ r'"
      using 1(3) by (auto simp: s(1))
    have "length r < length s" by (simp add: s(1))
    then have "utf8_valid r'" using 1(1) s(4) r'(1) by blast
    then show ?thesis using v r' by simp
  qed
qed

text \<open>The loop that shortens the name until the description fits.\<close>

function shorten_name :: "(discovery_info \<Rightarrow> string) \<Rightarrow> discovery_info \<Rightarrow> bool \<Rightarrow> discovery_info \<times> bool" where
  "shorten_name enc base degraded =
     (if length (enc base) > TXT_MAX_BYTES
      then case pop_char (di_name base) of
             None \<Rightarrow> (base, degraded)
           | Some n \<Rightarrow> shorten_name enc (base\<lparr>di_name := n\<rparr>) True
      else (base, degraded))"
  by pat_completeness auto
termination
  by (relation "measure (\<lambda>(enc, base, d). length (di_name base))")
    (auto dest: pop_char_prefix prefix_length_less)

declare shorten_name.simps [simp del]

fun lenient_eps :: "(endpoint_summary \<Rightarrow> string) \<Rightarrow> nat \<Rightarrow> endpoint_summary list \<Rightarrow> bool \<Rightarrow> txt_entries
    \<Rightarrow> txt_entries \<times> bool" where
  "lenient_eps enc_ep i [] degraded out = (out, degraded)"
| "lenient_eps enc_ep i (e # es) degraded out =
     (let j = enc_ep e in
      if length j > TXT_MAX_BYTES then lenient_eps enc_ep (i + 1) es True out
      else lenient_eps enc_ep (i + 1) es degraded (out @ [(ep_key i, j)]))"

definition to_txt_lenient :: "(discovery_info \<Rightarrow> string) \<Rightarrow> (endpoint_summary \<Rightarrow> string) \<Rightarrow> discovery_info
    \<Rightarrow> txt_entries \<times> bool" where
  "to_txt_lenient enc enc_ep i =
     (let (base, degraded) = shorten_name enc (base_info i) False
      in lenient_eps enc_ep 0 (di_endpoints i) degraded [(TXT_KEY_DISCOVERY, enc base)])"


section \<open>Decoding\<close>

definition ep_of_entry :: "(string \<Rightarrow> endpoint_summary option) \<Rightarrow> string \<times> string
    \<Rightarrow> (nat \<times> endpoint_summary) option" where
  "ep_of_entry dec_ep kv =
     (case strip_prefix ''ep.'' (fst kv) of
        None \<Rightarrow> None
      | Some idx \<Rightarrow> (case dec_ep (snd kv) of
            None \<Rightarrow> None
          | Some e \<Rightarrow> map_option (\<lambda>n. (n, e)) (parse_uint u64_max idx)))"

definition from_txt :: "(string \<Rightarrow> discovery_info option) \<Rightarrow> (string \<Rightarrow> endpoint_summary option) \<Rightarrow> txt_entries
    \<Rightarrow> discovery_info option" where
  "from_txt dec dec_ep entries =
     (case List.find (\<lambda>kv. fst kv = TXT_KEY_DISCOVERY) entries of
        None \<Rightarrow> None
      | Some kv \<Rightarrow> (case dec (snd kv) of
            None \<Rightarrow> None
          | Some i \<Rightarrow>
              let eps = sort_key fst (List.map_filter (ep_of_entry dec_ep) entries)
              in Some (if eps = [] then i else i\<lparr>di_endpoints := map snd eps\<rparr>)))"


section \<open>What the encoders write\<close>

text \<open>The entries of the endpoints that fit, each under its index in the list.\<close>

fun ep_entries :: "(endpoint_summary \<Rightarrow> string) \<Rightarrow> nat \<Rightarrow> endpoint_summary list \<Rightarrow> txt_entries" where
  "ep_entries enc_ep i [] = []"
| "ep_entries enc_ep i (e # es) =
     (if length (enc_ep e) > TXT_MAX_BYTES then ep_entries enc_ep (i + 1) es
      else (ep_key i, enc_ep e) # ep_entries enc_ep (i + 1) es)"

lemma lenient_eps_entries:
  "lenient_eps enc_ep i es d out =
     (out @ ep_entries enc_ep i es, d \<or> (\<exists>e \<in> set es. length (enc_ep e) > TXT_MAX_BYTES))"
  by (induction es arbitrary: i d out) (auto simp: Let_def)

lemma to_txt_eps_Inr:
  "to_txt_eps enc_ep i es out = Inr r \<longleftrightarrow>
     r = out @ ep_entries enc_ep i es \<and> (\<forall>e \<in> set es. length (enc_ep e) \<le> TXT_MAX_BYTES)"
  by (induction es arbitrary: i out) (auto simp: Let_def)

lemma shorten_name_utf8:
  "utf8_valid (di_name base) \<Longrightarrow> utf8_valid (di_name (fst (shorten_name enc base d)))"
proof (induction enc base d rule: shorten_name.induct)
  case (1 enc base d)
  then show ?case by (subst shorten_name.simps) (auto intro: pop_char_utf8 split: option.split)
qed

lemma shorten_name_result:
  "shorten_name enc base d = (b, d') \<Longrightarrow>
     \<exists>n. b = base\<lparr>di_name := n\<rparr> \<and> prefix n (di_name base) \<and> (d' \<longleftrightarrow> d \<or> n \<noteq> di_name base)
         \<and> (length (enc b) \<le> TXT_MAX_BYTES \<or> n = [])"
proof (induction enc base d rule: shorten_name.induct)
  case (1 enc base d)
  note step = 1(2) [unfolded shorten_name.simps [of enc base d]]
  show ?case
  proof (cases "length (enc base) > TXT_MAX_BYTES")
    case big: True
    show ?thesis
    proof (cases "pop_char (di_name base)")
      case None
      then show ?thesis using step big by (auto simp: pop_char_def split: if_splits intro!: exI [of _ "[]"])
    next
      case (Some m)
      then have sp: "strict_prefix m (di_name base)" by (rule pop_char_prefix)
      from 1(1) [OF big Some] step big Some obtain n where
        n: "b = base\<lparr>di_name := n\<rparr>" "prefix n m" "d'" "length (enc b) \<le> TXT_MAX_BYTES \<or> n = []"
        by auto
      then have "prefix n (di_name base)" "n \<noteq> di_name base"
        using sp by (auto simp: strict_prefix_def intro: prefix_order.trans dest: prefix_order.antisym)
      then show ?thesis using n by blast
    qed
  next
    case False
    then show ?thesis using step by (auto intro!: exI [of _ "di_name base"])
  qed
qed

lemma to_txt_lenient_result:
  assumes "to_txt_lenient enc enc_ep i = (out, degraded)"
  obtains n where "out = (TXT_KEY_DISCOVERY, enc (i\<lparr>di_name := n, di_endpoints := []\<rparr>)) # ep_entries enc_ep 0 (di_endpoints i)"
    "prefix n (di_name i)"
    "degraded \<longleftrightarrow> n \<noteq> di_name i \<or> (\<exists>e \<in> set (di_endpoints i). length (enc_ep e) > TXT_MAX_BYTES)"
    "length (enc (i\<lparr>di_name := n, di_endpoints := []\<rparr>)) \<le> TXT_MAX_BYTES \<or> n = []"
    "utf8_valid (di_name i) \<Longrightarrow> utf8_valid n"
proof -
  obtain b d where b: "shorten_name enc (base_info i) False = (b, d)" by fastforce
  from shorten_name_result [OF b] obtain n where
    n: "b = (base_info i)\<lparr>di_name := n\<rparr>" "prefix n (di_name i)" "d \<longleftrightarrow> n \<noteq> di_name i" "length (enc b) \<le> TXT_MAX_BYTES \<or> n = []"
    by (auto simp: base_info_def)
  have "b = i\<lparr>di_name := n, di_endpoints := []\<rparr>" using n(1) by (simp add: base_info_def)
  moreover have "utf8_valid n" if "utf8_valid (di_name i)"
    using shorten_name_utf8 [of "base_info i" enc False] that b n(1) by (simp add: base_info_def)
  ultimately show thesis using that [of n] n assms b by (auto simp: to_txt_lenient_def lenient_eps_entries)
qed

text \<open>When the strict encoding succeeds, the lenient one is the same and loses nothing.\<close>

lemma strict_is_lenient:
  assumes "to_txt enc enc_ep i = Inr out"
  shows "to_txt_lenient enc enc_ep i = (out, False)"
proof -
  have b: "length (enc (base_info i)) \<le> TXT_MAX_BYTES"
    and o: "out = (TXT_KEY_DISCOVERY, enc (base_info i)) # ep_entries enc_ep 0 (di_endpoints i)"
    and e: "\<forall>e \<in> set (di_endpoints i). length (enc_ep e) \<le> TXT_MAX_BYTES"
    using assms by (auto simp: to_txt_def Let_def to_txt_eps_Inr split: if_splits)
  have "shorten_name enc (base_info i) False = (base_info i, False)"
    using b by (subst shorten_name.simps) simp
  then show ?thesis using o e by (auto simp: to_txt_lenient_def lenient_eps_entries)
qed


section \<open>What a browser decodes\<close>

lemma find_unique:
  assumes "x \<in> set xs" "P x" and u: "\<And>y. y \<in> set xs \<Longrightarrow> P y \<Longrightarrow> y = x"
  shows "List.find P xs = Some x"
proof (cases "List.find P xs")
  case None
  then show ?thesis using assms(1,2) by (simp add: find_None_iff)
next
  case (Some y)
  then show ?thesis using u [of y] by (auto simp: find_Some_iff)
qed

lemma sort_key_perm:
  fixes f :: "'a \<Rightarrow> 'k::linorder"
  assumes "mset xs = mset ys" "sorted (map f ys)" "distinct (map f ys)"
  shows "sort_key f xs = ys"
proof (rule properties_for_sort_key)
  show "mset ys = mset xs" using assms(1) by (rule sym)
  fix k assume "k \<in> set ys"
  have s: "set xs = set ys" using assms(1) by (rule mset_eq_setD)
  have d: "distinct xs" "distinct ys"
    using assms(1,3) by (auto simp: distinct_map dest: mset_eq_imp_distinct_iff)
  have "inj_on f (set ys)" using assms(3) by (simp add: distinct_map)
  then have "filter (\<lambda>x. f k = f x) zs = filter (\<lambda>x. x = k) zs" if "set zs = set ys" for zs
    using that \<open>k \<in> set ys\<close> by (intro filter_cong) (auto simp: inj_on_eq_iff)
  moreover have "filter (\<lambda>x. x = k) zs = [k]" if "distinct zs" "k \<in> set zs" for zs
    using that by (induction zs) (auto simp: filter_empty_conv)
  ultimately show "filter (\<lambda>x. f k = f x) ys = filter (\<lambda>x. f k = f x) xs"
    using s d \<open>k \<in> set ys\<close> by simp
qed (rule assms(2))

text \<open>The endpoints that fit, with their indices.\<close>

fun ep_indexed :: "(endpoint_summary \<Rightarrow> string) \<Rightarrow> nat \<Rightarrow> endpoint_summary list \<Rightarrow> (nat \<times> endpoint_summary) list" where
  "ep_indexed enc_ep i [] = []"
| "ep_indexed enc_ep i (e # es) =
     (if length (enc_ep e) > TXT_MAX_BYTES then ep_indexed enc_ep (i + 1) es
      else (i, e) # ep_indexed enc_ep (i + 1) es)"

lemma ep_indexed_ge: "x \<in> set (ep_indexed enc_ep i es) \<Longrightarrow> i \<le> fst x"
  by (induction es arbitrary: i) (fastforce split: if_splits)+

lemma ep_indexed_keys:
  "sorted (map fst (ep_indexed enc_ep i es))" "distinct (map fst (ep_indexed enc_ep i es))"
proof (induction es arbitrary: i)
  case (Cons e es)
  { case 1 show ?case using Cons.IH(1) by (auto dest: ep_indexed_ge) }
  { case 2 show ?case using Cons.IH(2) by (auto dest: ep_indexed_ge) }
qed simp_all

lemma ep_indexed_snd: "map snd (ep_indexed enc_ep i es) = filter (\<lambda>e. length (enc_ep e) \<le> TXT_MAX_BYTES) es"
  by (induction es arbitrary: i) auto

lemma ep_of_entry_key [simp]:
  "n \<le> u64_max \<Longrightarrow> ep_of_entry dec_ep (ep_key n, v) = map_option (Pair n) (dec_ep v)"
  by (simp add: ep_of_entry_def ep_key_def parse_uint_show del: append_Cons append_Nil split: option.splits)

lemma ep_of_base [simp]: "ep_of_entry dec_ep (TXT_KEY_DISCOVERY, v) = None"
  by (simp add: ep_of_entry_def TXT_KEY_DISCOVERY_def strip_prefix_def)

lemma ep_key_neq [simp]: "ep_key n \<noteq> TXT_KEY_DISCOVERY" "TXT_KEY_DISCOVERY \<noteq> ep_key n"
  by (simp_all add: ep_key_def TXT_KEY_DISCOVERY_def)

lemma ep_entries_decode:
  assumes "\<forall>e \<in> set es. dec_ep (enc_ep e) = Some e" "i + length es \<le> u64_max"
  shows "List.map_filter (ep_of_entry dec_ep) (ep_entries enc_ep i es) = ep_indexed enc_ep i es"
  using assms by (induction es arbitrary: i) (auto simp: map_filter_simps)

lemma ep_entries_keys: "kv \<in> set (ep_entries enc_ep i es) \<Longrightarrow> \<exists>n e. kv = (ep_key n, enc_ep e) \<and> i \<le> n \<and> e \<in> set es"
  by (induction es arbitrary: i) (force split: if_splits)+

lemma ep_entries_distinct: "distinct (map fst (ep_entries enc_ep i es))"
proof (induction es arbitrary: i)
  case (Cons e es)
  have "ep_key i \<notin> fst ` set (ep_entries enc_ep (i + 1) es)"
    by (force simp: ep_key_def show_nat_inj dest: ep_entries_keys)
  then show ?case using Cons by simp
qed simp

lemma mset_map_filter: "mset xs = mset ys \<Longrightarrow> mset (List.map_filter f xs) = mset (List.map_filter f ys)"
  by (simp add: map_filter_def)

text \<open>The order of the entries does not matter: both ends keep them in hash maps.\<close>

lemma from_txt_entries:
  assumes perm: "mset entries = mset ((TXT_KEY_DISCOVERY, enc b) # ep_entries enc_ep 0 es)"
    and b: "dec (enc b) = Some b" "di_endpoints b = []"
    and e: "\<forall>e \<in> set es. dec_ep (enc_ep e) = Some e" "length es \<le> u64_max"
  shows "from_txt dec dec_ep entries =
           Some (b\<lparr>di_endpoints := filter (\<lambda>e. length (enc_ep e) \<le> TXT_MAX_BYTES) es\<rparr>)"
proof -
  have "set entries = set ((TXT_KEY_DISCOVERY, enc b) # ep_entries enc_ep 0 es)" using perm by (rule mset_eq_setD)
  then have f: "List.find (\<lambda>kv. fst kv = TXT_KEY_DISCOVERY) entries = Some (TXT_KEY_DISCOVERY, enc b)"
    by (intro find_unique) (auto dest!: ep_entries_keys)
  have "mset (List.map_filter (ep_of_entry dec_ep) entries) = mset (ep_indexed enc_ep 0 es)"
    using mset_map_filter [OF perm, of "ep_of_entry dec_ep"] ep_entries_decode [OF e(1), of 0] e(2)
    by (simp add: map_filter_simps)
  then have s: "sort_key fst (List.map_filter (ep_of_entry dec_ep) entries) = ep_indexed enc_ep 0 es"
    by (rule sort_key_perm) (rule ep_indexed_keys)+
  show ?thesis
    using ep_indexed_snd [of enc_ep 0 es] b
    by (cases "ep_indexed enc_ep 0 es") (auto simp: from_txt_def f s Let_def)
qed

end
