(* ===== verification/Mdns.thy ===== *)
theory Mdns
  imports Discovery_Info Ip_Addr
begin

text \<open>
  Broadcasting and browsing (\<open>stross-discovery/src/mdns.rs\<close>) over the services a daemon has registered
  (\<open>mdns/src/service_info.rs\<close>).  Hash maps are association lists with distinct keys; the order in which one is
  iterated is the parameter \<open>order\<close>.  Whether the daemon takes a command is the parameter \<open>accepts\<close>.
\<close>

section \<open>Services of the daemon\<close>

record service_info =
  sv_ty_domain :: string
  sv_sub_domain :: "string option"
  sv_fullname :: string
  sv_server :: string
  sv_addrs :: "ip_addr set"
  sv_port :: u16
  sv_props :: "txt_property list"
  sv_host_ttl :: u32
  sv_other_ttl :: u32
  sv_priority :: u16
  sv_weight :: u16
  sv_addr_auto :: bool
  sv_link_local_only :: bool
  sv_probe :: bool

definition escape_char :: "char \<Rightarrow> string" where
  "escape_char c = (if c = CHR ''.'' then [CHR 0x5C, CHR ''.''] else if c = CHR 0x5C then [CHR 0x5C, CHR 0x5C] else [c])"

definition escape_instance_name :: "string \<Rightarrow> string" where
  "escape_instance_name name = concat (map escape_char name)"

definition ends_with :: "string \<Rightarrow> string \<Rightarrow> bool" where
  "ends_with s t \<longleftrightarrow> length t \<le> length s \<and> drop (length s - length t) s = t"

definition normalize_hostname :: "string \<Rightarrow> string" where
  "normalize_hostname h = (if ends_with h ''.local.local.'' then take (length h - length ''local.'') h else h)"

text \<open>A subtype \<open>sub._sub.type\<close>: the type after the last separator, and the whole name.\<close>

definition split_sub_domain :: "string \<Rightarrow> string \<times> string option" where
  "split_sub_domain domain =
     (case filter (\<lambda>i. take 6 (drop i domain) = ''._sub.'') (rev [0..<length domain]) of
        [] \<Rightarrow> (domain, None)
      | i # _ \<Rightarrow> (drop (i + 6) domain, Some domain))"

definition service_info_new :: "string \<Rightarrow> string \<Rightarrow> string \<Rightarrow> ip_addr list \<Rightarrow> u16 \<Rightarrow> txt_entries \<Rightarrow> txt_error + service_info" where
  "service_info_new ty name host ips port props =
     (let (ty_domain, sub_domain) = split_sub_domain ty in
      case check_props (props_of_map props) of
        Some e \<Rightarrow> Inl e
      | None \<Rightarrow> Inr \<lparr>sv_ty_domain = ty_domain, sv_sub_domain = sub_domain,
                     sv_fullname = escape_instance_name name @ ''.'' @ ty_domain, sv_server = normalize_hostname host,
                     sv_addrs = set ips, sv_port = port, sv_props = props_of_map props,
                     sv_host_ttl = 120, sv_other_ttl = 4500, sv_priority = 0, sv_weight = 0, sv_addr_auto = False,
                     sv_link_local_only = False, sv_probe = True\<rparr>)"

type_synonym services = "string \<rightharpoonup> service_info"


section \<open>Broadcasting\<close>

definition SERVICE_TYPE :: string where
  "SERVICE_TYPE = ''_stross._tcp.local.''"

lemma service_type_plain [simp]: "split_sub_domain SERVICE_TYPE = (SERVICE_TYPE, None)"
  by code_simp

record mdns_discovery =
  md_fullname :: "string option"
  md_instance :: string
  md_host :: string
  md_addrs :: "ip_addr list"
  md_port :: u16

datatype mdns_error = InfoError txt_error | RegisterError

definition broadcast_addrs :: "ip_addr list \<Rightarrow> ip_addr list" where
  "broadcast_addrs ips =
     (if ips = [] then [V4 127 0 0 1]
      else let filtered = filter (\<lambda>ip. \<not> is_link_local ip) ips
           in if filtered = [] then ips else filtered)"

text \<open>The daemon keeps its services under the lower-case name; registering again replaces the service.\<close>

definition daemon_register :: "(string \<Rightarrow> string) \<Rightarrow> (service_info \<Rightarrow> bool) \<Rightarrow> service_info \<Rightarrow> services \<Rightarrow> mdns_error + services" where
  "daemon_register lower accepts si m =
     (if accepts si then Inr (m(lower (sv_fullname si) \<mapsto> si)) else Inl RegisterError)"

definition daemon_unregister :: "(string \<Rightarrow> string) \<Rightarrow> string \<Rightarrow> services \<Rightarrow> services" where
  "daemon_unregister lower fullname m = m(lower fullname := None)"

definition mdns_publish :: "(discovery_info \<Rightarrow> string) \<Rightarrow> (endpoint_summary \<Rightarrow> string) \<Rightarrow> (txt_entries \<Rightarrow> txt_entries)
    \<Rightarrow> string \<Rightarrow> string \<Rightarrow> ip_addr list \<Rightarrow> u16 \<Rightarrow> discovery_info \<Rightarrow> mdns_error + service_info" where
  "mdns_publish enc enc_ep order name host addrs port info =
     (case service_info_new SERVICE_TYPE name host addrs port (order (fst (to_txt_lenient enc enc_ep info))) of
        Inl e \<Rightarrow> Inl (InfoError e)
      | Inr si \<Rightarrow> Inr (si\<lparr>sv_probe := False\<rparr>))"

definition mdns_start :: "(discovery_info \<Rightarrow> string) \<Rightarrow> (endpoint_summary \<Rightarrow> string) \<Rightarrow> (txt_entries \<Rightarrow> txt_entries)
    \<Rightarrow> (string \<Rightarrow> string) \<Rightarrow> (service_info \<Rightarrow> bool) \<Rightarrow> string \<Rightarrow> ip_addr list \<Rightarrow> u16 \<Rightarrow> discovery_info \<Rightarrow> string
    \<Rightarrow> services \<Rightarrow> mdns_error + mdns_discovery \<times> services" where
  "mdns_start enc enc_ep order lower accepts inst ips port info hostname m =
     (let host = hostname @ ''.local.''; addrs = broadcast_addrs ips in
      case mdns_publish enc enc_ep order inst host addrs port info of
        Inl e \<Rightarrow> Inl e
      | Inr si \<Rightarrow> (case daemon_register lower accepts si m of
            Inl e \<Rightarrow> Inl e
          | Inr m' \<Rightarrow> Inr (\<lparr>md_fullname = Some (sv_fullname si), md_instance = inst, md_host = host,
                           md_addrs = addrs, md_port = port\<rparr>, m')))"

definition mdns_redefine :: "(discovery_info \<Rightarrow> string) \<Rightarrow> (endpoint_summary \<Rightarrow> string) \<Rightarrow> (txt_entries \<Rightarrow> txt_entries)
    \<Rightarrow> (string \<Rightarrow> string) \<Rightarrow> (service_info \<Rightarrow> bool) \<Rightarrow> mdns_discovery \<Rightarrow> discovery_info
    \<Rightarrow> services \<Rightarrow> mdns_error + services" where
  "mdns_redefine enc enc_ep order lower accepts d info m =
     (case md_fullname d of
        None \<Rightarrow> Inr m
      | Some f \<Rightarrow> (case mdns_publish enc enc_ep order (md_instance d) (md_host d) (md_addrs d) (md_port d) info of
            Inl e \<Rightarrow> Inl e
          | Inr si \<Rightarrow> daemon_register lower accepts si m))"

definition mdns_stop :: "(string \<Rightarrow> string) \<Rightarrow> mdns_discovery \<Rightarrow> services \<Rightarrow> mdns_discovery \<times> services" where
  "mdns_stop lower d m =
     (case md_fullname d of
        None \<Rightarrow> (d, m)
      | Some f \<Rightarrow> (d\<lparr>md_fullname := None\<rparr>, daemon_unregister lower f m))"


section \<open>Choice of an address\<close>

text \<open>\<open>u32::from_be_bytes\<close> of the octets, compared under the mask of a /24 net.\<close>

definition v4_bits :: "u8 \<Rightarrow> u8 \<Rightarrow> u8 \<Rightarrow> u8 \<Rightarrow> u32" where
  "v4_bits a b c d = push_bit 24 (ucast a) OR push_bit 16 (ucast b) OR push_bit 8 (ucast c) OR ucast d"

fun ipv4_same_subnet :: "ip_addr \<Rightarrow> ip_addr \<Rightarrow> bool" where
  "ipv4_same_subnet (V4 a b c d) (V4 a' b' c' d') =
     (v4_bits a b c d AND 0xffffff00 = v4_bits a' b' c' d' AND 0xffffff00)"
| "ipv4_same_subnet _ _ = False"

lemma bit_net_mask: "bit (0xffffff00 :: u32) n \<longleftrightarrow> 8 \<le> n \<and> n < 32"
proof -
  have e: "(0xffffff00 :: u32) = NOT (mask 8)" by (simp add: mask_eq_exp_minus_1)
  have "bit (NOT (mask 8) :: u32) n \<longleftrightarrow> 8 \<le> n \<and> n < 32" by (auto simp: bit_simps)
  then show ?thesis by (simp only: e)
qed

lemma v4_net_octets:
  "v4_bits a b c d AND 0xffffff00 = v4_bits a' b' c' d' AND 0xffffff00 \<longleftrightarrow> a = a' \<and> b = b' \<and> c = c'"
proof
  assume e: "v4_bits a b c d AND 0xffffff00 = v4_bits a' b' c' d' AND 0xffffff00"
  have bits: "bit (v4_bits a b c d) n = bit (v4_bits a' b' c' d') n" if "8 \<le> n" "n < 32" for n
    using arg_cong [OF e, of "\<lambda>w. bit w n"] that by (simp only: bit_and_iff bit_net_mask simp_thms)
  have "bit a n = bit a' n" if "n < 8" for n
    using bits [of "24 + n"] that by (auto simp: v4_bits_def bit_simps dest: bit_imp_le_length)
  moreover have "bit b n = bit b' n" if "n < 8" for n
    using bits [of "16 + n"] that by (auto simp: v4_bits_def bit_simps dest: bit_imp_le_length)
  moreover have "bit c n = bit c' n" if "n < 8" for n
    using bits [of "8 + n"] that by (auto simp: v4_bits_def bit_simps dest: bit_imp_le_length)
  ultimately show "a = a' \<and> b = b' \<and> c = c'" by (auto intro!: bit_word_eqI)
next
  assume "a = a' \<and> b = b' \<and> c = c'"
  moreover have "v4_bits a b c d AND 0xffffff00 = v4_bits a b c d' AND 0xffffff00"
    by (rule bit_word_eqI, simp only: bit_and_iff bit_net_mask)
      (auto simp: v4_bits_def bit_simps dest: bit_imp_le_length)
  ultimately show "v4_bits a b c d AND 0xffffff00 = v4_bits a' b' c' d' AND 0xffffff00" by simp
qed

definition select_reachable_ip_from :: "ip_addr list \<Rightarrow> ip_addr list \<Rightarrow> ip_addr option" where
  "select_reachable_ip_from self_ips reachable =
     (case List.find (\<lambda>i. \<exists>s \<in> set self_ips. ipv4_same_subnet s i) reachable of
        Some i \<Rightarrow> Some i
      | None \<Rightarrow> (case List.find is_v4 reachable of
            Some i \<Rightarrow> Some i
          | None \<Rightarrow> (case reachable of [] \<Rightarrow> None | i # _ \<Rightarrow> Some i)))"


section \<open>Browsing\<close>

datatype service_event =
    ServiceResolved string u16 "txt_property list" "ip_addr list"
  | ServiceRemoved string
  | OtherEvent

record discovered =
  d_instance :: string
  d_ip :: ip_addr
  d_port :: u16
  d_txt :: txt_entries

type_synonym browse_entry = "ip_addr list \<times> u16 \<times> txt_entries"
type_synonym browse_agg = "(string \<times> browse_entry) list"

definition collect_txt :: "txt_property list \<Rightarrow> txt_entries" where
  "collect_txt ps = fold (\<lambda>p m. AList.update (tp_key p) (val_str p) m) ps []"

definition keep_addr :: "ip_addr \<Rightarrow> bool" where
  "keep_addr ip \<longleftrightarrow> \<not> is_link_local ip \<and> \<not> is_unspecified ip"

definition add_addr :: "ip_addr \<Rightarrow> ip_addr list \<Rightarrow> ip_addr list" where
  "add_addr ip addrs = (if keep_addr ip \<and> ip \<notin> set addrs then addrs @ [ip] else addrs)"

fun browse_step :: "service_event \<Rightarrow> browse_agg \<Rightarrow> browse_agg" where
  "browse_step (ServiceResolved f port props addrs) agg =
     (let known = (case map_of agg f of None \<Rightarrow> [] | Some e \<Rightarrow> fst e)
      in AList.update f (fold add_addr addrs known, port, collect_txt props) agg)"
| "browse_step (ServiceRemoved f) agg = AList.delete f agg"
| "browse_step OtherEvent agg = agg"

text \<open>The events are those received before the deadline, or before the daemon closed the channel.\<close>

definition browse_events :: "service_event list \<Rightarrow> browse_agg" where
  "browse_events evs = fold browse_step evs []"

definition browse :: "ip_addr list \<Rightarrow> service_event list \<Rightarrow> discovered list" where
  "browse self_ips evs =
     List.map_filter
       (\<lambda>(inst, addrs, port, entries). map_option
          (\<lambda>ip. \<lparr>d_instance = inst, d_ip = ip, d_port = port, d_txt = entries\<rparr>)
          (select_reachable_ip_from self_ips addrs))
       (browse_events evs)"


section \<open>What a browse reports\<close>

text \<open>The announcements of one service since it was last removed.\<close>

type_synonym announcement = "u16 \<times> txt_property list \<times> ip_addr list"

fun history_step :: "string \<Rightarrow> service_event \<Rightarrow> announcement list \<Rightarrow> announcement list" where
  "history_step f (ServiceResolved g port props addrs) h = (if g = f then h @ [(port, props, addrs)] else h)"
| "history_step f (ServiceRemoved g) h = (if g = f then [] else h)"
| "history_step f OtherEvent h = h"

definition service_history :: "string \<Rightarrow> service_event list \<Rightarrow> announcement list" where
  "service_history f evs = fold (history_step f) evs []"

definition announced :: "announcement list \<Rightarrow> ip_addr list" where
  "announced h = fold add_addr (concat (map (snd \<circ> snd) h)) []"

definition reported :: "announcement list \<Rightarrow> browse_entry option" where
  "reported h = (if h = [] then None else Some (announced h, fst (last h), collect_txt (fst (snd (last h)))))"

lemma browse_events_snoc: "browse_events (evs @ [e]) = browse_step e (browse_events evs)"
  by (simp add: browse_events_def)

lemma history_snoc: "service_history f (evs @ [e]) = history_step f e (service_history f evs)"
  by (simp add: service_history_def)

lemma announced_snoc: "announced (h @ [(port, props, addrs)]) = fold add_addr addrs (announced h)"
  by (simp add: announced_def)

lemma browse_events_history:
  "map_of (browse_events evs) f = reported (service_history f evs)" "distinct (map fst (browse_events evs))"
proof (induction evs rule: rev_induct)
  case Nil
  { case 1 show ?case by (simp add: browse_events_def service_history_def reported_def) }
  { case 2 show ?case by (simp add: browse_events_def) }
next
  case (snoc e evs)
  { case 1 show ?case
    proof (cases e)
      case (ServiceResolved g port props addrs)
      have "(case reported h of None \<Rightarrow> [] | Some e \<Rightarrow> fst e) = announced h" for h
        by (simp add: reported_def announced_def)
      then show ?thesis using snoc.IH(1)
        by (auto simp: ServiceResolved browse_events_snoc history_snoc update_conv' reported_def announced_snoc Let_def)
    qed (use snoc.IH(1) in \<open>auto simp: browse_events_snoc history_snoc delete_conv' reported_def\<close>) }
  { case 2 show ?case using snoc.IH(2)
      by (cases e) (simp_all add: browse_events_snoc Let_def distinct_update distinct_delete) }
qed

lemma set_fold_add: "set (fold add_addr xs acc) = set acc \<union> {ip \<in> set xs. keep_addr ip}"
  by (induction xs arbitrary: acc) (auto simp: add_addr_def)

lemma set_announced: "ip \<in> set (announced h) \<longleftrightarrow> keep_addr ip \<and> (\<exists>(port, props, addrs) \<in> set h. ip \<in> set addrs)"
  by (auto simp: announced_def set_fold_add) force+

lemma set_map_filter_iff: "y \<in> set (List.map_filter f xs) \<longleftrightarrow> (\<exists>x \<in> set xs. f x = Some y)"
  by (force simp: map_filter_def)

lemma browse_iff:
  "d \<in> set (browse self_ips evs) \<longleftrightarrow>
     (\<exists>addrs. reported (service_history (d_instance d) evs) = Some (addrs, d_port d, d_txt d)
        \<and> select_reachable_ip_from self_ips addrs = Some (d_ip d))"
proof -
  have "d \<in> set (browse self_ips evs) \<longleftrightarrow>
     (\<exists>addrs. (d_instance d, addrs, d_port d, d_txt d) \<in> set (browse_events evs)
        \<and> select_reachable_ip_from self_ips addrs = Some (d_ip d))"
    by (cases d) (force simp: browse_def set_map_filter_iff)
  moreover have "(f, v) \<in> set (browse_events evs) \<longleftrightarrow> reported (service_history f evs) = Some v" for f v
    using map_of_eq_Some_iff [OF browse_events_history(2), of evs f v] by (simp only: browse_events_history(1))
  ultimately show ?thesis by (simp only:)
qed

lemma same_subnet_v4: "ipv4_same_subnet s a \<Longrightarrow> is_v4 a"
  by (cases "(s, a)" rule: ipv4_same_subnet.cases) auto

lemma find_someD: "List.find Q xs = Some x \<Longrightarrow> x \<in> set xs \<and> Q x"
  by (auto simp: find_Some_iff)

lemma find_noneD: "List.find Q xs = None \<Longrightarrow> x \<in> set xs \<Longrightarrow> \<not> Q x"
  by (auto simp: find_None_iff)

text \<open>The address is one of the candidates, on the network of this host if there is such a candidate, IPv4 if there is
  such a candidate.\<close>

lemma select_some:
  assumes sel: "select_reachable_ip_from self_ips addrs = Some ip"
  shows "ip \<in> set addrs"
    and "\<exists>a \<in> set addrs. \<exists>s \<in> set self_ips. ipv4_same_subnet s a \<Longrightarrow> \<exists>s \<in> set self_ips. ipv4_same_subnet s ip"
    and "\<exists>a \<in> set addrs. is_v4 a \<Longrightarrow> is_v4 ip"
proof -
  let ?P = "\<lambda>i. \<exists>s \<in> set self_ips. ipv4_same_subnet s i"
  have "ip \<in> set addrs \<and> ((\<exists>a \<in> set addrs. ?P a) \<longrightarrow> ?P ip) \<and> ((\<exists>a \<in> set addrs. is_v4 a) \<longrightarrow> is_v4 ip)"
  proof (cases "List.find ?P addrs")
    case (Some i)
    then have "i = ip" using sel by (simp add: select_reachable_ip_from_def)
    then show ?thesis using find_someD [OF Some] by (blast intro: same_subnet_v4)
  next
    case none: None
    show ?thesis
    proof (cases "List.find is_v4 addrs")
      case (Some i)
      then have "i = ip" using sel none by (simp add: select_reachable_ip_from_def)
      then show ?thesis using find_someD [OF Some] find_noneD [OF none] by blast
    next
      case None
      then have "ip \<in> set addrs" using sel none by (cases addrs) (simp_all add: select_reachable_ip_from_def split: if_splits)
      then show ?thesis using find_noneD [OF none] find_noneD [OF None] by blast
    qed
  qed
  then show "ip \<in> set addrs" "\<exists>a \<in> set addrs. ?P a \<Longrightarrow> ?P ip" "\<exists>a \<in> set addrs. is_v4 a \<Longrightarrow> is_v4 ip" by blast+
qed

lemma select_none: "select_reachable_ip_from self_ips addrs = None \<longleftrightarrow> addrs = []"
  by (auto simp: select_reachable_ip_from_def find_None_iff split: option.splits list.splits)


section \<open>From the broadcast to the browser\<close>

lemma ep_key_chars: "c \<in> set (ep_key n) \<Longrightarrow> is_digit c \<or> c \<in> set ''ep.''"
  using show_nat_digits [of c n] by (auto simp: ep_key_def)

lemma collect_txt_distinct:
  "distinct (map tp_key ps) \<Longrightarrow> collect_txt ps = map (\<lambda>p. (tp_key p, val_str p)) ps"
proof -
  have "distinct (map tp_key ps) \<Longrightarrow> fst ` set m \<inter> tp_key ` set ps = {} \<Longrightarrow>
      fold (\<lambda>p m. AList.update (tp_key p) (val_str p) m) ps m = m @ map (\<lambda>p. (tp_key p, val_str p)) ps" for m
  proof (induction ps arbitrary: m)
    case (Cons p ps)
    have "AList.update k v m = m @ [(k, v)]" if "k \<notin> fst ` set m" for k v
      using that by (induction m) auto
    then show ?case using Cons by auto
  qed simp
  from this [of "[]"] show "distinct (map tp_key ps) \<Longrightarrow> collect_txt ps = map (\<lambda>p. (tp_key p, val_str p)) ps"
    by (simp add: collect_txt_def)
qed

lemma mdns_publish_Inr:
  "mdns_publish enc enc_ep order name host addrs port info = Inr si \<longleftrightarrow>
     (let sent = order (fst (to_txt_lenient enc enc_ep info)) in
      check_props (props_of_map sent) = None \<and>
      si = \<lparr>sv_ty_domain = SERVICE_TYPE, sv_sub_domain = None,
            sv_fullname = escape_instance_name name @ ''.'' @ SERVICE_TYPE, sv_server = normalize_hostname host,
            sv_addrs = set addrs, sv_port = port, sv_props = props_of_map sent,
            sv_host_ttl = 120, sv_other_ttl = 4500, sv_priority = 0, sv_weight = 0, sv_addr_auto = False,
            sv_link_local_only = False, sv_probe = False\<rparr>)"
  by (auto simp: mdns_publish_def service_info_new_def Let_def split: option.splits)

text \<open>The entries on their way: the map of the sender, the bytes of the record, the map of the browser.\<close>

lemma entries_arrive:
  assumes perm: "mset sent = mset ((TXT_KEY_DISCOVERY, base) # ep_entries enc_ep 0 es)"
    and ok: "check_props (props_of_map sent) = None"
    and utf8: "utf8_valid base" "\<forall>e \<in> set es. utf8_valid (enc_ep e)"
    and lower: "\<And>k. list_all (\<lambda>c. is_digit c \<or> c \<in> set ''eprsto.'') k \<Longrightarrow> lower k = k"
  shows "collect_txt (decode_txt_unique lower (encode_txt (props_of_map sent))) = sent"
proof -
  have set: "set sent = set ((TXT_KEY_DISCOVERY, base) # ep_entries enc_ep 0 es)" using perm by (rule mset_eq_setD)
  have "distinct (map fst ((TXT_KEY_DISCOVERY, base) # ep_entries enc_ep 0 es))"
    by (auto simp: ep_entries_distinct dest!: ep_entries_keys)
  moreover have "mset (map fst sent) = mset (map fst ((TXT_KEY_DISCOVERY, base) # ep_entries enc_ep 0 es))"
    using perm by (metis mset_map)
  ultimately have d: "distinct (map fst sent)" by (metis mset_eq_imp_distinct_iff)
  have low: "lower (fst kv) = fst kv" if "kv \<in> set sent" for kv
  proof (rule lower)
    show "list_all (\<lambda>c. is_digit c \<or> c \<in> set ''eprsto.'') (fst kv)"
      using that set by (auto simp: list_all_iff TXT_KEY_DISCOVERY_def dest!: ep_entries_keys ep_key_chars)
  qed
  have keys: "map (lower \<circ> tp_key) (props_of_map sent) = map fst sent"
    using low by (simp add: props_of_map_def)
  have "decode_txt (encode_txt (props_of_map sent)) = props_of_map sent"
    using ok by (rule decode_encode_txt) (auto simp: props_of_map_def)
  then have dec: "decode_txt_unique lower (encode_txt (props_of_map sent)) = props_of_map sent"
    using d keys by (simp add: decode_txt_unique_def first_keys_distinct)
  have "utf8_valid (snd kv)" if "kv \<in> set sent" for kv
    using that set utf8 by (auto dest!: ep_entries_keys)
  then have "map (\<lambda>p. (tp_key p, val_str p)) (props_of_map sent) = sent"
    by (auto simp: props_of_map_def text_prop_def val_str_def intro!: map_idI)
  moreover have "map tp_key (props_of_map sent) = map fst sent" by (simp add: props_of_map_def)
  ultimately show ?thesis using d by (simp add: dec collect_txt_distinct)
qed

text \<open>
  C14. A device that could be registered is decoded by every browser, whatever the order of the hash maps on the way
  and on both sides: with its own description, except that a name that was too long is cut (between characters) and
  endpoints whose summary is too long are missing; unless the encoder reported a degradation nothing is missing.
  The JSON writer and parser and the lower-casing of the library are parameters: the parser reads back what the writer
  wrote, the JSON of a text is UTF-8, and lower-case letters, digits and the dot stay as they are.
\<close>

theorem broadcast_decodes:
  assumes pub: "mdns_publish enc enc_ep order name host addrs port info = Inr si"
    and order: "\<And>m. mset (order m) = mset m"
    and seen: "mset entries = mset (collect_txt (decode_txt_unique lower (encode_txt (sv_props si))))"
    and json: "\<And>n. utf8_valid n \<Longrightarrow> dec (enc (info\<lparr>di_name := n, di_endpoints := []\<rparr>)) = Some (info\<lparr>di_name := n, di_endpoints := []\<rparr>)"
      "\<forall>e \<in> set (di_endpoints info). dec_ep (enc_ep e) = Some e"
    and utf8: "utf8_valid (di_name info)" "\<And>n. utf8_valid n \<Longrightarrow> utf8_valid (enc (info\<lparr>di_name := n, di_endpoints := []\<rparr>))"
      "\<forall>e \<in> set (di_endpoints info). utf8_valid (enc_ep e)"
    and lower: "\<And>k. list_all (\<lambda>c. is_digit c \<or> c \<in> set ''eprsto.'') k \<Longrightarrow> lower k = k"
    and len: "length (di_endpoints info) \<le> u64_max"
  shows "(\<exists>n. prefix n (di_name info) \<and> from_txt dec dec_ep entries =
             Some (info\<lparr>di_name := n, di_endpoints := filter (\<lambda>e. length (enc_ep e) \<le> TXT_MAX_BYTES) (di_endpoints info)\<rparr>))
    \<and> (\<not> snd (to_txt_lenient enc enc_ep info) \<longrightarrow> from_txt dec dec_ep entries = Some info)"
proof -
  obtain out deg where o: "to_txt_lenient enc enc_ep info = (out, deg)" by fastforce
  from o obtain n where
    out: "out = (TXT_KEY_DISCOVERY, enc (info\<lparr>di_name := n, di_endpoints := []\<rparr>)) # ep_entries enc_ep 0 (di_endpoints info)"
    and n: "prefix n (di_name info)" "utf8_valid n"
    and deg: "deg \<longleftrightarrow> n \<noteq> di_name info \<or> (\<exists>e \<in> set (di_endpoints info). length (enc_ep e) > TXT_MAX_BYTES)"
    by (rule to_txt_lenient_result) (use utf8(1) in blast)
  have si: "check_props (props_of_map (order out)) = None" "sv_props si = props_of_map (order out)"
    using pub o by (simp_all add: mdns_publish_Inr Let_def)
  have perm: "mset (order out) = mset ((TXT_KEY_DISCOVERY, enc (info\<lparr>di_name := n, di_endpoints := []\<rparr>)) # ep_entries enc_ep 0 (di_endpoints info))"
    by (simp only: order out)
  have "collect_txt (decode_txt_unique lower (encode_txt (sv_props si))) = order out"
    unfolding si(2) by (rule entries_arrive [OF perm si(1) utf8(2) [OF n(2)] utf8(3) lower])
  then have m: "mset entries = mset ((TXT_KEY_DISCOVERY, enc (info\<lparr>di_name := n, di_endpoints := []\<rparr>)) # ep_entries enc_ep 0 (di_endpoints info))"
    using seen perm by simp
  have res: "from_txt dec dec_ep entries = Some (info\<lparr>di_name := n, di_endpoints := filter (\<lambda>e. length (enc_ep e) \<le> TXT_MAX_BYTES) (di_endpoints info)\<rparr>)"
    using from_txt_entries [where dec = dec and dec_ep = dec_ep and enc = enc and b = "info\<lparr>di_name := n, di_endpoints := []\<rparr>", OF m json(1) [OF n(2)] _ json(2) len] by simp
  have "filter (\<lambda>e. length (enc_ep e) \<le> TXT_MAX_BYTES) (di_endpoints info) = di_endpoints info" if "\<not> deg"
    using that deg by (intro filter_True) (auto simp: not_less)
  then have "from_txt dec dec_ep entries = Some info" if "\<not> deg" using that res deg by simp
  then show ?thesis using n(1) res o by auto
qed


definition sample_device :: discovery_info where
  "sample_device = with_endpoints (relay_default ''pc'' [])
     [\<lparr>sm_endpoint_id = 7, sm_kind = Mic, sm_name = ''mic'', sm_available = True, sm_published = True\<rparr>]"

theorem broadcast_decodes_witness:
  "\<exists>si entries. mdns_publish di_name sm_name rev ''pc'' ''h'' [] 18779 sample_device = Inr si
     \<and> mset entries = mset (collect_txt (decode_txt_unique id (encode_txt (sv_props si))))
     \<and> from_txt (\<lambda>s. Some (relay_default s [])) (\<lambda>s. Some (hd (di_endpoints sample_device))) entries = Some sample_device"
proof -
  have zero: "char_of (48 :: nat) = CHR ''0''" by code_simp
  have l: "to_txt_lenient di_name sm_name sample_device = ([(''stross'', ''pc''), (''ep.0'', ''mic'')], False)"
    by (simp add: to_txt_lenient_def sample_device_def with_endpoints_def relay_default_def base_info_def
        shorten_name.simps TXT_MAX_BYTES_def TXT_KEY_DISCOVERY_def ep_key_def show_nat.simps zero)
  have a: "ascii ''stross''" "ascii ''ep.0''" by (code_simp)+
  obtain si where si: "mdns_publish di_name sm_name rev ''pc'' ''h'' [] 18779 sample_device = Inr si"
    using a by (simp add: mdns_publish_Inr l check_props_None check_prop_None props_of_map_def)
  have eps: "di_endpoints sample_device = [\<lparr>sm_endpoint_id = 7, sm_kind = Mic, sm_name = ''mic'', sm_available = True, sm_published = True\<rparr>]"
    by (simp add: sample_device_def with_endpoints_def)
  have base: "sample_device\<lparr>di_name := n, di_endpoints := []\<rparr> = relay_default n []" for n
    by (simp add: sample_device_def with_endpoints_def relay_default_def)
  have ascii: "utf8_valid ''pc''" "utf8_valid ''mic''" by (rule ascii_utf8, code_simp)+
  have "di_name (relay_default n []) = n" for n by (simp add: relay_default_def)
  then have "from_txt (\<lambda>s. Some (relay_default s [])) (\<lambda>s. Some (hd (di_endpoints sample_device)))
      (collect_txt (decode_txt_unique id (encode_txt (sv_props si)))) = Some sample_device"
    using broadcast_decodes [where dec = "\<lambda>s. Some (relay_default s [])"
        and dec_ep = "\<lambda>s. Some (hd (di_endpoints sample_device))" and lower = id, OF si _ refl]
      ascii l by (simp add: base eps u64_max_def) (simp add: sample_device_def with_endpoints_def relay_default_def)
  then show ?thesis using si by blast
qed

text \<open>
  The lenient encoder promises a broadcast that does not fail as a whole, but it measures the JSON alone while
  the library limits key, equals sign and JSON together: registering succeeds exactly when every entry it wrote,
  with its key, has at most 254 bytes besides the sign.
\<close>

theorem broadcast_accepted_iff:
  assumes order: "\<And>m. mset (order m) = mset m"
  shows "(\<exists>si. mdns_publish enc enc_ep order name host addrs port info = Inr si) \<longleftrightarrow>
           list_all (\<lambda>(k, v). length k + length v \<le> 254) (fst (to_txt_lenient enc enc_ep info))"
proof -
  obtain out deg where o: "to_txt_lenient enc enc_ep info = (out, deg)" by fastforce
  have s: "set (order out) = set out" using order by (rule mset_eq_setD)
  obtain n where out: "out = (TXT_KEY_DISCOVERY, n) # ep_entries enc_ep 0 (di_endpoints info)"
    using to_txt_lenient_result [OF o] by metis
  have ok: "ascii (fst kv)" "CHR ''='' \<notin> set (fst kv)" if "kv \<in> set out" for kv
    using that by (auto simp: out ascii_def list_all_iff TXT_KEY_DISCOVERY_def in_range_def is_digit_def
        dest!: ep_entries_keys ep_key_chars)
  have "check_prop (text_prop kv) = None \<longleftrightarrow> length (fst kv) + length (snd kv) \<le> 254" if "kv \<in> set out" for kv
    using ok [OF that] by (auto simp: check_prop_None)
  then show ?thesis
    by (auto simp: mdns_publish_Inr o Let_def check_props_None props_of_map_def s list_all_iff)
qed

definition long_name :: string where
  "long_name = replicate 249 CHR ''x''"

lemma long_name_lenient:
  "to_txt_lenient di_name sm_name (relay_default long_name []) = ([(''stross'', long_name)], False)" "length long_name = 249"
proof -
  show l: "length long_name = 249" by (simp add: long_name_def)
  show "to_txt_lenient di_name sm_name (relay_default long_name []) = ([(''stross'', long_name)], False)"
    using l by (simp add: to_txt_lenient_def relay_default_def base_info_def shorten_name.simps TXT_MAX_BYTES_def TXT_KEY_DISCOVERY_def)
qed

theorem broadcast_accepted_iff_witness:
  "(\<exists>si. mdns_publish di_name sm_name rev ''pc'' ''h'' [] 18779 (relay_default long_name []) = Inr si) \<longleftrightarrow> False"
  using broadcast_accepted_iff [where order = rev and enc = di_name and enc_ep = sm_name and name = "''pc''"
      and host = "''h''" and addrs = "[]" and port = 18779 and info = "relay_default long_name []"]
  by (simp add: long_name_lenient)

text \<open>The device above is refused although nothing had to be cut, so it is not advertised at all.\<close>

lemma refused_without_degradation:
  "mdns_publish di_name sm_name (\<lambda>m. m) ''pc'' ''h'' [] 18779 (relay_default long_name []) = Inl (InfoError (PropTooLong 256))"
proof -
  have "ascii ''stross''" by code_simp
  then show ?thesis
    by (simp add: mdns_publish_def service_info_new_def props_of_map_def check_prop_def long_name_lenient)
qed


section \<open>Life of a registration\<close>

text \<open>
  A running broadcast is updated in place: redefining it replaces the service under the same key with the same
  addresses and port and never leaves the device unregistered; stopping removes exactly that service, and stopping
  again does nothing.
\<close>

theorem broadcast_lifecycle:
  assumes start: "mdns_start enc enc_ep order lower accepts inst ips port info hostname m = Inr (d, m1)"
    and redefine: "mdns_redefine enc enc_ep order lower accepts d info' m1 = Inr m2"
  shows "\<exists>key old new. m1 = m(key \<mapsto> old) \<and> m2 = m(key \<mapsto> new)
     \<and> sv_props new = props_of_map (order (fst (to_txt_lenient enc enc_ep info')))
     \<and> sv_fullname new = sv_fullname old \<and> sv_addrs new = sv_addrs old \<and> sv_port new = port
     \<and> mdns_stop lower d m2 = (d\<lparr>md_fullname := None\<rparr>, m(key := None))
     \<and> mdns_stop lower (d\<lparr>md_fullname := None\<rparr>) m2 = (d\<lparr>md_fullname := None\<rparr>, m2)"
proof -
  obtain si where si: "mdns_publish enc enc_ep order inst (hostname @ ''.local.'') (broadcast_addrs ips) port info = Inr si"
    and d: "d = \<lparr>md_fullname = Some (sv_fullname si), md_instance = inst, md_host = hostname @ ''.local.'',
                md_addrs = broadcast_addrs ips, md_port = port\<rparr>"
    and m1: "m1 = m(lower (sv_fullname si) \<mapsto> si)"
    using start by (auto simp: mdns_start_def Let_def daemon_register_def split: sum.splits if_splits)
  obtain si' where si': "mdns_publish enc enc_ep order inst (hostname @ ''.local.'') (broadcast_addrs ips) port info' = Inr si'"
    and m2: "m2 = m1(lower (sv_fullname si') \<mapsto> si')"
    using redefine by (auto simp: mdns_redefine_def d daemon_register_def split: sum.splits if_splits)
  have f: "sv_fullname si' = sv_fullname si" "sv_addrs si' = sv_addrs si" "sv_port si' = port"
      "sv_props si' = props_of_map (order (fst (to_txt_lenient enc enc_ep info')))"
    using si si' by (auto simp: mdns_publish_Inr Let_def)
  show ?thesis
    by (rule exI [of _ "lower (sv_fullname si)"], rule exI [of _ si], rule exI [of _ si'])
      (simp add: m1 m2 f mdns_stop_def daemon_unregister_def d)
qed

theorem broadcast_lifecycle_witness:
  "\<exists>d m1 m2 key new. mdns_start di_name sm_name rev id (\<lambda>_. True) ''pc'' [] 9 (relay_default ''a'' []) ''h'' Map.empty = Inr (d, m1)
     \<and> mdns_redefine di_name sm_name rev id (\<lambda>_. True) d (relay_default ''b'' []) m1 = Inr m2
     \<and> m2 = Map.empty(key \<mapsto> new)"
proof -
  have a: "ascii ''stross''" by code_simp
  have l: "to_txt_lenient di_name sm_name (relay_default [c] []) = ([(''stross'', [c])], False)" for c
    by (simp add: to_txt_lenient_def relay_default_def base_info_def shorten_name.simps TXT_MAX_BYTES_def TXT_KEY_DISCOVERY_def)
  obtain d m1 where s: "mdns_start di_name sm_name rev id (\<lambda>_. True) ''pc'' [] 9 (relay_default ''a'' []) ''h'' Map.empty = Inr (d, m1)"
    and d: "md_fullname d \<noteq> None"
    using a by (simp add: mdns_start_def Let_def mdns_publish_def service_info_new_def l props_of_map_def check_prop_def daemon_register_def)
  obtain m2 where r: "mdns_redefine di_name sm_name rev id (\<lambda>_. True) d (relay_default ''b'' []) m1 = Inr m2"
    using a d by (auto simp: mdns_redefine_def mdns_publish_def service_info_new_def l props_of_map_def check_prop_def daemon_register_def)
  show ?thesis using broadcast_lifecycle [OF s r] s r by blast
qed

text \<open>
  C37. A browse reports each service at most once, with the port and the description of its latest announcement and an
  address that was announced since the service was last removed; never a link-local or unspecified one, and one of this
  host's own /24 networks when such an address was announced.  A service with a usable address is reported.
\<close>

theorem browse_reports_dialable:
  assumes d: "d \<in> set (browse self_ips evs)"
  defines "h \<equiv> service_history (d_instance d) evs"
  shows "(\<exists>(p, props, addrs) \<in> set h. d_ip d \<in> set addrs) \<and> keep_addr (d_ip d)
    \<and> d_port d = fst (last h) \<and> d_txt d = collect_txt (fst (snd (last h)))
    \<and> ((\<exists>(p, props, addrs) \<in> set h. \<exists>a \<in> set addrs. keep_addr a \<and> (\<exists>s \<in> set self_ips. ipv4_same_subnet s a))
         \<longrightarrow> (\<exists>s \<in> set self_ips. ipv4_same_subnet s (d_ip d)))
    \<and> (\<forall>d' \<in> set (browse self_ips evs). d_instance d' = d_instance d \<longrightarrow> d' = d)"
proof -
  obtain addrs where r: "reported h = Some (addrs, d_port d, d_txt d)" and sel: "select_reachable_ip_from self_ips addrs = Some (d_ip d)"
    using d by (auto simp: browse_iff h_def)
  have a: "addrs = announced h" "d_port d = fst (last h)" "d_txt d = collect_txt (fst (snd (last h)))"
    using r by (auto simp: reported_def split: if_splits)
  have "d_ip d \<in> set (announced h)" using select_some(1) [OF sel] a(1) by simp
  then have 1: "(\<exists>(p, props, addrs) \<in> set h. d_ip d \<in> set addrs)" "keep_addr (d_ip d)" by (auto simp: set_announced)
  have 2: "\<exists>s \<in> set self_ips. ipv4_same_subnet s (d_ip d)"
    if ex: "\<exists>(p, props, addrs) \<in> set h. \<exists>a \<in> set addrs. keep_addr a \<and> (\<exists>s \<in> set self_ips. ipv4_same_subnet s a)"
  proof (rule select_some(2) [OF sel])
    obtain p props as x where x: "(p, props, as) \<in> set h" "x \<in> set as" "keep_addr x" "\<exists>s \<in> set self_ips. ipv4_same_subnet s x"
      using ex by blast
    then have "x \<in> set (announced h)" by (auto simp: set_announced)
    then show "\<exists>a \<in> set addrs. \<exists>s \<in> set self_ips. ipv4_same_subnet s a" using x(4) a(1) by blast
  qed
  have 3: "d' = d" if "d' \<in> set (browse self_ips evs)" "d_instance d' = d_instance d" for d'
    using that r sel by (auto simp: browse_iff h_def intro!: discovered.equality)
  show ?thesis using 1 2 3 a(2,3) by blast
qed

definition phone_events :: "service_event list" where
  "phone_events = [ServiceResolved ''s'' 9 [] [V4 10 159 157 104], ServiceResolved ''s'' 9 [] [V4 169 254 0 1, V4 192 168 2 6]]"

definition phone_found :: discovered where
  "phone_found = \<lparr>d_instance = ''s'', d_ip = V4 192 168 2 6, d_port = 9, d_txt = []\<rparr>"

theorem browse_reports_dialable_witness:
  "browse [V4 192 168 2 1] phone_events = [phone_found] \<and> keep_addr (d_ip phone_found)"
proof -
  have "browse_events phone_events = [(''s'', [V4 10 159 157 104, V4 192 168 2 6], 9, [])]"
    by (simp add: browse_events_def phone_events_def add_addr_def keep_addr_def collect_txt_def)
  then have b: "browse [V4 192 168 2 1] phone_events = [phone_found]"
    by (simp add: browse_def phone_found_def select_reachable_ip_from_def v4_net_octets map_filter_simps)
  then have "phone_found \<in> set (browse [V4 192 168 2 1] phone_events)" by simp
  from browse_reports_dialable [OF this] b show ?thesis by blast
qed

lemma browse_complete:
  assumes "(p, props, addrs) \<in> set (service_history f evs)" "ip \<in> set addrs" "keep_addr ip"
  shows "\<exists>d \<in> set (browse self_ips evs). d_instance d = f"
proof -
  let ?h = "service_history f evs"
  have "ip \<in> set (announced ?h)" using assms by (auto simp: set_announced)
  then have "announced ?h \<noteq> []" by auto
  then obtain i where i: "select_reachable_ip_from self_ips (announced ?h) = Some i"
    using select_none [of self_ips "announced ?h"] by (cases "select_reachable_ip_from self_ips (announced ?h)") auto
  have "reported ?h = Some (announced ?h, fst (last ?h), collect_txt (fst (snd (last ?h))))"
    using assms(1) by (auto simp: reported_def)
  then have "\<lparr>d_instance = f, d_ip = i, d_port = fst (last ?h), d_txt = collect_txt (fst (snd (last ?h)))\<rparr> \<in> set (browse self_ips evs)"
    using i by (simp add: browse_iff)
  then show ?thesis by (rule rev_bexI) simp
qed

end
