(* ===== verification/Scan.thy ===== *)
theory Scan
  imports Mdns Relay_Url Relay
begin

text \<open>
  The aggregation of a scan of the local network (\<open>stross-discovery/src/scan.rs\<close>) and the table of known relays
  (\<open>stross-kernel/src/relay/peers.rs\<close>).  HTTP and the JSON parsers are the record \<open>http_env\<close> of parameters; a request
  that fails or times out answers \<open>None\<close>.
\<close>

section \<open>Nodes and probes\<close>

record node_stream_view =
  vw_stream_id :: stream_id
  vw_title :: string
  vw_video :: bool
  vw_audio :: bool
  vw_watchers :: u32

definition to_views :: "stream_info list \<Rightarrow> node_stream_view list" where
  "to_views ss = map (\<lambda>s. \<lparr>vw_stream_id = si_stream_id s, vw_title = si_title s, vw_video = (si_video s \<noteq> None),
                          vw_audio = (si_audio s \<noteq> None), vw_watchers = si_watchers s\<rparr>) ss"

record scanned_node =
  sn_name :: string
  sn_ip :: string
  sn_port :: u16
  sn_is_self :: bool
  sn_roles :: "role_id list"
  sn_media :: "media_kind list"
  sn_transports :: "transport_id list"
  sn_endpoints :: "endpoint_summary list"
  sn_online :: bool
  sn_srt_port :: "u16 option"
  sn_quic_port :: "u16 option"
  sn_streams :: "node_stream_view list"

datatype streams_resp = StreamsArray "stream_info list" | StreamsObject "stream_info list"

fun streams_list :: "streams_resp \<Rightarrow> stream_info list" where
  "streams_list (StreamsArray ss) = ss"
| "streams_list (StreamsObject ss) = ss"

record discovery_resp =
  dr_name :: string
  dr_relay_port :: u16
  dr_srt_port :: "u16 option"
  dr_quic_port :: "u16 option"
  dr_roles :: "role_id list"
  dr_media :: "media_kind list"
  dr_transports :: "transport_id list"
  dr_endpoints :: "endpoint_summary list"

text \<open>\<open>he_get url timeout\<close> is the status and the body of the answer; the rest parses bodies and TXT entries.\<close>

record http_env =
  he_get :: "string \<Rightarrow> nat \<Rightarrow> (nat \<times> string) option"
  he_info :: "string \<Rightarrow> (u16 option \<times> u16 option) option"
  he_streams :: "string \<Rightarrow> streams_resp option"
  he_discovery :: "string \<Rightarrow> discovery_resp option"
  he_from_txt :: "txt_entries \<Rightarrow> discovery_info option"

definition is_success :: "nat \<Rightarrow> bool" where
  "is_success status \<longleftrightarrow> 200 \<le> status \<and> status < 300"

definition api_url :: "string \<Rightarrow> u16 \<Rightarrow> string \<Rightarrow> string" where
  "api_url host port api = ''http://'' @ host @ '':'' @ show_word port @ ''/api/'' @ api"

definition probe_info :: "http_env \<Rightarrow> string \<Rightarrow> u16 \<Rightarrow> nat \<Rightarrow> (u16 option \<times> u16 option) option" where
  "probe_info env host port timeout =
     (case he_get env (api_url host port ''info'') timeout of
        None \<Rightarrow> None
      | Some (status, body) \<Rightarrow> if \<not> is_success status then None else he_info env body)"

definition probe_streams :: "http_env \<Rightarrow> string \<Rightarrow> u16 \<Rightarrow> nat \<Rightarrow> stream_info list option" where
  "probe_streams env host port timeout =
     (case he_get env (api_url host port ''streams'') timeout of
        None \<Rightarrow> None
      | Some (status, body) \<Rightarrow> if \<not> is_success status then None else map_option streams_list (he_streams env body))"

text \<open>The two probes every path ends with.\<close>

definition apply_probes :: "http_env \<Rightarrow> string \<Rightarrow> u16 \<Rightarrow> nat \<Rightarrow> scanned_node \<Rightarrow> scanned_node" where
  "apply_probes env host port timeout node =
     (let node1 = (case probe_info env host port timeout of
                     None \<Rightarrow> node
                   | Some (srt, quic) \<Rightarrow> node\<lparr>sn_online := True, sn_srt_port := srt, sn_quic_port := quic\<rparr>)
      in case probe_streams env host port timeout of
           None \<Rightarrow> node1
         | Some ss \<Rightarrow> node1\<lparr>sn_streams := to_views ss\<rparr>)"


section \<open>Aggregating the results of mDNS\<close>

definition node_of_discovered :: "http_env \<Rightarrow> string list \<Rightarrow> discovered \<Rightarrow> scanned_node" where
  "node_of_discovered env self_ips d =
     (let info = he_from_txt env (d_txt d); ip = show_ip (d_ip d) in
      \<lparr>sn_name = (case info of None \<Rightarrow> d_instance d | Some i \<Rightarrow> di_name i), sn_ip = ip, sn_port = d_port d,
       sn_is_self = (ip \<in> set self_ips),
       sn_roles = (case info of None \<Rightarrow> [] | Some i \<Rightarrow> di_roles i),
       sn_media = (case info of None \<Rightarrow> [] | Some i \<Rightarrow> di_media i),
       sn_transports = (case info of None \<Rightarrow> [] | Some i \<Rightarrow> di_transports i),
       sn_endpoints = (case info of None \<Rightarrow> [] | Some i \<Rightarrow> di_endpoints i),
       sn_online = False, sn_srt_port = None, sn_quic_port = None, sn_streams = []\<rparr>)"

text \<open>This host is probed over the loopback interface.\<close>

definition probed_node :: "http_env \<Rightarrow> string list \<Rightarrow> nat \<Rightarrow> discovered \<Rightarrow> scanned_node" where
  "probed_node env self_ips probe d =
     (let node = node_of_discovered env self_ips d
      in apply_probes env (if sn_is_self node then ''127.0.0.1'' else sn_ip node) (d_port d) probe node)"

definition scan_step :: "http_env \<Rightarrow> string list \<Rightarrow> nat \<Rightarrow> discovered
    \<Rightarrow> (string \<rightharpoonup> nat) \<times> scanned_node list \<Rightarrow> (string \<rightharpoonup> nat) \<times> scanned_node list" where
  "scan_step env self_ips probe d st =
     (let (seen, nodes) = st in
      case seen (d_instance d) of
        Some idx \<Rightarrow>
          (seen, if CHR '':'' \<in> set (sn_ip (nodes ! idx)) \<and> is_v4 (d_ip d)
                 then nodes[idx := (nodes ! idx)\<lparr>sn_ip := show_ip (d_ip d)\<rparr>] else nodes)
      | None \<Rightarrow> (seen(d_instance d \<mapsto> length nodes), nodes @ [probed_node env self_ips probe d]))"

definition scan_key :: "scanned_node \<Rightarrow> bool \<times> string" where
  "scan_key n = (\<not> sn_is_self n, sn_name n)"

definition scan :: "http_env \<Rightarrow> discovered list \<Rightarrow> string list \<Rightarrow> nat \<Rightarrow> scanned_node list" where
  "scan env found self_ips probe =
     sort_key scan_key (snd (fold (scan_step env self_ips probe) found (Map.empty, [])))"


section \<open>Scanning the subnets\<close>

definition SCAN_CONCURRENCY :: nat where
  "SCAN_CONCURRENCY = 64"

definition DISCOVERY_PORT :: u16 where
  "DISCOVERY_PORT = 18779"

fun subnet_of :: "ip_addr \<Rightarrow> (u8 \<times> u8 \<times> u8) option" where
  "subnet_of (V6 segs) = None"
| "subnet_of (V4 a b c d) =
     (if ip_loopback (V4 a b c d) \<or> is_fake_or_link_local (V4 a b c d) then None else Some (a, b, c))"

definition scan_subnets :: "ip_addr list \<Rightarrow> (u8 \<times> u8 \<times> u8) list" where
  "scan_subnets self_ips = remdups_adj (sort (List.map_filter subnet_of self_ips))"

definition scan_hosts :: "ip_addr list \<Rightarrow> ip_addr list" where
  "scan_hosts self_ips =
     concat (map (\<lambda>(a, b, c). map (\<lambda>h. V4 a b c (word_of_nat h)) [1..<255]) (scan_subnets self_ips))"

text \<open>The status of the answer is not looked at.\<close>

definition scan_probe_host :: "http_env \<Rightarrow> string \<Rightarrow> nat \<Rightarrow> scanned_node option" where
  "scan_probe_host env host probe =
     (let fast = min probe 500 in
      case he_get env (api_url host DISCOVERY_PORT ''discovery'') fast of
        None \<Rightarrow> None
      | Some (status, body) \<Rightarrow> (case he_discovery env body of
            None \<Rightarrow> None
          | Some r \<Rightarrow> Some (apply_probes env host (dr_relay_port r) fast
              \<lparr>sn_name = dr_name r, sn_ip = host, sn_port = dr_relay_port r, sn_is_self = False, sn_roles = dr_roles r,
               sn_media = dr_media r, sn_transports = dr_transports r, sn_endpoints = dr_endpoints r, sn_online = False,
               sn_srt_port = dr_srt_port r, sn_quic_port = dr_quic_port r, sn_streams = []\<rparr>)))"

text \<open>The probes run at the same time; \<open>order\<close> is the order in which they finish.\<close>

definition subnet_scan :: "http_env \<Rightarrow> (ip_addr list \<Rightarrow> ip_addr list) \<Rightarrow> ip_addr list \<Rightarrow> string list \<Rightarrow> nat \<Rightarrow> scanned_node list" where
  "subnet_scan env order self_ips self_ip_strings probe =
     List.map_filter
       (\<lambda>ip. map_option (\<lambda>n. n\<lparr>sn_is_self := show_ip ip \<in> set self_ip_strings\<rparr>) (scan_probe_host env (show_ip ip) probe))
       (order (scan_hosts self_ips))"

definition probe_base :: "http_env \<Rightarrow> string \<Rightarrow> nat \<Rightarrow> scanned_node option" where
  "probe_base env base probe =
     (case (case strip_prefix ''http://'' base of Some r \<Rightarrow> Some r | None \<Rightarrow> strip_prefix ''https://'' base) of
        None \<Rightarrow> None
      | Some rest \<Rightarrow>
          let host_port = takeWhile (\<lambda>c. c \<noteq> CHR ''/'') rest in
          case (case rsplit_once CHR '':'' host_port of
                  Some (h, p) \<Rightarrow> map_option (Pair h) (parse_u16 p)
                | None \<Rightarrow> Some (host_port, 80)) of
            None \<Rightarrow> None
          | Some (host, port) \<Rightarrow> Some (apply_probes env host port probe
              \<lparr>sn_name = host_port, sn_ip = host, sn_port = port, sn_is_self = False, sn_roles = [], sn_media = [],
               sn_transports = [], sn_endpoints = [], sn_online = False, sn_srt_port = None, sn_quic_port = None, sn_streams = []\<rparr>))"

definition node_addr :: "scanned_node \<Rightarrow> string" where
  "node_addr n = sn_ip n @ '':'' @ show_word (sn_port n)"

definition push_node :: "scanned_node \<Rightarrow> string set \<times> scanned_node list \<Rightarrow> string set \<times> scanned_node list" where
  "push_node n st =
     (let (seen, nodes) = st
      in if node_addr n \<in> seen then (seen, nodes) else (insert (node_addr n) seen, nodes @ [n]))"

definition trim_slashes :: "string \<Rightarrow> string" where
  "trim_slashes s = rev (dropWhile (\<lambda>c. c = CHR ''/'') (rev s))"

text \<open>\<open>found\<close> is the result of browsing, \<open>None\<close> when it failed; \<open>probe\<close> in milliseconds.\<close>

definition scan_lan :: "http_env \<Rightarrow> (ip_addr list \<Rightarrow> ip_addr list) \<Rightarrow> ip_addr list \<Rightarrow> discovered list option \<Rightarrow> nat
    \<Rightarrow> string list \<Rightarrow> scanned_node list option" where
  "scan_lan env order raw_ips found probe extra =
     (let self_ip_strings = map show_ip raw_ips; probe' = max probe 100 in
      case found of
        None \<Rightarrow> None
      | Some ds \<Rightarrow>
          let nodes = scan env ds self_ip_strings probe';
              st = (node_addr ` set nodes, nodes);
              st1 = (if list_all sn_is_self nodes
                     then fold push_node (subnet_scan env order raw_ips self_ip_strings probe') st else st);
              st2 = fold (\<lambda>base st. case probe_base env (trim_slashes base) probe' of
                                      None \<Rightarrow> st | Some n \<Rightarrow> push_node n st) extra st1
          in Some (snd st2))"


section \<open>Known relays\<close>

record peer_info =
  pi_id :: string
  pi_name :: string
  pi_ip :: string
  pi_port :: u16
  pi_roles :: "role_id list"
  pi_transports :: "transport_id list"
  pi_url :: string

definition ip_port :: "discovered \<Rightarrow> string" where
  "ip_port d = show_ip (d_ip d) @ '':'' @ show_word (d_port d)"

definition peer_from_discovered :: "(txt_entries \<Rightarrow> discovery_info option) \<Rightarrow> discovered \<Rightarrow> peer_info" where
  "peer_from_discovered decode d =
     (let info = decode (d_txt d); ident = ip_port d in
      \<lparr>pi_id = ident,
       pi_name = (case info of None \<Rightarrow> ident | Some i \<Rightarrow> if di_name i = [] then ident else di_name i),
       pi_ip = show_ip (d_ip d), pi_port = d_port d,
       pi_roles = (case info of None \<Rightarrow> [] | Some i \<Rightarrow> di_roles i),
       pi_transports = (case info of None \<Rightarrow> [] | Some i \<Rightarrow> di_transports i),
       pi_url = url_http (show_ip (d_ip d)) (d_port d)\<rparr>)"

definition filter_self :: "(txt_entries \<Rightarrow> discovery_info option) \<Rightarrow> discovered list \<Rightarrow> u16 \<Rightarrow> ip_addr list \<Rightarrow> (string \<rightharpoonup> peer_info)" where
  "filter_self decode found self_port self_ips =
     fold (\<lambda>d out. if d_port d = self_port \<and> d_ip d \<in> set self_ips then out
                   else out(ip_port d \<mapsto> peer_from_discovered decode d)) found Map.empty"


section \<open>One node per instance\<close>

text \<open>The instances in the order of their first record, and the node of an instance by its records.\<close>

definition instances :: "discovered list \<Rightarrow> string list" where
  "instances found = rev (remdups (rev (map d_instance found)))"

definition best_ip :: "discovered list \<Rightarrow> ip_addr" where
  "best_ip ds = (case List.find (\<lambda>d. is_v4 (d_ip d)) ds of Some d \<Rightarrow> d_ip d | None \<Rightarrow> d_ip (hd ds))"

definition records_of :: "discovered list \<Rightarrow> string \<Rightarrow> discovered list" where
  "records_of found inst = filter (\<lambda>d. d_instance d = inst) found"

definition node_for :: "http_env \<Rightarrow> string list \<Rightarrow> nat \<Rightarrow> discovered list \<Rightarrow> string \<Rightarrow> scanned_node" where
  "node_for env self_ips probe found inst =
     (probed_node env self_ips probe (hd (records_of found inst)))\<lparr>sn_ip := show_ip (best_ip (records_of found inst))\<rparr>"

lemma apply_probes_keeps [simp]:
  "sn_ip (apply_probes env host port t n) = sn_ip n" "sn_name (apply_probes env host port t n) = sn_name n"
  "sn_port (apply_probes env host port t n) = sn_port n" "sn_is_self (apply_probes env host port t n) = sn_is_self n"
  by (simp_all add: apply_probes_def Let_def split: option.split)

lemma probed_node_ip [simp]: "sn_ip (probed_node env self_ips probe d) = show_ip (d_ip d)"
  by (simp add: probed_node_def node_of_discovered_def Let_def)

lemma instances_snoc:
  "instances (ds @ [d]) = (if d_instance d \<in> d_instance ` set ds then instances ds else instances ds @ [d_instance d])"
  by (simp add: instances_def)

lemma set_instances [simp]: "set (instances ds) = d_instance ` set ds" "distinct (instances ds)"
  by (simp_all add: instances_def)

lemma records_snoc: "records_of (ds @ [d]) inst = records_of ds inst @ (if d_instance d = inst then [d] else [])"
  by (simp add: records_of_def)

lemma records_ne: "records_of ds inst \<noteq> [] \<longleftrightarrow> inst \<in> d_instance ` set ds"
  by (auto simp: records_of_def filter_empty_conv)

lemma find_snoc: "List.find P (xs @ [x]) = (case List.find P xs of Some y \<Rightarrow> Some y | None \<Rightarrow> if P x then Some x else None)"
  by (induction xs) auto

lemma best_ip_snoc:
  "ds \<noteq> [] \<Longrightarrow> best_ip (ds @ [d]) = (if \<not> is_v4 (best_ip ds) \<and> is_v4 (d_ip d) then d_ip d else best_ip ds)"
proof (cases "List.find (\<lambda>d. is_v4 (d_ip d)) ds")
  case None
  assume "ds \<noteq> []"
  then have "\<not> is_v4 (d_ip (hd ds))" using find_noneD [OF None] by auto
  then show ?thesis using None \<open>ds \<noteq> []\<close> by (simp add: best_ip_def find_snoc)
next
  case (Some x)
  then show ?thesis using find_someD [OF Some] by (simp add: best_ip_def find_snoc)
qed

lemma best_ip_in: "ds \<noteq> [] \<Longrightarrow> \<exists>d \<in> set ds. best_ip ds = d_ip d"
  by (cases "List.find (\<lambda>d. is_v4 (d_ip d)) ds") (auto simp: best_ip_def dest: find_someD intro: hd_in_set)

lemma best_ip_wf:
  assumes "\<forall>d \<in> set found. ip_wf (d_ip d)" "inst \<in> d_instance ` set found"
  shows "ip_wf (best_ip (records_of found inst))"
  using assms best_ip_in [of "records_of found inst"] records_ne [of found inst] by (auto simp: records_of_def)

text \<open>What the loop has collected after each record.\<close>

definition scan_inv :: "http_env \<Rightarrow> string list \<Rightarrow> nat \<Rightarrow> discovered list \<Rightarrow> (string \<rightharpoonup> nat) \<times> scanned_node list \<Rightarrow> bool" where
  "scan_inv env self_ips probe ds st \<longleftrightarrow>
     snd st = map (node_for env self_ips probe ds) (instances ds) \<and>
     (\<forall>inst i. fst st inst = Some i \<longleftrightarrow> i < length (instances ds) \<and> instances ds ! i = inst)"

lemma scan_inv_known:
  assumes inv: "scan_inv env self_ips probe ds (seen, nodes)" and s: "seen inst = Some i"
  shows "i < length nodes" "instances ds ! i = inst" "nodes ! i = node_for env self_ips probe ds inst"
    "inst \<in> d_instance ` set ds"
  using inv s by (auto simp: scan_inv_def simp flip: set_instances(1))

lemma scan_inv_unknown:
  assumes inv: "scan_inv env self_ips probe ds (seen, nodes)" and s: "seen inst = None"
  shows "inst \<notin> d_instance ` set ds"
proof
  assume "inst \<in> d_instance ` set ds"
  then obtain i where "i < length (instances ds)" "instances ds ! i = inst"
    by (metis in_set_conv_nth set_instances(1))
  then have "seen inst = Some i" using inv by (simp add: scan_inv_def)
  then show False using s by simp
qed

lemma node_for_other: "d_instance d \<noteq> inst \<Longrightarrow> node_for env self_ips probe (ds @ [d]) inst = node_for env self_ips probe ds inst"
  by (simp add: node_for_def records_snoc)

lemma node_for_again:
  assumes "d_instance d \<in> d_instance ` set ds"
  shows "node_for env self_ips probe (ds @ [d]) (d_instance d) =
    (if \<not> is_v4 (best_ip (records_of ds (d_instance d))) \<and> is_v4 (d_ip d)
     then (node_for env self_ips probe ds (d_instance d))\<lparr>sn_ip := show_ip (d_ip d)\<rparr>
     else node_for env self_ips probe ds (d_instance d))"
  using assms records_ne [of ds "d_instance d"] by (simp add: node_for_def records_snoc best_ip_snoc hd_append)

lemma node_for_first:
  assumes "d_instance d \<notin> d_instance ` set ds"
  shows "node_for env self_ips probe (ds @ [d]) (d_instance d) = probed_node env self_ips probe d"
proof -
  have "records_of ds (d_instance d) = []" using assms records_ne by blast
  then have r: "records_of (ds @ [d]) (d_instance d) = [d]" by (simp add: records_snoc)
  have "best_ip [d] = d_ip d" by (simp add: best_ip_def)
  then show ?thesis by (simp add: node_for_def r)
qed

lemma scan_inv_step:
  assumes inv: "scan_inv env self_ips probe ds st" and wf: "\<forall>d \<in> set (ds @ [d]). ip_wf (d_ip d)"
  shows "scan_inv env self_ips probe (ds @ [d]) (scan_step env self_ips probe d st)"
proof -
  obtain seen nodes where st: "st = (seen, nodes)" by fastforce
  let ?inst = "d_instance d" and ?new = "node_for env self_ips probe (ds @ [d])" and ?old = "node_for env self_ips probe ds"
  show ?thesis
  proof (cases "seen ?inst")
    case None
    then have n: "?inst \<notin> d_instance ` set ds" using scan_inv_unknown inv st by blast
    have "map ?new (instances ds) = map ?old (instances ds)"
      using n by (intro map_cong refl node_for_other) auto
    moreover have "instances ds ! i \<noteq> ?inst" if "i < length (instances ds)" for i
      using n that by (metis nth_mem set_instances(1))
    ultimately show ?thesis using inv n
      by (auto simp: st scan_step_def None scan_inv_def instances_snoc node_for_first nth_append less_Suc_eq split: if_splits)
  next
    case (Some i)
    note k = scan_inv_known [OF inv [unfolded st] Some]
    have ip: "CHR '':'' \<in> set (sn_ip (nodes ! i)) \<longleftrightarrow> \<not> is_v4 (best_ip (records_of ds ?inst))"
      using best_ip_wf [of ds ?inst] wf k(4) by (simp add: k(3) node_for_def show_ip_colon)
    have nodes: "nodes = map ?old (instances ds)" using inv by (simp add: scan_inv_def st)
    have "map ?new (instances ds) = nodes[i := ?new ?inst]"
    proof (rule nth_equalityI)
      fix j assume j: "j < length (map ?new (instances ds))"
      show "map ?new (instances ds) ! j = nodes[i := ?new ?inst] ! j"
      proof (cases "j = i")
        case True
        then show ?thesis using j k(1,2) by simp
      next
        case False
        then have "instances ds ! j \<noteq> ?inst"
          using j k(1,2) nodes by (metis length_map nth_eq_iff_index_eq set_instances(2))
        then show ?thesis using j False by (simp add: nodes node_for_other)
      qed
    qed (simp add: nodes)
    then have "map ?new (instances ds) =
        (if CHR '':'' \<in> set (sn_ip (nodes ! i)) \<and> is_v4 (d_ip d)
         then nodes[i := (nodes ! i)\<lparr>sn_ip := show_ip (d_ip d)\<rparr>] else nodes)"
      using node_for_again [OF k(4)] by (simp add: ip k(3) [symmetric])
    then show ?thesis using inv k(4) by (simp add: st scan_step_def Some scan_inv_def instances_snoc)
  qed
qed

lemma scan_collects:
  assumes "\<forall>d \<in> set found. ip_wf (d_ip d)"
  shows "scan_inv env self_ips probe found (fold (scan_step env self_ips probe) found (Map.empty, []))"
  using assms
proof (induction found rule: rev_induct)
  case Nil
  then show ?case by (simp add: scan_inv_def instances_def)
next
  case (snoc d ds)
  then show ?case using scan_inv_step [of env self_ips probe ds _ d] by simp
qed

text \<open>
  The scan lists every instance once, this host first and then by name.  The entry of an instance is made and probed
  from its first record; its address is the first IPv4 address among its records, or the first address if it has none.
\<close>

theorem scan_lists_each_instance:
  assumes "\<forall>d \<in> set found. ip_wf (d_ip d)"
  shows "scan env found self_ips probe =
           sort_key scan_key (map (node_for env self_ips probe found) (instances found))
    \<and> distinct (instances found) \<and> set (instances found) = d_instance ` set found"
  using scan_collects [OF assms, of env self_ips probe] by (simp add: scan_def scan_inv_def)

definition no_http :: http_env where
  "no_http = \<lparr>he_get = (\<lambda>_ _. None), he_info = (\<lambda>_. None), he_streams = (\<lambda>_. None), he_discovery = (\<lambda>_. None), he_from_txt = (\<lambda>_. None)\<rparr>"

definition two_records :: "discovered list" where
  "two_records = [\<lparr>d_instance = ''s'', d_ip = V6 [0xfd00, 0, 0, 0, 0, 0, 0, 1], d_port = 9, d_txt = []\<rparr>,
                  \<lparr>d_instance = ''s'', d_ip = V4 10 0 0 2, d_port = 9, d_txt = []\<rparr>]"

lemma two_records_text:
  "show_v6 [0xfd00, 0, 0, 0, 0, 0, 0, 1] = ''fd00::1''" "show_v4 10 0 0 2 = ''10.0.0.2''"
  by (simp add: show_v6_def show_hex.simps hex_char_def, code_simp) code_simp

lemma two_records_scan:
  "map sn_ip (scan no_http two_records [''10.0.0.2''] 100) = [''10.0.0.2'']"
  "map sn_is_self (scan no_http two_records [''10.0.0.2''] 100) = [False]"
  "map sn_is_self (scan no_http (rev two_records) [''10.0.0.2''] 100) = [True]"
  by (simp_all add: scan_def two_records_def scan_step_def probed_node_def node_of_discovered_def apply_probes_def
      probe_info_def probe_streams_def no_http_def two_records_text)

theorem scan_lists_each_instance_witness:
  "scan no_http two_records [''10.0.0.2''] 100 =
     sort_key scan_key (map (node_for no_http [''10.0.0.2''] 100 two_records) (instances two_records))
   \<and> map sn_ip (scan no_http two_records [''10.0.0.2''] 100) = [''10.0.0.2'']"
proof -
  have "\<forall>d \<in> set two_records. ip_wf (d_ip d)" by (simp add: two_records_def ip_wf_def)
  from scan_lists_each_instance [OF this] show ?thesis using two_records_scan by blast
qed

text \<open>
  The address is exchanged later, but whether the node is this host was decided, and the probes were made, with the
  first one: the host above, known by its IPv4 address, is not recognised as itself.
\<close>

lemma self_behind_ipv6:
  "map sn_is_self (scan no_http two_records [''10.0.0.2''] 100) = [False] \<and>
   map sn_is_self (scan no_http (rev two_records) [''10.0.0.2''] 100) = [True]"
  by (simp add: two_records_scan)


section \<open>The subnets of this host\<close>

lemma subnet_of_iff:
  "subnet_of ip = Some (a, b, c) \<longleftrightarrow>
     (\<exists>d. ip = V4 a b c d) \<and> \<not> ip_loopback ip \<and> \<not> is_fake_or_link_local ip"
  by (cases ip) auto

lemma sorted_remdups_adj_distinct: "sorted xs \<Longrightarrow> distinct (remdups_adj (xs :: 'a::linorder list))"
  by (induction xs rule: remdups_adj.induct) (auto simp: order_le_less)

lemma host_numbers: "h \<in> (word_of_nat :: nat \<Rightarrow> u8) ` {1..<255} \<longleftrightarrow> h \<noteq> 0 \<and> h \<noteq> 255"
proof
    assume "h \<in> (word_of_nat :: nat \<Rightarrow> u8) ` {1..<255}"
    then obtain n where n: "h = word_of_nat n" "1 \<le> n" "n < 255" by auto
    then have "unat h = n" by (simp add: unat_of_nat)
    then show "h \<noteq> 0 \<and> h \<noteq> 255" using n by auto
  next
    assume h: "h \<noteq> 0 \<and> h \<noteq> 255"
    have "unat h < 256" using unsigned_less [where ?'a = nat, of h] by simp
    moreover have "unat h \<noteq> 0" using h by (simp add: unat_eq_0)
    moreover have "unat h \<noteq> 255"
    proof
      assume "unat h = 255"
      then have "unat h = unat (255 :: u8)" by simp
      then show False using h by (simp only: word_unat_eq_iff [symmetric])
    qed
    ultimately show "h \<in> (word_of_nat :: nat \<Rightarrow> u8) ` {1..<255}"
      by (intro image_eqI [of _ _ "unat h"]) auto
qed

text \<open>
  The fallback probes exactly the addresses .1 to .254 of the /24 networks of this host's own IPv4 addresses,
  leaving out loopback, link-local and fake ones, and no address twice.
\<close>

theorem scan_hosts_exact:
  "distinct (scan_hosts self_ips) \<and>
   (V4 a b c h \<in> set (scan_hosts self_ips) \<longleftrightarrow>
      h \<noteq> 0 \<and> h \<noteq> 255 \<and>
      (\<exists>d. V4 a b c d \<in> set self_ips \<and> \<not> ip_loopback (V4 a b c d) \<and> \<not> is_fake_or_link_local (V4 a b c d)))
   \<and> V6 segs \<notin> set (scan_hosts self_ips)"
proof -
  have nets: "(a, b, c) \<in> set (scan_subnets self_ips) \<longleftrightarrow>
      (\<exists>d. V4 a b c d \<in> set self_ips \<and> \<not> ip_loopback (V4 a b c d) \<and> \<not> is_fake_or_link_local (V4 a b c d))" for a b c
    by (auto simp: scan_subnets_def set_map_filter_iff subnet_of_iff)
  have mem: "ip \<in> set (scan_hosts self_ips) \<longleftrightarrow>
      (\<exists>a b c h. ip = V4 a b c h \<and> (a, b, c) \<in> set (scan_subnets self_ips) \<and> h \<in> (word_of_nat :: nat \<Rightarrow> u8) ` {1..<255})" for ip
    by (force simp: scan_hosts_def)
  have inj: "inj_on (word_of_nat :: nat \<Rightarrow> u8) {1..<255}"
  proof (rule inj_onI)
    fix n m assume nm: "n \<in> {1..<255}" "m \<in> {1..<255}" "(word_of_nat n :: u8) = word_of_nat m"
    have u: "unat (word_of_nat k :: u8) = k" if "k < 255" for k using that by (simp add: unat_of_nat)
    have "unat (word_of_nat n :: u8) = unat (word_of_nat m :: u8)" using nm(3) by (rule arg_cong)
    then show "n = m" using nm(1,2) by (simp add: u)
  qed
  let ?hosts = "\<lambda>(a, b, c). map (\<lambda>h. V4 a b c (word_of_nat h)) [1..<255]"
  have d: "distinct (scan_subnets self_ips)" by (simp add: scan_subnets_def sorted_remdups_adj_distinct)
  have first: "hd (?hosts (a, b, c)) = V4 a b c 1" for a b c by (simp add: upt_rec)
  have "inj ?hosts"
  proof (rule injI)
    fix x y assume "?hosts x = ?hosts y"
    then have hd: "hd (?hosts x) = hd (?hosts y)" by (rule arg_cong)
    obtain a b c a' b' c' where xy: "x = (a, b, c)" "y = (a', b', c')" by (cases x, cases y) blast
    show "x = y" using hd by (simp only: xy first ip_addr.inject)
  qed
  then have "distinct (map ?hosts (scan_subnets self_ips))" using d unfolding distinct_map by (blast intro: inj_on_subset)
  moreover have "distinct (?hosts n)" for n using inj by (cases n) (auto simp: distinct_map inj_on_def)
  moreover have "set (?hosts n) \<inter> set (?hosts n') = {}" if "?hosts n \<noteq> ?hosts n'" for n n'
    using that by (cases n; cases n') auto
  ultimately have "distinct (scan_hosts self_ips)"
    unfolding scan_hosts_def by (intro distinct_concat) auto
  then show ?thesis
    by (simp only: mem nets host_numbers ip_addr.inject ip_addr.distinct) blast
qed



section \<open>The whole scan\<close>

text \<open>Nodes are appended under addresses not seen before.\<close>

definition appended :: "scanned_node list \<Rightarrow> string set \<times> scanned_node list \<Rightarrow> bool" where
  "appended nodes st \<longleftrightarrow> (\<exists>more. snd st = nodes @ more \<and> distinct (map node_addr more)
     \<and> fst st = node_addr ` set (nodes @ more) \<and> node_addr ` set more \<inter> node_addr ` set nodes = {})"

lemma appended_push: "appended nodes st \<Longrightarrow> appended nodes (push_node n st)"
proof -
  assume "appended nodes st"
  then obtain more where m: "st = (node_addr ` set (nodes @ more), nodes @ more)" "distinct (map node_addr more)"
    "node_addr ` set more \<inter> node_addr ` set nodes = {}" by (cases st) (auto simp: appended_def)
  show ?thesis
  proof (cases "node_addr n \<in> fst st")
    case True
    then show ?thesis using m by (auto simp: appended_def push_node_def)
  next
    case False
    then show ?thesis using m
      by (auto simp: appended_def push_node_def intro!: exI [of _ "more @ [n]"])
  qed
qed

lemma appended_fold: "(\<And>x st. appended nodes st \<Longrightarrow> appended nodes (f x st)) \<Longrightarrow> appended nodes st \<Longrightarrow> appended nodes (fold f xs st)"
  by (induction xs arbitrary: st) auto

text \<open>
  Whatever the network answers, a complete scan keeps the nodes found by mDNS in front and unchanged and adds nodes
  of the fallback and of manual addresses only under an address and port that no other node of the list has.
\<close>

theorem scan_lan_adds_new_nodes:
  assumes "scan_lan env order raw_ips (Some ds) probe extra = Some nodes"
  shows "\<exists>more. nodes = scan env ds (map show_ip raw_ips) (max probe 100) @ more
     \<and> distinct (map node_addr more)
     \<and> node_addr ` set more \<inter> node_addr ` set (scan env ds (map show_ip raw_ips) (max probe 100)) = {}"
proof -
  let ?n = "scan env ds (map show_ip raw_ips) (max probe 100)"
  have "appended ?n (node_addr ` set ?n, ?n)" by (simp add: appended_def)
  then have "appended ?n (fold push_node xs (node_addr ` set ?n, ?n))" for xs by (intro appended_fold appended_push)
  then have "appended ?n (if list_all sn_is_self ?n then fold push_node xs (node_addr ` set ?n, ?n) else (node_addr ` set ?n, ?n))" for xs
    by (simp add: appended_def)
  then have "appended ?n (fold (\<lambda>base st. case probe_base env (trim_slashes base) (max probe 100) of
      None \<Rightarrow> st | Some n \<Rightarrow> push_node n st) extra
      (if list_all sn_is_self ?n then fold push_node xs (node_addr ` set ?n, ?n) else (node_addr ` set ?n, ?n)))" for xs
    by (intro appended_fold) (auto intro: appended_push split: option.split)
  then show ?thesis using assms by (force simp: scan_lan_def Let_def appended_def)
qed

lemma no_http_lan:
  "scan no_http [] ips t = []" "subnet_scan no_http rev [] ips t = []"
  "apply_probes no_http host port t n = n"
  by (simp_all add: scan_def subnet_scan_def scan_hosts_def scan_subnets_def map_filter_simps apply_probes_def
      probe_info_def probe_streams_def no_http_def)

lemma probe_box: "\<exists>n. probe_base no_http ''http://box'' 100 = Some n \<and> node_addr n = ''box:80''"
proof -
  have p: "show_word (80 :: u16) = ''80''" by code_simp
  have r: "rsplit_once CHR '':'' ''box'' = None" by (simp add: rsplit_once_def split_once_def)
  show ?thesis by (simp add: probe_base_def strip_prefix_def r no_http_lan node_addr_def p Let_def)
qed

theorem scan_lan_adds_new_nodes_witness:
  "\<exists>more. map node_addr more = [''box:80''] \<and>
     scan_lan no_http rev [] (Some []) 0 [''http://box/'', ''http://box''] = Some (scan no_http [] [] 100 @ more)"
proof -
  have t: "trim_slashes ''http://box/'' = ''http://box''" "trim_slashes ''http://box'' = ''http://box''"
    by (simp_all add: trim_slashes_def)
  obtain n where n: "probe_base no_http ''http://box'' 100 = Some n" "node_addr n = ''box:80''" using probe_box by blast
  have lan: "scan_lan no_http rev [] (Some []) 0 [''http://box/'', ''http://box''] = Some [n]"
    by (simp add: scan_lan_def no_http_lan t n push_node_def)
  from scan_lan_adds_new_nodes [OF lan] show ?thesis by (rule ex_forward) (use lan n in \<open>simp add: no_http_lan\<close>)
qed


section \<open>The table of relays\<close>

lemma filter_self_entry:
  "filter_self decode found self_port self_ips k = Some p \<Longrightarrow>
     \<exists>d \<in> set found. k = ip_port d \<and> p = peer_from_discovered decode d \<and> \<not> (d_port d = self_port \<and> d_ip d \<in> set self_ips)"
proof -
  have "fold (\<lambda>d out. if d_port d = self_port \<and> d_ip d \<in> set self_ips then out
           else out(ip_port d \<mapsto> peer_from_discovered decode d)) found m k = Some p \<Longrightarrow>
      m k = Some p \<or> (\<exists>d \<in> set found. k = ip_port d \<and> p = peer_from_discovered decode d
        \<and> \<not> (d_port d = self_port \<and> d_ip d \<in> set self_ips))" for m
    by (induction found arbitrary: m) (fastforce split: if_splits)+
  from this [of Map.empty] show "filter_self decode found self_port self_ips k = Some p \<Longrightarrow> ?thesis"
    by (simp add: filter_self_def)
qed

lemma filter_self_complete:
  assumes "d \<in> set found" "\<not> (d_port d = self_port \<and> d_ip d \<in> set self_ips)"
  shows "filter_self decode found self_port self_ips (ip_port d) \<noteq> None"
proof -
  let ?f = "\<lambda>d out. if d_port d = self_port \<and> d_ip d \<in> set self_ips then out
           else out(ip_port d \<mapsto> peer_from_discovered decode d)"
  have keep: "m k \<noteq> None \<Longrightarrow> fold ?f ds m k \<noteq> None" for ds m k
    by (induction ds arbitrary: m) auto
  have "fold ?f found m (ip_port d) \<noteq> None" for m
    using assms(1)
  proof (induction found arbitrary: m)
    case (Cons e es)
    show ?case
    proof (cases "e = d")
      case True
      then show ?thesis using assms(2) keep [of "m(ip_port d \<mapsto> peer_from_discovered decode d)" "ip_port d" es] by auto
    next
      case False
      then show ?thesis using Cons by auto
    qed
  qed simp
  then show ?thesis by (simp add: filter_self_def)
qed

end
