(* ===== verification/Push_Client.thy ===== *)
theory Push_Client
  imports Relay Pick Relay_Url
begin

text \<open>
  The client that pushes a stream to a relay (\<open>stross-kernel/src/sender.rs\<close>).  Its loop waits for three things at
  once; each that happens is an event.  \<open>ok k\<close> says whether the session takes the packet of the \<open>k\<close>-th send.
\<close>

section \<open>The loop\<close>

record push_client =
  pc_next_seq :: u32
  pc_sent :: "relay_msg session_packet list"
  pc_tries :: nat
  pc_connected :: bool
  pc_welcomed :: bool
  pc_running :: bool
  pc_closed :: bool

definition client_send :: "(nat \<Rightarrow> bool) \<Rightarrow> relay_msg session_packet \<Rightarrow> push_client \<Rightarrow> bool \<times> push_client" where
  "client_send ok p c =
     (let c' = c\<lparr>pc_tries := pc_tries c + 1\<rparr>
      in if ok (pc_tries c) then (True, c'\<lparr>pc_sent := pc_sent c @ [p]\<rparr>) else (False, c'))"

definition client_start :: "(nat \<Rightarrow> bool) \<Rightarrow> relay_msg \<Rightarrow> push_client" where
  "client_start ok hello =
     snd (client_send ok (ControlPkt hello)
       \<lparr>pc_next_seq = 0, pc_sent = [], pc_tries = 0, pc_connected = True, pc_welcomed = False, pc_running = True, pc_closed = False\<rparr>)"

definition client_send_frame :: "(nat \<Rightarrow> bool) \<Rightarrow> frame \<Rightarrow> push_client \<Rightarrow> bool \<times> push_client" where
  "client_send_frame ok f c =
     client_send ok (MediaPkt (set_seq (pc_next_seq c) f)) (c\<lparr>pc_next_seq := pc_next_seq c + 1\<rparr>)"

text \<open>The frames that are queued when the client is stopped.\<close>

fun client_drain :: "(nat \<Rightarrow> bool) \<Rightarrow> frame list \<Rightarrow> push_client \<Rightarrow> push_client" where
  "client_drain ok [] c = c"
| "client_drain ok (f # fs) c =
     (case client_send_frame ok f c of
        (True, c') \<Rightarrow> client_drain ok fs c'
      | (False, c') \<Rightarrow> c')"

definition client_bye :: "(nat \<Rightarrow> bool) \<Rightarrow> push_client \<Rightarrow> push_client" where
  "client_bye ok c = (snd (client_send ok (ControlPkt Bye) c))\<lparr>pc_closed := True, pc_running := False\<rparr>"

definition client_lost :: "push_client \<Rightarrow> push_client" where
  "client_lost c = c\<lparr>pc_connected := False, pc_running := False\<rparr>"

text \<open>A frame, the end of the frames, the request to stop with the frames still queued, what the session yields.\<close>

datatype client_event =
    FrameReady frame
  | FramesClosed
  | StopRequested "frame list"
  | FromRelay "relay_msg session_packet"
  | RelayClosed
  | RelayFailed

fun client_handle :: "(nat \<Rightarrow> bool) \<Rightarrow> client_event \<Rightarrow> push_client \<Rightarrow> push_client" where
  "client_handle ok (FrameReady f) c =
     (case client_send_frame ok f c of (True, c') \<Rightarrow> c' | (False, c') \<Rightarrow> client_lost c')"
| "client_handle ok FramesClosed c = client_bye ok c"
| "client_handle ok (StopRequested queued) c = client_bye ok (client_drain ok queued c)"
| "client_handle ok (FromRelay (ControlPkt (Welcome sid))) c = c\<lparr>pc_welcomed := True\<rparr>"
| "client_handle ok (FromRelay (ControlPkt (ErrorMsg r))) c = client_lost c"
| "client_handle ok (FromRelay p) c = c"
| "client_handle ok RelayClosed c = client_lost c"
| "client_handle ok RelayFailed c = client_lost c"

definition client_step :: "(nat \<Rightarrow> bool) \<Rightarrow> client_event \<Rightarrow> push_client \<Rightarrow> push_client" where
  "client_step ok ev c = (if pc_running c then client_handle ok ev c else c)"

definition client_run :: "(nat \<Rightarrow> bool) \<Rightarrow> relay_msg \<Rightarrow> client_event list \<Rightarrow> push_client" where
  "client_run ok hello evs = fold (client_step ok) evs (client_start ok hello)"


section \<open>Connecting\<close>

datatype connect_error = BadRelayAddress | RelayUnreachable | WelcomeTimedOut

text \<open>
  \<open>evs\<close> is what happens until the deadline.  Waiting ends with the welcome, and also when the loop has ended and the
  sender of the welcome is gone.
\<close>

definition client_connect :: "string \<Rightarrow> bool \<Rightarrow> (nat \<Rightarrow> bool) \<Rightarrow> relay_msg \<Rightarrow> client_event list \<Rightarrow> connect_error + push_client" where
  "client_connect url reachable ok hello evs =
     (if url_parse url = None then Inl BadRelayAddress
      else if \<not> reachable then Inl RelayUnreachable
      else let c = client_run ok hello evs
           in if pc_welcomed c \<or> \<not> pc_running c then Inr c else Inl WelcomeTimedOut)"

definition is_connected :: "push_client \<Rightarrow> bool" where
  "is_connected c = pc_connected c"


section \<open>What is sent\<close>

fun media_of :: "'c session_packet list \<Rightarrow> frame list" where
  "media_of [] = []"
| "media_of (MediaPkt f # ps) = f # media_of ps"
| "media_of (ControlPkt m # ps) = media_of ps"

lemma media_of_append [simp]: "media_of (ps @ qs) = media_of ps @ media_of qs"
  by (induction ps rule: media_of.induct) auto

lemma media_of_map [simp]: "media_of (map MediaPkt fs) = fs"
  by (induction fs) auto

text \<open>Frames numbered from a start.\<close>

fun numbered :: "u32 \<Rightarrow> frame list \<Rightarrow> frame list" where
  "numbered q [] = []"
| "numbered q (f # fs) = set_seq q f # numbered (q + 1) fs"

lemma length_numbered [simp]: "length (numbered q fs) = length fs"
  by (induction fs arbitrary: q) auto

lemma numbered_append: "numbered q (fs @ gs) = numbered q fs @ numbered (q + word_of_nat (length fs)) gs"
  by (induction fs arbitrary: q) (auto simp: algebra_simps)

text \<open>The frames handed to the client, up to its end.\<close>

fun event_frames :: "client_event list \<Rightarrow> frame list" where
  "event_frames [] = []"
| "event_frames (FrameReady f # evs) = f # event_frames evs"
| "event_frames (StopRequested fs # evs) = fs"
| "event_frames (_ # evs) = event_frames evs"

text \<open>Where the client stands: \<open>n\<close> frames have gone out.\<close>

definition sends_from :: "u32 \<Rightarrow> push_client \<Rightarrow> frame list \<Rightarrow> push_client \<Rightarrow> bool" where
  "sends_from q c fs c' \<longleftrightarrow> (\<exists>n \<le> length fs. media_of (pc_sent c') = media_of (pc_sent c) @ numbered q (take n fs))"

lemma client_send_result:
  "client_send ok p c = (b, c') \<Longrightarrow>
     pc_sent c' = pc_sent c @ (if b then [p] else []) \<and> pc_next_seq c' = pc_next_seq c \<and> pc_running c' = pc_running c"
  by (auto simp: client_send_def Let_def split: if_splits)

lemma client_send_frame_result:
  "client_send_frame ok f c = (b, c') \<Longrightarrow>
     pc_sent c' = pc_sent c @ (if b then [MediaPkt (set_seq (pc_next_seq c) f)] else [])
     \<and> pc_next_seq c' = pc_next_seq c + 1 \<and> pc_running c' = pc_running c"
  using client_send_result [of ok "MediaPkt (set_seq (pc_next_seq c) f)" "c\<lparr>pc_next_seq := pc_next_seq c + 1\<rparr>" b c']
  by (simp add: client_send_frame_def)

lemma client_drain_sends: "sends_from (pc_next_seq c) c fs (client_drain ok fs c)"
proof (induction fs arbitrary: c)
  case Nil
  then show ?case by (simp add: sends_from_def)
next
  case (Cons f fs)
  obtain b c' where s: "client_send_frame ok f c = (b, c')" by fastforce
  note r = client_send_frame_result [OF s]
  show ?case
  proof (cases b)
    case True
    obtain n where "n \<le> length fs"
      "media_of (pc_sent (client_drain ok fs c')) = media_of (pc_sent c') @ numbered (pc_next_seq c') (take n fs)"
      using Cons [of c'] by (auto simp: sends_from_def)
    then show ?thesis using True s r by (auto simp: sends_from_def intro!: exI [of _ "Suc n"])
  next
    case False
    then show ?thesis using s r by (auto simp: sends_from_def intro!: exI [of _ 0])
  qed
qed

lemma client_bye_media [simp]: "media_of (pc_sent (client_bye ok c)) = media_of (pc_sent c)"
  by (cases "client_send ok (ControlPkt Bye) c")
    (auto simp: client_bye_def dest!: client_send_result)

lemma client_bye_running [simp]: "\<not> pc_running (client_bye ok c)"
  by (simp add: client_bye_def)

lemma client_lost_simps [simp]: "pc_sent (client_lost c) = pc_sent c" "\<not> pc_running (client_lost c)"
  by (simp_all add: client_lost_def)

lemma client_stopped: "\<not> pc_running c \<Longrightarrow> fold (client_step ok) evs c = c"
  by (induction evs) (simp_all add: client_step_def)

lemma client_other_event:
  assumes "pc_running c" "\<And>f. ev \<noteq> FrameReady f" "\<And>fs. ev \<noteq> StopRequested fs"
  shows "media_of (pc_sent (client_handle ok ev c)) = media_of (pc_sent c)
    \<and> (pc_running (client_handle ok ev c) \<longrightarrow> pc_next_seq (client_handle ok ev c) = pc_next_seq c)"
  using assms
  by (cases "(ok, ev, c)" rule: client_handle.cases) simp_all

lemma client_sends: "sends_from (pc_next_seq c) c (event_frames evs) (fold (client_step ok) evs c)"
proof (induction evs arbitrary: c)
  case Nil
  then show ?case by (simp add: sends_from_def)
next
  case (Cons ev evs)
  let ?c = "client_step ok ev c"
  show ?case
  proof (cases "pc_running c")
    case False
    then have "?c = c" by (simp add: client_step_def)
    then show ?thesis using False by (auto simp: client_stopped sends_from_def intro!: exI [of _ 0])
  next
    case True
    then have c: "?c = client_handle ok ev c" by (simp add: client_step_def)
    consider (f) f where "ev = FrameReady f" | (s) fs where "ev = StopRequested fs"
      | (o) "\<And>f. ev \<noteq> FrameReady f" "\<And>fs. ev \<noteq> StopRequested fs" by (cases ev) auto
    then show ?thesis
    proof cases
      case f
      obtain b c' where s: "client_send_frame ok f c = (b, c')" by fastforce
      note r = client_send_frame_result [OF s]
      show ?thesis
      proof (cases b)
        case True
        then have "?c = c'" by (subst c) (simp add: f s)
        moreover obtain n where "n \<le> length (event_frames evs)"
          "media_of (pc_sent (fold (client_step ok) evs c')) =
             media_of (pc_sent c') @ numbered (pc_next_seq c') (take n (event_frames evs))"
          using Cons [of c'] by (auto simp: sends_from_def)
        ultimately show ?thesis using r True f by (auto simp: sends_from_def intro!: exI [of _ "Suc n"])
      next
        case False
        then have "?c = client_lost c'" by (subst c) (simp add: f s)
        then show ?thesis using r False by (auto simp: sends_from_def client_stopped intro!: exI [of _ 0])
      qed
    next
      case s
      have d: "?c = client_bye ok (client_drain ok fs c)" by (subst c) (simp add: s)
      then show ?thesis using client_drain_sends [of c fs ok]
        by (simp add: s client_stopped sends_from_def)
    next
      case o
      note r = client_other_event [OF True o, of ok, folded c]
      have ev: "event_frames (ev # evs) = event_frames evs" using o by (cases ev) auto
      show ?thesis
      proof (cases "pc_running ?c")
        case True
        then show ?thesis using Cons [of ?c] r ev by (simp add: sends_from_def)
      next
        case False
        then show ?thesis using r by (auto simp: client_stopped sends_from_def intro!: exI [of _ 0])
      qed
    qed
  qed
qed

lemma client_start_simps:
  "pc_next_seq (client_start ok hello) = 0" "pc_sent (client_start ok hello) = (if ok 0 then [ControlPkt hello] else [])"
  "pc_running (client_start ok hello)" "pc_tries (client_start ok hello) = 1" "\<not> pc_welcomed (client_start ok hello)"
  "pc_connected (client_start ok hello)"
  by (simp_all add: client_start_def client_send_def Let_def)

text \<open>
  Whatever happens to the connection, the media packets a push client gets onto the wire are the first frames it
  was given, in order and without gaps, numbered from zero.
\<close>

lemma push_client_prefix:
  "\<exists>n. media_of (pc_sent (client_run ok hello evs)) = numbered 0 (take n (event_frames evs))"
  using client_sends [of "client_start ok hello" evs ok]
  by (auto simp: sends_from_def client_run_def client_start_simps)

lemma client_drain_all:
  "(\<And>k. ok k) \<Longrightarrow> pc_sent (client_drain ok fs c) = pc_sent c @ map MediaPkt (numbered (pc_next_seq c) fs)"
  by (induction fs arbitrary: c) (auto simp: client_send_frame_def client_send_def Let_def)

lemma client_frames_all:
  "(\<And>k. ok k) \<Longrightarrow> pc_running c \<Longrightarrow>
     pc_sent (fold (client_step ok) (map FrameReady fs) c) = pc_sent c @ map MediaPkt (numbered (pc_next_seq c) fs)
     \<and> pc_next_seq (fold (client_step ok) (map FrameReady fs) c) = pc_next_seq c + word_of_nat (length fs)
     \<and> pc_running (fold (client_step ok) (map FrameReady fs) c)"
  by (induction fs arbitrary: c) (auto simp: client_step_def client_send_frame_def client_send_def Let_def algebra_simps)

text \<open>On a session that takes every packet, stopping loses nothing.\<close>

lemma stop_flushes:
  assumes "\<And>k. ok k"
  shows "pc_sent (client_run ok hello (map FrameReady fs @ [StopRequested queued])) =
           ControlPkt hello # map MediaPkt (numbered 0 (fs @ queued)) @ [ControlPkt Bye]"
proof -
  let ?c = "fold (client_step ok) (map FrameReady fs) (client_start ok hello)"
  note f = client_frames_all [of ok "client_start ok hello" fs, OF assms client_start_simps(3)]
  have "pc_sent (client_step ok (StopRequested queued) ?c) =
      pc_sent (client_drain ok queued ?c) @ [ControlPkt Bye]"
    using f assms by (simp add: client_step_def client_bye_def client_send_def Let_def)
  then show ?thesis using f assms
    by (simp add: client_run_def client_drain_all client_start_simps numbered_append)
qed

text \<open>
  A relay that refuses the stream ends the loop, so waiting for the welcome ends too and connecting succeeds: the
  caller gets a client of a stream that was never registered.
\<close>

lemma refused_push_connects:
  assumes "url_parse url \<noteq> None"
  shows "\<exists>c. client_connect url True ok hello [FromRelay (ControlPkt (ErrorMsg r))] = Inr c
     \<and> \<not> pc_welcomed c \<and> \<not> is_connected c"
  using assms
  by (simp add: client_connect_def client_run_def client_step_def client_start_simps client_lost_def is_connected_def Let_def)

end
