(* ===== verification/Receiver.thy ===== *)
theory Receiver
  imports Push_Client File_Xfer
begin

text \<open>
  Watching a stream (\<open>stross-kernel/src/watch.rs\<close>, \<open>receiver.rs\<close>, \<open>kernel/receive.rs\<close>): the handshake with the relay
  and the detour over this host's own relay, the loop that hands frames to their interpreter and takes out what is
  ready, and the table of receiving links.  What a session yields is a list of results of its \<open>recv\<close>; times are
  arguments.
\<close>

section \<open>The handshake\<close>

datatype watch_error = InvalidUrl string | WatchConnect | SendWatch | Rejected relay_refusal | WatchClosed | WaitReady

text \<open>Waiting for the answer of the relay; the rest of the results stays with the session.\<close>

fun wait_ready :: "relay_msg session_recv list \<Rightarrow> (watch_error + relay_msg session_recv list) option" where
  "wait_ready [] = None"
| "wait_ready (RecvPacket (ControlPkt (Ready sid)) # rs) = Some (Inr rs)"
| "wait_ready (RecvPacket (ControlPkt (ErrorMsg r)) # rs) = Some (Inl (Rejected r))"
| "wait_ready (RecvPacket p # rs) = wait_ready rs"
| "wait_ready (RecvClosed # rs) = Some (Inl WatchClosed)"
| "wait_ready (RecvFailed # rs) = Some (Inl WaitReady)"

text \<open>What dialling an address gives: no session, or whether it takes the request, and its results.\<close>

type_synonym dialled = "(bool \<times> relay_msg session_recv list) option"

definition transport_for_url :: "string \<Rightarrow> transport_id" where
  "transport_for_url url =
     (case map_option ru_transport (url_parse url) of Some Srt \<Rightarrow> Srt | Some Quic \<Rightarrow> Quic | _ \<Rightarrow> Ws)"

fun transport_profile :: "transport_id \<Rightarrow> profile" where
  "transport_profile Srt = Adaptive"
| "transport_profile _ = Lossless"

definition connect_watch ::
  "(transport_id \<Rightarrow> string \<Rightarrow> dialled) \<Rightarrow> string \<Rightarrow> stream_id \<Rightarrow> (watch_error + relay_msg session_recv list) option" where
  "connect_watch dial relay_url sid =
     (case url_parse relay_url of
        None \<Rightarrow> Some (Inl (InvalidUrl relay_url))
      | Some url \<Rightarrow>
          (case Option.bind (watch_url sid url) (dial (transport_for_url relay_url)) of
             None \<Rightarrow> Some (Inl WatchConnect)
           | Some (takes, rs) \<Rightarrow>
               if \<not> is_ws url \<and> \<not> takes then Some (Inl SendWatch) else wait_ready rs))"

record local_proxy =
  lp_relay :: relay_state
  lp_ws_base :: string

datatype link_error = LinkDirect watch_error | LinkProxy watch_error relay_op_error | LinkAfterProxy watch_error watch_error

text \<open>The direct way first; then a proxy stream on this host's relay, watched locally.\<close>

definition connect_with_proxy ::
  "nat \<Rightarrow> (transport_id \<Rightarrow> string \<Rightarrow> dialled) \<Rightarrow> (transport_id \<Rightarrow> string \<Rightarrow> dialled) \<Rightarrow> string \<Rightarrow> stream_id \<Rightarrow> local_proxy option
     \<Rightarrow> ((link_error + relay_msg session_recv list) \<times> relay_state option) option" where
  "connect_with_proxy now dial dial_local relay_url sid proxy =
     (case connect_watch dial relay_url sid of
        None \<Rightarrow> None
      | Some (Inr rs) \<Rightarrow> Some (Inr rs, map_option lp_relay proxy)
      | Some (Inl direct) \<Rightarrow>
          (case proxy of
             None \<Rightarrow> Some (Inl (LinkDirect direct), None)
           | Some p \<Rightarrow>
               (case start_proxy now relay_url sid None (lp_relay p) of
                  (Inl e, rl) \<Rightarrow> Some (Inl (LinkProxy direct e), Some rl)
                | (Inr _, rl) \<Rightarrow>
                    map_option (\<lambda>r. (case r of Inr rs \<Rightarrow> Inr rs | Inl e \<Rightarrow> Inl (LinkAfterProxy direct e), Some rl))
                      (connect_watch dial_local (lp_ws_base p) sid))))"



section \<open>The loop\<close>

definition channel_kind_for_url :: "string \<Rightarrow> channel_kind" where
  "channel_kind_for_url url = (case transport_profile (transport_for_url url) of Adaptive \<Rightarrow> KindLossy | _ \<Rightarrow> KindLossless)"

definition interpreter_push :: "nat \<Rightarrow> frame \<Rightarrow> interpreter \<Rightarrow> interpreter option" where
  "interpreter_push now f i =
     (case i of
        IRealtime rp \<Rightarrow> map_option IRealtime (realtime_push now f rp)
      | IStrict so \<Rightarrow> Some (IStrict (strict_push f so)))"

definition interpreter_poll :: "nat \<Rightarrow> interpreter \<Rightarrow> (frame option \<times> interpreter) option" where
  "interpreter_poll now i =
     (case i of
        IRealtime rp \<Rightarrow> map_option (map_prod id IRealtime) (realtime_poll now rp)
      | IStrict so \<Rightarrow> Some (map_prod id IStrict (strict_poll so)))"

text \<open>Polling until nothing is ready; the \<open>k\<close>-th poll happens at \<open>now k\<close>.\<close>

partial_function (option) poll_all :: "(nat \<Rightarrow> nat) \<Rightarrow> nat \<Rightarrow> interpreter \<Rightarrow> (frame list \<times> interpreter) option" where
  "poll_all now k i =
     Option.bind (interpreter_poll (now k) i) (\<lambda>r.
       case fst r of
         None \<Rightarrow> Some ([], snd r)
       | Some f \<Rightarrow> Option.bind (poll_all now (Suc k) (snd r)) (\<lambda>s. Some (f # fst s, snd s)))"

declare poll_all.simps [simp del]

record receive_stats =
  rs_running :: bool
  rs_received :: nat
  rs_decoded_video :: nat
  rs_error :: "link_error option"

record receiver =
  rv_stopped :: bool
  rv_stats :: receive_stats
  rv_done :: bool
  rv_registry :: interpret_registry
  rv_consumed :: "frame list"

definition receiver_new :: receiver where
  "receiver_new = \<lparr>rv_stopped = False, rv_stats = \<lparr>rs_running = False, rs_received = 0, rs_decoded_video = 0, rs_error = None\<rparr>, rv_done = False,
                   rv_registry = Map.empty, rv_consumed = []\<rparr>"

definition set_running :: "bool \<Rightarrow> receiver \<Rightarrow> receiver" where
  "set_running b rv = rv\<lparr>rv_stats := (rv_stats rv)\<lparr>rs_running := b\<rparr>\<rparr>"

definition receiver_failed :: "link_error \<Rightarrow> receiver \<Rightarrow> receiver" where
  "receiver_failed e rv = rv\<lparr>rv_stats := (rv_stats rv)\<lparr>rs_error := Some e, rs_running := False\<rparr>, rv_done := True\<rparr>"

definition receiver_end :: "receiver \<Rightarrow> receiver" where
  "receiver_end rv = (set_running False rv)\<lparr>rv_done := True\<rparr>"

text \<open>The top of the loop looks at the flag.\<close>

definition loop_top :: "receiver \<Rightarrow> receiver" where
  "loop_top rv = (if rv_stopped rv then receiver_end rv else rv)"

definition receiver_start :: "receiver \<Rightarrow> receiver" where
  "receiver_start rv = loop_top (set_running True rv)"

text \<open>A request to stop, or a result of the session with the times of the push and of the polls.\<close>

datatype receive_event = StopReceiving | Received "relay_msg session_recv" nat "nat \<Rightarrow> nat"

definition receive_frame :: "stream_id \<Rightarrow> pick_rule \<Rightarrow> channel_kind \<Rightarrow> frame \<Rightarrow> nat \<Rightarrow> (nat \<Rightarrow> nat) \<Rightarrow> receiver \<Rightarrow> receiver option" where
  "receive_frame sid rule kind f t ts rv =
     (let (i, reg) = adapter sid rule kind (rv_registry rv)
      in Option.bind (interpreter_push t f i) (\<lambda>i1.
           map_option (\<lambda>(out, i2).
             rv\<lparr>rv_stats := (rv_stats rv)\<lparr>rs_received := rs_received (rv_stats rv) + 1\<rparr>,
                rv_registry := reg(sid \<mapsto> i2), rv_consumed := rv_consumed rv @ out\<rparr>) (poll_all ts 0 i1)))"

fun receive_event_step :: "stream_id \<Rightarrow> pick_rule \<Rightarrow> channel_kind \<Rightarrow> receive_event \<Rightarrow> receiver \<Rightarrow> receiver option" where
  "receive_event_step sid rule kind StopReceiving rv = Some (rv\<lparr>rv_stopped := True\<rparr>)"
| "receive_event_step sid rule kind (Received r t ts) rv =
     (if rv_done rv then Some rv
      else case r of
        RecvPacket (MediaPkt f) \<Rightarrow> map_option loop_top (receive_frame sid rule kind f t ts rv)
      | RecvPacket (ControlPkt m) \<Rightarrow> Some (loop_top rv)
      | RecvClosed \<Rightarrow> Some (receiver_end rv)
      | RecvFailed \<Rightarrow> Some (receiver_end rv))"

fun receive_run :: "stream_id \<Rightarrow> pick_rule \<Rightarrow> channel_kind \<Rightarrow> receive_event list \<Rightarrow> receiver \<Rightarrow> receiver option" where
  "receive_run sid rule kind [] rv = Some rv"
| "receive_run sid rule kind (e # es) rv = Option.bind (receive_event_step sid rule kind e rv) (receive_run sid rule kind es)"

text \<open>A whole reception; the outcome of connecting is given.\<close>

definition watch_consume :: "string \<Rightarrow> stream_id \<Rightarrow> pick_rule \<Rightarrow> (link_error + unit) \<Rightarrow> receive_event list \<Rightarrow> receiver option" where
  "watch_consume url sid rule conn evs =
     (case conn of
        Inl e \<Rightarrow> Some (receiver_failed e receiver_new)
      | Inr _ \<Rightarrow> receive_run sid rule (channel_kind_for_url url) evs (receiver_start receiver_new))"


section \<open>What the loop hands out\<close>

text \<open>The frames that reach the loop: those before the end, and one packet after a request to stop.\<close>

fun frames_in :: "bool \<Rightarrow> receive_event list \<Rightarrow> frame list" where
  "frames_in stopped [] = []"
| "frames_in stopped (StopReceiving # es) = frames_in True es"
| "frames_in stopped (Received (RecvPacket (MediaPkt f)) t ts # es) = f # (if stopped then [] else frames_in stopped es)"
| "frames_in stopped (Received (RecvPacket (ControlPkt m)) t ts # es) = (if stopped then [] else frames_in stopped es)"
| "frames_in stopped (Received RecvClosed t ts # es) = []"
| "frames_in stopped (Received RecvFailed t ts # es) = []"

text \<open>What one frame does to an interpreter, and what a sequence of frames makes it hand out.\<close>

definition turn :: "nat \<Rightarrow> (nat \<Rightarrow> nat) \<Rightarrow> frame \<Rightarrow> interpreter \<Rightarrow> (frame list \<times> interpreter) option" where
  "turn t ts f i = Option.bind (interpreter_push t f i) (poll_all ts 0)"

inductive feeds :: "interpreter \<Rightarrow> frame list \<Rightarrow> frame list \<Rightarrow> bool" where
  feeds_nil: "feeds i [] []"
| feeds_cons: "turn t ts f i = Some (out, i') \<Longrightarrow> feeds i' fs outs \<Longrightarrow> feeds i (f # fs) (out @ outs)"

inductive_cases feeds_consE: "feeds i (f # fs) outs"

lemma poll_all_none: "interpreter_poll (now k) i = Some (None, i') \<Longrightarrow> poll_all now k i = Some ([], i')"
  by (subst poll_all.simps) simp

lemma poll_all_some:
  "interpreter_poll (now k) i = Some (Some f, i') \<Longrightarrow> poll_all now (Suc k) i' = Some (fs, i'') \<Longrightarrow>
     poll_all now k i = Some (f # fs, i'')"
  by (subst poll_all.simps) simp

lemma realtime_lossless_turn:
  assumes "rp_pending rp = []" "sc_kind (rp_channel rp) = KindLossless" "sc_queue (rp_channel rp) = []"
  shows "turn t ts f (IRealtime rp) = Some ([f], IRealtime rp)"
proof -
  let ?c = "(rp_channel rp)\<lparr>sc_queue := [f]\<rparr>"
  have p: "interpreter_push t f (IRealtime rp) = Some (IRealtime (rp\<lparr>rp_channel := ?c\<rparr>))"
    using assms by (simp add: interpreter_push_def realtime_push_def sc_push_def)
  have q: "interpreter_poll (ts 0) (IRealtime (rp\<lparr>rp_channel := ?c\<rparr>)) = Some (Some f, IRealtime rp)"
    using assms by (simp add: interpreter_poll_def realtime_poll_def sc_poll_def)
  have r: "interpreter_poll (ts (Suc 0)) (IRealtime rp) = Some (None, IRealtime rp)"
    using assms by (simp add: interpreter_poll_def realtime_poll_def sc_poll_def)
  show ?thesis using p poll_all_some [of ts 0, OF q poll_all_none [of ts "Suc 0", OF r]] by (simp add: turn_def)
qed

lemma lossy_idle: "lossy_in_step sc \<Longrightarrow> sc_poll t sc = Some ([], sc)"
  using in_step_idle_poll by (auto simp: sc_poll_def lossy_in_step_def)

lemma realtime_lossy_turn:
  assumes pend: "rp_pending rp = []" and lossy: "lossy_in_step (rp_channel rp)"
  shows "\<exists>q c. turn t ts f (IRealtime rp) =
           Some ([set_seq q f], IRealtime (rp\<lparr>rp_channel := c\<rparr>)) \<and> lossy_in_step c"
proof -
  obtain q c where s: "sc_push_poll (f, t, ts 0) (rp_channel rp) = Some ([set_seq q f], c)" and c: "lossy_in_step c"
    using lossy_step [OF lossy] by blast
  obtain c1 where p: "sc_push f t (rp_channel rp) = Some c1" and o: "sc_poll (ts 0) c1 = Some ([set_seq q f], c)"
    using s by (auto simp: sc_push_poll_def bind_eq_Some_conv)
  have p': "interpreter_push t f (IRealtime rp) = Some (IRealtime (rp\<lparr>rp_channel := c1\<rparr>))"
    by (simp add: interpreter_push_def realtime_push_def p)
  have o': "interpreter_poll (ts 0) (IRealtime (rp\<lparr>rp_channel := c1\<rparr>)) = Some (Some (set_seq q f), IRealtime (rp\<lparr>rp_channel := c\<rparr>))"
    using pend by (simp add: interpreter_poll_def realtime_poll_def o)
  have r: "interpreter_poll (ts (Suc 0)) (IRealtime (rp\<lparr>rp_channel := c\<rparr>)) = Some (None, IRealtime (rp\<lparr>rp_channel := c\<rparr>))"
    using pend lossy_idle [OF c] by (simp add: interpreter_poll_def realtime_poll_def)
  show ?thesis using p' poll_all_some [of ts 0, OF o' poll_all_none [of ts "Suc 0", OF r]] c by (auto simp: turn_def)
qed

lemma strict_turn:
  assumes "strict_held so = []"
  shows "turn t ts f (IStrict so) =
           Some (if strict_accepts f so then [f] else [], IStrict (strict_push f so\<lparr>so_queue := []\<rparr>))"
proof -
  have e: "so_queue so = []" "so_pending so = []" using assms by (simp_all add: strict_held_def)
  let ?so = "strict_push f so"
  have r: "interpreter_poll (ts k) (IStrict (?so\<lparr>so_queue := []\<rparr>)) = Some (None, IStrict (?so\<lparr>so_queue := []\<rparr>))" for k
    using e by (simp add: interpreter_poll_def strict_poll_def strict_push_def Let_def split: option.split)
  show ?thesis
  proof (cases "strict_accepts f so")
    case True
    then have q: "interpreter_poll (ts 0) (IStrict ?so) = Some (Some f, IStrict (?so\<lparr>so_queue := []\<rparr>))"
      using e by (auto simp: interpreter_poll_def strict_poll_def strict_push_def strict_accepts_def Let_def split: option.splits)
    show ?thesis using True poll_all_some [of ts 0, OF q poll_all_none [of ts "Suc 0", OF r]] by (simp add: turn_def interpreter_push_def)
  next
    case False
    then have "?so\<lparr>so_queue := []\<rparr> = ?so"
      using e by (auto simp: strict_push_def strict_accepts_def Let_def split: option.splits)
    then show ?thesis using False poll_all_none [of ts 0, OF r] by (simp add: turn_def interpreter_push_def)
  qed
qed


text \<open>The interpreter that the next frame of the stream meets.\<close>

definition current :: "stream_id \<Rightarrow> pick_rule \<Rightarrow> channel_kind \<Rightarrow> receiver \<Rightarrow> interpreter" where
  "current sid rule kind rv = fst (adapter sid rule kind (rv_registry rv))"

lemma receive_frame_turn:
  assumes "turn t ts f (current sid rule kind rv) = Some (out, i')"
  shows "\<exists>rv'. receive_frame sid rule kind f t ts rv = Some rv' \<and> rv_consumed rv' = rv_consumed rv @ out
    \<and> current sid rule kind rv' = i' \<and> rs_received (rv_stats rv') = rs_received (rv_stats rv) + 1
    \<and> rv_stopped rv' = rv_stopped rv \<and> rv_done rv' = rv_done rv"
proof -
  obtain i reg where a: "adapter sid rule kind (rv_registry rv) = (i, reg)" by fastforce
  then obtain i1 where "interpreter_push t f i = Some i1" "poll_all ts 0 i1 = Some (out, i')"
    using assms by (auto simp: current_def turn_def bind_eq_Some_conv)
  moreover have "fst (adapter sid rule kind (g(sid \<mapsto> i'))) = i'" for g by (simp add: adapter_def)
  ultimately show ?thesis by (simp add: receive_frame_def a current_def)
qed

lemma loop_top_simps [simp]:
  "rv_consumed (loop_top rv) = rv_consumed rv" "current sid rule kind (loop_top rv) = current sid rule kind rv"
  "rs_received (rv_stats (loop_top rv)) = rs_received (rv_stats rv)" "rv_stopped (loop_top rv) = rv_stopped rv"
  "rv_done (loop_top rv) \<longleftrightarrow> rv_stopped rv \<or> rv_done rv"
  by (simp_all add: loop_top_def receiver_end_def set_running_def current_def)

lemma receiver_end_simps [simp]:
  "rv_consumed (receiver_end rv) = rv_consumed rv" "rs_received (rv_stats (receiver_end rv)) = rs_received (rv_stats rv)"
  "rv_done (receiver_end rv)"
  by (simp_all add: receiver_end_def set_running_def)

lemma run_done:
  "rv_done rv \<Longrightarrow> \<exists>rv'. receive_run sid rule kind evs rv = Some rv' \<and> rv_consumed rv' = rv_consumed rv
     \<and> rs_received (rv_stats rv') = rs_received (rv_stats rv)"
proof (induction evs arbitrary: rv)
  case (Cons e evs)
  show ?case
  proof (cases e)
    case StopReceiving
    then show ?thesis using Cons.IH [of "rv\<lparr>rv_stopped := True\<rparr>"] Cons.prems by simp
  next
    case (Received r t ts)
    then show ?thesis using Cons by simp
  qed
qed simp

lemma run_feeds:
  assumes total: "\<And>i f t ts. I i \<Longrightarrow> \<exists>out i'. turn t ts f i = Some (out, i') \<and> I i'"
  shows "I (current sid rule kind rv) \<Longrightarrow> \<not> rv_done rv \<Longrightarrow>
    \<exists>rv' out. receive_run sid rule kind evs rv = Some rv' \<and> rv_consumed rv' = rv_consumed rv @ out
      \<and> feeds (current sid rule kind rv) (frames_in (rv_stopped rv) evs) out
      \<and> rs_received (rv_stats rv') = rs_received (rv_stats rv) + length (frames_in (rv_stopped rv) evs)"
proof (induction evs arbitrary: rv)
  case Nil
  then show ?case by (auto intro: feeds_nil)
next
  case (Cons e evs)
  show ?case
  proof (cases e)
    case StopReceiving
    have "current sid rule kind (rv\<lparr>rv_stopped := True\<rparr>) = current sid rule kind rv" by (simp add: current_def)
    then show ?thesis using Cons.IH [of "rv\<lparr>rv_stopped := True\<rparr>"] Cons.prems StopReceiving by simp
  next
    case (Received r t ts)
    show ?thesis
    proof (cases r)
      case (RecvPacket p)
      show ?thesis
      proof (cases p)
        case (ControlPkt m)
        show ?thesis
        proof (cases "rv_stopped rv")
          case True
          then show ?thesis using run_done [of "loop_top rv" sid rule kind evs] Cons.prems
            by (auto simp: Received RecvPacket ControlPkt intro: feeds_nil)
        next
          case False
          then show ?thesis using Cons.IH [of "loop_top rv"] Cons.prems by (simp add: Received RecvPacket ControlPkt)
        qed
      next
        case (MediaPkt f)
        obtain out i' where t: "turn t ts f (current sid rule kind rv) = Some (out, i')" "I i'"
          using total [OF Cons.prems(1), of t ts f] by blast
        obtain rv1 where rv1: "receive_frame sid rule kind f t ts rv = Some rv1" "rv_consumed rv1 = rv_consumed rv @ out"
          "current sid rule kind rv1 = i'" "rs_received (rv_stats rv1) = rs_received (rv_stats rv) + 1"
          "rv_stopped rv1 = rv_stopped rv" "rv_done rv1 = rv_done rv"
          using receive_frame_turn [OF t(1)] by blast
        show ?thesis
        proof (cases "rv_stopped rv")
          case True
          have "feeds (current sid rule kind rv) [f] (out @ [])" using t(1) by (rule feeds_cons) (rule feeds_nil)
          then show ?thesis using True run_done [of "loop_top rv1" sid rule kind evs] Cons.prems rv1
            by (auto simp: Received RecvPacket MediaPkt)
        next
          case False
          then obtain rv' out' where r: "receive_run sid rule kind evs (loop_top rv1) = Some rv'"
            "rv_consumed rv' = rv_consumed rv1 @ out'" "feeds i' (frames_in False evs) out'"
            "rs_received (rv_stats rv') = rs_received (rv_stats rv1) + length (frames_in False evs)"
            using Cons.IH [of "loop_top rv1"] Cons.prems rv1 t(2) by auto
          then show ?thesis using False Cons.prems rv1 feeds_cons [OF t(1) r(3)]
            by (auto simp: Received RecvPacket MediaPkt)
        qed
      qed
    next
      case RecvClosed
      then show ?thesis using run_done [of "receiver_end rv" sid rule kind evs] Cons.prems
        by (auto simp: Received intro: feeds_nil)
    next
      case RecvFailed
      then show ?thesis using run_done [of "receiver_end rv" sid rule kind evs] Cons.prems
        by (auto simp: Received intro: feeds_nil)
    qed
  qed
qed


section \<open>The three ways of interpreting\<close>

text \<open>An interpreter between two packets holds nothing.\<close>

definition idle_lossless :: "interpreter \<Rightarrow> bool" where
  "idle_lossless i \<longleftrightarrow> (\<exists>rp. i = IRealtime rp \<and> rp_pending rp = [] \<and> sc_kind (rp_channel rp) = KindLossless \<and> sc_queue (rp_channel rp) = [])"

definition idle_lossy :: "interpreter \<Rightarrow> bool" where
  "idle_lossy i \<longleftrightarrow> (\<exists>rp. i = IRealtime rp \<and> rp_pending rp = [] \<and> lossy_in_step (rp_channel rp))"

definition idle_strict :: "interpreter \<Rightarrow> bool" where
  "idle_strict i \<longleftrightarrow> (\<exists>so. i = IStrict so \<and> strict_held so = [])"

lemma idle_lossless_turn: "idle_lossless i \<Longrightarrow> turn t ts f i = Some ([f], i)"
  using realtime_lossless_turn by (auto simp: idle_lossless_def)

lemma idle_lossy_turn: "idle_lossy i \<Longrightarrow> \<exists>q i'. turn t ts f i = Some ([set_seq q f], i') \<and> idle_lossy i'"
  unfolding idle_lossy_def using realtime_lossy_turn by fastforce

lemma idle_strict_turn:
  "strict_held so = [] \<Longrightarrow>
     turn t ts f (IStrict so) = Some (if strict_accepts f so then [f] else [], IStrict (strict_push f so\<lparr>so_queue := []\<rparr>))
     \<and> strict_held (strict_push f so\<lparr>so_queue := []\<rparr>) = []"
  using strict_turn [of so t ts f]
  by (auto simp: strict_held_def strict_push_def Let_def split: option.split)

lemma feeds_lossless: "feeds i fs outs \<Longrightarrow> idle_lossless i \<Longrightarrow> outs = fs"
  by (induction rule: feeds.induct) (auto simp: idle_lossless_turn)

lemma set_seq_twice [simp]: "set_seq p (set_seq q f) = set_seq p f"
  by (simp add: set_seq_def)

lemma feeds_lossy: "feeds i fs outs \<Longrightarrow> idle_lossy i \<Longrightarrow> map (set_seq 0) outs = map (set_seq 0) fs"
proof (induction rule: feeds.induct)
  case (feeds_cons t ts f i out i' fs outs)
  then show ?case using idle_lossy_turn [of i t ts f] by auto
qed simp

text \<open>What the strictly ordered interpreter lets through, from the number it expects.\<close>

fun strict_filter :: "u32 option \<Rightarrow> frame list \<Rightarrow> frame list" where
  "strict_filter q [] = []"
| "strict_filter None (f # fs) = f # strict_filter (if fseq f \<noteq> 0 then Some (fseq f + 1) else None) fs"
| "strict_filter (Some q) (f # fs) =
     (if fseq f = q then f # strict_filter (Some (q + 1)) fs else strict_filter (Some q) fs)"

lemma feeds_strict: "feeds i fs outs \<Longrightarrow> i = IStrict so \<Longrightarrow> strict_held so = [] \<Longrightarrow> outs = strict_filter (so_next_seq so) fs"
proof (induction arbitrary: so rule: feeds.induct)
  case (feeds_cons t ts f i out i' fs outs)
  let ?so = "strict_push f so\<lparr>so_queue := []\<rparr>"
  have t: "out = (if strict_accepts f so then [f] else [])" "i' = IStrict ?so" "strict_held ?so = []"
    using feeds_cons(1,4,5) idle_strict_turn [of so t ts f] by auto
  have "outs = strict_filter (so_next_seq ?so) fs" using feeds_cons.IH t by blast
  then show ?case
    by (cases "so_next_seq so") (auto simp: t(1) strict_accepts_def strict_push_def Let_def)
qed simp

lemma strict_filter_numbered: "strict_filter (Some q) (numbered q fs) = numbered q fs"
  by (induction fs arbitrary: q) auto

lemma strict_filter_from_zero: "strict_filter None (numbered 0 fs) = numbered 0 fs"
proof (cases fs)
  case (Cons f gs)
  then show ?thesis by (cases gs) (auto simp: strict_filter_numbered)
qed simp

text \<open>The interpreter a fresh registry makes.\<close>

definition rule_idle :: "pick_rule \<Rightarrow> channel_kind \<Rightarrow> interpreter \<Rightarrow> bool" where
  "rule_idle rule kind i \<longleftrightarrow>
     (if rule = StrictOrdered then idle_strict i else if kind = KindLossy then idle_lossy i else idle_lossless i)"

lemma rule_idle_new: "rule_idle rule kind (interpreter_new rule kind)"
  using lossy_in_step_new
  by (cases rule; cases kind)
     (auto simp: rule_idle_def interpreter_new_def idle_strict_def idle_lossy_def idle_lossless_def strict_held_def
        strict_new_def realtime_new_def stream_channel_new_def)

lemma rule_idle_turn: "rule_idle rule kind i \<Longrightarrow> \<exists>out i'. turn t ts f i = Some (out, i') \<and> rule_idle rule kind i'"
  unfolding rule_idle_def
  using idle_lossless_turn [of i t ts f] idle_lossy_turn [of i t ts f] idle_strict_turn [of _ t ts f]
  by (auto simp: idle_strict_def split: if_splits)

text \<open>What a player is handed, by the rule and the transport.\<close>

definition handed_out :: "pick_rule \<Rightarrow> channel_kind \<Rightarrow> frame list \<Rightarrow> frame list \<Rightarrow> bool" where
  "handed_out rule kind fs outs \<longleftrightarrow>
     (if rule = StrictOrdered then outs = strict_filter None fs
      else if kind = KindLossy then map (set_seq 0) outs = map (set_seq 0) fs
      else outs = fs)"

lemma feeds_handed_out: "feeds (interpreter_new rule kind) fs outs \<Longrightarrow> handed_out rule kind fs outs"
  using feeds_strict [of "interpreter_new rule kind" fs outs strict_new] feeds_lossy [of "interpreter_new rule kind" fs outs]
    feeds_lossless [of "interpreter_new rule kind" fs outs] rule_idle_new [of rule kind]
  by (auto simp: handed_out_def rule_idle_def interpreter_new_def strict_new_def strict_held_def split: if_splits)

lemma watch_consume_hands_out:
  "\<exists>rv. watch_consume url sid rule (Inr ()) evs = Some rv
     \<and> handed_out rule (channel_kind_for_url url) (frames_in False evs) (rv_consumed rv)
     \<and> rs_received (rv_stats rv) = length (frames_in False evs)"
proof -
  let ?kind = "channel_kind_for_url url" and ?rv = "receiver_start receiver_new"
  have c: "current sid rule ?kind ?rv = interpreter_new rule ?kind" "\<not> rv_done ?rv" "\<not> rv_stopped ?rv" "rv_consumed ?rv = []"
      "rs_received (rv_stats ?rv) = 0"
    by (simp_all add: current_def adapter_def receiver_start_def receiver_new_def set_running_def loop_top_def Let_def)
  have "rule_idle rule ?kind (current sid rule ?kind ?rv)" by (simp add: c(1) rule_idle_new)
  then obtain rv where
    "receive_run sid rule ?kind evs ?rv = Some rv"
    "feeds (interpreter_new rule ?kind) (frames_in False evs) (rv_consumed rv)"
    "rs_received (rv_stats rv) = length (frames_in False evs)"
    using run_feeds [where I = "rule_idle rule ?kind" and evs = evs and sid = sid and rule = rule and kind = ?kind and rv = ?rv,
        OF rule_idle_turn _ c(2)] c by auto
  then show ?thesis using feeds_handed_out by (auto simp: watch_consume_def)
qed



section \<open>From the pushing client to the player\<close>

lemma numbered_contents: "map (set_seq 0) (numbered q fs) = map (set_seq 0) fs"
  by (induction fs arbitrary: q) simp_all


definition two_samples :: "frame list" where
  "two_samples = [sample_small 7, sample_small 9]"


text \<open>
  The strict rule assumes that nothing is missing.  A viewer that joins late gets the last key frame and then the
  current frames; the gap between them makes it drop every later frame for good.
\<close>

lemma strict_stalls_at_gap:
  assumes "fseq key \<noteq> 0" "\<forall>f \<in> set fs. fseq f \<noteq> fseq key + 1"
  shows "strict_filter None (key # fs) = [key]"
proof -
  have "strict_filter (Some q) fs = []" if "\<forall>f \<in> set fs. fseq f \<noteq> q" for q
    using that by (induction fs) auto
  then show ?thesis using assms by simp
qed

text \<open>
  When the direct way fails for a second viewer of the same stream, the proxy of the first one is in its way: it is
  refused instead of watching the local stream that is there.
\<close>

lemma second_viewer_refused:
  assumes "connect_watch dial url sid = Some (Inl direct)" "has_key (rl_proxies (lp_relay p)) sid"
  shows "connect_with_proxy now dial dial_local url sid (Some p) = Some (Inl (LinkProxy direct (ProxyExists sid)), Some (lp_relay p))"
  using assms by (simp add: connect_with_proxy_def start_proxy_def)

text \<open>A proxy stays registered when watching it fails.\<close>

lemma failed_proxy_stays:
  assumes "connect_watch dial url sid = Some (Inl direct)"
    and "connect_watch dial_local (lp_ws_base p) sid = Some (Inl e)"
    and "\<not> has_key (rl_proxies (lp_relay p)) sid" "relay_get sid (lp_relay p) = None"
  shows "\<exists>rl. connect_with_proxy now dial dial_local url sid (Some p) = Some (Inl (LinkAfterProxy direct e), Some rl)
     \<and> has_key (rl_proxies rl) sid"
  using assms by (simp add: connect_with_proxy_def start_proxy_def Let_def relay_emit_def relay_insert_def shard_put_def has_key_def update_conv')

end
