(* ===== verification/Subscriber.thy ===== *)
theory Subscriber
  imports Subscriptions Receiver
begin

text \<open>
  The subscribing side (\<open>stross-kernel/src/subscriber.rs\<close>): the request for a grant, the specification built from
  registry and grant, the subscriptions to media and to files with their retries, and how they fit what the other
  host's access counter answers.  The directory and the answer of the other host are arguments.
\<close>

section \<open>The handshake\<close>

record subscribe_spec =
  sb_node_id :: node_id
  sb_endpoint :: endpoint_id
  sb_strategy_id :: "strategy_id option"
  sb_strategy :: endpoint_strategy
  sb_delivery :: delivery
  sb_stream_id :: stream_id
  sb_relay_url :: "string option"

datatype subscribe_error = NoIdentity | HandshakeFailed reply | NoRelayGranted | PushGranted

definition DEFAULT_NODE_NAME :: string where
  "DEFAULT_NODE_NAME = ''Stross ''
     @ map (char_of :: nat \<Rightarrow> char) [0xE8, 0xAE, 0xBE, 0xE5, 0xA4, 0x87]"

text \<open>\<open>load\<close> is the identity on disk, made from the default name when there is none.\<close>

definition ensure_identity :: "(string \<Rightarrow> node_id \<times> string) \<Rightarrow> string \<Rightarrow> kernel \<Rightarrow> kernel" where
  "ensure_identity load host_name k =
     (if kn_identity k \<noteq> None then k else set_identity (fst (load host_name)) (snd (load host_name)) k)"

definition endpoint_request :: "node_id \<times> string \<Rightarrow> endpoint_id \<Rightarrow> strategy_id option \<Rightarrow> share_request" where
  "endpoint_request identity i sid =
     \<lparr> rq_node_id = fst identity, rq_node_name = snd identity, rq_endpoint_id = Some (ep_id i),
       rq_endpoint_kind = Some (ep_kind i), rq_strategy_id = sid, rq_delivery_mode = Some Pull,
       rq_relay_addr = None, rq_share_token = None, rq_media = [] \<rparr>"

definition request_endpoint_grant ::
  "(string \<Rightarrow> node_id \<times> string) \<Rightarrow> string \<Rightarrow> u16 \<Rightarrow> endpoint_dir option \<Rightarrow> (share_request \<Rightarrow> reply + share_grant)
     \<Rightarrow> endpoint_id \<Rightarrow> strategy_id option \<Rightarrow> kernel \<Rightarrow> (subscribe_error + share_grant \<times> node_id) \<times> kernel" where
  "request_endpoint_grant load host port dir answer i sid k =
     (let (node, k1) = (case dir of
              Some d \<Rightarrow> (en_node_id (ed_node d),
                k\<lparr> kn_registry := register_remote_directory d (host @ '':'' @ show_word port) (kn_registry k) \<rparr>)
            | None \<Rightarrow> (NIL, k));
          k2 = ensure_identity load DEFAULT_NODE_NAME k1
      in case kn_identity k2 of
           None \<Rightarrow> (Inl NoIdentity, k2)
         | Some identity \<Rightarrow>
             (map_sum HandshakeFailed (\<lambda>g. (g, node)) (answer (endpoint_request identity i sid)), k2))"

definition granted_base :: "string \<Rightarrow> relay_addr \<Rightarrow> string" where
  "granted_base host r = ''ws://'' @ host @ '':'' @ show_word (ra_ws_port r)"

text \<open>The strategy: the registry's, else the granted one, else the default of the granted rule.\<close>

definition spec_strategy :: "node_id \<Rightarrow> endpoint_id \<Rightarrow> strategy_id option \<Rightarrow> share_grant \<Rightarrow> kernel \<Rightarrow> endpoint_strategy" where
  "spec_strategy node i sid g k =
     (case resolve_strategy node i (map_option strategy_as_str sid) (kn_registry k) of
        Some s \<Rightarrow> s
      | None \<Rightarrow>
          (case gr_strategy g of
             Some s \<Rightarrow> s
           | None \<Rightarrow> strategy_passthrough (case gr_pick_rule g of Some r \<Rightarrow> r | None \<Rightarrow> Realtime)))"

text \<open>The comparison of the granted stream id with the derived one only writes a log line.\<close>

definition id_agrees :: "endpoint_id \<Rightarrow> share_grant \<Rightarrow> bool option" where
  "id_agrees i g =
     (case (gr_transport_profile g, gr_pick_rule g) of
        (Some profile, Some pick) \<Rightarrow> Some (derive_stream_id i profile pick = tv_stream_id (gr_view g))
      | _ \<Rightarrow> None)"

definition granted_delivery :: "share_grant \<Rightarrow> delivery" where
  "granted_delivery g = (case gr_delivery g of Some d \<Rightarrow> d | None \<Rightarrow> Pull)"

definition build_subscribe_spec ::
  "string \<Rightarrow> endpoint_id \<Rightarrow> strategy_id option \<Rightarrow> share_grant \<Rightarrow> node_id \<Rightarrow> kernel \<Rightarrow> subscribe_spec" where
  "build_subscribe_spec host i sid g node k =
     \<lparr> sb_node_id = node, sb_endpoint = i, sb_strategy_id = sid, sb_strategy = spec_strategy node i sid g k,
       sb_delivery = granted_delivery g, sb_stream_id = tv_stream_id (gr_view g),
       sb_relay_url = map_option (granted_base host) (gr_relay g) \<rparr>"


section \<open>Subscribing\<close>

record media_outcome =
  mo_delivery :: delivery
  mo_relay_url :: string
  mo_stream_id :: stream_id
  mo_host :: string
  mo_port :: u16

text \<open>Where to watch.\<close>

definition watch_entry :: "string \<Rightarrow> share_grant \<Rightarrow> subscribe_error + string" where
  "watch_entry host g =
     (case granted_delivery g of
        Push \<Rightarrow> Inl PushGranted
      | _ \<Rightarrow> (case gr_relay g of None \<Rightarrow> Inl NoRelayGranted | Some r \<Rightarrow> Inr (granted_base host r)))"

definition subscribe_media ::
  "(string \<Rightarrow> node_id \<times> string) \<Rightarrow> string \<Rightarrow> u16 \<Rightarrow> endpoint_dir option \<Rightarrow> (share_request \<Rightarrow> reply + share_grant)
     \<Rightarrow> endpoint_id \<Rightarrow> kernel \<Rightarrow> (subscribe_error + media_outcome \<times> subscribe_spec) \<times> kernel" where
  "subscribe_media load host port dir answer i k =
     (case request_endpoint_grant load host port dir answer i None k of
        (Inl e, k1) \<Rightarrow> (Inl e, k1)
      | (Inr (g, node), k1) \<Rightarrow>
          let spec = build_subscribe_spec host i None g node k1 in
          (map_sum id (\<lambda>url. (\<lparr> mo_delivery = granted_delivery g, mo_relay_url = url,
               mo_stream_id = tv_stream_id (gr_view g), mo_host = host, mo_port = port \<rparr>, spec)) (watch_entry host g), k1))"

text \<open>
  Trying again while the stream is missing.  An attempt comes back at its time; without attempts left the result is
  still open.
\<close>

definition STREAM_APPEAR_WINDOW :: nat where
  "STREAM_APPEAR_WINDOW = 9000"

definition RETRY_INTERVAL :: nat where
  "RETRY_INTERVAL = 100"

fun retry :: "('x \<Rightarrow> 's \<Rightarrow> ('e + 'a) option \<times> 's) \<Rightarrow> ('e \<Rightarrow> bool) \<Rightarrow> nat \<Rightarrow> (nat \<times> 'x) list \<Rightarrow> 's \<Rightarrow> ('e + 'a) option \<times> 's" where
  "retry attempt missing deadline [] s = (None, s)"
| "retry attempt missing deadline ((t, x) # rest) s =
     (case attempt x s of
        (Some (Inl e), s') \<Rightarrow>
          if missing e \<and> t < deadline then retry attempt missing deadline rest s' else (Some (Inl e), s')
      | r \<Rightarrow> r)"

definition stream_missing :: "watch_error \<Rightarrow> bool" where
  "stream_missing e = (case e of Rejected (NoSuchStream sid) \<Rightarrow> True | _ \<Rightarrow> False)"

type_synonym dialler = "transport_id \<Rightarrow> string \<Rightarrow> dialled"

text \<open>Watching what \<open>subscribe_media\<close> returned, from the time \<open>now\<close> on.\<close>

definition watch_retry ::
  "nat \<Rightarrow> string \<Rightarrow> stream_id \<Rightarrow> (nat \<times> dialler) list \<Rightarrow> (watch_error + relay_msg session_recv list) option" where
  "watch_retry now url sid attempts =
     fst (retry (\<lambda>dial _. (connect_watch dial url sid, ())) stream_missing (now + STREAM_APPEAR_WINDOW) attempts ())"

definition receive_file ::
  "dialler \<times> rx_io \<times> string \<Rightarrow> (bytes \<Rightarrow> file_meta option) \<Rightarrow> string \<Rightarrow> stream_id \<Rightarrow> files
     \<Rightarrow> ((watch_error + xfer_error) + received_file) option \<times> files" where
  "receive_file env parse url sid fs =
     (case env of (dial, io, tmp_name) \<Rightarrow>
        (case connect_watch dial url sid of
           None \<Rightarrow> (None, fs)
         | Some (Inl e) \<Rightarrow> (Some (Inl (Inl e)), fs)
         | Some (Inr rs) \<Rightarrow> map_prod (map_option (map_sum Inr id)) id (receive_file_session io tmp_name parse rs fs)))"

definition file_missing :: "watch_error + xfer_error \<Rightarrow> bool" where
  "file_missing e = (case e of Inl w \<Rightarrow> stream_missing w | Inr _ \<Rightarrow> False)"

definition receive_file_retry ::
  "nat \<Rightarrow> (bytes \<Rightarrow> file_meta option) \<Rightarrow> string \<Rightarrow> stream_id \<Rightarrow> (nat \<times> dialler \<times> rx_io \<times> string) list \<Rightarrow> files
     \<Rightarrow> ((watch_error + xfer_error) + received_file) option \<times> files" where
  "receive_file_retry now parse url sid attempts fs =
     retry (\<lambda>env. receive_file env parse url sid) file_missing (now + STREAM_APPEAR_WINDOW) attempts fs"

datatype file_sub_error = NotSubscribed subscribe_error | NotReceived "watch_error + xfer_error"

record subscribe_outcome =
  so_delivery :: delivery
  so_stream_id :: stream_id
  so_received :: received_file

definition subscribe_file ::
  "(string \<Rightarrow> node_id \<times> string) \<Rightarrow> string \<Rightarrow> u16 \<Rightarrow> endpoint_dir option \<Rightarrow> (share_request \<Rightarrow> reply + share_grant)
     \<Rightarrow> endpoint_id \<Rightarrow> nat \<Rightarrow> (bytes \<Rightarrow> file_meta option) \<Rightarrow> (nat \<times> dialler \<times> rx_io \<times> string) list \<Rightarrow> files \<Rightarrow> kernel
     \<Rightarrow> (file_sub_error + subscribe_outcome) option \<times> files \<times> kernel" where
  "subscribe_file load host port dir answer i now parse attempts fs k =
     (case request_endpoint_grant load host port dir answer i None k of
        (Inl e, k1) \<Rightarrow> (Some (Inl (NotSubscribed e)), fs, k1)
      | (Inr (g, node), k1) \<Rightarrow>
          (case watch_entry host g of
             Inl e \<Rightarrow> (Some (Inl (NotSubscribed e)), fs, k1)
           | Inr url \<Rightarrow>
               (let spec = build_subscribe_spec host i None g node k1;
                    (r, fs') = receive_file_retry now parse url (sb_stream_id spec) attempts fs
                in (map_option (map_sum NotReceived (\<lambda>f. \<lparr> so_delivery = granted_delivery g,
                      so_stream_id = sb_stream_id spec, so_received = f \<rparr>)) r, fs', k1))))"


section \<open>Retrying ends\<close>

text \<open>The pauses between attempts: each comes back at least a pause after the one before.\<close>

fun spaced :: "nat \<Rightarrow> nat \<Rightarrow> nat list \<Rightarrow> bool" where
  "spaced d t [] = True"
| "spaced d t (x # xs) \<longleftrightarrow> t \<le> x \<and> spaced d (x + d) xs"

lemma retry_ends_base:
  assumes settled: "\<And>x s. x \<in> snd ` set as \<Longrightarrow> fst (attempt x s) \<noteq> None"
  shows "spaced d t (map fst as) \<Longrightarrow> as \<noteq> [] \<Longrightarrow> deadline + d \<le> t + d * length as \<Longrightarrow>
    fst (retry attempt missing deadline as s) \<noteq> None"
  using settled
proof (induction as arbitrary: t s)
  case (Cons a as)
  obtain x y where a: "a = (x, y)" by (cases a)
  obtain r s' where r: "attempt y s = (Some r, s')"
    using Cons.prems(4) [of y s] by (cases "attempt y s") (auto simp: a)
  show ?case
  proof (cases r)
    case (Inl e)
    show ?thesis
    proof (cases "missing e \<and> x < deadline")
      case True
      have "t \<le> x" using Cons.prems(1) by (simp add: a)
      then have ne: "as \<noteq> []" using True Cons.prems(3) by auto
      have "fst (retry attempt missing deadline as s') \<noteq> None"
      proof (rule Cons.IH [where t = "x + d"])
        show "deadline + d \<le> x + d + d * length as" using Cons.prems(3) \<open>t \<le> x\<close> by simp
      qed (use Cons.prems ne in \<open>auto simp: a\<close>)
      then show ?thesis by (simp add: a r Inl True)
    next
      case False
      then show ?thesis by (auto simp: a r Inl)
    qed
  next
    case (Inr v)
    then show ?thesis by (simp add: a r)
  qed
qed simp

text \<open>Ninety-one attempts always settle the matter.\<close>

lemma watch_retry_ends:
  assumes "spaced RETRY_INTERVAL now (map fst attempts)" and "length attempts \<ge> 91"
    and "\<forall>(t, dial) \<in> set attempts. connect_watch dial url sid \<noteq> None"
  shows "watch_retry now url sid attempts \<noteq> None"
  unfolding watch_retry_def
  by (rule retry_ends_base [where t = now and d = RETRY_INTERVAL])
    (use assms in \<open>auto simp: RETRY_INTERVAL_def STREAM_APPEAR_WINDOW_def\<close>)

text \<open>
  Whatever the attempts were, the files are those after a single reception, or the old ones: an attempt that is
  repeated has not touched them.
\<close>

lemma receive_file_keeps:
  "receive_file env parse url sid fs = (Some (Inl e), fs') \<Longrightarrow> file_missing e \<Longrightarrow> fs' = fs"
proof -
  assume f: "receive_file env parse url sid fs = (Some (Inl e), fs')" "file_missing e"
  obtain dial io tmp_name where env: "env = (dial, io, tmp_name)" by (cases env)
  have "map_option (map_sum Inr id) r \<noteq> Some (Inl (Inl w))" for r :: "(xfer_error + received_file) option" and w :: watch_error
    by (cases r rule: option.exhaust) (auto simp: map_sum_def split: sum.splits)
  then show ?thesis using f
    by (cases e; cases "receive_file_session io tmp_name parse (projr (the (connect_watch dial url sid))) fs")
      (auto simp: receive_file_def file_missing_def env split: option.splits sum.splits)
qed

lemma receive_file_once:
  "receive_file_retry now parse url sid attempts fs = (r, fs') \<Longrightarrow>
     r = None \<and> fs' = fs \<or> (\<exists>(t, env) \<in> set attempts. receive_file env parse url sid fs = (r, fs'))"
  unfolding receive_file_retry_def
proof (induction attempts)
  case (Cons a as)
  obtain t env where a: "a = (t, env)" by (cases a)
  obtain r1 fs1 where r1: "receive_file env parse url sid fs = (r1, fs1)" by fastforce
  show ?case
  proof (cases "\<exists>e. r1 = Some (Inl e) \<and> file_missing e \<and> t < now + STREAM_APPEAR_WINDOW")
    case True
    then have "fs1 = fs" using receive_file_keeps [of env parse url sid fs] r1 by auto
    then show ?thesis using True Cons by (auto simp: a r1)
  next
    case False
    then have "(r, fs') = (r1, fs1)" using Cons.prems
      by (auto simp: a r1 split: option.splits sum.splits if_splits)
    then show ?thesis using r1 by (auto simp: a)
  qed
qed simp


section \<open>The registry of a running host\<close>

text \<open>A host's registry moves by its own operations, and its node is the identity that was set.\<close>

definition keeps_node :: "registry_event \<Rightarrow> bool" where
  "keeps_node ev = (case ev of RSetSelf _ _ \<Rightarrow> False | _ \<Rightarrow> True)"

definition registry_moves :: "unified_registry \<Rightarrow> unified_registry \<Rightarrow> bool" where
  "registry_moves ur ur' \<longleftrightarrow> (\<exists>revs. list_all keeps_node revs \<and> ur' = fold registry_step revs ur)"

lemma moves_refl [simp]: "registry_moves ur ur"
  unfolding registry_moves_def by (rule exI [of _ "[]"]) simp

lemma moves_step: "keeps_node ev \<Longrightarrow> registry_moves ur (registry_step ev ur)"
  unfolding registry_moves_def by (rule exI [of _ "[ev]"]) simp

lemma moves_trans: "registry_moves a b \<Longrightarrow> registry_moves b c \<Longrightarrow> registry_moves a c"
  unfolding registry_moves_def by (metis fold_append comp_apply list_all_append)

lemma add_self_ref_node [simp]: "ur_self_node (add_self_ref i ur) = ur_self_node ur"
  by (simp add: add_self_ref_def ensure_self_entry_def Let_def split: option.split)

lemma step_node: "keeps_node ev \<Longrightarrow> ur_self_node (registry_step ev ur) = ur_self_node ur"
  by (cases ev) (auto simp: keeps_node_def unified_seed_def register_remote_directory_def unified_publish_def unified_unpublish_def
    unified_publish_file_def unified_set_state_def unified_note_subscriber_def unified_note_unsubscriber_def
    unified_clear_subscribers_def Let_def split: prod.splits sum.splits)

lemma moves_node: "registry_moves ur ur' \<Longrightarrow> ur_self_node ur' = ur_self_node ur"
proof -
  assume "registry_moves ur ur'"
  then obtain revs where "list_all keeps_node revs" "ur' = fold registry_step revs ur" unfolding registry_moves_def by blast
  then show ?thesis by (induction revs arbitrary: ur) (simp_all add: step_node)
qed

lemma set_self_node_node [simp]: "ur_self_node (set_self_node n name ur) = n"
  by (simp add: set_self_node_def Let_def)

lemma set_state_moves: "registry_moves ur (snd (unified_set_state now i st c ur))"
  using moves_step [of "RSetState now i st c" ur] by (simp add: keeps_node_def)

lemma clear_moves: "registry_moves ur (unified_clear_subscribers i ur)"
  using moves_step [of "RClear i" ur] by (simp add: keeps_node_def)

lemma reap_moves: "registry_moves (kn_registry k) (kn_registry (snd (reap_stream now sid k)))"
proof -
  have t: "kn_registry (snd (force_teardown sid x)) = kn_registry x" for x
    by (simp add: force_teardown_def teardown_internal_def set_code_def dp_revoke_def Let_def)
  have c: "kn_registry (snd (clear_active_share sid k)) = kn_registry k"
    by (simp add: clear_active_share_def)
  obtain share k1 where k1: "clear_active_share sid k = (share, k1)" by fastforce
  have "registry_moves (kn_registry k1) (kn_registry (kernel_set_state now i Idle 0
      (k1\<lparr> kn_registry := unified_clear_subscribers i (kn_registry k1) \<rparr>)))" for i
    using clear_moves set_state_moves moves_trans by (simp add: kernel_set_state_def) blast
  then show ?thesis using c by (auto simp: reap_stream_def k1 t Let_def split: option.split)
qed

lemma stop_moves: "registry_moves (kn_registry k) (kn_registry (share_stop now i k))"
  by (auto simp: share_stop_def stop_share_by_stream_def reap_moves split: option.split)

lemma build_registry [simp]: "kn_registry (snd (build_session sid src sinks prefs k)) = kn_registry k"
    "kn_identity (snd (build_session sid src sinks prefs k)) = kn_identity k"
  by (auto simp: build_session_def set_code_def dp_authorize_def Let_def split: option.split)

lemma build_result:
  "build_session sid src sinks prefs k = (r, k1) \<Longrightarrow> kn_registry k1 = kn_registry k \<and> kn_identity k1 = kn_identity k"
  using build_registry [of sid src sinks prefs k] by simp

lemma ensure_registry [simp]: "kn_registry (snd (ensure_session_with_id sid src sinks prefs k)) = kn_registry k"
    "kn_identity (snd (ensure_session_with_id sid src sinks prefs k)) = kn_identity k"
  by (auto simp: ensure_session_with_id_def split: option.split)

lemma token_registry [simp]: "kn_registry (snd (create_share_token now pin sid media ttl k)) = kn_registry k"
    "kn_identity (snd (create_share_token now pin sid media ttl k)) = kn_identity k"
  by (simp_all add: create_share_token_def Let_def)


lemma create_registry [simp]: "kn_registry (snd (create_session title sinks k)) = kn_registry k"
    "kn_identity (snd (create_session title sinks k)) = kn_identity k"
  by (simp_all add: create_session_def)

lemma issue_registry [simp]: "kn_registry (snd (issue_share_token_for now pin title media ttl k)) = kn_registry k"
    "kn_identity (snd (issue_share_token_for now pin title media ttl k)) = kn_identity k"
proof -
  have "kn_registry k2 = kn_registry k1 \<and> kn_identity k2 = kn_identity k1"
    if "create_share_token now pin sid media t k1 = (x, k2)" for sid t x k1 k2
    using token_registry [of now pin sid media t k1] that by simp
  then show "kn_registry (snd (issue_share_token_for now pin title media ttl k)) = kn_registry k"
      "kn_identity (snd (issue_share_token_for now pin title media ttl k)) = kn_identity k"
    by (auto simp: issue_share_token_for_def dest!: build_result split: sum.splits prod.splits)
qed

lemma teardown_registry [simp]: "kn_registry (snd (teardown_internal sid b k)) = kn_registry k"
    "kn_identity (snd (teardown_internal sid b k)) = kn_identity k"
  by (auto simp: teardown_internal_def set_code_def dp_revoke_def Let_def split: sum.split)

lemma start_registry [simp]: "kn_registry (snd (start_stream backend ok title sid tok k)) = kn_registry k"
    "kn_identity (snd (start_stream backend ok title sid tok k)) = kn_identity k"
proof -
  obtain r k1 where e: "ensure_session title sid tok k = (r, k1)" by fastforce
  have "kn_registry k1 = kn_registry k \<and> kn_identity k1 = kn_identity k"
    using e by (auto simp: ensure_session_def dest!: build_result split: prod.splits sum.splits if_splits)
  then show "kn_registry (snd (start_stream backend ok title sid tok k)) = kn_registry k"
      "kn_identity (snd (start_stream backend ok title sid tok k)) = kn_identity k"
    by (auto simp: start_stream_def e split: sum.split)
qed

lemma authorise_registry [simp]: "kn_registry (snd (authorize_session sid code k)) = kn_registry k"
    "kn_identity (snd (authorize_session sid code k)) = kn_identity k"
  by (auto simp: authorize_session_def mark_authorized_def split: sum.split option.split)

lemma set_state_identity [simp]: "kn_identity (kernel_set_state now i st c k) = kn_identity k"
  by (simp add: kernel_set_state_def)

lemma reap_identity [simp]: "kn_identity (snd (reap_stream now sid k)) = kn_identity k"
  by (auto simp: reap_stream_def clear_active_share_def force_teardown_def Let_def split: option.split)

lemma stop_identity [simp]: "kn_identity (share_stop now i k) = kn_identity k"
  by (auto simp: share_stop_def stop_share_by_stream_def split: option.split)

text \<open>One operation of the kernel.\<close>

lemma kernel_step_moves:
  assumes "\<And>n nm. ev \<noteq> KIdentity n nm"
  shows "registry_moves (kn_registry k) (kn_registry (kernel_step ev k)) \<and> kn_identity (kernel_step ev k) = kn_identity k"
proof (cases ev)
  case (KSeed err now ep)
  then show ?thesis using moves_step [of "RSeed err now ep" "kn_registry k"] by (simp add: keeps_node_def kernel_seed_def)
next
  case (KRemote dir addr)
  then show ?thesis using moves_step [of "RRemote dir addr" "kn_registry k"] by (simp add: keeps_node_def)
next
  case (KPublish now i vis dlv trs cs)
  let ?t = "case trs of Some t \<Rightarrow> t | None \<Rightarrow> default_transports
      (case registry_target (own_ref (kn_registry k) i) (ur_endpoints (kn_registry k)) of Some t \<Rightarrow> t | None \<Rightarrow> Live)"
  let ?c = "case cs of Some c \<Rightarrow> c | None \<Rightarrow> [H264, Aac]"
  have "kn_registry (kernel_step ev k) = registry_step (RPublish now i vis dlv ?t ?c) (kn_registry k)"
    "kn_identity (kernel_step ev k) = kn_identity k"
    by (simp_all add: KPublish publish_endpoint_def case_prod_beta Let_def)
  then show ?thesis using moves_step [of "RPublish now i vis dlv ?t ?c" "kn_registry k"] by (simp add: keeps_node_def)
next
  case (KUnpublish now i)
  have "registry_moves (kn_registry (share_stop now i k)) (snd (unified_unpublish now i (kn_registry (share_stop now i k))))"
    using moves_step [of "RUnpublish now i"] by (simp add: keeps_node_def)
  then show ?thesis using moves_trans [OF stop_moves] KUnpublish
    by (auto simp: unpublish_endpoint_def Let_def split: prod.splits)
next
  case (KPublishFile now path name stat isf vis dlv)
  then show ?thesis using moves_step [of "RPublishFile now path name stat isf vis dlv" "kn_registry k"]
    by (auto simp: keeps_node_def publish_file_endpoint_def split: prod.splits)
next
  case (KShare now i ctx)
  then show ?thesis using set_state_moves
    by (auto simp: share_on_subscribed_def note_share_active_def kernel_set_state_def)
next
  case (KSubscribe now i n)
  then show ?thesis using moves_step [of "RSubscriber now i n" "kn_registry k"]
    by (simp add: keeps_node_def note_endpoint_subscribed_def)
next
  case (KUnsubscribe now i n)
  obtain l r where u: "unified_note_unsubscriber now i n (kn_registry k) = (l, r)" by fastforce
  have m: "registry_moves (kn_registry k) r"
    using moves_step [of "RUnsubscriber now i n" "kn_registry k"] by (simp add: keeps_node_def u)
  have "registry_moves r (kn_registry (share_stop now i (k\<lparr> kn_registry := r \<rparr>)))"
    using stop_moves [of "k\<lparr> kn_registry := r \<rparr>" now i] by simp
  then show ?thesis using moves_trans [OF m] m KUnsubscribe by (simp add: note_endpoint_unsubscribed_def u Let_def)
next
  case (KReap now sid)
  then show ?thesis by (simp add: reap_if_unwatched_def stop_share_by_stream_def reap_moves)
next
  case (KForward now rev)
  then show ?thesis using reap_moves set_state_moves
    by (cases rev) (auto simp: kernel_set_state_def split: option.split)
qed (use assms in \<open>simp_all add: remember_self_def teardown_def force_teardown_def stop_stream_def\<close>)

definition registry_sound :: "kernel \<Rightarrow> bool" where
  "registry_sound k \<longleftrightarrow>
     (\<exists>revs name. kn_registry k = fold registry_step revs (unified_default name))
     \<and> (\<forall>n nm. kn_identity k = Some (n, nm) \<longrightarrow> ur_self_node (kn_registry k) = n)"

interpretation identity: stepper kernel_step registry_sound
proof
  fix k ev assume k: "registry_sound k"
  then obtain revs name where r: "kn_registry k = fold registry_step revs (unified_default name)"
    unfolding registry_sound_def by blast
  show "registry_sound (kernel_step ev k)"
  proof (cases "\<exists>n nm. ev = KIdentity n nm")
    case True
    then obtain n nm where ev: "ev = KIdentity n nm" by blast
    have "kn_registry (kernel_step ev k) = fold registry_step (revs @ [RSetSelf n nm]) (unified_default name)"
      by (simp add: ev set_identity_def r)
    then have "\<exists>revs name. kn_registry (kernel_step ev k) = fold registry_step revs (unified_default name)" by blast
    then show ?thesis by (simp add: registry_sound_def ev set_identity_def)
  next
    case False
    note m = kernel_step_moves [of ev k]
    obtain revs' where r': "kn_registry (kernel_step ev k) = fold registry_step revs' (kn_registry k)"
      using m False unfolding registry_moves_def by blast
    have "\<exists>revs name. kn_registry (kernel_step ev k) = fold registry_step revs (unified_default name)"
      using r r' by (metis fold_append comp_apply)
    moreover have "ur_self_node (kn_registry (kernel_step ev k)) = ur_self_node (kn_registry k)"
      using m False moves_node by blast
    ultimately show ?thesis using k m False by (simp add: registry_sound_def)
  qed
qed

lemma registry_sound_new: "registry_sound (kernel_new name)"
proof -
  have "kn_registry (kernel_new name) = fold registry_step [] (unified_default name)" by (simp add: kernel_new_def)
  then show ?thesis unfolding registry_sound_def by (metis kernel_new_def kernel.select_convs(12) option.distinct(1))
qed

lemma counter_registry_sound: "registry_sound (ng_kernel (fold neg_step evs (neg_start name store)))"
proof (induction evs rule: rev_induct)
  case Nil
  show ?case by (simp add: neg_start_def registry_sound_new)
next
  case (snoc ev evs)
  let ?n = "fold neg_step evs (neg_start name store)"
  from step_via [of ev ?n] show ?case
  proof (elim disjE exE conjE)
    fix hev assume "ng_kernel (neg_step ev ?n) = kernel_step hev (ng_kernel ?n)"
    then show ?thesis using identity.step_inv [OF snoc] by simp
  next
    assume "via_kernel (ng_kernel ?n) (ng_kernel (neg_step ev ?n))"
    then obtain evs' where "ng_kernel (neg_step ev ?n) = fold kernel_step evs' (ng_kernel ?n)"
      unfolding via_kernel_def by blast
    then show ?thesis using identity.fold_inv [OF snoc] by simp
  qed
qed


section \<open>Both ends of a subscription\<close>

text \<open>What the other host's counter answers at once; a request that has to wait is not answered here.\<close>

definition counter_answer :: "nat \<Rightarrow> string \<Rightarrow> negotiator \<Rightarrow> share_request \<Rightarrow> reply + share_grant" where
  "counter_answer now pin n req =
     (case fst (handle_request now pin req n) of
        Answer (Granted g) \<Rightarrow> Inr g
      | Answer r \<Rightarrow> Inl r
      | WaitFor rid \<Rightarrow> Inl WaitTimedOut)"

lemma counter_answer_ok:
  "counter_answer now pin n req = Inr g \<longleftrightarrow> fst (handle_request now pin req n) = Answer (Granted g)"
  by (auto simp: counter_answer_def split: request_result.splits reply.splits)

lemma listed_manifest:
  assumes "registry_sound k" and "kn_identity k = Some (p, nm)" and "m \<in> set (ed_endpoints (handle_endpoints here k))"
  shows "unified_manifest (em_id m) (kn_registry k) = Some m" "em_strategies m \<noteq> []" "ur_self_node (kn_registry k) = p"
    "distinct (map em_id (ed_endpoints (handle_endpoints here k)))"
    "en_node_id (ed_node (handle_endpoints here k)) = p"
proof -
  obtain revs nm' where r: "kn_registry k = fold registry_step revs (unified_default nm')"
    using assms(1) unfolding registry_sound_def by blast
  have wf: "unified_wf (kn_registry k)" using run_wf by (simp add: r)
  have pub: "m \<in> set (unified_published (kn_registry k))"
    using assms(3) by (auto simp: handle_endpoints_def split: prod.splits)
  obtain e where e: "map_of (er_endpoints (ur_endpoints (kn_registry k))) (own_ref (kn_registry k) (em_id m)) = Some e"
      "m = manifest_of e"
    using pub published_member [OF wf] by blast
  show "unified_manifest (em_id m) (kn_registry k) = Some m" by (simp add: own_manifest own_entry_def e(1) flip: e(2))
  have "ee_strategies e \<noteq> []" using e(1) unified_wfD(1) [OF wf] unfolding reg_wf_def by blast
  then show "em_strategies m \<noteq> []" by (simp add: e(2) manifest_of_def Let_def)
  show "ur_self_node (kn_registry k) = p" using assms(1,2) by (simp add: registry_sound_def)
  show "distinct (map em_id (ed_endpoints (handle_endpoints here k)))"
    using published_ids_distinct [OF wf] by (simp add: handle_endpoints_def distinct_map_filter split: prod.split)
  show "en_node_id (ed_node (handle_endpoints here k)) = p" by (simp add: handle_endpoints_def assms(2))
qed

lemma notify_sessions [simp]: "has_session sid (notify_subscribed now ep g node k) = has_session sid k"
  by (auto simp: notify_subscribed_def has_session_def remember_self_def share_on_subscribed_def note_share_active_def Let_def
    split: option.split)

lemma ensure_ports [simp]: "kn_relay_ports (snd (ensure_session_with_id sid src sinks prefs k)) = kn_relay_ports k"
  by (auto simp: ensure_session_with_id_def build_session_def set_code_def dp_authorize_def Let_def split: option.split)

text \<open>What a grant of an endpoint says.\<close>

lemma grant_of_endpoint:
  assumes c: "compose_grant now pin store node (Some m) None media title k = (Inr g, k1)" and ne: "em_strategies m \<noteq> []"
  shows "gr_delivery g = Some Pull" "gr_strategy g = Some (hd (em_strategies m))"
    "gr_relay g = relay_addr_of k"
    "active_share_by_endpoint (em_id m) k = Some (sid, d) \<Longrightarrow> tv_stream_id (gr_view g) = sid"
    "active_share_by_endpoint (em_id m) k = None \<Longrightarrow> tv_stream_id (gr_view g) = manifest_stream m \<and> has_session (manifest_stream m) k1"
proof -
  have none: "find (\<lambda>s. False) xs = None" for xs :: "endpoint_strategy list" by (induction xs) simp_all
  have st: "checked_strategy m None = Inr s \<Longrightarrow> s = hd (em_strategies m)" for s
    using ne none by (auto simp: checked_strategy_def manifest_strategy_def Let_def split: if_splits list.splits)
  let ?prefs = "\<lparr> sp_profile = Lossy, sp_preferred_transport = None, sp_access_code = None, sp_title = title \<rparr>"
  obtain s k2 where o: "ensure_session_with_id (manifest_stream m) ''local'' [''local''] ?prefs k = (Inr s, k2)"
      "has_session (manifest_stream m) k2" "kn_relay_ports k2 = kn_relay_ports k"
    using opened(4,5) [OF refl, of "manifest_stream m" "''local''" "''local''" ?prefs k]
      ensure_ports [of "manifest_stream m" "''local''" "[''local'']" ?prefs k] by (metis snd_conv)
  have "checked_strategy m None = Inr (the (gr_strategy g)) \<and> gr_strategy g \<noteq> None \<and> gr_delivery g = Some Pull
      \<and> gr_relay g = relay_addr_of k
      \<and> (case active_share_by_endpoint (em_id m) k of Some (sid, d) \<Rightarrow> tv_stream_id (gr_view g) = sid
          | None \<Rightarrow> tv_stream_id (gr_view g) = manifest_stream m \<and> k1 = k2)"
    using c o by (cases "checked_strategy m None") (auto simp: compose_grant_def stream_view_def relay_addr_of_def split: option.splits)
  note all = this
  show "gr_delivery g = Some Pull" "gr_relay g = relay_addr_of k" using all by simp_all
  show "gr_strategy g = Some (hd (em_strategies m))" using all st by auto
  show "active_share_by_endpoint (em_id m) k = Some (sid, d) \<Longrightarrow> tv_stream_id (gr_view g) = sid" using all by simp
  show "active_share_by_endpoint (em_id m) k = None \<Longrightarrow> tv_stream_id (gr_view g) = manifest_stream m \<and> has_session (manifest_stream m) k1"
    using all o(2) by simp
qed


lemma grant_request_answer:
  assumes "fst (grant_request now pin req eid (Some m) n) = Answer (Granted g)"
  shows "\<exists>k1. compose_grant now pin (ng_store n) (rq_node_id req) (Some m) (rq_strategy_id req) [em_kind m] (share_title (em_name m)) (ng_kernel n)
      = (Inr g, k1) \<and> snd (grant_request now pin req eid (Some m) n) = n\<lparr> ng_kernel := notify_subscribed now eid g (rq_node_id req) k1 \<rparr>"
  using assms by (auto simp: grant_request_def Let_def split: prod.splits sum.splits)

lemma endpoint_request_simps [simp]:
  "request_endpoint (endpoint_request me i sid) = Some i" "rq_node_id (endpoint_request me i sid) = fst me"
  "rq_strategy_id (endpoint_request me i sid) = sid"
  by (cases i; simp add: endpoint_request_def request_endpoint_def)+

lemma handle_endpoint_granted:
  assumes "unified_manifest i (kn_registry (ng_kernel n)) = Some m" "request_endpoint req = Some i"
    and "fst (handle_request now pin req n) = Answer (Granted g)"
  shows "em_available m" "handle_request now pin req n = grant_request now pin req (Some i) (Some m) n"
  using assms by (auto simp: handle_request_def Let_def split: if_splits decision.splits)



definition sharing_host :: negotiator where
  "sharing_host = fold neg_step
     [NHost (KIdentity phone ''p''), NHost (KSeed None 1 probe_endpoint),
      NHost (KPublish 2 (EndpointId Mic 0) Public Pull (Some []) (Some [])), NHost (KPorts (Some (18777, None, None)))]
     (neg_start ''p'' [])"

definition tv_kernel :: kernel where
  "tv_kernel = set_identity (NodeId (replicate 16 9)) ''tv'' (kernel_new ''tv'')"

lemma sharing_host_kernel:
  "kn_registry (ng_kernel sharing_host) = mic_pub" "kn_identity (ng_kernel sharing_host) = Some (phone, ''p'')"
  "kn_relay_ports (ng_kernel sharing_host) = Some (18777, None, None)" "kn_shares (ng_kernel sharing_host) = []"
  by (simp_all add: sharing_host_def mic_pub_def neg_start_def kernel_new_def set_identity_def kernel_seed_def publish_endpoint_def
    case_prod_beta Let_def)

lemma mic_pub_manifest:
  "\<exists>m. unified_published mic_pub = [m] \<and> em_visibility m = Public \<and> em_available m \<and> is_ok (checked_strategy m None)
     \<and> em_id m = EndpointId Mic 0"
proof -
  have "map em_visibility (unified_published mic_pub) = [Public] \<and> map em_available (unified_published mic_pub) = [True]
      \<and> map (\<lambda>m. is_ok (checked_strategy m None)) (unified_published mic_pub) = [True]"
    by (simp add: mic_pub_def unified_default_def set_self_node_def registry_empty_def self_entry_def unified_seed_def
      seed_with_owner_def probe_load_def probe_endpoint_def add_self_ref_def ensure_self_entry_def Let_def unified_publish_def
      registry_publish_def own_ref_def put_entry_def manifest_of_def unified_published_def published_manifests_of_def owned_by_def
      em_id_def phone_def NIL_def checked_strategy_def manifest_strategy_def loader_for_def strategy_passthrough_def)
  then show ?thesis using mic_pub_published(2) by (cases "unified_published mic_pub") auto
qed


lemma sharing_host_dir: "ed_endpoints (handle_endpoints here (ng_kernel sharing_host)) = unified_published mic_pub"
proof -
  obtain m where "unified_published mic_pub = [m]" "em_visibility m = Public" using mic_pub_manifest by blast
  then show ?thesis by (simp add: handle_endpoints_def sharing_host_kernel is_private_def)
qed

lemma sharing_host_sound: "registry_sound (ng_kernel sharing_host)"
  unfolding sharing_host_def by (rule counter_registry_sound)

lemma sharing_host_grants:
  assumes "unified_published mic_pub = [m]" "em_visibility m = Public" "em_available m" "is_ok (checked_strategy m None)"
  shows "\<exists>g. counter_answer 7 ''000042'' sharing_host (endpoint_request me (em_id m) None) = Inr g
     \<and> gr_delivery g = Some Pull \<and> gr_relay g = Some \<lparr> ra_ws_port = 18777, ra_srt_port = None, ra_quic_port = None \<rparr>"
proof -
  let ?k = "ng_kernel sharing_host"
  have m: "m \<in> set (ed_endpoints (handle_endpoints here ?k))" for here by (simp add: sharing_host_dir assms(1))
  note lm = listed_manifest [OF sharing_host_sound sharing_host_kernel(2) m]
  obtain st where st: "checked_strategy m None = Inr st" using assms(4) by (cases "checked_strategy m None") auto
  have "active_share_by_endpoint (em_id m) ?k = None" by (simp add: active_share_by_endpoint_def sharing_host_kernel)
  then obtain g k1 where g: "compose_grant 7 ''000042'' (ng_store sharing_host) (fst me) (Some m) None [em_kind m] (share_title (em_name m)) ?k = (Inr g, k1)"
    using first_grant [OF _ st refl] by metis
  have "fst (handle_request 7 ''000042'' (endpoint_request me (em_id m) None) sharing_host) = Answer (Granted g)"
    using lm(1) assms(2,3) by (simp add: handle_request_def policy_decision_def grant_request_def g)
  then show ?thesis
    using grant_of_endpoint(1,3) [OF g lm(2)] by (simp add: counter_answer_ok relay_addr_of_def sharing_host_kernel)
qed

lemma tv_kernel_simps: "kn_identity tv_kernel = Some (NodeId (replicate 16 9), ''tv'')" "ur_self_node (kn_registry tv_kernel) = NodeId (replicate 16 9)"
  by (simp_all add: tv_kernel_def set_identity_def)


text \<open>
  When the directory cannot be fetched, the other host counts as node NIL, which the registry takes for this host: the
  strategy then is that of the subscriber's own endpoint of the same id, not the granted one.
\<close>

lemma lost_directory_uses_own_strategy:
  assumes "map_of (er_endpoints (ur_endpoints (kn_registry k))) (own_ref (kn_registry k) i) = Some e"
    and "ee_strategies e = s # ss"
  shows "spec_strategy NIL i None g k = s"
  using assms by (simp add: spec_strategy_def resolve_strategy_def normalize_node_def is_self_node_def endpoint_entry_at_def own_ref_def Let_def)

end
