(* ===== verification/Receive_Links.thy ===== *)
theory Receive_Links
  imports Subscriber
begin

text \<open>
  The receiving links of a kernel (\<open>stross-kernel/src/kernel/receive.rs\<close>) and the subscription contract over them
  (\<open>kernel/subscribe_service.rs\<close>).  A receiver runs on after its link is forgotten, so all receivers ever made are kept,
  and a handle is a receiver's number.
\<close>

section \<open>The table\<close>

record receive_handle =
  rh_url :: string
  rh_stream :: stream_id
  rh_receiver :: receiver
  rh_frames :: bool
  rh_raw_frames :: bool

record receive_link_meta =
  lm_node_id :: node_id
  lm_endpoint_id :: "endpoint_id option"
  lm_stream_id :: "stream_id option"

record link_table =
  lt_receivers :: "receive_handle list"
  lt_links :: "(string \<times> nat) list"
  lt_meta :: "(string \<times> receive_link_meta) list"
  lt_next :: u64

definition link_table_new :: link_table where
  "link_table_new = \<lparr> lt_receivers = [], lt_links = [], lt_meta = [], lt_next = 0 \<rparr>"

definition MAIN_RECEIVE_LINK :: string where
  "MAIN_RECEIVE_LINK = ''main''"

definition receiver_stop :: "receive_handle \<Rightarrow> receive_handle" where
  "receiver_stop h = h\<lparr> rh_receiver := (rh_receiver h)\<lparr> rv_stopped := True \<rparr> \<rparr>"

definition on_handle :: "nat \<Rightarrow> (receive_handle \<Rightarrow> receive_handle) \<Rightarrow> link_table \<Rightarrow> link_table" where
  "on_handle n f t =
     (if n < length (lt_receivers t) then t\<lparr> lt_receivers := (lt_receivers t)[n := f (lt_receivers t ! n)] \<rparr> else t)"

definition on_link :: "string \<Rightarrow> (receive_handle \<Rightarrow> receive_handle) \<Rightarrow> link_table \<Rightarrow> link_table" where
  "on_link link f t = (case map_of (lt_links t) link of None \<Rightarrow> t | Some n \<Rightarrow> on_handle n f t)"

definition stop_receive_link :: "string \<Rightarrow> link_table \<Rightarrow> link_table" where
  "stop_receive_link link t =
     (let t1 = (on_link link receiver_stop t)\<lparr> lt_links := AList.delete link (lt_links t) \<rparr>
      in t1\<lparr> lt_meta := AList.delete link (lt_meta t1) \<rparr>)"

text \<open>A started receiver; \<open>raw\<close>: it hands out encoded frames.\<close>

definition receiver_open :: "bool \<Rightarrow> string \<Rightarrow> stream_id \<Rightarrow> receive_handle" where
  "receiver_open raw url sid =
     \<lparr> rh_url = url, rh_stream = sid, rh_receiver = receiver_new, rh_frames = \<not> raw, rh_raw_frames = raw \<rparr>"

definition record_link_meta :: "string \<Rightarrow> stream_id \<Rightarrow> link_table \<Rightarrow> link_table" where
  "record_link_meta link sid t =
     t\<lparr> lt_meta := AList.update link \<lparr> lm_node_id = NIL, lm_endpoint_id = None, lm_stream_id = Some sid \<rparr> (lt_meta t) \<rparr>"

definition insert_receiver :: "string \<Rightarrow> receive_handle \<Rightarrow> link_table \<Rightarrow> link_table" where
  "insert_receiver link h t =
     t\<lparr> lt_receivers := lt_receivers t @ [h], lt_links := AList.update link (length (lt_receivers t)) (lt_links t) \<rparr>"

text \<open>\<open>opened\<close>: the player starts; without decoding there is none.  The two halves of a start are apart, because
  another task can come between them.\<close>

definition finish_start :: "bool \<Rightarrow> string \<Rightarrow> string \<Rightarrow> stream_id \<Rightarrow> bool \<Rightarrow> link_table \<Rightarrow> bool \<times> link_table" where
  "finish_start raw link url sid opened t =
     (if \<not> raw \<and> \<not> opened then (False, t)
      else (True, record_link_meta link sid (insert_receiver link (receiver_open raw url sid) t)))"

definition start_receive_link :: "bool \<Rightarrow> string \<Rightarrow> string \<Rightarrow> stream_id \<Rightarrow> bool \<Rightarrow> link_table \<Rightarrow> bool \<times> link_table" where
  "start_receive_link raw link url sid opened t = finish_start raw link url sid opened (stop_receive_link link t)"

definition start_receive :: "bool \<Rightarrow> string \<Rightarrow> stream_id \<Rightarrow> bool \<Rightarrow> link_table \<Rightarrow> bool \<times> link_table" where
  "start_receive raw url sid opened t =
     start_receive_link raw MAIN_RECEIVE_LINK url sid opened (stop_receive_link MAIN_RECEIVE_LINK t)"

definition stop_receive :: "link_table \<Rightarrow> link_table" where
  "stop_receive = stop_receive_link MAIN_RECEIVE_LINK"

text \<open>The channels of frames are handed out once.\<close>

definition take_receive_frames_for :: "string \<Rightarrow> link_table \<Rightarrow> bool \<times> link_table" where
  "take_receive_frames_for link t =
     (case map_of (lt_links t) link of
        None \<Rightarrow> (False, t)
      | Some n \<Rightarrow> (rh_frames (lt_receivers t ! n), on_handle n (rh_frames_update (\<lambda>_. False)) t))"

definition take_receive_raw_frames_for :: "string \<Rightarrow> link_table \<Rightarrow> bool \<times> link_table" where
  "take_receive_raw_frames_for link t =
     (case map_of (lt_links t) link of
        None \<Rightarrow> (False, t)
      | Some n \<Rightarrow> (rh_raw_frames (lt_receivers t ! n), on_handle n (rh_raw_frames_update (\<lambda>_. False)) t))"

definition handle_stats :: "nat \<Rightarrow> link_table \<Rightarrow> receive_stats" where
  "handle_stats n t = rv_stats (rh_receiver (lt_receivers t ! n))"

definition receive_status :: "link_table \<Rightarrow> receive_stats" where
  "receive_status t =
     (case map_of (lt_links t) MAIN_RECEIVE_LINK of
        Some n \<Rightarrow> handle_stats n t
      | None \<Rightarrow> rv_stats receiver_new)"

definition note_decoded_video :: "receive_handle \<Rightarrow> receive_handle" where
  "note_decoded_video h =
     (let st = rv_stats (rh_receiver h)
      in h\<lparr> rh_receiver := (rh_receiver h)\<lparr> rv_stats := st\<lparr> rs_decoded_video := rs_decoded_video st + 1, rs_running := True \<rparr> \<rparr> \<rparr>)"

definition note_android_decoded_frame_on :: "string \<Rightarrow> link_table \<Rightarrow> link_table" where
  "note_android_decoded_frame_on link t =
     on_link (if link = [] then MAIN_RECEIVE_LINK else link) note_decoded_video t"

definition receive_links :: "link_table \<Rightarrow> (string \<times> receive_stats) list" where
  "receive_links t = sort_key fst (map (\<lambda>(link, n). (link, handle_stats n t)) (lt_links t))"


section \<open>The subscription contract\<close>

text \<open>This host's relay as a proxy.\<close>

definition local_ws_base :: "kernel \<Rightarrow> string option" where
  "local_ws_base k = Option.bind (kn_relay_ports k) (\<lambda>(ws, _). push_url (url_ws ''127.0.0.1'' ws None))"

definition contract_resolve ::
  "node_id \<Rightarrow> endpoint_id \<Rightarrow> strategy_id option \<Rightarrow> kernel \<Rightarrow> subscribe_spec option" where
  "contract_resolve node i strategy k =
     (let reg = kn_registry k in
      case resolve_strategy node i (map_option strategy_as_str strategy) reg of
        None \<Rightarrow> None
      | Some st \<Rightarrow>
          let (profile, pick) = (case stream_profile node i reg of Some pp \<Rightarrow> pp | None \<Rightarrow> (Lossy, es_pick st)) in
          Some \<lparr> sb_node_id = node, sb_endpoint = i, sb_strategy_id = strategy, sb_strategy = st,
                 sb_delivery = (case manifest_for node i reg of Some m \<Rightarrow> em_delivery m | None \<Rightarrow> Pull),
                 sb_stream_id = derive_stream_id i profile pick,
                 sb_relay_url = (if node = ur_self_node reg then local_ws_base k else None) \<rparr>)"

text \<open>\<open>has_self\<close>: the kernel has the reference to itself that an endpoint is given; the endpoint then drives itself.\<close>

definition contract_subscribe :: "subscribe_spec \<Rightarrow> bool \<Rightarrow> link_table \<Rightarrow> link_id option \<times> link_table" where
  "contract_subscribe spec has_self t =
     (let link = LinkId (ucast (lt_next t) + 1);
          t1 = t\<lparr> lt_next := lt_next t + 1,
                  lt_meta := AList.update (link_display link)
                    \<lparr> lm_node_id = sb_node_id spec, lm_endpoint_id = Some (sb_endpoint spec), lm_stream_id = Some (sb_stream_id spec) \<rparr>
                    (lt_meta t) \<rparr>
      in (if has_self then Some link else None, t1))"

definition contract_unsubscribe :: "link_id \<Rightarrow> link_table \<Rightarrow> link_table" where
  "contract_unsubscribe link t = stop_receive_link (link_display link) t"

record subscribe_link =
  sl_link_id :: link_id
  sl_node_id :: node_id
  sl_endpoint_id :: endpoint_id
  sl_stream_id :: stream_id
  sl_running :: bool

definition subscribe_link_of :: "link_table \<Rightarrow> string \<times> nat \<Rightarrow> subscribe_link" where
  "subscribe_link_of t entry =
     (case entry of (link, n) \<Rightarrow>
        let meta = (case map_of (lt_meta t) link of Some m \<Rightarrow> m
              | None \<Rightarrow> \<lparr> lm_node_id = NIL, lm_endpoint_id = None, lm_stream_id = None \<rparr>)
        in \<lparr> sl_link_id = (case link_from_str link of Some l \<Rightarrow> l | None \<Rightarrow> LinkId 0),
             sl_node_id = lm_node_id meta,
             sl_endpoint_id = (case lm_endpoint_id meta of Some i \<Rightarrow> i | None \<Rightarrow> EndpointId Service 0),
             sl_stream_id = (case lm_stream_id meta of Some sid \<Rightarrow> sid | None \<Rightarrow> link),
             sl_running = rs_running (handle_stats n t) \<rparr>)"

definition contract_links :: "link_table \<Rightarrow> subscribe_link list" where
  "contract_links t = sort_key (link_num \<circ> sl_link_id) (map (subscribe_link_of t) (lt_links t))"


section \<open>Events\<close>

datatype receiving_event =
    LStart bool string string stream_id bool
  | LMain bool string stream_id bool
  | LStop string
  | LTake string
  | LTakeRaw string
  | LNote string
  | LConnected nat "link_error option"
  | LReceived nat "relay_msg session_recv" nat "nat \<Rightarrow> nat"
  | LSubscribe subscribe_spec bool
  | LUnsubscribe link_id

definition handle_connected :: "link_error option \<Rightarrow> receive_handle \<Rightarrow> receive_handle" where
  "handle_connected r h =
     h\<lparr> rh_receiver := (case r of Some e \<Rightarrow> receiver_failed e (rh_receiver h) | None \<Rightarrow> receiver_start (rh_receiver h)) \<rparr>"

definition handle_received :: "relay_msg session_recv \<Rightarrow> nat \<Rightarrow> (nat \<Rightarrow> nat) \<Rightarrow> receive_handle \<Rightarrow> receive_handle" where
  "handle_received r tm ts h =
     (case receive_event_step (rh_stream h) Realtime (channel_kind_for_url (rh_url h)) (Received r tm ts) (rh_receiver h) of
        Some rv \<Rightarrow> h\<lparr> rh_receiver := rv \<rparr>
      | None \<Rightarrow> h)"

fun receiving_step :: "receiving_event \<Rightarrow> link_table \<Rightarrow> link_table" where
  "receiving_step (LStart raw link url sid opened) t = snd (start_receive_link raw link url sid opened t)"
| "receiving_step (LMain raw url sid opened) t = snd (start_receive raw url sid opened t)"
| "receiving_step (LStop link) t = stop_receive_link link t"
| "receiving_step (LTake link) t = snd (take_receive_frames_for link t)"
| "receiving_step (LTakeRaw link) t = snd (take_receive_raw_frames_for link t)"
| "receiving_step (LNote link) t = note_android_decoded_frame_on link t"
| "receiving_step (LConnected n r) t = on_handle n (handle_connected r) t"
| "receiving_step (LReceived n r tm ts) t = on_handle n (handle_received r tm ts) t"
| "receiving_step (LSubscribe spec has_self) t = snd (contract_subscribe spec has_self t)"
| "receiving_step (LUnsubscribe link) t = contract_unsubscribe link t"


section \<open>Every running receiver is in the table\<close>

definition asked_to_stop :: "link_table \<Rightarrow> nat \<Rightarrow> bool" where
  "asked_to_stop t n = rv_stopped (rh_receiver (lt_receivers t ! n))"

definition links_ok :: "link_table \<Rightarrow> bool" where
  "links_ok t \<longleftrightarrow> distinct (map fst (lt_links t)) \<and> distinct (map snd (lt_links t))
     \<and> (\<forall>n. n \<in> snd ` set (lt_links t) \<longleftrightarrow> n < length (lt_receivers t) \<and> \<not> asked_to_stop t n)
     \<and> (\<forall>link. has_key (lt_links t) link \<longrightarrow> has_key (lt_meta t) link)"

lemma on_handle_simps [simp]:
  "lt_links (on_handle n f t) = lt_links t" "lt_meta (on_handle n f t) = lt_meta t" "lt_next (on_handle n f t) = lt_next t"
  "length (lt_receivers (on_handle n f t)) = length (lt_receivers t)"
  by (simp_all add: on_handle_def)

lemma on_handle_at:
  "m < length (lt_receivers t) \<Longrightarrow> lt_receivers (on_handle n f t) ! m = (if m = n then f (lt_receivers t ! n) else lt_receivers t ! m)"
  by (simp add: on_handle_def nth_list_update)

text \<open>Everything but stopping leaves the request alone.\<close>

definition keeps_request :: "(receive_handle \<Rightarrow> receive_handle) \<Rightarrow> bool" where
  "keeps_request f \<longleftrightarrow> (\<forall>h. rv_stopped (rh_receiver (f h)) = rv_stopped (rh_receiver h))"

lemma on_handle_ok: "keeps_request f \<Longrightarrow> links_ok t \<Longrightarrow> links_ok (on_handle n f t)"
proof -
  assume f: "keeps_request f" and ok: "links_ok t"
  have "n' < length (lt_receivers t) \<Longrightarrow> asked_to_stop (on_handle n f t) n' = asked_to_stop t n'" for n'
    using f by (auto simp: asked_to_stop_def on_handle_at keeps_request_def)
  then show ?thesis using ok unfolding links_ok_def by auto
qed

lemma receive_step_request:
  "receive_event_step sid rule kind (Received r tm ts) rv = Some rv' \<Longrightarrow> rv_stopped rv' = rv_stopped rv"
  by (auto simp: receiver_end_def set_running_def loop_top_def receive_frame_def Let_def bind_eq_Some_conv
    split: if_splits session_recv.splits session_packet.splits prod.splits)

lemma handle_ops_keep:
  "keeps_request (rh_frames_update g)" "keeps_request (rh_raw_frames_update g)" "keeps_request note_decoded_video"
  "keeps_request (handle_connected r)" "keeps_request (handle_received p tm ts)"
  by (auto simp: keeps_request_def note_decoded_video_def handle_connected_def receiver_failed_def receiver_start_def
    loop_top_def receiver_end_def set_running_def handle_received_def Let_def
    simp del: receive_event_step.simps dest!: receive_step_request split: option.split)

lemma map_of_pair: "distinct (map fst al) \<Longrightarrow> map_of al k = Some v \<longleftrightarrow> (k, v) \<in> set al"
  by simp

lemma stop_link_simps [simp]:
  "lt_links (stop_receive_link link t) = AList.delete link (lt_links t)"
  "lt_meta (stop_receive_link link t) = AList.delete link (lt_meta t)"
  "length (lt_receivers (stop_receive_link link t)) = length (lt_receivers t)"
  by (auto simp: stop_receive_link_def on_link_def Let_def split: option.split)

lemma stop_link_at:
  "m < length (lt_receivers t) \<Longrightarrow>
     lt_receivers (stop_receive_link link t) ! m =
       (if map_of (lt_links t) link = Some m then receiver_stop (lt_receivers t ! m) else lt_receivers t ! m)"
  by (auto simp: stop_receive_link_def on_link_def on_handle_at Let_def split: option.split)

lemma value_of_filter:
  assumes "distinct (map snd al)"
  shows "k \<in> snd ` set (filter (\<lambda>(l, v). link \<noteq> l) al) \<longleftrightarrow> k \<in> snd ` set al \<and> (link, k) \<notin> set al"
proof
  assume "k \<in> snd ` set (filter (\<lambda>(l, v). link \<noteq> l) al)"
  then obtain l where l: "(l, k) \<in> set al" "link \<noteq> l" by auto
  then have "(link, k) \<notin> set al"
    using assms inj_onD [of snd "set al" "(l, k)" "(link, k)"] by (auto simp: distinct_map)
  then show "k \<in> snd ` set al \<and> (link, k) \<notin> set al" using l(1) by force
next
  assume k: "k \<in> snd ` set al \<and> (link, k) \<notin> set al"
  then obtain l where "(l, k) \<in> set al" by auto
  moreover from this k have "link \<noteq> l" by blast
  ultimately show "k \<in> snd ` set (filter (\<lambda>(l, v). link \<noteq> l) al)" by force
qed

lemma stop_link_ok:
  assumes "links_ok t"
  shows "links_ok (stop_receive_link link t)"
proof -
  let ?t = "stop_receive_link link t"
  have d: "distinct (map fst (lt_links t))" "distinct (map snd (lt_links t))"
    and n: "\<And>n. n \<in> snd ` set (lt_links t) \<longleftrightarrow> n < length (lt_receivers t) \<and> \<not> asked_to_stop t n"
    and m: "\<And>l. has_key (lt_links t) l \<Longrightarrow> has_key (lt_meta t) l"
    using assms by (auto simp: links_ok_def)
  have del: "AList.delete link (lt_links t) = filter (\<lambda>(k, v). link \<noteq> k) (lt_links t)"
    by (simp add: AList.delete_eq)
  have "distinct (map fst (lt_links ?t))" "distinct (map snd (lt_links ?t))"
    using d by (simp_all add: del distinct_map_filter)
  moreover have "k \<in> snd ` set (lt_links ?t) \<longleftrightarrow> k < length (lt_receivers ?t) \<and> \<not> asked_to_stop ?t k" for k
  proof -
    have "k \<in> snd ` set (lt_links ?t) \<longleftrightarrow> k \<in> snd ` set (lt_links t) \<and> map_of (lt_links t) link \<noteq> Some k"
      unfolding stop_link_simps del map_of_pair [OF d(1)] by (rule value_of_filter [OF d(2)])
    moreover have "asked_to_stop ?t k \<longleftrightarrow> asked_to_stop t k \<or> map_of (lt_links t) link = Some k" if "k < length (lt_receivers t)"
      using that by (simp add: asked_to_stop_def stop_link_at receiver_stop_def)
    ultimately show ?thesis using n [of k] by auto
  qed
  moreover have "has_key (lt_meta ?t) l" if "has_key (lt_links ?t) l" for l using that m by auto
  ultimately show ?thesis unfolding links_ok_def by blast
qed

lemma update_fresh: "\<not> has_key al k \<Longrightarrow> AList.update k v al = al @ [(k, v)]"
  by (induction al) (auto simp: has_key_def split: if_splits)

lemma has_key_append: "has_key (al @ bl) k \<longleftrightarrow> has_key al k \<or> has_key bl k"
  by (auto simp: has_key_keys)

lemma finish_start_ok:
  assumes "links_ok t" "\<not> has_key (lt_links t) link"
  shows "links_ok (snd (finish_start raw link url sid opened t))"
proof -
  let ?t = "insert_receiver link (receiver_open raw url sid) t"
  have l: "lt_links ?t = lt_links t @ [(link, length (lt_receivers t))]"
    by (simp add: insert_receiver_def update_fresh [OF assms(2)])
  have r: "asked_to_stop ?t n \<longleftrightarrow> n < length (lt_receivers t) \<and> asked_to_stop t n" if "n \<le> length (lt_receivers t)" for n
    using that by (auto simp: asked_to_stop_def insert_receiver_def nth_append receiver_open_def receiver_new_def)
  have n: "\<And>n. n \<in> snd ` set (lt_links t) \<longleftrightarrow> n < length (lt_receivers t) \<and> \<not> asked_to_stop t n"
    using assms(1) by (auto simp: links_ok_def)
  let ?u = "record_link_meta link sid ?t"
  have u: "lt_links ?u = lt_links t @ [(link, length (lt_receivers t))]" "length (lt_receivers ?u) = Suc (length (lt_receivers t))"
      "\<And>k. asked_to_stop ?u k = asked_to_stop ?t k" "\<And>k. has_key (lt_meta ?u) k \<longleftrightarrow> k = link \<or> has_key (lt_meta t) k"
    using l by (simp_all add: record_link_meta_def insert_receiver_def asked_to_stop_def)
  have "links_ok ?u"
    unfolding links_ok_def
  proof (intro conjI allI)
    show "distinct (map fst (lt_links ?u))" "distinct (map snd (lt_links ?u))"
      using assms n by (auto simp: u links_ok_def has_key_keys)
    show "has_key (lt_links ?u) k \<longrightarrow> has_key (lt_meta ?u) k" for k
      using assms(1) by (auto simp: u(1,4) links_ok_def has_key_append) (simp add: has_key_def split: if_splits)
    show "k \<in> snd ` set (lt_links ?u) \<longleftrightarrow> k < length (lt_receivers ?u) \<and> \<not> asked_to_stop ?u k" for k
      using n [of k] r [of k] by (cases "k = length (lt_receivers t)") (auto simp: u)
  qed
  then show ?thesis using assms(1) by (simp add: finish_start_def)
qed

lemma start_link_ok: "links_ok t \<Longrightarrow> links_ok (snd (start_receive_link raw link url sid opened t))"
  unfolding start_receive_link_def by (rule finish_start_ok) (simp_all add: stop_link_ok)

lemma on_link_ok: "keeps_request f \<Longrightarrow> links_ok t \<Longrightarrow> links_ok (on_link link f t)"
  by (auto simp: on_link_def on_handle_ok split: option.split)

interpretation links: stepper receiving_step links_ok
proof
  fix t ev assume ok: "links_ok t"
  show "links_ok (receiving_step ev t)"
  proof (cases ev)
    case (LMain raw url sid opened)
    then show ?thesis using start_link_ok [OF stop_link_ok [OF ok]] by (simp add: start_receive_def)
  next
    case (LSubscribe spec has_self)
    then show ?thesis using ok by (auto simp: contract_subscribe_def links_ok_def asked_to_stop_def Let_def)
  qed (use ok in \<open>auto simp: start_link_ok stop_link_ok on_handle_ok on_link_ok handle_ops_keep contract_unsubscribe_def
    take_receive_frames_for_def take_receive_raw_frames_for_def note_android_decoded_frame_on_def split: option.split\<close>)
qed

lemma links_ok_new: "links_ok link_table_new"
  by (simp add: links_ok_def link_table_new_def has_key_def)


section \<open>Properties\<close>

lemma links_run: "links_ok (fold receiving_step evs link_table_new)"
  by (rule links.fold_inv [OF links_ok_new])

lemma links_okD:
  assumes "links_ok t" "map_of (lt_links t) link = Some n"
  shows "n < length (lt_receivers t)" "\<not> asked_to_stop t n" "map_of (lt_links t) link' = Some n \<Longrightarrow> link' = link"
proof -
  have d: "distinct (map fst (lt_links t))" "distinct (map snd (lt_links t))" using assms(1) by (simp_all add: links_ok_def)
  have m: "(link, n) \<in> set (lt_links t)" using assms(2) by (simp add: map_of_SomeD)
  then have "n \<in> snd ` set (lt_links t)" by force
  then show "n < length (lt_receivers t)" "\<not> asked_to_stop t n" using assms(1) by (simp_all add: links_ok_def)
  show "link' = link" if "map_of (lt_links t) link' = Some n"
    using inj_onD [of snd "set (lt_links t)" "(link', n)" "(link, n)"] d(2) m map_of_SomeD [OF that] by (auto simp: distinct_map)
qed

lemma links_ok_meta: "links_ok t \<Longrightarrow> has_key (lt_links t) link \<Longrightarrow> has_key (lt_meta t) link"
  by (simp add: links_ok_def)

lemma sort_key_names:
  "distinct (map fst al) \<Longrightarrow> map fst (sort_key fst al) = sorted_list_of_set (dom (map_of al))" for al :: "('a :: linorder \<times> 'b) list"
proof -
  assume d: "distinct (map fst al)"
  have "mset (map fst (sort_key fst al)) = mset (map fst al)" by (metis mset_map mset_sort)
  then have "distinct (map fst (sort_key fst al))" using d mset_eq_imp_distinct_iff by blast
  then show ?thesis
    by (intro sorted_distinct_set_unique) (simp_all add: dom_map_of_conv_image_fst)
qed

lemma receive_links_names: "distinct (map fst (lt_links t)) \<Longrightarrow> map fst (receive_links t) = sorted_list_of_set (dom (map_of (lt_links t)))"
proof -
  assume d: "distinct (map fst (lt_links t))"
  have m: "map fst (map (\<lambda>(link, n). (link, handle_stats n t)) (lt_links t)) = map fst (lt_links t)" by (simp add: case_prod_beta comp_def)
  have "dom (map_of (map (\<lambda>(link, n). (link, handle_stats n t)) (lt_links t))) = dom (map_of (lt_links t))"
    unfolding dom_map_of_conv_image_fst by (metis m list.set_map)
  then show ?thesis using sort_key_names [of "map (\<lambda>(link, n). (link, handle_stats n t)) (lt_links t)"] d
    unfolding m by (simp add: receive_links_def)
qed



definition one_link :: link_table where
  "one_link = fold receiving_step [LStart True ''a'' ''ws://h:1'' ''s'' False] link_table_new"


text \<open>
  The two halves of a start are not one step.  Two starts of one link that interleave leave a receiver that runs on,
  in no table, and that nothing can stop any more.
\<close>

lemma interleaved_starts_leak:
  assumes "t1 = stop_receive_link link (stop_receive_link link link_table_new)"
    and "t2 = snd (finish_start True link url sid b t1)" and "t3 = snd (finish_start True link url' sid' b' t2)"
  shows "\<not> asked_to_stop t3 0 \<and> 0 < length (lt_receivers t3) \<and> 0 \<notin> snd ` set (lt_links t3)
    \<and> \<not> asked_to_stop (stop_receive_link link t3) 0"
  unfolding assms
  by (simp add: finish_start_def insert_receiver_def record_link_meta_def link_table_new_def stop_receive_link_def on_link_def
    asked_to_stop_def receiver_open_def receiver_new_def on_handle_def)

text \<open>A link whose name is no link id is reported under the id of the main link; ending that one stops the main link.\<close>

lemma named_links_look_like_main:
  assumes "link_from_str link = None"
  shows "sl_link_id (subscribe_link_of t (link, n)) = LinkId 0" "contract_unsubscribe (LinkId 0) t = stop_receive t"
  using assms by (simp_all add: subscribe_link_of_def contract_unsubscribe_def stop_receive_def link_display_def MAIN_RECEIVE_LINK_def Let_def)

text \<open>Ending a subscription of the contract stops no receiver: its endpoint drives one that is not in the table.\<close>

lemma contract_link_is_not_stopped:
  assumes "contract_subscribe spec True t = (Some link, t')" and "map_of (lt_links t) (link_display link) = None"
  shows "lt_receivers (contract_unsubscribe link t') = lt_receivers t"
  using assms by (auto simp: contract_subscribe_def contract_unsubscribe_def stop_receive_link_def on_link_def Let_def)

text \<open>A subscription that fails leaves its description behind.\<close>

lemma failed_subscribe_leaves_meta:
  "contract_subscribe spec False t = (r, t') \<Longrightarrow> r = None \<and> has_key (lt_meta t') (link_display (LinkId (ucast (lt_next t) + 1)))"
  by (auto simp: contract_subscribe_def Let_def)

text \<open>A decoded frame that is counted late makes an ended reception look running.\<close>

lemma late_frame_revives: "rs_running (rv_stats (rh_receiver (note_decoded_video h)))"
  by (simp add: note_decoded_video_def Let_def)

text \<open>What the contract resolves for an endpoint of a registered directory: the stream the publisher would share.\<close>

lemma resolve_of_directory:
  assumes "registry_sound pk" and "kn_identity pk = Some (p, nm)" and "node_wf p"
    and "\<not> is_self_node p (ur_self_node (kn_registry k))" and "m \<in> set (ed_endpoints (handle_endpoints here pk))"
    and "k' = k\<lparr> kn_registry := register_remote_directory (handle_endpoints here pk) addr (kn_registry k) \<rparr>"
  shows "\<exists>spec. contract_resolve p (em_id m) None k' = Some spec \<and> sb_strategy spec = hd (em_strategies m)
    \<and> sb_relay_url spec = None \<and> sb_stream_id spec = derive_stream_id (em_id m) (em_transport_profile m) (es_pick (hd (em_strategies m)))"
proof -
  note lm = listed_manifest [OF assms(1,2,5)]
  note dir = remote_directory_isolated_base [OF assms(3) lm(5) assms(4) lm(4) assms(5) refl, of addr]
  have "strategies_of m = em_strategies m" using lm(2) by (simp add: strategies_of_def)
  moreover have "p \<noteq> ur_self_node (kn_registry k')"
    using assms(4) by (auto simp: assms(6) is_self_node_def register_remote_directory_def Let_def)
  ultimately show ?thesis using dir by (simp add: contract_resolve_def assms(6) Let_def)
qed

end
