(* ===== verification/Playback.thy ===== *)
theory Playback
  imports Schedule Avc_Config Frame
begin

text \<open>
  Playing on the desktop (\<open>stross-endpoint/src/playback/mod.rs\<close>, \<open>playback/ffmpeg.rs\<close>): frames are pushed into bounded
  queues, a writer feeds them to a decoder process, a reader cuts the decoder's output into pictures, a pacer holds
  them until their play time.  One turn of a loop is one step; what the decoder, its pipes and the channels do is given
  with the step.
\<close>

section \<open>The session\<close>

type_synonym rgba_frame = "(u32 \<times> u32 \<times> bytes) rendered"

record playback_stats =
  pb_video_frames_in :: nat
  pb_video_frames_out :: nat
  pb_video_resyncs :: nat
  pb_audio_blocks_in :: nat
  pb_audio_blocks_out :: nat
  pb_audio_device_ok :: bool
  pb_dropped_push :: nat
  pb_paced_dropped :: nat
  pb_paced_reanchors :: nat
  pb_paced_held :: nat

definition playback_stats_default :: playback_stats where
  "playback_stats_default = \<lparr> pb_video_frames_in = 0, pb_video_frames_out = 0, pb_video_resyncs = 0, pb_audio_blocks_in = 0,
     pb_audio_blocks_out = 0, pb_audio_device_ok = False, pb_dropped_push = 0, pb_paced_dropped = 0, pb_paced_reanchors = 0,
     pb_paced_held = 0 \<rparr>"

definition VIDEO_QUEUE :: nat where
  "VIDEO_QUEUE = 64"

text \<open>
  The bytes not yet cut and the size the last ones were cut by.  The last three fields are history: the frames the
  writer has handled, those given to the running decoder, and the pictures cut from its output.
\<close>

record video_reader =
  vr_acc :: bytes
  vr_last_size :: "(u32 \<times> u32) option"

record video_session =
  vd_stopped :: bool
  vd_open :: bool
  vd_queue :: "frame list"
  vd_size :: "(u32 \<times> u32) option"
  vd_frame_size :: "nat option"
  vd_pts :: "u32 list"
  vd_resync :: bool
  vd_stdin :: "bytes list option"
  vd_config :: "bytes option"
  vd_reader :: "video_reader option"
  vd_out :: "rgba_frame list"
  vd_stats :: playback_stats
  vd_taken :: "frame list"
  vd_fed :: "frame list"
  vd_made :: "rgba_frame list"

definition video_open :: video_session where
  "video_open = \<lparr> vd_stopped = False, vd_open = True, vd_queue = [], vd_size = None, vd_frame_size = None, vd_pts = [],
     vd_resync = False, vd_stdin = None, vd_config = None, vd_reader = None, vd_out = [], vd_stats = playback_stats_default,
     vd_taken = [], vd_fed = [], vd_made = [] \<rparr>"

definition count_video :: "(playback_stats \<Rightarrow> playback_stats) \<Rightarrow> video_session \<Rightarrow> video_session" where
  "count_video f v = v\<lparr> vd_stats := f (vd_stats v) \<rparr>"

datatype push_result = Pushed | PushClosed

text \<open>A frame of the video track; the writer that ended has closed its end of the queue.\<close>

definition video_push :: "frame \<Rightarrow> video_session \<Rightarrow> push_result \<times> video_session" where
  "video_push f v =
     (if vd_stopped v then (PushClosed, v)
      else if \<not> vd_open v then (PushClosed, v)
      else if length (vd_queue v) < VIDEO_QUEUE then (Pushed, v\<lparr> vd_queue := vd_queue v @ [f] \<rparr>)
      else (Pushed, (count_video (\<lambda>s. s\<lparr> pb_dropped_push := pb_dropped_push s + 1 \<rparr>) v)\<lparr> vd_resync := True \<rparr>))"

datatype track_target = ToVideo | ToAudio | ToNobody

definition push_track :: "bool \<Rightarrow> bool \<Rightarrow> frame \<Rightarrow> track_target" where
  "push_track video audio f =
     (if fh_track (f_header f) = TRACK_VIDEO then (if video then ToVideo else ToNobody)
      else if fh_track (f_header f) = TRACK_AUDIO then (if audio then ToAudio else ToNobody)
      else ToNobody)"


section \<open>The size of a stream\<close>

fun first_size :: "(bytes \<Rightarrow> nat option) \<Rightarrow> bytes list \<Rightarrow> (u32 \<times> u32) option" where
  "first_size ep_finder [] = None"
| "first_size ep_finder (n # ns) =
     (case (if nal_type n = Some NAL_SPS then sps_dimensions ep_finder n else None) of
        Some d \<Rightarrow> Some d
      | None \<Rightarrow> first_size ep_finder ns)"

text \<open>Outer \<open>None\<close>: a slice out of range in the scans below.\<close>

definition parse_sps_size :: "(bytes \<Rightarrow> nat option) \<Rightarrow> (bytes \<Rightarrow> nat option) \<Rightarrow> bytes \<Rightarrow> (u32 \<times> u32) option option" where
  "parse_sps_size finder ep_finder payload =
     Option.bind (extract_avc_config finder ep_finder payload) (\<lambda>c.
       case c of
         Some cfg \<Rightarrow>
           if 0 < ac_width cfg \<and> 0 < ac_height cfg then Some (Some (ac_width cfg, ac_height cfg))
           else map_option (\<lambda>(nals, sp). first_size ep_finder (nals @ annexb_finish sp)) (annexb_feed finder annexb_new payload)
       | None \<Rightarrow> map_option (\<lambda>(nals, sp). first_size ep_finder (nals @ annexb_finish sp)) (annexb_feed finder annexb_new payload))"


section \<open>The writer\<close>

text \<open>Whether a decoder can be started, and whether its pipe takes the configuration, the configuration in front of a
  first frame, and the frame.\<close>

record writer_env =
  we_spawn :: bool
  we_config :: bool
  we_first_config :: bool
  we_frame :: bool

definition take_size :: "(bytes \<Rightarrow> (u32 \<times> u32) option) \<Rightarrow> bytes \<Rightarrow> video_session \<Rightarrow> video_session" where
  "take_size parse payload v =
     (case parse payload of
        None \<Rightarrow> v
      | Some (w, h) \<Rightarrow>
          if vd_size v = Some (w, h) then v
          else v\<lparr> vd_size := Some (w, h), vd_frame_size := Some (unat w * unat h * 4) \<rparr>)"

text \<open>The reader of a decoder that is killed ends before the writer goes on; unless the session was stopped it marks the
  loss.\<close>

definition reader_end :: "video_session \<Rightarrow> video_session" where
  "reader_end v =
     (if vd_reader v = None then v
      else v\<lparr> vd_reader := None, vd_resync := (if vd_stopped v then vd_resync v else True) \<rparr>)"

definition end_decoder :: "video_session \<Rightarrow> video_session" where
  "end_decoder v = (reader_end v)\<lparr> vd_stdin := None \<rparr>"

text \<open>A new decoder at a key frame; \<open>None\<close>: it could not be started.\<close>

definition rebuild_decoder :: "(bytes \<Rightarrow> (u32 \<times> u32) option) \<Rightarrow> writer_env \<Rightarrow> frame \<Rightarrow> video_session \<Rightarrow> bool \<times> video_session" where
  "rebuild_decoder parse env f v0 =
     (let v = (end_decoder v0)\<lparr> vd_pts := [], vd_fed := [], vd_made := [] \<rparr> in
      if \<not> we_spawn env then (False, v)
      else
        let first = (case vd_config v of
              Some c \<Rightarrow> if parse (f_payload f) = None \<and> we_first_config env then [c] else []
            | None \<Rightarrow> [])
        in (True, count_video (\<lambda>s. s\<lparr> pb_video_resyncs := pb_video_resyncs s + 1 \<rparr>)
              (v\<lparr> vd_resync := False, vd_stdin := Some first, vd_reader := Some \<lparr> vr_acc = [], vr_last_size = None \<rparr> \<rparr>)))"

definition feed_decoder :: "writer_env \<Rightarrow> frame \<Rightarrow> video_session \<Rightarrow> video_session" where
  "feed_decoder env f v =
     (if vd_resync v \<and> \<not> is_keyframe (f_header f) then v
      else case vd_stdin v of
        None \<Rightarrow> v
      | Some written \<Rightarrow>
          if \<not> we_frame env then v\<lparr> vd_resync := True \<rparr>
          else count_video (\<lambda>s. s\<lparr> pb_video_frames_in := pb_video_frames_in s + 1 \<rparr>)
                 (v\<lparr> vd_stdin := Some (written @ [f_payload f]), vd_pts := vd_pts v @ [fh_pts_ms (f_header f)],
                    vd_fed := vd_fed v @ [f] \<rparr>))"

definition write_frame :: "(bytes \<Rightarrow> (u32 \<times> u32) option) \<Rightarrow> writer_env \<Rightarrow> frame \<Rightarrow> video_session \<Rightarrow> video_session" where
  "write_frame parse env f v0 =
     (let key = is_keyframe (f_header f);
          config = is_config (f_header f);
          v1 = (if config then v0\<lparr> vd_config := Some (f_payload f) \<rparr> else v0)
      in if \<not> key \<and> \<not> config then feed_decoder env f v1
         else
           let v2 = take_size parse (f_payload f) v1;
               v3 = (case vd_stdin v2 of
                   Some written \<Rightarrow> if config \<and> we_config env then v2\<lparr> vd_stdin := Some (written @ [f_payload f]) \<rparr> else v2
                 | None \<Rightarrow> v2)
           in if key \<and> (vd_stdin v3 = None \<or> vd_resync v3) then
                (case rebuild_decoder parse env f v3 of
                   (False, v4) \<Rightarrow> v4
                 | (True, v4) \<Rightarrow> feed_decoder env f v4)
              else feed_decoder env f v3)"

text \<open>The end of the writer: the decoder is killed.\<close>

definition writer_end :: "video_session \<Rightarrow> video_session" where
  "writer_end v = (end_decoder v)\<lparr> vd_open := False \<rparr>"

definition writer_turn :: "(bytes \<Rightarrow> (u32 \<times> u32) option) \<Rightarrow> writer_env \<Rightarrow> video_session \<Rightarrow> video_session" where
  "writer_turn parse env v =
     (case vd_queue v of
        [] \<Rightarrow> if vd_stopped v then writer_end v else v
      | f # fs \<Rightarrow>
          let v1 = v\<lparr> vd_queue := fs \<rparr> in
          if vd_stopped v then writer_end v1 else write_frame parse env f (v1\<lparr> vd_taken := vd_taken v1 @ [f] \<rparr>))"


section \<open>The reader\<close>

definition MAX_FRAME_BYTES :: nat where
  "MAX_FRAME_BYTES = 8 * 1024 * 1024"

definition READ_BUFFER :: nat where
  "READ_BUFFER = 16 * 1024"

text \<open>Cutting pictures off while there are enough bytes; a loop that does not end is \<open>None\<close>.\<close>

partial_function (option) cut_pictures ::
  "nat \<Rightarrow> u32 \<times> u32 \<Rightarrow> bytes \<Rightarrow> u32 list \<Rightarrow> (rgba_frame list \<times> bytes \<times> u32 list) option" where
  "cut_pictures need sz acc pts =
     (if length acc < need then Some ([], acc, pts)
      else
        let p = \<lparr> rf_pts = (case pts of [] \<Rightarrow> 0 | t # _ \<Rightarrow> t), rf_data = (fst sz, snd sz, take need acc) \<rparr>
        in Option.bind (cut_pictures need sz (drop need acc) (drop 1 pts)) (\<lambda>(ps, acc', pts'). Some (p # ps, acc', pts')))"

declare cut_pictures.simps [simp del]

text \<open>Handing pictures on: \<open>takes k\<close> says whether the channel has room for the \<open>k\<close>-th.\<close>

fun hand_on :: "(nat \<Rightarrow> bool) \<Rightarrow> nat \<Rightarrow> rgba_frame list \<Rightarrow> video_session \<Rightarrow> video_session" where
  "hand_on takes k [] v = v"
| "hand_on takes k (p # ps) v =
     hand_on takes (Suc k) ps
       (if takes k then count_video (\<lambda>s. s\<lparr> pb_video_frames_out := pb_video_frames_out s + 1 \<rparr>) (v\<lparr> vd_out := vd_out v @ [p] \<rparr>)
        else count_video (\<lambda>s. s\<lparr> pb_dropped_push := pb_dropped_push s + 1 \<rparr>) v)"

definition bound_acc :: "bytes \<Rightarrow> bytes" where
  "bound_acc acc = (if MAX_FRAME_BYTES < length acc then [] else acc)"

definition reader_read :: "(nat \<Rightarrow> bool) \<Rightarrow> bytes \<Rightarrow> video_session \<Rightarrow> video_session option" where
  "reader_read takes chunk v =
     (case vd_reader v of
        None \<Rightarrow> Some v
      | Some r \<Rightarrow>
          let acc = (if vr_last_size r \<noteq> None \<and> vd_size v \<noteq> vr_last_size r then [] else vr_acc r @ chunk)
          in (case vd_size v of
                None \<Rightarrow> Some (v\<lparr> vd_reader := Some \<lparr> vr_acc = bound_acc acc, vr_last_size = None \<rparr> \<rparr>)
              | Some (w, h) \<Rightarrow>
                  map_option (\<lambda>(ps, acc', pts').
                      hand_on takes 0 ps (v\<lparr> vd_reader := Some \<lparr> vr_acc = bound_acc acc', vr_last_size = Some (w, h) \<rparr>,
                        vd_pts := pts', vd_made := vd_made v @ ps \<rparr>))
                    (cut_pictures (unat w * unat h * 4) (w, h) acc (vd_pts v))))"

definition video_stop :: "video_session \<Rightarrow> video_session" where
  "video_stop v = v\<lparr> vd_stopped := True \<rparr>"



section \<open>Runs\<close>

datatype video_event =
    VPush frame
  | VTurn writer_env
  | VRead "nat \<Rightarrow> bool" bytes
  | VReaderEnd
  | VStop

fun video_step :: "(bytes \<Rightarrow> (u32 \<times> u32) option) \<Rightarrow> video_event \<Rightarrow> video_session \<Rightarrow> video_session option" where
  "video_step parse (VPush f) v = Some (snd (video_push f v))"
| "video_step parse (VTurn env) v = Some (writer_turn parse env v)"
| "video_step parse (VRead takes chunk) v = reader_read takes chunk v"
| "video_step parse VReaderEnd v = Some (reader_end v)"
| "video_step parse VStop v = Some (video_stop v)"

fun video_run :: "(bytes \<Rightarrow> (u32 \<times> u32) option) \<Rightarrow> video_event list \<Rightarrow> video_session \<Rightarrow> video_session option" where
  "video_run parse [] v = Some v"
| "video_run parse (e # es) v = Option.bind (video_step parse e v) (video_run parse es)"


section \<open>Cutting\<close>

fun pictures_of :: "nat \<Rightarrow> u32 \<times> u32 \<Rightarrow> nat \<Rightarrow> bytes \<Rightarrow> u32 list \<Rightarrow> rgba_frame list" where
  "pictures_of need sz 0 acc pts = []"
| "pictures_of need sz (Suc n) acc pts =
     \<lparr> rf_pts = (case pts of [] \<Rightarrow> 0 | t # _ \<Rightarrow> t), rf_data = (fst sz, snd sz, take need acc) \<rparr>
       # pictures_of need sz n (drop need acc) (drop 1 pts)"

lemma cut_pictures_total:
  "0 < need \<Longrightarrow> cut_pictures need sz acc pts =
     Some (pictures_of need sz (length acc div need) acc pts, drop (length acc div need * need) acc, drop (length acc div need) pts)"
proof (induction "length acc" arbitrary: acc pts rule: less_induct)
  case less
  show ?case
  proof (cases "length acc < need")
    case True
    then show ?thesis by (subst cut_pictures.simps) simp
  next
    case False
    then have d: "length acc div need = Suc (length (drop need acc) div need)"
      using less.prems by (simp add: le_div_geq)
    have "cut_pictures need sz (drop need acc) (drop 1 pts) =
        Some (pictures_of need sz (length (drop need acc) div need) (drop need acc) (drop 1 pts),
          drop (length (drop need acc) div need * need) (drop need acc), drop (length (drop need acc) div need) (drop 1 pts))"
      using False less.prems by (intro less.hyps) auto
    then show ?thesis using False by (subst cut_pictures.simps) (simp add: d add.commute)
  qed
qed

lemma length_pictures_of [simp]: "length (pictures_of need sz n acc pts) = n"
  by (induction n arbitrary: acc pts) auto

lemma pictures_of_pts: "n \<le> length pts \<Longrightarrow> map rf_pts (pictures_of need sz n acc pts) = take n pts"
proof (induction n arbitrary: acc pts)
  case (Suc n)
  then show ?case by (cases pts) auto
qed simp

definition well_sized :: "rgba_frame \<Rightarrow> bool" where
  "well_sized p = (case rf_data p of (w, h, rgba) \<Rightarrow> w \<noteq> 0 \<and> h \<noteq> 0 \<and> length rgba = unat w * unat h * 4)"

lemma pictures_of_sized:
  "fst sz \<noteq> 0 \<Longrightarrow> snd sz \<noteq> 0 \<Longrightarrow> need = unat (fst sz) * unat (snd sz) * 4 \<Longrightarrow> n * need \<le> length acc \<Longrightarrow>
     \<forall>p \<in> set (pictures_of need sz n acc pts). well_sized p"
proof (induction n arbitrary: acc pts)
  case (Suc n)
  have "\<forall>p \<in> set (pictures_of need sz n (drop need acc) (drop 1 pts)). well_sized p"
    by (rule Suc.IH) (use Suc.prems in simp_all)
  then show ?case using Suc.prems by (auto simp: well_sized_def)
qed simp

lemma hand_on_fields [simp]:
  "vd_queue (hand_on takes k ps v) = vd_queue v" "vd_size (hand_on takes k ps v) = vd_size v"
  "vd_pts (hand_on takes k ps v) = vd_pts v" "vd_resync (hand_on takes k ps v) = vd_resync v"
  "vd_stdin (hand_on takes k ps v) = vd_stdin v" "vd_reader (hand_on takes k ps v) = vd_reader v"
  "vd_taken (hand_on takes k ps v) = vd_taken v" "vd_fed (hand_on takes k ps v) = vd_fed v" "vd_made (hand_on takes k ps v) = vd_made v"
  by (induction takes k ps v rule: hand_on.induct) (auto simp: count_video_def)

lemma hand_on_out: "set (vd_out (hand_on takes k ps v)) \<subseteq> set (vd_out v) \<union> set ps"
  by (induction takes k ps v rule: hand_on.induct) (auto simp: count_video_def split: if_splits)


section \<open>The invariant\<close>

definition sane_parse :: "(bytes \<Rightarrow> (u32 \<times> u32) option) \<Rightarrow> bool" where
  "sane_parse parse \<longleftrightarrow> (\<forall>p w h. parse p = Some (w, h) \<longrightarrow> w \<noteq> 0 \<and> h \<noteq> 0)"

definition fed_segment :: "frame list \<Rightarrow> video_session \<Rightarrow> bool" where
  "fed_segment taken v \<longleftrightarrow>
     (\<exists>pre post. taken = pre @ vd_fed v @ post \<and> (vd_resync v \<or> vd_stdin v = None \<or> post = []))"

text \<open>What holds of the session but for the frame that is being handled.\<close>

definition video_base :: "video_session \<Rightarrow> bool" where
  "video_base v \<longleftrightarrow>
     (\<forall>w h. vd_size v = Some (w, h) \<longrightarrow> w \<noteq> 0 \<and> h \<noteq> 0)
     \<and> (\<forall>p \<in> set (vd_made v) \<union> set (vd_out v). well_sized p)
     \<and> map rf_pts (vd_made v) @ vd_pts v = map (fh_pts_ms \<circ> f_header) (vd_fed v)
     \<and> (vd_fed v \<noteq> [] \<longrightarrow> is_keyframe (f_header (hd (vd_fed v))))
     \<and> length (vd_queue v) \<le> VIDEO_QUEUE
     \<and> (\<forall>r. vd_reader v = Some r \<longrightarrow> length (vr_acc r) \<le> MAX_FRAME_BYTES)"

definition video_ok :: "video_session \<Rightarrow> bool" where
  "video_ok v \<longleftrightarrow> video_base v \<and> fed_segment (vd_taken v) v \<and> (vd_stdin v \<noteq> None \<and> \<not> vd_resync v \<longrightarrow> vd_fed v \<noteq> [])"

lemmas video_defs = video_ok_def video_base_def fed_segment_def

lemma bound_acc_le [simp]: "length (bound_acc acc) \<le> MAX_FRAME_BYTES"
  by (simp add: bound_acc_def)

lemma video_ok_open: "video_ok video_open"
  by (simp add: video_defs video_open_def)

lemma video_ok_push: "video_ok v \<Longrightarrow> video_ok (snd (video_push f v))"
  by (auto simp: video_defs video_push_def count_video_def)

lemma video_ok_reader_end: "video_ok v \<Longrightarrow> video_ok (reader_end v)"
  by (auto simp: video_defs reader_end_def)

lemma video_ok_end_decoder: "video_ok v \<Longrightarrow> video_ok (end_decoder v)"
  by (auto simp: video_defs reader_end_def end_decoder_def)


text \<open>Feeding the frame \<open>f\<close>, which was taken after \<open>taken\<close>.\<close>

lemma feed_decoder_skips:
  assumes "fed_segment taken v" "vd_resync v' \<or> vd_stdin v' = None" "vd_fed v' = vd_fed v"
  shows "fed_segment (taken @ [f]) v'"
proof -
  obtain pre post where "taken = pre @ vd_fed v @ post" using assms(1) unfolding fed_segment_def by blast
  then have "taken @ [f] = pre @ vd_fed v' @ (post @ [f])" by (simp add: assms(3))
  then show ?thesis unfolding fed_segment_def using assms(2) by blast
qed

lemma feed_decoder_ok:
  assumes base: "video_base v" and seg: "fed_segment taken v" and t: "vd_taken v = taken @ [f]"
    and start: "vd_resync v \<or> vd_stdin v = None \<or> vd_fed v \<noteq> [] \<or> is_keyframe (f_header f)"
    and rebuilt: "\<not> (vd_resync v \<and> vd_stdin v \<noteq> None \<and> is_keyframe (f_header f))"
  shows "video_ok (feed_decoder env f v)"
proof (cases "vd_resync v \<and> \<not> is_keyframe (f_header f) \<or> vd_stdin v = None")
  case True
  then have "feed_decoder env f v = v" by (auto simp: feed_decoder_def split: option.split)
  moreover have "fed_segment (vd_taken v) v" using feed_decoder_skips [OF seg, of v f] True by (auto simp: t)
  ultimately show ?thesis using base True by (auto simp: video_ok_def)
next
  case False
  then obtain written where w: "vd_stdin v = Some written" by auto
  have n: "\<not> vd_resync v" using False rebuilt w by auto
  show ?thesis
  proof (cases "we_frame env")
    case False
    then have e: "feed_decoder env f v = v\<lparr> vd_resync := True \<rparr>" using n w by (simp add: feed_decoder_def)
    have "fed_segment (vd_taken v) (v\<lparr> vd_resync := True \<rparr>)"
      using feed_decoder_skips [OF seg, of "v\<lparr> vd_resync := True \<rparr>" f] by (simp add: t)
    then show ?thesis using base by (simp add: e video_ok_def video_base_def)
  next
    case True
    let ?v = "count_video (\<lambda>s. s\<lparr> pb_video_frames_in := pb_video_frames_in s + 1 \<rparr>)
                 (v\<lparr> vd_stdin := Some (written @ [f_payload f]), vd_pts := vd_pts v @ [fh_pts_ms (f_header f)],
                    vd_fed := vd_fed v @ [f] \<rparr>)"
    have e: "feed_decoder env f v = ?v" using n w True by (simp add: feed_decoder_def)
    obtain pre where "taken = pre @ vd_fed v" using seg n w by (auto simp: fed_segment_def)
    then have "vd_taken ?v = pre @ vd_fed ?v @ []" by (simp add: t count_video_def)
    then have "fed_segment (vd_taken ?v) ?v" unfolding fed_segment_def by blast
    moreover have "is_keyframe (f_header (hd (vd_fed v @ [f])))"
      using base start n w by (cases "vd_fed v") (auto simp: video_base_def)
    then have "video_base ?v" using base by (simp add: video_base_def count_video_def)
    ultimately show ?thesis unfolding e by (simp add: video_ok_def count_video_def)
  qed
qed

lemma take_size_simps [simp]:
  "vd_fed (take_size parse p v) = vd_fed v" "vd_taken (take_size parse p v) = vd_taken v" "vd_stdin (take_size parse p v) = vd_stdin v"
  "vd_resync (take_size parse p v) = vd_resync v"
  by (auto simp: take_size_def split: option.split)

lemma take_size_base: "sane_parse parse \<Longrightarrow> video_base v \<Longrightarrow> video_base (take_size parse p v)"
  by (auto simp: take_size_def video_base_def sane_parse_def split: option.split)

lemma rebuild_base:
  assumes "video_base v" "rebuild_decoder parse env f v = (b, v')"
  shows "video_base v'" "vd_fed v' = []" "vd_taken v' = vd_taken v" "b \<Longrightarrow> \<not> vd_resync v' \<and> vd_stdin v' \<noteq> None"
    "\<not> b \<Longrightarrow> vd_stdin v' = None"
  using assms by (auto simp: rebuild_decoder_def video_base_def end_decoder_def reader_end_def count_video_def Let_def split: if_splits)

lemma write_frame_ok:
  assumes "sane_parse parse" and ok: "video_ok v" and t: "v' = v\<lparr> vd_queue := q, vd_taken := vd_taken v @ [f] \<rparr>"
    and q: "length q \<le> VIDEO_QUEUE"
  shows "video_ok (write_frame parse env f v')"
proof -
  define v1 where "v1 = (if is_config (f_header f) then v'\<lparr> vd_config := Some (f_payload f) \<rparr> else v')"
  define v2 where "v2 = take_size parse (f_payload f) v1"
  define v3 where "v3 = (case vd_stdin v2 of
      Some written \<Rightarrow> if is_config (f_header f) \<and> we_config env then v2\<lparr> vd_stdin := Some (written @ [f_payload f]) \<rparr> else v2
    | None \<Rightarrow> v2)"
  have wf: "write_frame parse env f v' =
      (if \<not> is_keyframe (f_header f) \<and> \<not> is_config (f_header f) then feed_decoder env f v1
       else if is_keyframe (f_header f) \<and> (vd_stdin v3 = None \<or> vd_resync v3) then
         (case rebuild_decoder parse env f v3 of (False, v4) \<Rightarrow> v4 | (True, v4) \<Rightarrow> feed_decoder env f v4)
       else feed_decoder env f v3)"
    unfolding write_frame_def v1_def v2_def v3_def Let_def by (rule refl)
  have b1: "video_base v1" using ok q by (auto simp: v1_def t video_ok_def video_base_def)
  then have b2: "video_base v2" unfolding v2_def by (rule take_size_base [OF assms(1)])
  then have b3: "video_base v3" by (auto simp: v3_def video_base_def split: option.split)
  have f1: "vd_fed v1 = vd_fed v" "vd_taken v1 = vd_taken v @ [f]" "vd_stdin v1 = vd_stdin v" "vd_resync v1 = vd_resync v"
    by (simp_all add: v1_def t)
  have f3: "vd_fed v3 = vd_fed v" "vd_taken v3 = vd_taken v @ [f]" "vd_stdin v3 = None \<longleftrightarrow> vd_stdin v = None" "vd_resync v3 = vd_resync v"
    using f1 by (auto simp: v2_def v3_def split: option.split)
  have seg: "fed_segment (vd_taken v) x" if "vd_fed x = vd_fed v" "vd_stdin x = None \<longleftrightarrow> vd_stdin v = None" "vd_resync x = vd_resync v" for x
    using ok that unfolding video_ok_def fed_segment_def by auto
  have start: "vd_resync v \<or> vd_stdin v = None \<or> vd_fed v \<noteq> []" using ok by (auto simp: video_ok_def)
  consider (plain) "\<not> is_keyframe (f_header f)" "\<not> is_config (f_header f)"
    | (rebuild) "is_keyframe (f_header f)" "vd_stdin v3 = None \<or> vd_resync v3"
    | (go) "\<not> (is_keyframe (f_header f) \<and> (vd_stdin v3 = None \<or> vd_resync v3))" "is_keyframe (f_header f) \<or> is_config (f_header f)"
    by blast
  then show ?thesis
  proof cases
    case plain
    then have "write_frame parse env f v' = feed_decoder env f v1" by (simp add: wf)
    moreover have "video_ok (feed_decoder env f v1)"
      using plain start f1 seg [of v1] by (intro feed_decoder_ok [OF b1, where taken = "vd_taken v"]) auto
    ultimately show ?thesis by simp
  next
    case go
    then have "write_frame parse env f v' = feed_decoder env f v3" unfolding wf by (metis (full_types))
    moreover have "video_ok (feed_decoder env f v3)"
      by (rule feed_decoder_ok [OF b3, where taken = "vd_taken v"]) (use go start f3 seg [of v3] in auto)
    ultimately show ?thesis by simp
  next
    case rebuild
    obtain b v4 where r: "rebuild_decoder parse env f v3 = (b, v4)" by fastforce
    note rb = rebuild_base [OF b3 r]
    have seg4: "fed_segment (vd_taken v @ xs) v4" if "xs = [] \<or> vd_stdin v4 = None" for xs
    proof -
      have "vd_taken v @ xs = (vd_taken v @ xs) @ vd_fed v4 @ []" by (simp add: rb(2))
      then show ?thesis unfolding fed_segment_def by blast
    qed
    have t4: "vd_taken v4 = vd_taken v @ [f]" using rb(3) f3 by simp
    have w: "write_frame parse env f v' = (if b then feed_decoder env f v4 else v4)"
      using rebuild r by (simp add: wf split: bool.split)
    show ?thesis
    proof (cases b)
      case True
      then have "video_ok (feed_decoder env f v4)"
        using rb(1,4) rebuild(1) seg4 [of "[]"] t4 by (intro feed_decoder_ok [where taken = "vd_taken v"]) auto
      then show ?thesis using w True by simp
    next
      case False
      then have "video_ok v4" using rb(1,5) seg4 [of "[f]"] t4 by (simp add: video_ok_def)
      then show ?thesis using w False by simp
    qed
  qed
qed


lemma writer_turn_ok:
  assumes "sane_parse parse" "video_ok v"
  shows "video_ok (writer_turn parse env v)"
proof -
  have closed: "video_ok (x\<lparr> vd_open := False \<rparr>) = video_ok x" for x by (simp add: video_defs)
  have shorter: "video_ok (v\<lparr> vd_queue := fs \<rparr>)" if "vd_queue v = f # fs" for f fs
    using assms(2) that by (auto simp: video_defs)
  show ?thesis
  proof (cases "vd_queue v")
    case Nil
    then show ?thesis using assms(2) by (simp add: writer_turn_def writer_end_def closed video_ok_end_decoder)
  next
    case (Cons f fs)
    have q: "length fs \<le> VIDEO_QUEUE" using assms(2) Cons by (simp add: video_ok_def video_base_def)
    show ?thesis
      using write_frame_ok [OF assms refl q, where f = f and env = env] shorter [OF Cons]
      by (simp add: writer_turn_def Cons writer_end_def closed video_ok_end_decoder Let_def)
  qed
qed

text \<open>A read of the decoder's output, as long as the decoder has not made more pictures than it was given frames.\<close>

lemma reader_read_result:
  assumes "video_base v" "vd_reader v = Some r" "vd_size v = Some (w, h)"
  shows "\<exists>acc n. acc = (if vr_last_size r \<noteq> None \<and> vd_size v \<noteq> vr_last_size r then [] else vr_acc r @ chunk)
    \<and> n = length acc div (unat w * unat h * 4)
    \<and> reader_read takes chunk v = Some (hand_on takes 0 (pictures_of (unat w * unat h * 4) (w, h) n acc (vd_pts v))
        (v\<lparr> vd_reader := Some \<lparr> vr_acc = bound_acc (drop (n * (unat w * unat h * 4)) acc), vr_last_size = Some (w, h) \<rparr>,
            vd_pts := drop n (vd_pts v), vd_made := vd_made v @ pictures_of (unat w * unat h * 4) (w, h) n acc (vd_pts v) \<rparr>))"
proof -
  have "0 < unat w * unat h * 4" using assms(1,3) by (auto simp: video_base_def unat_gt_0)
  from cut_pictures_total [OF this] show ?thesis using assms(2,3) by (simp add: reader_read_def Let_def)
qed

lemma reader_read_ok:
  assumes ok: "video_ok v"
  shows "\<exists>v'. reader_read takes chunk v = Some v' \<and> (length (vd_made v') \<le> length (vd_fed v') \<longrightarrow> video_ok v')"
proof (cases "vd_reader v")
  case None
  then show ?thesis using ok by (simp add: reader_read_def)
next
  case (Some r)
  show ?thesis
  proof (cases "vd_size v")
    case None
    then show ?thesis using ok Some by (simp add: reader_read_def video_defs Let_def)
  next
    case size: (Some wh)
    obtain w h where wh: "wh = (w, h)" by (cases wh)
    have base: "video_base v" using ok by (simp add: video_ok_def)
    let ?need = "unat w * unat h * 4"
    obtain acc n where n: "n = length acc div ?need"
      "reader_read takes chunk v = Some (hand_on takes 0 (pictures_of ?need (w, h) n acc (vd_pts v))
        (v\<lparr> vd_reader := Some \<lparr> vr_acc = bound_acc (drop (n * ?need) acc), vr_last_size = Some (w, h) \<rparr>,
            vd_pts := drop n (vd_pts v), vd_made := vd_made v @ pictures_of ?need (w, h) n acc (vd_pts v) \<rparr>))"
      using reader_read_result [OF base Some size [unfolded wh]] by blast
    let ?ps = "pictures_of ?need (w, h) n acc (vd_pts v)"
    let ?v = "v\<lparr> vd_reader := Some \<lparr> vr_acc = bound_acc (drop (n * ?need) acc), vr_last_size = Some (w, h) \<rparr>,
            vd_pts := drop n (vd_pts v), vd_made := vd_made v @ ?ps \<rparr>"
    have "w \<noteq> 0" "h \<noteq> 0" using base size wh by (auto simp: video_base_def)
    then have sized: "\<forall>p \<in> set ?ps. well_sized p" by (intro pictures_of_sized) (simp_all add: n(1))
    have pts: "map rf_pts (vd_made v) @ vd_pts v = map (fh_pts_ms \<circ> f_header) (vd_fed v)" using base by (simp add: video_base_def)
    have "video_ok (hand_on takes 0 ?ps ?v)" if le: "length (vd_made v @ ?ps) \<le> length (vd_fed v)"
    proof -
      have "length (vd_made v) + length (vd_pts v) = length (vd_fed v)" using arg_cong [OF pts, of length] by simp
      then have "map rf_pts ?ps = take n (vd_pts v)" using le by (intro pictures_of_pts) simp
      then have "map rf_pts (vd_made v @ ?ps) @ drop n (vd_pts v) = map (fh_pts_ms \<circ> f_header) (vd_fed v)"
        using pts by simp
      then have "video_base (hand_on takes 0 ?ps ?v)"
        using base sized hand_on_out [of takes 0 ?ps ?v] by (auto simp: video_base_def)
      then show ?thesis using ok by (simp add: video_ok_def fed_segment_def)
    qed
    then show ?thesis using n(2) by simp
  qed
qed

lemma video_step_ok:
  assumes "sane_parse parse" "video_ok v"
  shows "\<exists>v'. video_step parse ev v = Some v' \<and> (length (vd_made v') \<le> length (vd_fed v') \<longrightarrow> video_ok v')"
proof (cases ev)
  case (VRead takes chunk)
  then show ?thesis using reader_read_ok [OF assms(2)] by simp
next
  case VStop
  then show ?thesis using assms(2) by (simp add: video_stop_def video_defs)
qed (use assms in \<open>simp_all add: video_ok_push writer_turn_ok video_ok_reader_end\<close>)

lemma video_run_append: "video_run parse (es @ fs) v = Option.bind (video_run parse es v) (video_run parse fs)"
  by (induction es arbitrary: v) (auto simp: bind_eq_Some_conv split: bind_splits)

lemma video_run_ok:
  assumes sane: "sane_parse parse"
    and keeps: "\<And>k v. video_run parse (take k evs) video_open = Some v \<Longrightarrow> length (vd_made v) \<le> length (vd_fed v)"
  shows "\<exists>v. video_run parse evs video_open = Some v \<and> video_ok v"
  using keeps
proof (induction evs rule: rev_induct)
  case Nil
  show ?case by (simp add: video_ok_open)
next
  case (snoc ev evs)
  have "length (vd_made v) \<le> length (vd_fed v)" if "video_run parse (take k evs) video_open = Some v" for k v
  proof (cases "k \<le> length evs")
    case True
    then show ?thesis using snoc.prems [of k v] that by simp
  next
    case False
    then show ?thesis using snoc.prems [of "length evs" v] that by simp
  qed
  then obtain v where v: "video_run parse evs video_open = Some v" "video_ok v" using snoc.IH by blast
  obtain v' where v': "video_step parse ev v = Some v'" "length (vd_made v') \<le> length (vd_fed v') \<longrightarrow> video_ok v'"
    using video_step_ok [OF sane v(2)] by blast
  have r: "video_run parse (evs @ [ev]) video_open = Some v'" by (simp add: video_run_append v v')
  then show ?case using v'(2) snoc.prems [of "Suc (length evs)" v'] by simp
qed


section \<open>The parser of the code\<close>

lemma avc_unit_end_some:
  assumes "finds_first NAL_START_CODE finder" "hdr \<le> length au"
  shows "avc_unit_end finder au hdr \<noteq> None"
proof (cases "first_match NAL_START_CODE (drop hdr au)")
  case None
  then show ?thesis by (simp add: avc_unit_end_def finds_firstD [OF assms(1)])
next
  case (Some r)
  then have "r \<le> length (drop hdr au)" using first_match_hit by fastforce
  then show ?thesis using Some assms(2) by (simp add: avc_unit_end_def finds_firstD [OF assms(1)])
qed

lemma avc_scan_some:
  assumes found: "finds_first NAL_START_CODE finder"
  shows "pos \<le> length au \<Longrightarrow> avc_scan finder ep_finder au pos st \<noteq> None"
proof (induction "length au - pos" arbitrary: pos st rule: less_induct)
  case less
  show ?case
  proof (cases "finder (drop pos au)")
    case None
    then show ?thesis using less.prems by (subst avc_scan.simps) simp
  next
    case rel: (Some rel)
    define hdr where "hdr = pos + rel + 3"
    show ?thesis
    proof (cases "length au \<le> hdr")
      case True
      then show ?thesis using less.prems rel by (subst avc_scan.simps) (simp add: hdr_def)
    next
      case False
      then obtain e n where u: "avc_unit_end finder au hdr = Some (e, n)"
        using avc_unit_end_some [OF found, of hdr au] by auto
      have n: "hdr \<le> n" "n \<le> length au" using avc_unit_end_next [OF u] False by auto
      have "avc_scan finder ep_finder au n st' \<noteq> None" for st'
        using n False by (intro less.hyps) (simp_all add: hdr_def)
      then show ?thesis using less.prems rel False u
        by (subst avc_scan.simps) (simp add: hdr_def [symmetric] Let_def split: option.split)
    qed
  qed
qed

lemma parse_sps_size_some:
  assumes "finds_first NAL_START_CODE finder"
  shows "\<exists>r. parse_sps_size finder ep_finder p = Some r"
proof -
  obtain st where st: "avc_scan finder ep_finder p 0 ([], False, 0, 0) = Some st"
    using avc_scan_some [OF assms, of 0 p] by blast
  obtain out sp where f: "annexb_feed finder annexb_new p = Some (out, sp)"
    using feed_keeps_scan_invariant [OF assms conjunct1 [OF splitter_inv_new [unfolded splitter_inv_def]], of p] by blast
  show ?thesis unfolding parse_sps_size_def extract_avc_config_def st f by (simp split: option.split)
qed

lemma sps_dimensions_nonzero: "sps_dimensions ep_finder n = Some (w, h) \<Longrightarrow> w \<noteq> 0 \<and> h \<noteq> 0"
  by (auto simp: sps_dimensions_def bind_eq_Some_conv split: if_splits)

lemma first_size_nonzero: "first_size ep_finder ns = Some (w, h) \<Longrightarrow> w \<noteq> 0 \<and> h \<noteq> 0"
  by (induction ns) (auto split: option.splits if_splits dest: sps_dimensions_nonzero)

lemma parse_sps_size_nonzero: "parse_sps_size finder ep_finder p = Some (Some (w, h)) \<Longrightarrow> w \<noteq> 0 \<and> h \<noteq> 0"
  by (auto simp: parse_sps_size_def bind_eq_Some_conv word_gt_0 dest: first_size_nonzero split: option.splits if_splits)


section \<open>Pictures and their times\<close>

text \<open>The decoder has never put out more pictures than it was given frames.\<close>

definition decoder_keeps_up :: "(bytes \<Rightarrow> (u32 \<times> u32) option) \<Rightarrow> video_event list \<Rightarrow> bool" where
  "decoder_keeps_up parse evs \<longleftrightarrow>
     (\<forall>k \<le> length evs. \<forall>v. video_run parse (take k evs) video_open = Some v \<longrightarrow> length (vd_made v) \<le> length (vd_fed v))"

lemma decoder_keeps_upD:
  assumes "decoder_keeps_up parse evs" "video_run parse (take k evs) video_open = Some v"
  shows "length (vd_made v) \<le> length (vd_fed v)"
proof (cases "k \<le> length evs")
  case False
  then have "video_run parse (take (length evs) evs) video_open = Some v" using assms(2) by simp
  then show ?thesis using assms(1) unfolding decoder_keeps_up_def by blast
qed (use assms in \<open>auto simp: decoder_keeps_up_def\<close>)



definition tiny_key :: bytes where
  "tiny_key = [0, 0, 0, 1, 0x67, 0x4d, 0, 0x28, 0xda, 0x7e, 0x22, 0x21, 0, 0, 1, 0x68, 0xce, 0, 0, 1, 0x65, 0x88]"

definition naive_size :: "bytes \<Rightarrow> (u32 \<times> u32) option" where
  "naive_size p = the (parse_sps_size (first_match NAL_START_CODE) (first_match EP_CODE) p)"

abbreviation video_frame :: "u8 \<Rightarrow> u32 \<Rightarrow> bytes \<Rightarrow> frame" where
  "video_frame flags pts payload \<equiv> frame_new TRACK_VIDEO CODEC_H264 flags pts payload"

definition all_goes :: writer_env where
  "all_goes = \<lparr> we_spawn = True, we_config = True, we_first_config = True, we_frame = True \<rparr>"

lemma naive_size_tiny: "naive_size tiny_key = Some (2, 2)"
  unfolding naive_size_def by code_simp

lemmas video_run_simps = video_push_def writer_turn_def write_frame_def take_size_def rebuild_decoder_def end_decoder_def reader_end_def
  feed_decoder_def count_video_def video_open_def frame_new_def playback_stats_default_def VIDEO_QUEUE_def all_goes_def Let_def

definition key_events :: "video_event list" where
  "key_events = [VPush (video_frame FLAG_KEYFRAME 40 tiny_key), VTurn all_goes, VRead (\<lambda>_. True) (replicate 16 7 @ [9])]"

text \<open>One key frame, its turn, and a read of seventeen bytes: one picture of two by two points.\<close>

lemma key_events_run:
  "\<exists>v. video_run naive_size key_events video_open = Some v \<and> length (vd_made v) = 1 \<and> length (vd_fed v) = 1
     \<and> vd_out v = [\<lparr> rf_pts = 40, rf_data = (2, 2, replicate 16 7) \<rparr>]"
  by (simp add: key_events_def video_run_simps naive_size_tiny is_keyframe_def is_config_def flag_defs reader_read_def
      cut_pictures.simps bound_acc_def MAX_FRAME_BYTES_def)

lemma key_events_keep_up: "decoder_keeps_up naive_size key_events"
proof -
  have "length (vd_made v) \<le> length (vd_fed v)" if k: "k \<le> 3" and r: "video_run naive_size (take k key_events) video_open = Some v" for k v
  proof (cases "k = 3")
    case True
    then show ?thesis using r key_events_run by (auto simp: key_events_def)
  next
    case False
    then consider "k = 0" | "k = 1" | "k = 2" using k by linarith
    then show ?thesis using r
      by cases (auto simp: key_events_def video_run_simps naive_size_tiny is_keyframe_def is_config_def flag_defs)
  qed
  moreover have "length key_events = 3" by (simp add: key_events_def)
  ultimately show ?thesis unfolding decoder_keeps_up_def by auto
qed




section \<open>How the output is cut\<close>

lemma pictures_of_add:
  "pictures_of need sz (n + m) acc pts = pictures_of need sz n acc pts @ pictures_of need sz m (drop (n * need) acc) (drop n pts)"
  by (induction n arbitrary: acc pts) (simp_all add: add.commute)

lemma pictures_of_prefix: "n * need \<le> length a \<Longrightarrow> pictures_of need sz n (a @ b) pts = pictures_of need sz n a pts"
  by (induction n arbitrary: a pts) simp_all

lemma pictures_of_split:
  assumes "0 < need"
  shows "pictures_of need sz (length (a @ b) div need) (a @ b) pts =
    pictures_of need sz (length a div need) a pts
      @ pictures_of need sz (length (drop (length a div need * need) a @ b) div need)
          (drop (length a div need * need) a @ b) (drop (length a div need) pts)"
proof -
  define n where "n = length a div need"
  have le: "n * need \<le> length a" by (simp add: n_def)
  have "length (a @ b) = n * need + length (drop (n * need) a @ b)" using le by simp
  then have d: "length (a @ b) div need = n + length (drop (n * need) a @ b) div need"
    using assms by (metis div_mult_self3 less_irrefl add.commute)
  show ?thesis unfolding n_def [symmetric] d pictures_of_add pictures_of_prefix [OF le] using le by simp
qed

definition reads :: "(nat \<Rightarrow> bool) \<Rightarrow> bytes list \<Rightarrow> video_event list" where
  "reads takes chunks = map (VRead takes) chunks"

text \<open>A reader of pictures of the size \<open>sz\<close>, the session having that size.\<close>

definition reads_size :: "u32 \<times> u32 \<Rightarrow> video_session \<Rightarrow> bool" where
  "reads_size sz v \<longleftrightarrow> fst sz \<noteq> 0 \<and> snd sz \<noteq> 0 \<and> vd_size v = Some sz
     \<and> (\<exists>r. vd_reader v = Some r \<and> (vr_last_size r = None \<or> vr_last_size r = Some sz))"

definition picture_bytes :: "u32 \<times> u32 \<Rightarrow> nat" where
  "picture_bytes sz = unat (fst sz) * unat (snd sz) * 4"

definition kept :: "video_session \<Rightarrow> bytes" where
  "kept v = (case vd_reader v of Some r \<Rightarrow> vr_acc r | None \<Rightarrow> [])"

lemma picture_bytes_pos: "reads_size sz v \<Longrightarrow> 0 < picture_bytes sz"
  by (auto simp: reads_size_def picture_bytes_def unat_gt_0)

lemma read_of_size:
  fixes v :: video_session and chunk :: bytes
  assumes "reads_size sz v"
  defines "acc \<equiv> kept v @ chunk" and "n \<equiv> length (kept v @ chunk) div picture_bytes sz"
  shows "\<exists>v'. reader_read takes chunk v = Some v' \<and> reads_size sz v'
    \<and> vd_made v' = vd_made v @ pictures_of (picture_bytes sz) sz n acc (vd_pts v)
    \<and> vd_pts v' = drop n (vd_pts v) \<and> kept v' = bound_acc (drop (n * picture_bytes sz) acc)"
proof -
  obtain w h where sz: "sz = (w, h)" by (cases sz)
  obtain r where r: "vd_reader v = Some r" "vr_last_size r = None \<or> vr_last_size r = Some sz" "vd_size v = Some sz"
    using assms(1) by (auto simp: reads_size_def)
  have pos: "0 < unat w * unat h * 4" using picture_bytes_pos [OF assms(1)] by (simp add: picture_bytes_def sz)
  have keep: "(if vr_last_size r \<noteq> None \<and> vd_size v \<noteq> vr_last_size r then [] else vr_acc r @ chunk) = acc"
    using r by (auto simp: acc_def kept_def)
  show ?thesis
    unfolding reader_read_def r(1) option.case Let_def keep unfolding r(3) option.case sz prod.case cut_pictures_total [OF pos]
    using assms(1) by (simp add: n_def acc_def picture_bytes_def sz reads_size_def kept_def)
qed

lemma reads_of_size:
  assumes "picture_bytes sz \<le> MAX_FRAME_BYTES"
  shows "reads_size sz v \<Longrightarrow> length (kept v) < picture_bytes sz \<Longrightarrow>
    \<exists>v'. video_run parse (reads takes chunks) v = Some v'
      \<and> vd_made v' = vd_made v @ pictures_of (picture_bytes sz) sz (length (kept v @ concat chunks) div picture_bytes sz)
          (kept v @ concat chunks) (vd_pts v)"
proof (induction chunks arbitrary: v)
  case Nil
  then show ?case by (simp add: reads_def)
next
  case (Cons c cs)
  let ?need = "picture_bytes sz" and ?a = "kept v @ c"
  have pos: "0 < ?need" by (rule picture_bytes_pos [OF Cons.prems(1)])
  obtain v1 where v1: "reader_read takes c v = Some v1" "reads_size sz v1"
      "vd_made v1 = vd_made v @ pictures_of ?need sz (length ?a div ?need) ?a (vd_pts v)"
      "vd_pts v1 = drop (length ?a div ?need) (vd_pts v)" "kept v1 = bound_acc (drop (length ?a div ?need * ?need) ?a)"
    using read_of_size [OF Cons.prems(1), of takes c] by blast
  have short: "length (drop (length ?a div ?need * ?need) ?a) < ?need"
    using pos by (simp only: length_drop minus_div_mult_eq_mod) simp
  then have k1: "kept v1 = drop (length ?a div ?need * ?need) ?a" using assms v1(5) by (simp add: bound_acc_def)
  obtain v2 where v2: "video_run parse (reads takes cs) v1 = Some v2"
      "vd_made v2 = vd_made v1 @ pictures_of ?need sz (length (kept v1 @ concat cs) div ?need) (kept v1 @ concat cs) (vd_pts v1)"
    using Cons.IH [OF v1(2)] short k1 by auto
  have "video_run parse (reads takes (c # cs)) v = Some v2" using v1(1) v2(1) by (simp add: reads_def)
  moreover have "vd_made v2 = vd_made v @ pictures_of ?need sz (length (?a @ concat cs) div ?need) (?a @ concat cs) (vd_pts v)"
    unfolding pictures_of_split [OF pos, of sz ?a "concat cs"] v2(2) v1(3) v1(4) k1 by simp
  ultimately show ?case by simp
qed

text \<open>Pictures that do not fit into what is kept between two reads: nothing is ever cut.\<close>

lemma big_pictures_never_come:
  assumes "MAX_FRAME_BYTES + READ_BUFFER < picture_bytes sz"
  shows "reads_size sz v \<Longrightarrow> length (kept v) \<le> MAX_FRAME_BYTES \<Longrightarrow> \<forall>c \<in> set chunks. length c \<le> READ_BUFFER \<Longrightarrow>
    \<exists>v'. video_run parse (reads takes chunks) v = Some v' \<and> vd_made v' = vd_made v"
proof (induction chunks arbitrary: v)
  case Nil
  then show ?case by (simp add: reads_def)
next
  case (Cons c cs)
  have "length (kept v @ c) < picture_bytes sz" using assms Cons.prems(2,3) by simp
  then have n: "length (kept v @ c) div picture_bytes sz = 0" by simp
  obtain v1 where v1: "reader_read takes c v = Some v1" "reads_size sz v1" "vd_made v1 = vd_made v" "kept v1 = bound_acc (kept v @ c)"
    using read_of_size [OF Cons.prems(1), of takes c] unfolding n by auto
  have "\<exists>v'. video_run parse (reads takes cs) v1 = Some v' \<and> vd_made v' = vd_made v1"
    using Cons.prems(3) v1(4) by (intro Cons.IH [OF v1(2)]) simp_all
  then show ?case using v1 by (auto simp: reads_def)
qed


lemma reads_total: "reads_size sz v \<Longrightarrow> \<exists>v'. video_run parse (reads takes chunks) v = Some v'"
proof (induction chunks arbitrary: v)
  case Nil
  then show ?case by (simp add: reads_def)
next
  case (Cons c cs)
  obtain v1 where v1: "reader_read takes c v = Some v1" "reads_size sz v1" using read_of_size [OF Cons.prems, of takes c] by blast
  then show ?case using Cons.IH [OF v1(2)] by (simp add: reads_def)
qed

text \<open>The \<open>i\<close>-th picture of an output, read off at once.\<close>

definition picture_at :: "u32 \<times> u32 \<Rightarrow> bytes \<Rightarrow> u32 list \<Rightarrow> nat \<Rightarrow> rgba_frame" where
  "picture_at sz all_bytes pts i =
     \<lparr> rf_pts = (if i < length pts then pts ! i else 0),
       rf_data = (fst sz, snd sz, take (picture_bytes sz) (drop (i * picture_bytes sz) all_bytes)) \<rparr>"

lemma pictures_of_map:
  "pictures_of (picture_bytes sz) sz n all_bytes pts = map (picture_at sz all_bytes pts) [0..<n]"
proof (induction n arbitrary: all_bytes pts)
  case (Suc n)
  have "picture_at sz (drop (picture_bytes sz) all_bytes) (drop 1 pts) i = picture_at sz all_bytes pts (Suc i)" for i
    by (cases pts) (simp_all add: picture_at_def add.commute)
  moreover have "[0..<Suc n] = 0 # map Suc [0..<n]" by (simp add: upt_conv_Cons map_Suc_upt del: upt_Suc)
  moreover have "(case pts of [] \<Rightarrow> 0 | t # _ \<Rightarrow> t) = (if 0 < length pts then pts ! 0 else 0)" by (cases pts) simp_all
  ultimately show ?case by (simp add: Suc.IH picture_at_def comp_def del: upt_Suc)
qed simp


text \<open>A decoder of pictures of one by two points, nine bytes of output in three reads.\<close>

definition small_reader :: video_session where
  "small_reader = video_open\<lparr> vd_size := Some (1, 2), vd_pts := [40, 80], vd_reader := Some \<lparr> vr_acc = [], vr_last_size = None \<rparr> \<rparr>"



section \<open>What goes wrong\<close>

text \<open>
  A configuration frame that is no key frame is written twice, and its time stamp is queued though no picture comes of
  it: the picture of the next frame is shown with the time of the configuration.
\<close>

definition config_events :: "video_event list" where
  "config_events = [VPush (video_frame FLAG_KEYFRAME 40 tiny_key), VTurn all_goes, VPush (video_frame FLAG_CONFIG 60 [0, 0, 1, 0x68]),
     VTurn all_goes, VPush (video_frame 0 80 [0, 0, 1, 0x41]), VTurn all_goes, VRead (\<lambda>_. True) (replicate 32 7)]"

lemma naive_size_pps: "naive_size [0, 0, 1, 0x68] = None"
  unfolding naive_size_def by code_simp

lemma config_shifts_the_times:
  "\<exists>v. video_run naive_size config_events video_open = Some v
    \<and> vd_stdin v = Some [tiny_key, [0, 0, 1, 0x68], [0, 0, 1, 0x68], [0, 0, 1, 0x41]]
    \<and> map rf_pts (vd_out v) = [40, 60] \<and> vd_pts v = [80]"
  by (simp add: config_events_def video_run_simps naive_size_tiny naive_size_pps is_keyframe_def is_config_def flag_defs reader_read_def
      cut_pictures.simps bound_acc_def MAX_FRAME_BYTES_def)

text \<open>A key frame of another size goes to the decoder that runs; only the reader changes its size.\<close>

lemma new_size_keeps_the_decoder:
  assumes "vd_stdin v = Some written" "\<not> vd_resync v" "is_keyframe (f_header f)" "\<not> is_config (f_header f)"
    "parse (f_payload f) = Some (w, h)" "vd_size v \<noteq> Some (w, h)" "we_frame env"
  shows "vd_stdin (write_frame parse env f v) = Some (written @ [f_payload f])"
    and "vd_size (write_frame parse env f v) = Some (w, h)"
    and "vd_reader (write_frame parse env f v) = vd_reader v"
    and "pb_video_resyncs (vd_stats (write_frame parse env f v)) = pb_video_resyncs (vd_stats v)"
  using assms by (simp_all add: write_frame_def take_size_def feed_decoder_def count_video_def)

text \<open>
  A full queue drops a frame and asks for a key frame; a key frame that was queued before the loss answers, and the
  frames on both sides of the gap go to the new decoder.
\<close>

lemma gap_reaches_the_decoder:
  fixes v :: video_session and lost f :: frame
  assumes "vd_queue v = k # fs" "length fs = 63" "is_keyframe (f_header k)" "\<not> is_config (f_header k)"
    and "\<not> vd_stopped v" "vd_open v" "we_spawn env" "we_frame env"
    and v1_def: "v1 = snd (video_push lost v)" and v2_def: "v2 = writer_turn parse env v1"
    and v3_def: "v3 = snd (video_push f v2)"
  shows "vd_resync v1" "pb_dropped_push (vd_stats v1) = pb_dropped_push (vd_stats v) + 1"
    "vd_fed v3 = [k]" "vd_queue v3 = fs @ [f]" "\<not> vd_resync v3" "vd_stdin v3 \<noteq> None"
proof -
  have v1: "v1 = v\<lparr> vd_stats := (vd_stats v)\<lparr> pb_dropped_push := pb_dropped_push (vd_stats v) + 1 \<rparr>, vd_resync := True \<rparr>"
    using assms(1,2,5,6) by (simp add: v1_def video_push_def count_video_def VIDEO_QUEUE_def)
  then show "vd_resync v1" "pb_dropped_push (vd_stats v1) = pb_dropped_push (vd_stats v) + 1" by simp_all
  have take_size_stop: "vd_stopped (take_size parse p x) = vd_stopped x" "vd_open (take_size parse p x) = vd_open x"
    "vd_queue (take_size parse p x) = vd_queue x" for p x
    by (simp_all add: take_size_def split: option.split)
  have v2: "vd_fed v2 = [k]" "vd_queue v2 = fs" "\<not> vd_resync v2" "vd_stdin v2 \<noteq> None" "\<not> vd_stopped v2" "vd_open v2"
    unfolding v2_def v1 using assms(1,3-8)
    by (simp_all add: writer_turn_def write_frame_def Let_def rebuild_decoder_def feed_decoder_def count_video_def end_decoder_def
        reader_end_def take_size_stop split: option.split)
  then show "vd_fed v3 = [k]" "vd_queue v3 = fs @ [f]" "\<not> vd_resync v3" "vd_stdin v3 \<noteq> None"
    using assms(2) by (simp_all add: v3_def video_push_def VIDEO_QUEUE_def)
qed

end
