(* ===== verification/Playback_Out.thy ===== *)
theory Playback_Out
  imports Playback
begin

text \<open>
  What leaves a playback session: the pacer that holds pictures until their play time (\<open>pacer_loop\<close> of
  \<open>playback/ffmpeg.rs\<close>), the audio loops there, the ring of samples of \<open>playback/audio_out.rs\<close>, and the session as a
  whole (\<open>playback/mod.rs\<close>).  A sample is the bit pattern of an \<open>f32\<close>.
\<close>

section \<open>The pacer\<close>

definition OUT_QUEUE :: nat where
  "OUT_QUEUE = 32"

text \<open>\<open>px_chan\<close> is what the output channel holds, \<open>px_sent\<close> what ever went into it (history).\<close>

record pacer =
  px_sched :: "(u32 \<times> u32 \<times> bytes) sched"
  px_last :: "nat \<times> nat \<times> nat"
  px_chan :: "rgba_frame list"
  px_receiver :: bool
  px_sent :: "rgba_frame list"
  px_ended :: bool
  px_stats :: playback_stats

definition pacer_new :: "nat \<Rightarrow> nat \<Rightarrow> pacer" where
  "pacer_new target jump = \<lparr> px_sched = sched_new target jump, px_last = (0, 0, 0), px_chan = [], px_receiver = True,
     px_sent = [], px_ended = False, px_stats = playback_stats_default \<rparr>"

text \<open>The closure given to the scheduler: a full channel and one without receiver are the same error.\<close>

type_synonym pacer_out = "rgba_frame list \<times> rgba_frame list \<times> playback_stats"

definition hand_out :: "bool \<Rightarrow> rgba_frame \<Rightarrow> pacer_out \<Rightarrow> (unit + unit) \<times> pacer_out" where
  "hand_out receiver p c =
     (case c of (chan, sent, st) \<Rightarrow>
        if receiver \<and> length chan < OUT_QUEUE then (Inr (), (chan @ [p], sent @ [p], st))
        else (Inl (), (chan, sent, st\<lparr> pb_dropped_push := pb_dropped_push st + 1 \<rparr>)))"

definition pacer_emit :: "nat \<Rightarrow> pacer \<Rightarrow> pacer" where
  "pacer_emit now x =
     (case emit_due_with now (hand_out (px_receiver x)) (px_chan x, px_sent x, px_stats x) (px_sched x) of
        (r, (chan, sent, st), s) \<Rightarrow>
          x\<lparr> px_sched := s, px_chan := chan, px_sent := sent, px_stats := st, px_ended := (case r of Inl _ \<Rightarrow> True | Inr _ \<Rightarrow> px_ended x) \<rparr>)"

text \<open>How long the pacer waits: \<open>None\<close>, until a picture comes.\<close>

definition pacer_wait :: "nat \<Rightarrow> pacer \<Rightarrow> nat option" where
  "pacer_wait now x = map_option (\<lambda>t. t - now) (next_play_at (px_sched x))"

definition px_counts :: "pacer \<Rightarrow> nat \<times> nat \<times> nat" where
  "px_counts x = (let st = sd_stats (px_sched x) in (ss_dropped_watermark st, ss_reanchors st, ss_held st))"

definition publish :: "pacer \<Rightarrow> pacer" where
  "publish x =
     (if px_counts x = px_last x then x
      else case px_counts x of (dropped, reanchors, held) \<Rightarrow>
        x\<lparr> px_last := (dropped, reanchors, held),
           px_stats := (px_stats x)\<lparr> pb_paced_dropped := dropped, pb_paced_reanchors := reanchors, pb_paced_held := held \<rparr> \<rparr>)"

definition pacer_got :: "rgba_frame \<Rightarrow> nat \<Rightarrow> pacer \<Rightarrow> pacer" where
  "pacer_got p now x = publish (x\<lparr> px_sched := snd (drop_over_watermark now (sched_push p now (px_sched x))) \<rparr>)"

datatype pacer_recv = Got rgba_frame | TimedOut | Gone

definition pacer_turn :: "bool \<Rightarrow> nat \<Rightarrow> nat \<Rightarrow> pacer_recv \<Rightarrow> pacer \<Rightarrow> pacer" where
  "pacer_turn stopped now now' recv x =
     (if px_ended x then x
      else if stopped then x\<lparr> px_ended := True \<rparr>
      else
        let x1 = pacer_emit now x in
        if px_ended x1 then x1
        else case recv of
            Got p \<Rightarrow> pacer_got p now' x1
          | TimedOut \<Rightarrow> x1
          | Gone \<Rightarrow> x1\<lparr> px_ended := True \<rparr>)"

text \<open>The window takes a picture, or goes away.\<close>

datatype pacer_event = PacerTurn bool nat nat pacer_recv | PictureTaken | WindowClosed

fun pacer_step :: "pacer_event \<Rightarrow> pacer \<Rightarrow> pacer" where
  "pacer_step (PacerTurn stopped now now' recv) x = pacer_turn stopped now now' recv x"
| "pacer_step PictureTaken x = x\<lparr> px_chan := drop 1 (px_chan x) \<rparr>"
| "pacer_step WindowClosed x = x\<lparr> px_receiver := False \<rparr>"


section \<open>What the pacer keeps\<close>

text \<open>The closure variant of the scheduler takes pictures off the front and counts them, whatever the closure says.\<close>

lemma emit_with_loop_takes:
  "\<exists>k \<le> length qs. \<exists>r c'. emit_with_loop now f qs c s =
     (r, c', s\<lparr> sd_queue := drop k qs, sd_stats := (sd_stats s)\<lparr> ss_emitted := ss_emitted (sd_stats s) + k \<rparr> \<rparr>)
     \<and> (\<forall>q \<in> set (take k qs). snd q \<le> now)"
proof (induction qs arbitrary: c s)
  case Nil
  show ?case by (intro exI [of _ 0]) simp
next
  case (Cons q qs)
  obtain x t where q: "q = (x, t)" by (cases q)
  define s1 where "s1 = sched_stat (\<lambda>t. t\<lparr> ss_emitted := ss_emitted t + 1 \<rparr>) s"
  show ?case
  proof (cases "now < t")
    case True
    then show ?thesis by (intro exI [of _ 0]) (simp add: q)
  next
    case due: False
    obtain r c' where f: "f x c = (r, c')" by (cases "f x c")
    show ?thesis
    proof (cases r)
      case (Inl e)
      then have "emit_with_loop now f (q # qs) c s = (Inl e, c', s1\<lparr> sd_queue := qs \<rparr>)"
        using due f by (simp add: q s1_def)
      then show ?thesis using due by (intro exI [of _ 1]) (simp add: q s1_def sched_stat_def)
    next
      case (Inr u)
      have e: "emit_with_loop now f (q # qs) c s = emit_with_loop now f qs c' s1"
        using due f by (simp add: q s1_def Inr)
      obtain k r' c'' where k: "k \<le> length qs" "\<forall>q \<in> set (take k qs). snd q \<le> now"
          "emit_with_loop now f qs c' s1 = (r', c'',
            s1\<lparr> sd_queue := drop k qs, sd_stats := (sd_stats s1)\<lparr> ss_emitted := ss_emitted (sd_stats s1) + k \<rparr> \<rparr>)"
        using Cons.IH [of c' s1] by blast
      then show ?thesis using due unfolding e
        by (intro exI [of _ "Suc k"]) (simp add: q s1_def sched_stat_def)
    qed
  qed
qed

lemma emit_with_inv:
  assumes "sched_inv s" "emit_due_with now f c s = (r, c', s')"
  shows "sched_inv s'"
    "ss_dropped_watermark (sd_stats s') = ss_dropped_watermark (sd_stats s)"
    "ss_reanchors (sd_stats s') = ss_reanchors (sd_stats s)" "ss_held (sd_stats s') = ss_held (sd_stats s)"
proof -
  obtain k where k: "k \<le> length (sd_queue s)"
      "s' = s\<lparr> sd_queue := drop k (sd_queue s), sd_stats := (sd_stats s)\<lparr> ss_emitted := ss_emitted (sd_stats s) + k \<rparr> \<rparr>"
    using emit_with_loop_takes [of "sd_queue s" now f c s] assms(2) unfolding emit_due_with_def by auto
  then show "sched_inv s'" using assms(1) by (auto simp: sched_inv_def sched_accounted_def dest: in_set_dropD)
  show "ss_dropped_watermark (sd_stats s') = ss_dropped_watermark (sd_stats s)"
    "ss_reanchors (sd_stats s') = ss_reanchors (sd_stats s)" "ss_held (sd_stats s') = ss_held (sd_stats s)" using k(2) by simp_all
qed

text \<open>What the closure does to a run of pictures: all go, or the first that is refused ends it.\<close>

lemma hand_out_accounts:
  assumes "emit_with_loop now (hand_out receiver) qs (chan, sent, st) s = (r, (chan', sent', st'), s')" "length chan \<le> OUT_QUEUE"
  shows "length chan' \<le> OUT_QUEUE
    \<and> st' = st\<lparr> pb_dropped_push := pb_dropped_push st + (case r of Inl _ \<Rightarrow> 1 | Inr _ \<Rightarrow> 0) \<rparr>
    \<and> ss_emitted (sd_stats s') + length sent + pb_dropped_push st = ss_emitted (sd_stats s) + length sent' + pb_dropped_push st'
    \<and> (\<exists>k. sent' = sent @ map fst (take k qs) \<and> chan' = chan @ map fst (take k qs))"
  using assms
proof (induction qs arbitrary: chan sent s)
  case Nil
  then show ?case by auto
next
  case (Cons q qs)
  obtain x t where q: "q = (x, t)" by (cases q)
  define s1 where "s1 = sched_stat (\<lambda>t. t\<lparr> ss_emitted := ss_emitted t + 1 \<rparr>) s"
  consider (late) "now < t" | (refused) "\<not> now < t" "\<not> (receiver \<and> length chan < OUT_QUEUE)"
    | (taken) "\<not> now < t" "receiver" "length chan < OUT_QUEUE" by blast
  then show ?case
  proof cases
    case late
    then have "(r, (chan', sent', st'), s') = (Inr (), (chan, sent, st), s\<lparr> sd_queue := q # qs \<rparr>)"
      using Cons.prems(1) by (simp add: q)
    then show ?thesis using Cons.prems(2) by (auto intro: exI [of _ 0])
  next
    case refused
    have h: "hand_out receiver x (chan, sent, st) = (Inl (), (chan, sent, st\<lparr> pb_dropped_push := pb_dropped_push st + 1 \<rparr>))"
      unfolding hand_out_def prod.case if_not_P [OF refused(2)] ..
    have "(r, (chan', sent', st'), s') =
        (Inl (), (chan, sent, st\<lparr> pb_dropped_push := pb_dropped_push st + 1 \<rparr>), s1\<lparr> sd_queue := qs \<rparr>)"
      using Cons.prems(1) refused(1) by (simp add: q h s1_def)
    then show ?thesis using Cons.prems(2) by (auto simp: s1_def sched_stat_def intro: exI [of _ 0])
  next
    case taken
    have h: "hand_out receiver x (chan, sent, st) = (Inr (), (chan @ [x], sent @ [x], st))"
      using taken by (simp add: hand_out_def)
    have e: "emit_with_loop now (hand_out receiver) qs (chan @ [x], sent @ [x], st) s1 = (r, (chan', sent', st'), s')"
      using Cons.prems(1) taken(1) by (simp add: q h s1_def)
    note ih = Cons.IH [OF e]
    have ih: "length chan' \<le> OUT_QUEUE"
        "st' = st\<lparr> pb_dropped_push := pb_dropped_push st + (case r of Inl _ \<Rightarrow> 1 | Inr _ \<Rightarrow> 0) \<rparr>"
        "ss_emitted (sd_stats s') + length (sent @ [x]) + pb_dropped_push st = ss_emitted (sd_stats s1) + length sent' + pb_dropped_push st'"
        "\<exists>k. sent' = (sent @ [x]) @ map fst (take k qs) \<and> chan' = (chan @ [x]) @ map fst (take k qs)"
      using ih taken(3) by simp_all
    have "\<exists>k. sent' = sent @ map fst (take k (q # qs)) \<and> chan' = chan @ map fst (take k (q # qs))"
      using ih(4) by (auto simp: q intro: exI [of _ "Suc k" for k])
    then show ?thesis using ih(1,2,3) by (simp add: s1_def sched_stat_def)
  qed
qed

text \<open>The numbers shown are those of the scheduler; every picture the scheduler let go went out, but for the one whose refusal
  ended the pacer.\<close>

definition px_shown :: "pacer \<Rightarrow> nat \<times> nat \<times> nat" where
  "px_shown x = (pb_paced_dropped (px_stats x), pb_paced_reanchors (px_stats x), pb_paced_held (px_stats x))"

definition pacer_ok :: "pacer \<Rightarrow> bool" where
  "pacer_ok x \<longleftrightarrow> sched_inv (px_sched x) \<and> px_last x = px_counts x \<and> px_shown x = px_counts x
     \<and> ss_emitted (sd_stats (px_sched x)) = length (px_sent x) + pb_dropped_push (px_stats x)
     \<and> pb_dropped_push (px_stats x) \<le> (if px_ended x then 1 else 0)
     \<and> length (px_chan x) \<le> OUT_QUEUE"

lemmas px_defs = px_counts_def px_shown_def

lemma pacer_ok_new: "pacer_ok (pacer_new target jump)"
proof -
  have "pacer_ok (pacer_new target jump) \<longleftrightarrow> sched_inv (sched_new target jump :: (u32 \<times> u32 \<times> bytes) sched)"
    by (simp add: pacer_ok_def px_defs pacer_new_def sched_new_def playback_stats_default_def)
  then show ?thesis by (simp add: sched_inv_new)
qed


lemma pacer_emit_ok:
  assumes ok: "pacer_ok x" and go: "\<not> px_ended x"
  shows "pacer_ok (pacer_emit now x)"
proof -
  obtain r chan sent st s where e: "emit_due_with now (hand_out (px_receiver x)) (px_chan x, px_sent x, px_stats x) (px_sched x)
      = (r, (chan, sent, st), s)" by (metis prod_cases3 surj_pair)
  have inv: "sched_inv (px_sched x)" and le: "length (px_chan x) \<le> OUT_QUEUE" using ok by (simp_all add: pacer_ok_def)
  note i = emit_with_inv [OF inv e]
  note h = hand_out_accounts [OF e [unfolded emit_due_with_def] le]
  have r: "px_ended (pacer_emit now x) = (case r of Inl _ \<Rightarrow> True | Inr _ \<Rightarrow> False)" using go by (cases r) (simp_all add: pacer_emit_def e)
  have st: "st = (px_stats x)\<lparr> pb_dropped_push := pb_dropped_push (px_stats x) + (case r of Inl _ \<Rightarrow> 1 | Inr _ \<Rightarrow> 0) \<rparr>"
    using h by blast
  have zero: "pb_dropped_push (px_stats x) = 0" using ok go by (simp add: pacer_ok_def)
  have dp: "pb_dropped_push st \<le> (if px_ended (pacer_emit now x) then 1 else 0)" unfolding r st using zero by (cases r) simp_all
  have em: "ss_emitted (sd_stats s) = length sent + pb_dropped_push st"
    using h ok by (simp add: pacer_ok_def)
  have p: "pacer_emit now x = x\<lparr> px_sched := s, px_chan := chan, px_sent := sent, px_stats := st, px_ended := px_ended (pacer_emit now x) \<rparr>"
    by (simp add: pacer_emit_def e)
  have le': "length chan \<le> OUT_QUEUE" using h by blast
  have c: "px_counts (x\<lparr> px_sched := s, px_chan := chan, px_sent := sent, px_stats := st, px_ended := b \<rparr>) = px_counts x" for b
    using i(2-4) by (simp add: px_defs Let_def)
  have sh: "px_shown (x\<lparr> px_sched := s, px_chan := chan, px_sent := sent, px_stats := st, px_ended := b \<rparr>) = px_shown x" for b
    by (simp add: px_defs st)
  have old: "px_last x = px_counts x" "px_shown x = px_counts x" using ok by (simp_all add: pacer_ok_def)
  show ?thesis
    by (subst p, unfold pacer_ok_def c sh) (simp add: i(1) em dp le' old)
qed

lemma publish_ok:
  assumes "sched_inv (px_sched x)" "px_last x = px_shown x"
    "ss_emitted (sd_stats (px_sched x)) = length (px_sent x) + pb_dropped_push (px_stats x)"
    "pb_dropped_push (px_stats x) \<le> (if px_ended x then 1 else 0)" "length (px_chan x) \<le> OUT_QUEUE"
  shows "pacer_ok (publish x)"
proof (cases "px_counts x = px_last x")
  case True
  then show ?thesis using assms by (simp add: publish_def pacer_ok_def)
next
  case False
  then show ?thesis using assms by (auto simp: publish_def pacer_ok_def px_defs Let_def)
qed

lemma cap_queue_emitted [simp]: "ss_emitted (sd_stats (cap_queue qs s)) = ss_emitted (sd_stats s)"
  by (simp add: cap_queue_result)

lemma sched_push_emitted: "ss_emitted (sd_stats (sched_push p now s)) = ss_emitted (sd_stats s)"
  by (auto simp: sched_push_def Let_def reanchor_def split: option.split)

lemma drop_over_emitted: "ss_emitted (sd_stats (snd (drop_over_watermark now s))) = ss_emitted (sd_stats s)"
  by (simp add: drop_over_watermark_def drop_loop_result)

lemma pacer_got_ok:
  assumes "pacer_ok x"
  shows "pacer_ok (pacer_got p now x)"
proof -
  have "sched_inv (snd (drop_over_watermark now (sched_push p now (px_sched x))))"
    using assms by (intro sched_drop_inv sched_push_inv) (simp add: pacer_ok_def)
  moreover have "px_last x = px_shown x" using assms by (simp add: pacer_ok_def)
  ultimately show ?thesis using assms unfolding pacer_got_def
    by (intro publish_ok) (simp_all add: pacer_ok_def px_shown_def sched_push_emitted drop_over_emitted)
qed

lemma pacer_turn_ok:
  assumes "pacer_ok x"
  shows "pacer_ok (pacer_turn stopped now now' recv x)"
proof -
  have ended: "pacer_ok (y\<lparr> px_ended := True \<rparr>)" if "pacer_ok y" for y
    using that by (auto simp: pacer_ok_def px_defs split: if_splits)
  consider "px_ended x" | "\<not> px_ended x" "stopped" | (turn) "\<not> px_ended x" "\<not> stopped" by blast
  then show ?thesis
  proof cases
    case turn
    have ok: "pacer_ok (pacer_emit now x)" by (rule pacer_emit_ok [OF assms turn(1)])
    then show ?thesis using turn
      by (cases recv) (simp_all add: pacer_turn_def Let_def pacer_got_ok ended)
  qed (simp_all add: pacer_turn_def assms ended)
qed

lemma pacer_step_ok: "pacer_ok x \<Longrightarrow> pacer_ok (pacer_step ev x)"
  by (cases ev) (simp_all add: pacer_turn_ok, auto simp: pacer_ok_def px_defs)

interpretation pacing: stepper pacer_step pacer_ok
  by unfold_locales (rule pacer_step_ok)

text \<open>
  C30. Whatever the pacer is given, the counters of the session are those of its scheduler, the scheduler keeps its
  invariant, the output channel stays within 32 pictures, and every picture the scheduler let go went out, except one: the
  picture whose refusal ended the pacer.
\<close>

theorem pacer_loses_nothing_silently:
  "let x = fold pacer_step evs (pacer_new target jump) in
    sched_inv (px_sched x) \<and> length (px_chan x) \<le> OUT_QUEUE
    \<and> pb_paced_dropped (px_stats x) = ss_dropped_watermark (sd_stats (px_sched x))
    \<and> pb_paced_reanchors (px_stats x) = ss_reanchors (sd_stats (px_sched x))
    \<and> pb_paced_held (px_stats x) = ss_held (sd_stats (px_sched x))
    \<and> ss_received (sd_stats (px_sched x)) = length (px_sent x) + pb_dropped_push (px_stats x)
        + ss_dropped_watermark (sd_stats (px_sched x)) + ss_dropped_reset (sd_stats (px_sched x))
        + ss_dropped_stale (sd_stats (px_sched x)) + length (sd_queue (px_sched x))
    \<and> pb_dropped_push (px_stats x) \<le> (if px_ended x then 1 else 0)"
proof -
  define x where "x = fold pacer_step evs (pacer_new target jump)"
  have "pacer_ok x" unfolding x_def by (rule pacing.fold_inv [OF pacer_ok_new])
  then show ?thesis by (simp add: x_def [symmetric] pacer_ok_def px_defs sched_inv_def sched_accounted_def Let_def)
qed

text \<open>A window that does not take its pictures in time loses the pacer: the channel is full, and full ends it for good.\<close>

lemma full_output_ends_pacing:
  assumes "sd_queue (px_sched x) = (p, t) # qs" "t \<le> now" "px_receiver x" "length (px_chan x) = OUT_QUEUE" "\<not> px_ended x" "\<not> stopped"
  shows "px_ended (pacer_turn stopped now now' recv x)"
    and "pacer_turn stopped' now2 now2' recv2 (pacer_turn stopped now now' recv x) = pacer_turn stopped now now' recv x"
proof -
  have h: "hand_out (px_receiver x) p (px_chan x, px_sent x, px_stats x) =
      (Inl (), (px_chan x, px_sent x, (px_stats x)\<lparr> pb_dropped_push := pb_dropped_push (px_stats x) + 1 \<rparr>))"
    using assms(4) by (simp add: hand_out_def)
  have "px_ended (pacer_emit now x)" using assms(2) by (simp add: pacer_emit_def emit_due_with_def assms(1) h)
  then show e: "px_ended (pacer_turn stopped now now' recv x)" using assms(5,6) by (simp add: pacer_turn_def Let_def)
  show "pacer_turn stopped' now2 now2' recv2 (pacer_turn stopped now now' recv x) = pacer_turn stopped now now' recv x"
    unfolding pacer_turn_def [of stopped'] if_P [OF e] ..
qed



section \<open>Audio\<close>

definition AAC_FRAME_SAMPLES :: nat where
  "AAC_FRAME_SAMPLES = 1024"

definition AUDIO_QUEUE :: nat where
  "AUDIO_QUEUE = 64"

text \<open>The bytes of one block of \<open>f32\<close> samples.\<close>

definition block_size :: "u8 \<Rightarrow> nat" where
  "block_size channels = AAC_FRAME_SAMPLES * unat channels * 4"

fun samples_of :: "bytes \<Rightarrow> u32 list" where
  "samples_of (a # b # c # d # bs) = of_le [a, b, c, d] # samples_of bs"
| "samples_of _ = []"

partial_function (option) cut_blocks :: "nat \<Rightarrow> bytes \<Rightarrow> (bytes list \<times> bytes) option" where
  "cut_blocks n acc =
     (if length acc < n then Some ([], acc)
      else Option.bind (cut_blocks n (drop n acc)) (\<lambda>(bs, acc'). Some (take n acc # bs, acc')))"

declare cut_blocks.simps [simp del]

text \<open>The ring between the decoder and the device: the newest samples stay.\<close>

definition sink_push :: "nat \<Rightarrow> 's list \<Rightarrow> 's list \<Rightarrow> 's list" where
  "sink_push limit samples q =
     (if samples = [] then q
      else
        let whole = length q + length samples;
            q1 = (if limit < whole then drop (min (whole - limit) (length q)) q else q)
        in q1 @ (if limit < length samples then drop (length samples - limit) samples else samples))"

text \<open>The callback of the device fills a buffer of \<open>n\<close> samples.\<close>

definition sink_fill :: "('s \<Rightarrow> 't) \<Rightarrow> 's \<Rightarrow> nat \<Rightarrow> 's list \<Rightarrow> 't list \<times> 's list" where
  "sink_fill conv zero n q =
     (let available = min (length q) n
      in (map conv (take available q) @ replicate (n - available) (conv zero), drop available q))"

record audio_session =
  au_stopped :: bool
  au_open :: bool
  au_queue :: "frame list"
  au_block :: nat
  au_stdin :: "bytes list option"
  au_acc :: "bytes option"
  au_sink :: "u32 list option"
  au_limit :: nat
  au_stats :: playback_stats

definition count_audio :: "(playback_stats \<Rightarrow> playback_stats) \<Rightarrow> audio_session \<Rightarrow> audio_session" where
  "count_audio f a = a\<lparr> au_stats := f (au_stats a) \<rparr>"

text \<open>The device, when it was asked for and could be opened: its channels and rate.\<close>

definition audio_open :: "u8 \<Rightarrow> (u8 \<times> nat) option \<Rightarrow> audio_session" where
  "audio_open channels device =
     \<lparr> au_stopped = False, au_open = True, au_queue = [],
       au_block = block_size (case device of Some (c, _) \<Rightarrow> c | None \<Rightarrow> channels), au_stdin = None, au_acc = None,
       au_sink = map_option (\<lambda>_. []) device, au_limit = (case device of Some (c, r) \<Rightarrow> r * unat c | None \<Rightarrow> 0),
       au_stats = playback_stats_default\<lparr> pb_audio_device_ok := device \<noteq> None \<rparr> \<rparr>"

definition audio_push :: "frame \<Rightarrow> audio_session \<Rightarrow> push_result \<times> audio_session" where
  "audio_push f a =
     (if au_stopped a then (PushClosed, a)
      else if \<not> au_open a then (PushClosed, a)
      else if length (au_queue a) < AUDIO_QUEUE then (Pushed, a\<lparr> au_queue := au_queue a @ [f] \<rparr>)
      else (Pushed, count_audio (\<lambda>s. s\<lparr> pb_dropped_push := pb_dropped_push s + 1 \<rparr>) a))"

text \<open>A frame at the writer: whether a decoder could be started, and whether its pipe takes the frame.\<close>

definition audio_write :: "bool \<Rightarrow> bool \<Rightarrow> frame \<Rightarrow> audio_session \<Rightarrow> audio_session" where
  "audio_write spawn takes f a0 =
     (let a = (if au_stdin a0 = None \<and> spawn then a0\<lparr> au_stdin := Some [], au_acc := Some [] \<rparr> else a0) in
      case au_stdin a of
        None \<Rightarrow> a
      | Some written \<Rightarrow>
          if takes then count_audio (\<lambda>s. s\<lparr> pb_audio_blocks_in := pb_audio_blocks_in s + 1 \<rparr>)
                          (a\<lparr> au_stdin := Some (written @ [f_payload f]) \<rparr>)
          else a\<lparr> au_stdin := None, au_acc := None \<rparr>)"

definition audio_turn :: "bool \<Rightarrow> bool \<Rightarrow> audio_session \<Rightarrow> audio_session" where
  "audio_turn spawn takes a =
     (case au_queue a of
        [] \<Rightarrow> if au_stopped a then a\<lparr> au_stdin := None, au_acc := None, au_open := False \<rparr> else a
      | f # fs \<Rightarrow>
          let a1 = a\<lparr> au_queue := fs \<rparr> in
          if au_stopped a then a1\<lparr> au_stdin := None, au_acc := None, au_open := False \<rparr> else audio_write spawn takes f a1)"

definition play_block :: "bytes \<Rightarrow> audio_session \<Rightarrow> audio_session" where
  "play_block b a =
     count_audio (\<lambda>s. s\<lparr> pb_audio_blocks_out := pb_audio_blocks_out s + 1 \<rparr>)
       (a\<lparr> au_sink := map_option (sink_push (au_limit a) (samples_of b)) (au_sink a) \<rparr>)"

definition audio_read :: "bytes \<Rightarrow> audio_session \<Rightarrow> audio_session option" where
  "audio_read chunk a =
     (case au_acc a of
        None \<Rightarrow> Some a
      | Some acc \<Rightarrow>
          map_option (\<lambda>(blocks, acc'). fold play_block blocks (a\<lparr> au_acc := Some acc' \<rparr>)) (cut_blocks (au_block a) (acc @ chunk)))"

text \<open>The device asks for \<open>n\<close> samples.\<close>

definition audio_device :: "nat \<Rightarrow> audio_session \<Rightarrow> u32 list \<times> audio_session" where
  "audio_device n a =
     (case au_sink a of
        None \<Rightarrow> ([], a)
      | Some q \<Rightarrow> (fst (sink_fill id 0 n q), a\<lparr> au_sink := Some (snd (sink_fill id 0 n q)) \<rparr>))"


subsection \<open>What the audio path does\<close>

fun blocks_of :: "nat \<Rightarrow> nat \<Rightarrow> bytes \<Rightarrow> bytes list" where
  "blocks_of n 0 acc = []"
| "blocks_of n (Suc k) acc = take n acc # blocks_of n k (drop n acc)"

lemma cut_blocks_total:
  "0 < n \<Longrightarrow> cut_blocks n acc = Some (blocks_of n (length acc div n) acc, drop (length acc div n * n) acc)"
proof (induction "length acc" arbitrary: acc rule: less_induct)
  case less
  show ?case
  proof (cases "length acc < n")
    case True
    then show ?thesis by (subst cut_blocks.simps) simp
  next
    case False
    then have d: "length acc div n = Suc (length (drop n acc) div n)"
      using less.prems by (simp add: le_div_geq)
    have "cut_blocks n (drop n acc) =
        Some (blocks_of n (length (drop n acc) div n) (drop n acc), drop (length (drop n acc) div n * n) (drop n acc))"
      using False less.prems by (intro less.hyps) auto
    then show ?thesis using False by (subst cut_blocks.simps) (simp add: d add.commute)
  qed
qed

text \<open>A device or a request of no channels: the reader never comes back.\<close>

lemma cut_blocks_some: "cut_blocks n acc = Some y \<Longrightarrow> n \<noteq> 0"
  by (rule cut_blocks.raw_induct [where P = "\<lambda>n acc y. n \<noteq> 0"]) (auto split: if_splits bind_splits)

lemma no_channels_no_end: "cut_blocks (block_size 0) acc = None"
  using cut_blocks_some [of "block_size 0" acc] by (cases "cut_blocks (block_size 0) acc") (auto simp: block_size_def)

text \<open>The ring holds the last \<open>limit\<close> samples that were pushed.\<close>

definition keep_last :: "nat \<Rightarrow> 's list \<Rightarrow> 's list" where
  "keep_last n xs = drop (length xs - n) xs"

lemma keep_last_again: "keep_last n (keep_last n xs @ ys) = keep_last n (xs @ ys)"
  by (cases "length xs \<le> n") (simp_all add: keep_last_def add.commute)

lemma sink_push_newest: "length q \<le> limit \<Longrightarrow> sink_push limit samples q = keep_last limit (q @ samples)"
  by (auto simp: sink_push_def Let_def min_def keep_last_def)

lemma length_keep_last [simp]: "length (keep_last n xs) = min n (length xs)"
  by (simp add: keep_last_def)

lemma sink_pushes_newest: "length q \<le> limit \<Longrightarrow> fold (sink_push limit) blocks q = keep_last limit (q @ concat blocks)"
proof (induction blocks arbitrary: q)
  case (Cons b bs)
  then have "fold (sink_push limit) (b # bs) q = keep_last limit (keep_last limit (q @ b) @ concat bs)"
    by (simp add: sink_push_newest)
  then show ?case by (simp add: keep_last_again)
qed (simp add: keep_last_def)

lemma sink_fill_length: "length (fst (sink_fill conv zero n q)) = n"
  by (simp add: sink_fill_def Let_def)


text \<open>Reads of the decoder's output, however they are split, put the last \<open>limit\<close> samples of all whole blocks into the ring.\<close>

fun audio_reads :: "bytes list \<Rightarrow> audio_session \<Rightarrow> audio_session option" where
  "audio_reads [] a = Some a"
| "audio_reads (c # cs) a = Option.bind (audio_read c a) (audio_reads cs)"

lemma blocks_of_add: "blocks_of n (j + k) acc = blocks_of n j acc @ blocks_of n k (drop (j * n) acc)"
  by (induction j arbitrary: acc) (simp_all add: add.commute)

lemma blocks_of_prefix: "k * n \<le> length a \<Longrightarrow> blocks_of n k (a @ b) = blocks_of n k a"
  by (induction k arbitrary: a) simp_all

lemma blocks_of_split:
  assumes "0 < n"
  shows "blocks_of n (length (a @ b) div n) (a @ b) =
    blocks_of n (length a div n) a
      @ blocks_of n (length (drop (length a div n * n) a @ b) div n) (drop (length a div n * n) a @ b)"
proof -
  define k where "k = length a div n"
  have le: "k * n \<le> length a" by (simp add: k_def)
  have "length (a @ b) = k * n + length (drop (k * n) a @ b)" using le by simp
  then have d: "length (a @ b) div n = k + length (drop (k * n) a @ b) div n"
    using assms by (metis div_mult_self3 less_irrefl add.commute)
  show ?thesis unfolding k_def [symmetric] d blocks_of_add blocks_of_prefix [OF le] using le by simp
qed

lemma play_blocks:
  "fold play_block bs a = a\<lparr> au_sink := map_option (fold (sink_push (au_limit a)) (map samples_of bs)) (au_sink a),
     au_stats := (au_stats a)\<lparr> pb_audio_blocks_out := pb_audio_blocks_out (au_stats a) + length bs \<rparr> \<rparr>"
proof (induction bs arbitrary: a)
  case Nil
  show ?case by (cases "au_sink a") simp_all
next
  case (Cons b bs)
  then show ?case by (simp add: play_block_def count_audio_def option.map_comp comp_def)
qed

lemma samples_of_append: "4 dvd length a \<Longrightarrow> samples_of (a @ b) = samples_of a @ samples_of b"
proof (induction a rule: samples_of.induct)
  case (1 x y z w a)
  then have "4 dvd length a" by (simp, presburger)
  then show ?case using 1 by simp
qed (auto dest: dvd_imp_le)

lemma length_blocks_of [simp]: "length (blocks_of n k acc) = k"
  by (induction k arbitrary: acc) auto

lemma samples_of_blocks:
  "4 dvd n \<Longrightarrow> k * n \<le> length acc \<Longrightarrow> concat (map samples_of (blocks_of n k acc)) = samples_of (take (k * n) acc)"
proof (induction k arbitrary: acc)
  case (Suc k)
  have "take (Suc k * n) acc = take n acc @ take (k * n) (drop n acc)" by (simp add: take_add [symmetric])
  moreover have "length (take n acc) = n" using Suc.prems(2) by simp
  ultimately show ?case using Suc by (simp add: samples_of_append)
qed simp

lemma audio_read_result:
  assumes "0 < au_block a" "au_acc a = Some acc" "k = length (acc @ c) div au_block a"
  shows "audio_read c a = Some (a\<lparr> au_acc := Some (drop (k * au_block a) (acc @ c)),
    au_sink := map_option (fold (sink_push (au_limit a)) (map samples_of (blocks_of (au_block a) k (acc @ c)))) (au_sink a),
    au_stats := (au_stats a)\<lparr> pb_audio_blocks_out := pb_audio_blocks_out (au_stats a) + k \<rparr> \<rparr>)"
  by (simp add: audio_read_def assms(2) cut_blocks_total [OF assms(1)] play_blocks assms(3))

lemma audio_reads_result:
  "0 < au_block a \<Longrightarrow> au_acc a = Some acc \<Longrightarrow> length acc < au_block a \<Longrightarrow>
   \<exists>rest. audio_reads cs a = Some (a\<lparr> au_acc := Some rest,
     au_sink := map_option (fold (sink_push (au_limit a))
       (map samples_of (blocks_of (au_block a) (length (acc @ concat cs) div au_block a) (acc @ concat cs)))) (au_sink a),
     au_stats := (au_stats a)\<lparr> pb_audio_blocks_out := pb_audio_blocks_out (au_stats a) + length (acc @ concat cs) div au_block a \<rparr> \<rparr>)"
proof (induction cs arbitrary: a acc)
  case Nil
  then show ?case by (cases a, intro exI [of _ acc], cases "au_sink a") simp_all
next
  case (Cons c cs)
  define n where "n = au_block a"
  define k where "k = length (acc @ c) div n"
  define rest where "rest = drop (k * n) (acc @ c)"
  define j where "j = length (rest @ concat cs) div n"
  let ?a = "a\<lparr> au_acc := Some rest,
    au_sink := map_option (fold (sink_push (au_limit a)) (map samples_of (blocks_of n k (acc @ c)))) (au_sink a),
    au_stats := (au_stats a)\<lparr> pb_audio_blocks_out := pb_audio_blocks_out (au_stats a) + k \<rparr> \<rparr>"
  have n: "0 < n" using Cons.prems(1) by (simp add: n_def)
  have r: "audio_read c a = Some ?a"
    unfolding rest_def n_def by (rule audio_read_result [OF Cons.prems(1,2)]) (simp add: k_def n_def)
  have short: "length rest < n" using n by (simp only: rest_def k_def length_drop minus_div_mult_eq_mod) simp
  obtain rest' where "audio_reads cs ?a = Some (?a\<lparr> au_acc := Some rest',
     au_sink := map_option (fold (sink_push (au_limit a)) (map samples_of (blocks_of n j (rest @ concat cs)))) (au_sink ?a),
     au_stats := (au_stats ?a)\<lparr> pb_audio_blocks_out := pb_audio_blocks_out (au_stats ?a) + j \<rparr> \<rparr>)"
    using Cons.IH [of ?a rest] n short unfolding j_def n_def by auto
  moreover have "blocks_of n (length (acc @ concat (c # cs)) div n) (acc @ concat (c # cs)) =
      blocks_of n k (acc @ c) @ blocks_of n j (rest @ concat cs)"
    using blocks_of_split [OF n, of "acc @ c" "concat cs"] by (simp add: k_def j_def rest_def)
  moreover from arg_cong [OF this, of length] have "length (acc @ concat (c # cs)) div n = k + j" by simp
  ultimately show ?case
    unfolding n_def [symmetric] by (intro exI [of _ rest']) (simp add: r option.map_comp comp_def)
qed

text \<open>
  C31. Whatever is read of a decoder's output in whatever pieces, the ring of the device ends with the last samples, up to
  its limit, of what it held and the whole blocks of the output, and the blocks are counted; with no channel the reader
  never returns.
\<close>

theorem audio_plays_the_output:
  assumes "au_block a = block_size channels" and "au_acc a = Some []" and "au_sink a = Some q" and "length q \<le> au_limit a"
  shows "(channels \<noteq> 0 \<longrightarrow> (\<exists>a'. audio_reads cs a = Some a'
        \<and> au_sink a' = Some (keep_last (au_limit a)
            (q @ samples_of (take (length (concat cs) div block_size channels * block_size channels) (concat cs))))
        \<and> pb_audio_blocks_out (au_stats a') = pb_audio_blocks_out (au_stats a) + length (concat cs) div block_size channels))
    \<and> (channels = 0 \<longrightarrow> audio_reads (c # cs) a = None)"
proof (intro conjI impI)
  assume "channels \<noteq> 0"
  then have n: "0 < block_size channels" by (simp add: block_size_def AAC_FRAME_SAMPLES_def unat_gt_0)
  have four: "4 dvd block_size channels" by (simp add: block_size_def)
  obtain rest where r: "audio_reads cs a = Some (a\<lparr> au_acc := Some rest,
     au_sink := map_option (fold (sink_push (au_limit a))
       (map samples_of (blocks_of (au_block a) (length (concat cs) div au_block a) (concat cs)))) (au_sink a),
     au_stats := (au_stats a)\<lparr> pb_audio_blocks_out := pb_audio_blocks_out (au_stats a) + length (concat cs) div au_block a \<rparr> \<rparr>)"
    using audio_reads_result [of a "[]" cs] n assms(1,2) by auto
  show "\<exists>a'. audio_reads cs a = Some a'
        \<and> au_sink a' = Some (keep_last (au_limit a)
            (q @ samples_of (take (length (concat cs) div block_size channels * block_size channels) (concat cs))))
        \<and> pb_audio_blocks_out (au_stats a') = pb_audio_blocks_out (au_stats a) + length (concat cs) div block_size channels"
    unfolding r using assms(1,3,4) by (simp add: sink_pushes_newest samples_of_blocks [OF four])
next
  assume "channels = 0"
  then show "audio_reads (c # cs) a = None" using assms(1,2) by (simp add: audio_read_def no_channels_no_end)
qed

text \<open>A device of one channel, its decoder running, a ring of three samples; 4100 bytes in two reads.\<close>

definition mono_device :: audio_session where
  "mono_device = (audio_open 2 (Some (1, 3)))\<lparr> au_stdin := Some [], au_acc := Some [] \<rparr>"

lemma audio_plays_the_output_witness:
  "\<exists>a'. audio_reads [replicate 4000 0, replicate 100 0] mono_device = Some a'
    \<and> au_sink a' = Some [0, 0, 0] \<and> pb_audio_blocks_out (au_stats a') = 1"
proof -
  have zeros: "samples_of (replicate (4 * n) 0) = replicate n 0" for n
    by (induction n) (simp_all add: numeral_eq_Suc)
  have size: "block_size 1 = 4096" by (simp add: block_size_def AAC_FRAME_SAMPLES_def)
  have cat: "concat [replicate 4000 (0 :: u8), replicate 100 0] = replicate 4100 0" by (simp add: replicate_add [symmetric])
  have smp: "samples_of (take (4100 div 4096 * 4096) (replicate 4100 0)) = replicate 1024 0" using zeros [of 1024] by simp
  have "(1 :: u8) \<noteq> 0" by simp
  then obtain a' where "audio_reads [replicate 4000 0, replicate 100 0] mono_device = Some a'"
      "au_sink a' = Some (keep_last (au_limit mono_device) ([] @ samples_of (take (4100 div 4096 * 4096) (replicate 4100 0))))"
      "pb_audio_blocks_out (au_stats a') = pb_audio_blocks_out (au_stats mono_device) + 4100 div 4096"
    using audio_plays_the_output [of mono_device 1 "[]" "[replicate 4000 0, replicate 100 0]"] unfolding cat size
    by (auto simp: mono_device_def audio_open_def size)
  moreover have "keep_last (au_limit mono_device) (replicate 1024 (0 :: u32)) = [0, 0, 0]"
    by (simp add: keep_last_def mono_device_def audio_open_def numeral_3_eq_3)
  ultimately show ?thesis unfolding smp by (intro exI [of _ a']) (simp add: mono_device_def audio_open_def playback_stats_default_def)
qed


section \<open>The session\<close>

text \<open>The loops share one counter struct; here each holds its own part of it.\<close>

record playback_session =
  ps_stopped :: bool
  ps_video :: "video_session option"
  ps_audio :: "audio_session option"
  ps_pacer :: "pacer option"
  ps_frames_left :: bool

text \<open>The video track, with the delay and the jump of its pacing; the audio track, with its channels and the device that
  could be opened.  \<open>None\<close>: there is no ffmpeg.\<close>

definition open_session ::
  "bool \<Rightarrow> (nat \<times> nat) option option \<Rightarrow> (u8 \<times> (u8 \<times> nat) option) option \<Rightarrow> playback_session option" where
  "open_session ffmpeg video audio =
     (if \<not> ffmpeg then None
      else Some \<lparr> ps_stopped = False, ps_video = (case video of Some _ \<Rightarrow> Some video_open | None \<Rightarrow> None),
             ps_audio = map_option (\<lambda>(channels, device). audio_open channels device) audio,
             ps_pacer = (case video of Some (Some (target, jump)) \<Rightarrow> Some (pacer_new target jump) | _ \<Rightarrow> None),
             ps_frames_left = (video \<noteq> None) \<rparr>)"

definition session_push :: "frame \<Rightarrow> playback_session \<Rightarrow> push_result \<times> playback_session" where
  "session_push f s =
     (if ps_stopped s then (PushClosed, s)
      else case push_track (ps_video s \<noteq> None) (ps_audio s \<noteq> None) f of
        ToVideo \<Rightarrow> (case ps_video s of
            Some v \<Rightarrow> let (r, v') = video_push f v in (r, s\<lparr> ps_video := Some v' \<rparr>)
          | None \<Rightarrow> (Pushed, s))
      | ToAudio \<Rightarrow> (case ps_audio s of
            Some a \<Rightarrow> let (r, a') = audio_push f a in (r, s\<lparr> ps_audio := Some a' \<rparr>)
          | None \<Rightarrow> (Pushed, s))
      | ToNobody \<Rightarrow> (Pushed, s))"

text \<open>The channel of pictures is given away once.\<close>

definition take_video_frames :: "playback_session \<Rightarrow> bool \<times> playback_session" where
  "take_video_frames s = (ps_frames_left s, s\<lparr> ps_frames_left := False \<rparr>)"

text \<open>The first stop closes the queues; the loops then end on their own turns.\<close>

definition session_stop :: "playback_session \<Rightarrow> playback_session" where
  "session_stop s =
     (if ps_stopped s then s
      else s\<lparr> ps_stopped := True, ps_video := map_option video_stop (ps_video s),
              ps_audio := map_option (\<lambda>a. a\<lparr> au_stopped := True \<rparr>) (ps_audio s) \<rparr>)"

lemma frames_are_taken_once: "fst (take_video_frames (snd (take_video_frames s))) = False"
  by (simp add: take_video_frames_def)

lemma stopped_session_takes_nothing: "session_push f (session_stop s) = (PushClosed, session_stop s)"
  by (simp add: session_push_def session_stop_def)

text \<open>A push of one track leaves the other alone, and a frame of another track is not an error.\<close>

lemma push_of_other_tracks:
  "fh_track (f_header f) \<noteq> TRACK_VIDEO \<Longrightarrow> ps_video (snd (session_push f s)) = ps_video s"
  "fh_track (f_header f) \<noteq> TRACK_AUDIO \<Longrightarrow> ps_audio (snd (session_push f s)) = ps_audio s"
  "fh_track (f_header f) \<notin> {TRACK_VIDEO, TRACK_AUDIO} \<Longrightarrow> \<not> ps_stopped s \<Longrightarrow> session_push f s = (Pushed, s)"
  by (auto simp: session_push_def push_track_def Let_def split: option.split prod.split)

text \<open>A stopped session ends within one turn of each writer, whatever is still queued.\<close>

lemma stop_ends_the_writers:
  "vd_stopped v \<Longrightarrow> \<not> vd_open (writer_turn parse env v) \<and> vd_stdin (writer_turn parse env v) = None \<and> vd_reader (writer_turn parse env v) = None"
  "au_stopped a \<Longrightarrow> \<not> au_open (audio_turn spawn takes a) \<and> au_stdin (audio_turn spawn takes a) = None"
  by (auto simp: writer_turn_def writer_end_def end_decoder_def reader_end_def audio_turn_def Let_def split: list.split)

end
