(* ===== verification/Anchor.thy ===== *)
theory Anchor
  imports System Scan
begin

text \<open>
  The anchor of a host (\<open>stross-kernel/src/kernel/anchor.rs\<close>, \<open>bootstrap.rs\<close>): starting the own relay, the broadcast of the host while it
  is discoverable, and the manifest that a scan of the network reads.  The table \<open>ah_services\<close> is that of the mDNS daemon
  of the process.  Starting the relay is one call in \<open>start_relay_fixed\<close>; its critical sections are also given one by
  one, as other calls may come between them.
\<close>

section \<open>State\<close>

text \<open>What the broadcast needs: the JSON encoders, the order of the TXT entries, whether the daemon takes a service, and
  the addresses of the host.\<close>

record mdns_env =
  me_enc :: "discovery_info \<Rightarrow> string"
  me_enc_ep :: "endpoint_summary \<Rightarrow> string"
  me_order :: "txt_entries \<Rightarrow> txt_entries"
  me_accepts :: "service_info \<Rightarrow> bool"
  me_ips :: "ip_addr list"

record local_anchor =
  la_srt_port :: "u16 option"
  la_quic_port :: "u16 option"
  la_discovery :: "mdns_discovery option"
  la_port :: u16
  la_hostname :: string

record anchor_host =
  ah_kernel :: kernel
  ah_discoverable :: bool
  ah_anchor :: "local_anchor option"
  ah_services :: services

definition anchor_host_new :: "string \<Rightarrow> anchor_host" where
  "anchor_host_new name = \<lparr> ah_kernel = kernel_new name, ah_discoverable = False, ah_anchor = None, ah_services = Map.empty \<rparr>"

record relay_info =
  ri_port :: u16
  ri_urls :: "string list"
  ri_name :: "string option"
  ri_kind :: "string option"
  ri_roles :: "role_id list"
  ri_transports :: "transport_id list"
  ri_ip :: "string option"
  ri_endpoints :: "endpoint_summary list"

definition relay_info_of :: "(string \<times> ip_addr) list option \<Rightarrow> u16 \<Rightarrow> string \<Rightarrow> endpoint_summary list \<Rightarrow> relay_info" where
  "relay_info_of interfaces port name endpoints =
     \<lparr> ri_port = port, ri_urls = http_entries interfaces port, ri_name = Some name, ri_kind = Some ''relay'',
       ri_roles = [RoleSender, RoleViewer, RoleRelay], ri_transports = [Ws, WebRtc, Srt, Quic], ri_ip = None,
       ri_endpoints = endpoints \<rparr>"


section \<open>Broadcasting\<close>

text \<open>The name of the instance: the first eight characters of the node id, and the port.\<close>

definition relay_mdns_instance :: "string option \<Rightarrow> u16 \<Rightarrow> string" where
  "relay_mdns_instance node_id port =
     (case node_id of
        Some i \<Rightarrow> if i \<noteq> [] then ''stross-'' @ take 8 i @ ''-'' @ show_word port else ''sender-'' @ show_word port
      | None \<Rightarrow> ''sender-'' @ show_word port)"

definition mdns_info :: "string \<Rightarrow> kernel \<Rightarrow> discovery_info" where
  "mdns_info hostname k =
     with_endpoints (relay_default hostname [Screen, Camera, Mic, SystemAudio]) (unified_summaries (kn_registry k))"

definition host_instance :: "u16 \<Rightarrow> kernel \<Rightarrow> string" where
  "host_instance port k = relay_mdns_instance (map_option (to_hex \<circ> fst) (kn_identity k)) port"

definition try_register_mdns ::
  "(string \<Rightarrow> string) \<Rightarrow> mdns_env \<Rightarrow> string \<Rightarrow> u16 \<Rightarrow> anchor_host \<Rightarrow> mdns_discovery option \<times> services" where
  "try_register_mdns lower e hostname port h =
     (case mdns_start (me_enc e) (me_enc_ep e) (me_order e) lower (me_accepts e) (host_instance port (ah_kernel h)) (me_ips e) port
             (mdns_info hostname (ah_kernel h)) hostname (ah_services h) of
        Inl _ \<Rightarrow> (None, ah_services h)
      | Inr (d, m) \<Rightarrow> (Some d, m))"

definition apply_discoverable :: "(string \<Rightarrow> string) \<Rightarrow> mdns_env \<Rightarrow> anchor_host \<Rightarrow> anchor_host" where
  "apply_discoverable lower e h =
     (case ah_anchor h of
        None \<Rightarrow> h
      | Some a \<Rightarrow>
          if ah_discoverable h then
            (case la_discovery a of
               None \<Rightarrow>
                 let (d, m) = try_register_mdns lower e (la_hostname a) (la_port a) h
                 in h\<lparr> ah_anchor := Some (a\<lparr> la_discovery := d \<rparr>), ah_services := m \<rparr>
             | Some d \<Rightarrow>
                 (case mdns_redefine (me_enc e) (me_enc_ep e) (me_order e) lower (me_accepts e) d
                         (mdns_info (la_hostname a) (ah_kernel h)) (ah_services h) of
                    Inl _ \<Rightarrow> h
                  | Inr m \<Rightarrow> h\<lparr> ah_services := m \<rparr>))
          else
            (case la_discovery a of
               None \<Rightarrow> h
             | Some d \<Rightarrow> h\<lparr> ah_anchor := Some (a\<lparr> la_discovery := None \<rparr>), ah_services := snd (mdns_stop lower d (ah_services h)) \<rparr>))"

definition set_discoverable :: "(string \<Rightarrow> string) \<Rightarrow> mdns_env \<Rightarrow> bool \<Rightarrow> anchor_host \<Rightarrow> anchor_host" where
  "set_discoverable lower e on h = apply_discoverable lower e (h\<lparr> ah_discoverable := on \<rparr>)"

text \<open>The operations of the registry that refresh the broadcast, when they succeed.\<close>

definition refreshing ::
  "(string \<Rightarrow> string) \<Rightarrow> mdns_env \<Rightarrow> (kernel \<Rightarrow> (control_error + 'a) \<times> kernel) \<Rightarrow> anchor_host \<Rightarrow> (control_error + 'a) \<times> anchor_host" where
  "refreshing lower e operation h =
     (case operation (ah_kernel h) of
        (Inl err, k) \<Rightarrow> (Inl err, h\<lparr> ah_kernel := k \<rparr>)
      | (Inr r, k) \<Rightarrow> (Inr r, apply_discoverable lower e (h\<lparr> ah_kernel := k \<rparr>)))"


section \<open>Starting the relay\<close>

definition DEFAULT_PORT :: u16 where
  "DEFAULT_PORT = 18777"

definition DEFAULT_NEGOTIATOR_PORT :: u16 where
  "DEFAULT_NEGOTIATOR_PORT = 18779"

text \<open>\<open>Some\<close>: there is an anchor already.\<close>

definition start_probe :: "(string \<times> ip_addr) list option \<Rightarrow> string \<Rightarrow> anchor_host \<Rightarrow> relay_info option" where
  "start_probe interfaces hostname h =
     map_option (\<lambda>a. relay_info_of interfaces (la_port a) hostname (unified_summaries (kn_registry (ah_kernel h)))) (ah_anchor h)"

text \<open>The server: \<open>bind p s q\<close> are the ports it got when asked for those, \<open>None\<close> when it could not start.\<close>

definition start_server ::
  "(u16 \<Rightarrow> u16 \<Rightarrow> u16 \<Rightarrow> (u16 \<times> u16 option \<times> u16 option) option) \<Rightarrow> u16 \<Rightarrow> u16 \<Rightarrow> u16 \<Rightarrow> (u16 \<times> u16 option \<times> u16 option) option" where
  "start_server bind port srt_port quic_port =
     (case bind port srt_port quic_port of
        Some ports \<Rightarrow> Some ports
      | None \<Rightarrow> bind 0 0 0)"

text \<open>The node of this host in the device graph, with the capabilities of the capture engine; the graph holds each node's
  capabilities.\<close>

definition register_local_node :: "capability option \<Rightarrow> kernel \<Rightarrow> kernel" where
  "register_local_node backend k =
     k\<lparr> kn_caps := AList.update (node_from_str ''local'') (case backend of Some c \<Rightarrow> [c] | None \<Rightarrow> []) (kn_caps k) \<rparr>"

definition start_attach :: "relay_state \<Rightarrow> capability option \<Rightarrow> anchor_host \<Rightarrow> anchor_host" where
  "start_attach rl backend h = h\<lparr> ah_kernel := register_local_node backend (attach_data_plane rl (ah_kernel h)) \<rparr>"

text \<open>The flag is read here.\<close>

definition start_broadcast ::
  "(string \<Rightarrow> string) \<Rightarrow> mdns_env \<Rightarrow> string \<Rightarrow> u16 \<Rightarrow> anchor_host \<Rightarrow> mdns_discovery option \<times> anchor_host" where
  "start_broadcast lower e hostname port h =
     (if ah_discoverable h then let (d, m) = try_register_mdns lower e hostname port h in (d, h\<lparr> ah_services := m \<rparr>)
      else (None, h))"

text \<open>The new anchor; the broadcast of an anchor that is replaced ends when it is dropped.\<close>

definition start_commit ::
  "(string \<Rightarrow> string) \<Rightarrow> u16 \<times> u16 option \<times> u16 option \<Rightarrow> string \<Rightarrow> mdns_discovery option \<Rightarrow> anchor_host \<Rightarrow> anchor_host" where
  "start_commit lower ports hostname d h =
     (case ports of (port, srt, quic) \<Rightarrow>
        h\<lparr> ah_anchor := Some \<lparr> la_srt_port = srt, la_quic_port = quic, la_discovery = d, la_port = port, la_hostname = hostname \<rparr>,
           ah_services := (case ah_anchor h of
               Some a \<Rightarrow> (case la_discovery a of Some old \<Rightarrow> snd (mdns_stop lower old (ah_services h)) | None \<Rightarrow> ah_services h)
             | None \<Rightarrow> ah_services h),
           ah_kernel := (ah_kernel h)\<lparr> kn_relay_ports := Some (port, srt, quic) \<rparr> \<rparr>)"

text \<open>\<open>None\<close>: no port could be bound.\<close>

definition start_relay_fixed ::
  "(string \<Rightarrow> string) \<Rightarrow> mdns_env \<Rightarrow> (string \<times> ip_addr) list option
     \<Rightarrow> (u16 \<Rightarrow> u16 \<Rightarrow> u16 \<Rightarrow> (u16 \<times> u16 option \<times> u16 option) option) \<Rightarrow> relay_state \<Rightarrow> capability option
     \<Rightarrow> u16 \<Rightarrow> u16 \<Rightarrow> u16 \<Rightarrow> string \<Rightarrow> anchor_host \<Rightarrow> relay_info option \<times> anchor_host" where
  "start_relay_fixed lower e interfaces bind rl backend port srt_port quic_port hostname h =
     (case start_probe interfaces hostname h of
        Some info \<Rightarrow> (Some info, h)
      | None \<Rightarrow>
          (case start_server bind port srt_port quic_port of
             None \<Rightarrow> (None, h)
           | Some (p, srt, quic) \<Rightarrow>
               let (d, h1) = start_broadcast lower e hostname p (start_attach rl backend h);
                   h2 = start_commit lower (p, srt, quic) hostname d h1
               in (Some (relay_info_of interfaces p hostname (unified_summaries (kn_registry (ah_kernel h2)))), h2)))"

definition anchor_port :: "u16 \<Rightarrow> u16" where
  "anchor_port relay_port = (if relay_port = 0 then DEFAULT_PORT else relay_port)"

definition handshake_port :: "u16 \<Rightarrow> u16" where
  "handshake_port port = (if port = 0 then DEFAULT_NEGOTIATOR_PORT else port)"

definition relay_ports :: "anchor_host \<Rightarrow> (u16 \<times> u16 option \<times> u16 option) option" where
  "relay_ports h = map_option (\<lambda>a. (la_port a, la_srt_port a, la_quic_port a)) (ah_anchor h)"

text \<open>The answer to a scan, with the node id.\<close>

definition discovery_manifest :: "anchor_host \<Rightarrow> (node_id \<times> discovery_resp) option" where
  "discovery_manifest h =
     (if \<not> ah_discoverable h then None
      else
        Option.bind (relay_ports h) (\<lambda>(relay_port, srt_port, quic_port).
        Option.bind (kn_identity (ah_kernel h)) (\<lambda>(node, name).
          let info = mdns_info name (ah_kernel h) in
          Some (node, \<lparr> dr_name = di_name info, dr_relay_port = relay_port, dr_srt_port = srt_port, dr_quic_port = quic_port,
            dr_roles = di_roles info, dr_media = di_media info, dr_transports = di_transports info, dr_endpoints = di_endpoints info \<rparr>))))"


section \<open>Runs\<close>

datatype anchor_event =
    AKernel kernel_event
  | APublish mdns_env nat endpoint_id visibility delivery "transport_preference list option" "codec_id list option"
  | AUnpublish mdns_env nat endpoint_id
  | APublishFile mdns_env nat string string "(bool \<times> nat) option" bool visibility delivery
  | ADiscoverable mdns_env bool
  | AStart mdns_env "u16 \<Rightarrow> u16 \<Rightarrow> u16 \<Rightarrow> (u16 \<times> u16 option \<times> u16 option) option" relay_state "capability option" u16 u16 u16 string

fun anchor_step :: "(string \<Rightarrow> string) \<Rightarrow> anchor_event \<Rightarrow> anchor_host \<Rightarrow> anchor_host" where
  "anchor_step lower (AKernel ev) h = h\<lparr> ah_kernel := kernel_step ev (ah_kernel h) \<rparr>"
| "anchor_step lower (APublish e now i vis dlv trs cs) h = snd (refreshing lower e (publish_endpoint now i vis dlv trs cs) h)"
| "anchor_step lower (AUnpublish e now i) h = snd (refreshing lower e (unpublish_endpoint now i) h)"
| "anchor_step lower (APublishFile e now path name stat is_file vis dlv) h =
     snd (refreshing lower e (publish_file_endpoint now path name stat is_file vis dlv) h)"
| "anchor_step lower (ADiscoverable e on) h = set_discoverable lower e on h"
| "anchor_step lower (AStart e bind rl backend port srt quic hostname) h =
     snd (start_relay_fixed lower e None bind rl backend port srt quic hostname h)"


section \<open>The invariant\<close>

text \<open>The only service of the process is that of the anchor's broadcast, and there is one only while discoverable.\<close>

definition broadcast_name :: "mdns_discovery \<Rightarrow> string" where
  "broadcast_name d = escape_instance_name (md_instance d) @ ''.'' @ SERVICE_TYPE"

definition broadcast_ok :: "(string \<Rightarrow> string) \<Rightarrow> mdns_discovery option \<Rightarrow> services \<Rightarrow> bool" where
  "broadcast_ok lower d m \<longleftrightarrow>
     (case d of
        None \<Rightarrow> m = Map.empty
      | Some d \<Rightarrow> md_fullname d = Some (broadcast_name d) \<and> dom m = {lower (broadcast_name d)})"

definition services_ok :: "(string \<Rightarrow> string) \<Rightarrow> anchor_host \<Rightarrow> bool" where
  "services_ok lower h \<longleftrightarrow> broadcast_ok lower (Option.bind (ah_anchor h) la_discovery) (ah_services h)"

definition anchor_ok :: "(string \<Rightarrow> string) \<Rightarrow> anchor_host \<Rightarrow> bool" where
  "anchor_ok lower h \<longleftrightarrow> services_ok lower h \<and> (Option.bind (ah_anchor h) la_discovery \<noteq> None \<longrightarrow> ah_discoverable h)"

lemma services_ok_upd [simp]:
  "services_ok lower (h\<lparr> ah_kernel := k \<rparr>) = services_ok lower h"
  "services_ok lower (h\<lparr> ah_discoverable := on \<rparr>) = services_ok lower h"
  by (simp_all add: services_ok_def)

lemma published_name:
  "mdns_publish enc enc_ep order inst host addrs port info = Inr si \<Longrightarrow> sv_fullname si = escape_instance_name inst @ ''.'' @ SERVICE_TYPE"
  by (auto simp: mdns_publish_def service_info_new_def Let_def split: sum.splits option.splits)

lemma try_register_ok:
  assumes "ah_services h = Map.empty" "try_register_mdns lower e hostname port h = (d, m)"
  shows "broadcast_ok lower d m"
  using assms
  by (auto simp: try_register_mdns_def mdns_start_def daemon_register_def broadcast_ok_def broadcast_name_def Let_def
      dest!: published_name split: sum.splits if_splits)

lemma redefine_ok:
  assumes "broadcast_ok lower (Some d) m" "mdns_redefine enc enc_ep order lower accepts d info m = Inr m'"
  shows "broadcast_ok lower (Some d) m'"
  using assms
  by (auto simp: mdns_redefine_def daemon_register_def broadcast_ok_def broadcast_name_def
      dest!: published_name split: sum.splits if_splits option.splits)

lemma stop_empties: "broadcast_ok lower (Some d) m \<Longrightarrow> snd (mdns_stop lower d m) = Map.empty"
proof -
  assume "broadcast_ok lower (Some d) m"
  then have f: "md_fullname d = Some (broadcast_name d)" and m: "dom m = {lower (broadcast_name d)}"
    by (simp_all add: broadcast_ok_def)
  have "dom (snd (mdns_stop lower d m)) = {}" by (simp add: mdns_stop_def f daemon_unregister_def m)
  then show ?thesis by simp
qed

lemma apply_discoverable_ok:
  assumes "services_ok lower h"
  shows "anchor_ok lower (apply_discoverable lower e h)"
proof (cases "ah_anchor h")
  case None
  then show ?thesis using assms by (simp add: apply_discoverable_def anchor_ok_def services_ok_def)
next
  case (Some a)
  then have b: "broadcast_ok lower (la_discovery a) (ah_services h)" using assms by (simp add: services_ok_def)
  show ?thesis
  proof (cases "la_discovery a")
    case None
    then have m: "ah_services h = Map.empty" using b by (simp add: broadcast_ok_def)
    obtain d m' where t: "try_register_mdns lower e (la_hostname a) (la_port a) h = (d, m')" by fastforce
    show ?thesis
    proof (cases "ah_discoverable h")
      case True
      then have e: "apply_discoverable lower e h = h\<lparr> ah_anchor := Some (a\<lparr> la_discovery := d \<rparr>), ah_services := m' \<rparr>"
        by (simp add: apply_discoverable_def Some None t)
      show ?thesis using try_register_ok [OF m t] True by (simp add: e anchor_ok_def services_ok_def)
    next
      case False
      then show ?thesis using assms by (simp add: apply_discoverable_def anchor_ok_def Some None)
    qed
  next
    case d: (Some d)
    show ?thesis
    proof (cases "ah_discoverable h")
      case True
      show ?thesis using b redefine_ok [of lower d "ah_services h"] True
        by (auto simp: apply_discoverable_def anchor_ok_def services_ok_def Some d split: sum.split)
    next
      case False
      then show ?thesis using b stop_empties [of lower d "ah_services h"]
        by (simp add: apply_discoverable_def anchor_ok_def services_ok_def Some d broadcast_ok_def)
    qed
  qed
qed

lemma anchor_ok_kernel [simp]: "anchor_ok lower (h\<lparr> ah_kernel := k \<rparr>) = anchor_ok lower h"
  unfolding anchor_ok_def by simp

lemma anchor_okD: "anchor_ok lower h \<Longrightarrow> services_ok lower h"
  by (simp add: anchor_ok_def)

lemma refreshing_ok:
  assumes "anchor_ok lower h"
  shows "anchor_ok lower (snd (refreshing lower e operation h))"
proof (cases "operation (ah_kernel h)")
  case (Pair r k)
  have "anchor_ok lower (apply_discoverable lower e (h\<lparr> ah_kernel := k \<rparr>))"
    using anchor_okD [OF assms] by (intro apply_discoverable_ok) simp
  then show ?thesis using assms by (cases r) (simp_all add: refreshing_def Pair)
qed

lemma set_discoverable_ok: "anchor_ok lower h \<Longrightarrow> anchor_ok lower (set_discoverable lower e on h)"
  unfolding set_discoverable_def by (rule apply_discoverable_ok) (simp add: anchor_okD)

lemma start_relay_ok:
  assumes "anchor_ok lower h"
  shows "anchor_ok lower (snd (start_relay_fixed lower e interfaces bind rl backend port srt quic hostname h))"
proof (cases "ah_anchor h")
  case (Some a)
  then show ?thesis using assms by (simp add: start_relay_fixed_def start_probe_def)
next
  case None
  then have m: "ah_services h = Map.empty" using assms by (simp add: anchor_ok_def services_ok_def broadcast_ok_def)
  let ?h = "start_attach rl backend h"
  have h: "ah_services ?h = Map.empty" "ah_anchor ?h = None" by (simp_all add: start_attach_def m None)
  show ?thesis
  proof (cases "start_server bind port srt quic")
    case none: None
    then show ?thesis using assms None by (simp add: start_relay_fixed_def start_probe_def)
  next
    case (Some ports)
    obtain p s q where p: "ports = (p, s, q)" by (cases ports)
    obtain d h1 where b: "start_broadcast lower e hostname p ?h = (d, h1)" by fastforce
    have "ah_anchor h1 = None \<and> broadcast_ok lower d (ah_services h1) \<and> (d \<noteq> None \<longrightarrow> ah_discoverable h1)"
    proof (cases "ah_discoverable ?h")
      case True
      obtain d' m' where t: "try_register_mdns lower e hostname p ?h = (d', m')" by fastforce
      then show ?thesis using b True h try_register_ok [OF h(1) t] by (auto simp: start_broadcast_def)
    next
      case False
      then show ?thesis using b h by (auto simp: start_broadcast_def broadcast_ok_def)
    qed
    then have "anchor_ok lower (start_commit lower (p, s, q) hostname d h1)" by (simp add: start_commit_def anchor_ok_def services_ok_def)
    then show ?thesis using None Some p b by (simp add: start_relay_fixed_def start_probe_def Let_def)
  qed
qed

lemma anchor_step_ok: "anchor_ok lower h \<Longrightarrow> anchor_ok lower (anchor_step lower ev h)"
  by (cases ev) (simp_all add: refreshing_ok set_discoverable_ok start_relay_ok)

interpretation anchoring: stepper "anchor_step lower" "anchor_ok lower" for lower
  by unfold_locales (rule anchor_step_ok)

lemma anchor_ok_new: "anchor_ok lower (anchor_host_new name)"
  by (simp add: anchor_ok_def services_ok_def broadcast_ok_def anchor_host_new_def)



section \<open>What is seen of the host\<close>


definition quiet_env :: mdns_env where
  "quiet_env = \<lparr> me_enc = (\<lambda>_. ''{}''), me_enc_ep = (\<lambda>_. ''{}''), me_order = id, me_accepts = (\<lambda>_. True), me_ips = [V4 192 168 1 5] \<rparr>"

definition quiet_events :: "anchor_event list" where
  "quiet_events =
     [ADiscoverable quiet_env True,
      AStart quiet_env (\<lambda>p s q. Some (p, None, None)) (relay_new True) None 18777 0 0 ''pc'',
      ADiscoverable quiet_env False]"


lemma flag_kept [simp]:
  "ah_discoverable (apply_discoverable lower e h) = ah_discoverable h"
  "ah_anchor (apply_discoverable lower e h) = None \<longleftrightarrow> ah_anchor h = None"
  by (auto simp: apply_discoverable_def Let_def split: option.split sum.split prod.split)

lemma start_keeps_flag:
  "ah_discoverable (snd (start_relay_fixed lower e interfaces bind rl backend port srt quic hostname h)) = ah_discoverable h"
  by (auto simp: start_relay_fixed_def start_broadcast_def start_commit_def start_attach_def Let_def split: option.split prod.split)

lemma start_anchors:
  assumes "\<And>p s q. bind p s q \<noteq> None"
  shows "ah_anchor (snd (start_relay_fixed lower e interfaces bind rl backend port srt quic hostname h)) \<noteq> None"
proof (cases "start_probe interfaces hostname h")
  case None
  obtain p s q where b: "start_server bind port srt quic = Some (p, s, q)"
    using assms [of port srt quic] by (auto simp: start_server_def)
  show ?thesis by (simp add: start_relay_fixed_def None b start_commit_def Let_def split: prod.split)
next
  case (Some i)
  then show ?thesis by (auto simp: start_relay_fixed_def start_probe_def)
qed


text \<open>A refresh puts the registry as it is under the name of the anchor, when the daemon takes it.\<close>

lemma refresh_is_current:
  assumes "services_ok lower h" "ah_anchor h = Some a" "la_discovery a = Some d" "ah_discoverable h"
    and "mdns_publish (me_enc e) (me_enc_ep e) (me_order e) (md_instance d) (md_host d) (md_addrs d) (md_port d)
           (mdns_info (la_hostname a) (ah_kernel h)) = Inr si" "me_accepts e si"
  shows "ah_services (apply_discoverable lower e h) = [lower (broadcast_name d) \<mapsto> si]"
proof -
  have f: "md_fullname d = Some (broadcast_name d)" and m: "dom (ah_services h) = {lower (broadcast_name d)}"
    using assms(1-3) by (simp_all add: services_ok_def broadcast_ok_def)
  have "sv_fullname si = broadcast_name d" using published_name [OF assms(5)] by (simp add: broadcast_name_def)
  then have "ah_services (apply_discoverable lower e h) = (ah_services h)(lower (broadcast_name d) \<mapsto> si)"
    using assms(2-6) f by (simp add: apply_discoverable_def mdns_redefine_def daemon_register_def)
  also have "\<dots> = [lower (broadcast_name d) \<mapsto> si]" using m by (auto simp: fun_eq_iff domIff)
  finally show ?thesis .
qed

text \<open>The endpoints that are broadcast are all of the host's own, published or not, private or not.\<close>

lemma private_endpoints_are_broadcast:
  assumes "(r, entry) \<in> set (er_endpoints (ur_endpoints (kn_registry k)))" "owned_by (Some (ur_self_node (kn_registry k))) r"
    "ee_visibility entry = Private nodes"
  shows "\<exists>s \<in> set (di_endpoints (mdns_info hostname k)). sm_name s = se_name (ee_ep entry) \<and> sm_published s = ee_published entry"
  using assms(1,2) by (force simp: mdns_info_def with_endpoints_def unified_summaries_def summaries_of_def)

text \<open>A scan is told the name of the identity, a browser the name of the host.\<close>

lemma two_names:
  assumes "discovery_manifest h = Some (node, resp)" "ah_anchor h = Some a"
  shows "Some (dr_name resp) = map_option snd (kn_identity (ah_kernel h))"
    and "di_name (mdns_info (la_hostname a) (ah_kernel h)) = la_hostname a"
  using assms by (auto simp: discovery_manifest_def mdns_info_def with_endpoints_def relay_default_def Let_def bind_eq_Some_conv split: if_splits)

text \<open>The flag is read before the anchor is set: a host hidden in between goes on broadcasting.\<close>

lemma late_anchor_broadcasts:
  assumes "ah_anchor h = None" "start_broadcast lower e hostname p h = (Some d, h1)" "services_ok lower h"
    and h2_def: "h2 = set_discoverable lower e' False h1"
    and h3_def: "h3 = start_commit lower (p, srt, quic) hostname (Some d) h2"
  shows "\<not> ah_discoverable h3" "ah_services h3 \<noteq> Map.empty"
proof -
  obtain m' where t: "try_register_mdns lower e hostname p h = (Some d, m')" "h1 = h\<lparr> ah_services := m' \<rparr>"
    using assms(2) by (auto simp: start_broadcast_def split: if_splits prod.splits)
  have "ah_services h = Map.empty" using assms(1,3) by (simp add: services_ok_def broadcast_ok_def)
  then have m: "broadcast_ok lower (Some d) m'" using try_register_ok t(1) by blast
  have h2: "h2 = h\<lparr> ah_services := m', ah_discoverable := False \<rparr>"
    by (simp add: h2_def set_discoverable_def apply_discoverable_def t(2) assms(1))
  show "\<not> ah_discoverable h3" "ah_services h3 \<noteq> Map.empty"
    using m by (auto simp: h3_def start_commit_def h2 assms(1) broadcast_ok_def)
qed

text \<open>Two starts at once: the relay that the kernel drives is the one attached last, the ports shown are those of the one
  committed last.\<close>

lemma interleaved_starts_split:
  assumes "rl \<noteq> rl'" "ports \<noteq> ports'"
    and h1_def: "h1 = start_attach rl' backend (start_attach rl backend h)"
    and h2_def: "h2 = start_commit lower ports hostname d (start_commit lower ports' hostname d' h1)"
  shows "kn_relay (ah_kernel h2) = rl'" "relay_ports h2 = Some ports" "kn_relay_ports (ah_kernel h2) = Some ports"
  by (cases ports; cases ports'; simp add: h2_def h1_def start_commit_def start_attach_def register_local_node_def attach_data_plane_def
      relay_ports_def split: option.split)+

text \<open>Names of instances: hosts of the same port get different ones when their ids differ in the first eight characters.\<close>

lemma instance_names_differ:
  assumes "i \<noteq> []" "j \<noteq> []" "length i = length j" "8 \<le> length i"
  shows "relay_mdns_instance (Some i) p = relay_mdns_instance (Some j) q \<longleftrightarrow> take 8 i = take 8 j \<and> p = q"
proof -
  have l: "length (take 8 i) = length (take 8 j)" using assms by simp
  show ?thesis using assms(1,2) l by (auto simp: relay_mdns_instance_def append_eq_append_conv show_word_inj)
qed

end
